(* ===== verification/Prelude.thy ===== *)
theory Prelude
  imports Main "HOL-Library.Word"
begin

unbundle bit_operations_syntax

text \<open>
  Shared material of the OTAFIX bootloader development: names for the machine integer
  types of the C sources, the little-endian byte codecs that every component re-implements
  (\<open>rd_u32\<close>, \<open>read_le32\<close>, \<open>mota_sd_boot_token_rd32\<close>, \<open>uint32_decode\<close> and their 16-bit
  and writing counterparts), byte windows of an address-indexed memory, and the
  \<open>named_theorems\<close> collections the component theories fill.
\<close>

section \<open>Machine integers\<close>

type_synonym u8 = "8 word"
type_synonym u16 = "16 word"
type_synonym u32 = "32 word"
type_synonym u64 = "64 word"
type_synonym bytes = "u8 list"

named_theorems codec_simps \<open>little-endian encode and decode equations\<close>
named_theorems layout_simps \<open>the numeric value of every flash-layout constant\<close>
named_theorems frame_simps \<open>what an operation leaves unchanged\<close>

abbreviation UINT32_MAX :: u32 where "UINT32_MAX \<equiv> 0xFFFFFFFF"
abbreviation UINT16_MAX :: u16 where "UINT16_MAX \<equiv> 0xFFFF"

section \<open>Little-endian codecs\<close>

definition rd_u16 :: "bytes \<Rightarrow> u16" where
  "rd_u16 p = ucast (p ! 0) OR push_bit 8 (ucast (p ! 1))"

definition rd_u32 :: "bytes \<Rightarrow> u32" where
  "rd_u32 p = ucast (p ! 0) OR push_bit 8 (ucast (p ! 1)) OR
              push_bit 16 (ucast (p ! 2)) OR push_bit 24 (ucast (p ! 3))"

definition wr_u16 :: "u16 \<Rightarrow> bytes" where
  "wr_u16 v = [ucast v, ucast (drop_bit 8 v)]"

definition wr_u32 :: "u32 \<Rightarrow> bytes" where
  "wr_u32 v = [ucast v, ucast (drop_bit 8 v), ucast (drop_bit 16 v), ucast (drop_bit 24 v)]"

lemma length_wr_u16 [simp, codec_simps]: "length (wr_u16 v) = 2"
  by (simp add: wr_u16_def)

lemma length_wr_u32 [simp, codec_simps]: "length (wr_u32 v) = 4"
  by (simp add: wr_u32_def)

lemma rd_wr_u16 [simp, codec_simps]: "rd_u16 (wr_u16 v @ xs) = v"
  by (rule bit_word_eqI)
     (auto simp: rd_u16_def wr_u16_def bit_simps)

lemma rd_wr_u32 [simp, codec_simps]: "rd_u32 (wr_u32 v @ xs) = v"
proof (rule bit_word_eqI)
  fix n assume "n < LENGTH(32)"
  then have "n < 8 \<or> (8 \<le> n \<and> n < 16) \<or> (16 \<le> n \<and> n < 24) \<or> (24 \<le> n \<and> n < 32)" by auto
  then show "bit (rd_u32 (wr_u32 v @ xs)) n = bit v n"
    by (auto simp: rd_u32_def wr_u32_def bit_simps)
qed

lemma rd_wr_u32_exact [simp, codec_simps]: "rd_u32 (wr_u32 v) = v"
  using rd_wr_u32 [of v "[]"] by simp

lemma rd_wr_u16_exact [simp, codec_simps]: "rd_u16 (wr_u16 v) = v"
  using rd_wr_u16 [of v "[]"] by simp

lemma list4_cases:
  assumes "length p = 4" obtains a b c d where "p = [a, b, c, d]"
proof -
  from assms obtain a b c d where "p = [a, b, c, d]"
    by (auto simp: length_Suc_conv eval_nat_numeral)
  with that show ?thesis by blast
qed

lemma wr_rd_u32 [codec_simps]:
  assumes "length p = 4" shows "wr_u32 (rd_u32 p) = p"
proof -
  from assms obtain a b c d where p: "p = [a, b, c, d]" by (rule list4_cases)
  have "ucast (rd_u32 p) = a" "ucast (drop_bit 8 (rd_u32 p)) = b"
       "ucast (drop_bit 16 (rd_u32 p)) = c" "ucast (drop_bit 24 (rd_u32 p)) = d"
    by (rule bit_word_eqI; auto simp: p rd_u32_def bit_simps dest: bit_imp_le_length)+
  then show ?thesis by (simp add: wr_u32_def p)
qed

lemma wr_rd_u16 [codec_simps]:
  assumes "length p = 2" shows "wr_u16 (rd_u16 p) = p"
proof -
  from assms obtain a b where p: "p = [a, b]" by (auto simp: length_Suc_conv eval_nat_numeral)
  have "ucast (rd_u16 p) = a" "ucast (drop_bit 8 (rd_u16 p)) = b"
    by (rule bit_word_eqI; auto simp: p rd_u16_def bit_simps dest: bit_imp_le_length)+
  then show ?thesis by (simp add: wr_u16_def p)
qed

lemma rd_u32_take [simp]: "4 \<le> n \<Longrightarrow> rd_u32 (take n p) = rd_u32 p"
  by (simp add: rd_u32_def)

lemma rd_u16_take [simp]: "2 \<le> n \<Longrightarrow> rd_u16 (take n p) = rd_u16 p"
  by (simp add: rd_u16_def)

lemma wr_rd_u32_drop: "k + 4 \<le> length p \<Longrightarrow> wr_u32 (rd_u32 (drop k p)) = take 4 (drop k p)"
  using wr_rd_u32 [of "take 4 (drop k p)"] by simp

lemma wr_rd_u16_drop: "k + 2 \<le> length p \<Longrightarrow> wr_u16 (rd_u16 (drop k p)) = take 2 (drop k p)"
  using wr_rd_u16 [of "take 2 (drop k p)"] by simp

lemma take_drop_join: "m = n + k \<Longrightarrow> take n (drop k xs) @ drop m xs = drop k xs"
  by (metis append_take_drop_id drop_drop)

section \<open>Bitwise cancellation\<close>

lemma xor_right_cancel: "a XOR c = b XOR c \<Longrightarrow> a = (b :: 'a :: len word)"
  by (metis xor.assoc xor_self_eq xor.right_neutral)

lemma xor_left_cancel: "c XOR a = c XOR b \<Longrightarrow> a = (b :: 'a :: len word)"
  by (metis xor.commute xor_right_cancel)

lemma ucast_up_inj:
  assumes "ucast (b :: u8) = (ucast b' :: 'a :: len word)" "8 \<le> LENGTH('a)" shows "b = b'"
proof (rule bit_word_eqI)
  fix n assume "n < LENGTH(8)"
  have "bit (ucast b :: 'a word) n = bit (ucast b' :: 'a word) n" by (simp only: assms(1))
  with \<open>n < LENGTH(8)\<close> assms(2) show "bit b n = bit b' n" by (simp add: bit_simps)
qed

section \<open>Alignment tests\<close>

lemma unat_and_mask: "unat ((x :: 'a :: len word) AND mask n) = unat x mod 2 ^ n"
  by (metis take_bit_eq_mask unsigned_take_bit_eq take_bit_eq_mod)

lemma and_mask_zero_iff: "(x :: 'a :: len word) AND mask n = 0 \<longleftrightarrow> 2 ^ n dvd unat x"
  by (metis unat_and_mask unat_eq_zero mod_eq_0_iff_dvd)

lemma and3_zero_iff: "(x :: u32) AND 3 = 0 \<longleftrightarrow> 4 dvd unat x"
  using and_mask_zero_iff [of x 2] by (simp add: mask_eq_exp_minus_1)

lemma page_aligned_iff: "(x :: u32) AND 0xFFF = 0 \<longleftrightarrow> 0x1000 dvd unat x"
  using and_mask_zero_iff [of x 12] by (simp add: mask_eq_exp_minus_1)

lemma or_and_zero_iff: "(x OR y) AND z = (0 :: 'a :: len word) \<longleftrightarrow> x AND z = 0 \<and> y AND z = 0"
  by (simp add: bit.conj_disj_distrib2 or_eq_0_iff)

section \<open>Byte windows of an addressed memory\<close>

text \<open>
  A read of \<open>n\<close> bytes at \<open>a\<close> from an address-indexed store, as the bounce-free
  \<open>fl_read\<close> loop and \<open>memcpy\<close> from flash perform it; addresses wrap at 32 bits.
\<close>

definition rd_bytes :: "(u32 \<Rightarrow> u8) \<Rightarrow> u32 \<Rightarrow> nat \<Rightarrow> bytes" where
  "rd_bytes m a n = map (\<lambda>i. m (a + of_nat i)) [0..<n]"

lemma length_rd_bytes [simp]: "length (rd_bytes m a n) = n"
  by (simp add: rd_bytes_def)

lemma nth_rd_bytes [simp]: "i < n \<Longrightarrow> rd_bytes m a n ! i = m (a + of_nat i)"
  by (simp add: rd_bytes_def)

lemma rd_bytes_0 [simp]: "rd_bytes m a 0 = []"
  by (simp add: rd_bytes_def)

lemma rd_bytes_append: "rd_bytes m a (n + k) = rd_bytes m a n @ rd_bytes m (a + of_nat n) k"
  by (rule nth_equalityI) (auto simp: nth_append algebra_simps)

lemma take_rd_bytes: "k \<le> n \<Longrightarrow> take k (rd_bytes m a n) = rd_bytes m a k"
  by (rule nth_equalityI) auto

lemma drop_rd_bytes: "drop k (rd_bytes m a n) = rd_bytes m (a + of_nat k) (n - k)"
  by (rule nth_equalityI) (auto simp: algebra_simps)

lemma rd_bytes_cong:
  "(\<And>i. i < n \<Longrightarrow> m (a + of_nat i) = m' (a + of_nat i)) \<Longrightarrow> rd_bytes m a n = rd_bytes m' a n"
  by (rule nth_equalityI) auto

text \<open>The bounds test \<open>off > cap || len > cap - off\<close>, the overflow-free idiom of the sources.\<close>

definition in_range_u32 :: "u32 \<Rightarrow> u32 \<Rightarrow> u32 \<Rightarrow> bool" where
  "in_range_u32 off len cap \<longleftrightarrow> \<not> (off > cap \<or> len > cap - off)"

lemma unat_sub_le: "(b :: 'a :: len word) \<le> a \<Longrightarrow> unat (a - b) = unat a - unat b"
  by (rule unat_sub)

lemma in_range_u32_iff:
  "in_range_u32 off len cap \<longleftrightarrow> unat off + unat len \<le> unat cap"
proof (cases "off \<le> cap")
  case True
  then show ?thesis
    by (simp add: in_range_u32_def not_less not_le word_le_nat_alt unat_sub_le le_diff_conv2
        add.commute)
next
  case False
  then have "unat cap < unat off" by (simp add: word_less_nat_alt not_le)
  then show ?thesis using False by (auto simp: in_range_u32_def)
qed

lemma unat_add_no_wrap:
  "unat (a :: u32) + unat b < 2 ^ 32 \<Longrightarrow> unat (a + b) = unat a + unat b"
  by (simp add: unat_word_ariths)

lemma unat_u32_lt: "unat (x :: u32) < 4294967296"
  using unsigned_less [of x, where ?'a = nat] by simp

lemma unat_of_nat_u32: "n < 2 ^ 32 \<Longrightarrow> unat (of_nat n :: u32) = n"
  by (simp add: unat_of_nat)

end
