(* ===== verification/Crc.thy ===== *)
theory Crc
  imports Prelude
begin

text \<open>
  The two checksums of the bootloader: the reflected CRC-32 of \<open>src/src/crc32.h\<close>, which
  seals the retained-RAM hand-off records and the bootloader manifest, and the CRC-16-CCITT
  of the Nordic SDK (\<open>crc16.c\<close>), which seals the settings page and the application bank.
  The interface the clients rely on is the locale \<open>byte_checksum\<close>: a fold over bytes
  whose step loses nothing of its state and tells any two bytes apart.  From it follow
  chunked (streaming) evaluation and the detection of every single-byte corruption; both
  checksums are interpretations.
\<close>

section \<open>The checksum interface\<close>

locale byte_checksum =
  fixes step :: "'s \<Rightarrow> u8 \<Rightarrow> 's"
  assumes step_state_inj: "step s b = step s' b \<Longrightarrow> s = s'"
    and step_byte_inj: "step s b = step s b' \<Longrightarrow> b = b'"
begin

lemma fold_state_inj: "foldl step s xs = foldl step s' xs \<Longrightarrow> s = s'"
proof (induction xs arbitrary: s s')
  case Nil
  then show ?case by simp
next
  case (Cons b xs)
  from Cons.prems have "foldl step (step s b) xs = foldl step (step s' b) xs" by simp
  then have "step s b = step s' b" by (rule Cons.IH)
  then show ?case by (rule step_state_inj)
qed

lemma single_byte_detected:
  assumes "b \<noteq> b'"
  shows "foldl step s (xs @ b # ys) \<noteq> foldl step s (xs @ b' # ys)"
proof
  assume "foldl step s (xs @ b # ys) = foldl step s (xs @ b' # ys)"
  then have "foldl step (step (foldl step s xs) b) ys = foldl step (step (foldl step s xs) b') ys"
    by simp
  then have "step (foldl step s xs) b = step (foldl step s xs) b'" by (rule fold_state_inj)
  then have "b = b'" by (rule step_byte_inj)
  with assms show False by contradiction
qed

end

section \<open>CRC-32\<close>

definition crc32_bit :: "u32 \<Rightarrow> u32" where
  "crc32_bit crc = drop_bit 1 crc XOR (0xEDB88320 AND (0 - (crc AND 1)))"

definition crc32_byte :: "u32 \<Rightarrow> u8 \<Rightarrow> u32" where
  "crc32_byte crc b = (crc32_bit ^^ 8) (crc XOR ucast b)"

definition otafix_crc32_update :: "u32 \<Rightarrow> bytes \<Rightarrow> u32" where
  "otafix_crc32_update crc data = NOT (foldl crc32_byte (NOT crc) data)"

lemma crc32_bit_cases:
  "crc32_bit crc = (if bit crc 0 then drop_bit 1 crc XOR 0xEDB88320 else drop_bit 1 crc)"
proof (cases "bit crc 0")
  case True
  then have "crc AND 1 = 1" by (simp add: and_one_eq mod_2_eq_odd bit_0)
  with True show ?thesis by (simp add: crc32_bit_def)
next
  case False
  then have "crc AND 1 = 0" by (simp add: and_one_eq mod_2_eq_odd bit_0)
  with False show ?thesis by (simp add: crc32_bit_def)
qed

lemma crc32_bit_top: "bit (crc32_bit crc) 31 \<longleftrightarrow> bit crc 0"
  by (auto simp: crc32_bit_cases bit_simps dest: bit_imp_le_length)

lemma drop_bit_1_inj:
  assumes "drop_bit 1 (x :: u32) = drop_bit 1 y" "bit x 0 = bit y 0" shows "x = y"
proof (rule bit_word_eqI)
  fix n assume "n < LENGTH(32)"
  show "bit x n = bit y n"
  proof (cases n)
    case 0
    with assms(2) show ?thesis by simp
  next
    case (Suc k)
    have "bit (drop_bit 1 x) k = bit (drop_bit 1 y) k" by (simp only: assms(1))
    with Suc show ?thesis by (simp add: bit_simps)
  qed
qed

lemma crc32_bit_inj: "crc32_bit x = crc32_bit y \<Longrightarrow> x = y"
proof -
  assume eq: "crc32_bit x = crc32_bit y"
  then have b: "bit x 0 = bit y 0" by (metis crc32_bit_top)
  with eq have "drop_bit 1 x = drop_bit 1 y"
    by (auto simp: crc32_bit_cases dest: xor_right_cancel split: if_splits)
  then show "x = y" using b by (rule drop_bit_1_inj)
qed

lemma crc32_bit_funpow_inj: "(crc32_bit ^^ n) x = (crc32_bit ^^ n) y \<Longrightarrow> x = y"
  by (induction n arbitrary: x y) (auto dest: crc32_bit_inj)

interpretation crc32: byte_checksum crc32_byte
proof unfold_locales
  fix s s' :: u32 and b b' :: u8
  show "crc32_byte s b = crc32_byte s' b \<Longrightarrow> s = s'"
    unfolding crc32_byte_def by (blast dest: crc32_bit_funpow_inj xor_right_cancel)
  show "crc32_byte s b = crc32_byte s b' \<Longrightarrow> b = b'"
    unfolding crc32_byte_def by (auto dest!: crc32_bit_funpow_inj xor_left_cancel ucast_up_inj)
qed

text \<open>
  Linearity over XOR, and with it the byte-at-a-time table form of the same checksum: the
  classical formulation every other CRC-32 implementation uses.
\<close>

lemma crc32_bit_xor: "crc32_bit (x XOR y) = crc32_bit x XOR crc32_bit y"
  by (rule bit_word_eqI) (auto simp: crc32_bit_cases bit_simps)

lemma crc32_funpow_xor: "(crc32_bit ^^ n) (x XOR y) = (crc32_bit ^^ n) x XOR (crc32_bit ^^ n) y"
  by (induction n) (simp_all add: crc32_bit_xor)

lemma crc32_funpow_high:
  assumes "\<And>i. i < n \<Longrightarrow> \<not> bit (x :: u32) i" shows "(crc32_bit ^^ n) x = drop_bit n x"
  using assms
proof (induction n arbitrary: x)
  case 0
  then show ?case by simp
next
  case (Suc n)
  have "crc32_bit x = drop_bit 1 x" using Suc.prems [of 0] by (simp add: crc32_bit_cases)
  moreover have "(crc32_bit ^^ n) (drop_bit 1 x) = drop_bit n (drop_bit 1 x)"
    by (rule Suc.IH) (use Suc.prems in \<open>auto simp: bit_simps\<close>)
  ultimately show ?case by (simp add: funpow_Suc_right del: funpow.simps)
qed

definition crc32_table :: "u8 \<Rightarrow> u32" where
  "crc32_table i = (crc32_bit ^^ 8) (ucast i)"

lemma crc32_byte_table:
  "crc32_byte crc b = drop_bit 8 crc XOR crc32_table (ucast crc XOR b)"
proof -
  let ?lo = "ucast (ucast crc XOR b :: u8) :: u32" and ?hi = "push_bit 8 (drop_bit 8 crc)"
  have "crc XOR ucast b = ?hi XOR ?lo"
    by (rule bit_word_eqI) (auto simp: bit_simps dest: bit_imp_le_length)
  then have "crc32_byte crc b = (crc32_bit ^^ 8) ?hi XOR (crc32_bit ^^ 8) ?lo"
    by (simp only: crc32_byte_def crc32_funpow_xor)
  moreover have "(crc32_bit ^^ 8) ?hi = drop_bit 8 ?hi"
    by (rule crc32_funpow_high) (auto simp: bit_simps)
  moreover have "drop_bit 8 ?hi = drop_bit 8 crc"
    by (rule bit_word_eqI) (auto simp: bit_simps dest: bit_imp_le_length)
  ultimately show ?thesis by (simp add: crc32_table_def)
qed

definition crc32_reference :: "bytes \<Rightarrow> u32" where
  "crc32_reference data =
     NOT (foldl (\<lambda>crc b. drop_bit 8 crc XOR crc32_table (ucast crc XOR b)) UINT32_MAX data)"

section \<open>CRC-16\<close>

definition crc16_step :: "u16 \<Rightarrow> u8 \<Rightarrow> u16" where
  "crc16_step crc0 b =
     (let crc = drop_bit 8 crc0 OR push_bit 8 crc0;
          crc = crc XOR ucast b;
          crc = crc XOR drop_bit 4 (crc AND 0xFF);
          crc = crc XOR push_bit 4 (push_bit 8 crc);
          crc = crc XOR push_bit 1 (push_bit 4 (crc AND 0xFF))
      in crc)"

definition crc16_compute :: "bytes \<Rightarrow> u16 option \<Rightarrow> u16" where
  "crc16_compute data p_crc =
     foldl crc16_step (case p_crc of None \<Rightarrow> 0xFFFF | Some crc \<Rightarrow> crc) data"

definition crc16_swap :: "u16 \<Rightarrow> u16" where
  "crc16_swap crc = drop_bit 8 crc OR push_bit 8 crc"

definition crc16_fold4 :: "u16 \<Rightarrow> u16" where
  "crc16_fold4 crc = crc XOR drop_bit 4 (crc AND 0xFF)"

definition crc16_fold12 :: "u16 \<Rightarrow> u16" where
  "crc16_fold12 crc = crc XOR push_bit 4 (push_bit 8 crc)"

definition crc16_fold5 :: "u16 \<Rightarrow> u16" where
  "crc16_fold5 crc = crc XOR push_bit 1 (push_bit 4 (crc AND 0xFF))"

text \<open>Each mixing line of the loop is undone by itself (three times for the last one).\<close>

lemma bit_mask8: "bit (0xFF :: u16) n \<longleftrightarrow> n < 8"
proof -
  have "(0xFF :: u16) = mask 8" by (simp add: mask_eq_exp_minus_1)
  then show ?thesis by (simp only: bit_mask_iff) auto
qed

lemma u16_bit_eqI:
  assumes "\<And>n. n \<in> {0, 1, 2, 3, 4, 5, 6, 7, 8, 9, 10, 11, 12, 13, 14, 15} \<Longrightarrow> bit (x :: u16) n = bit y n"
  shows "x = y"
proof (rule bit_word_eqI)
  fix n assume "n < LENGTH(16)"
  then have "n < 16" by simp
  then have "n \<in> {0, 1, 2, 3, 4, 5, 6, 7, 8, 9, 10, 11, 12, 13, 14, 15}" by (simp, presburger)
  then show "bit x n = bit y n" by (rule assms)
qed

lemma bit_7: "bit (7 :: u16) n \<longleftrightarrow> n < 3"
proof -
  have "(7 :: u16) = mask 3" by (simp add: mask_eq_exp_minus_1)
  then show ?thesis by (simp only: bit_mask_iff) auto
qed

lemma crc16_swap_inverse: "crc16_swap (crc16_swap x) = x"
  by (rule u16_bit_eqI; auto simp: crc16_swap_def bit_simps dest: bit_imp_le_length)

lemma crc16_fold4_inverse: "crc16_fold4 (crc16_fold4 x) = x"
  by (rule u16_bit_eqI; auto simp: crc16_fold4_def bit_simps bit_mask8)

lemma crc16_fold12_inverse: "crc16_fold12 (crc16_fold12 x) = x"
  by (rule u16_bit_eqI; auto simp: crc16_fold12_def bit_simps)

lemma crc16_fold5_inverse:
  "crc16_fold5 x XOR push_bit 5 (crc16_fold5 x AND 0xFF) XOR push_bit 10 (crc16_fold5 x AND 7) = x"
  by (rule u16_bit_eqI; elim insertE emptyE; simp add: crc16_fold5_def bit_simps bit_mask8 bit_7; argo)

lemma crc16_step_alt:
  "crc16_step crc b = crc16_fold5 (crc16_fold12 (crc16_fold4 (crc16_swap crc XOR ucast b)))"
  by (simp only: crc16_step_def crc16_swap_def crc16_fold4_def crc16_fold12_def crc16_fold5_def Let_def)

lemma crc16_mix_inj:
  assumes "crc16_fold5 (crc16_fold12 (crc16_fold4 x)) = crc16_fold5 (crc16_fold12 (crc16_fold4 y))"
  shows "x = y"
proof -
  from assms have "crc16_fold12 (crc16_fold4 x) = crc16_fold12 (crc16_fold4 y)"
    by (metis crc16_fold5_inverse)
  then have "crc16_fold4 x = crc16_fold4 y" by (metis crc16_fold12_inverse)
  then show ?thesis by (metis crc16_fold4_inverse)
qed

lemma crc16_swap_inj: "crc16_swap x = crc16_swap y \<Longrightarrow> x = y"
  by (metis crc16_swap_inverse)

interpretation crc16: byte_checksum crc16_step
proof unfold_locales
  fix s s' :: u16 and b b' :: u8
  show "crc16_step s b = crc16_step s' b \<Longrightarrow> s = s'"
    unfolding crc16_step_alt
    by (drule crc16_mix_inj, drule xor_right_cancel, erule crc16_swap_inj)
  show "crc16_step s b = crc16_step s b' \<Longrightarrow> b = b'"
    unfolding crc16_step_alt
    by (drule crc16_mix_inj, drule xor_left_cancel, erule ucast_up_inj) simp
qed

section \<open>Properties of the checksums\<close>

lemma crc32_update_append:
  "otafix_crc32_update (otafix_crc32_update c xs) ys = otafix_crc32_update c (xs @ ys)"
  by (simp add: otafix_crc32_update_def)

lemma otafix_crc32_update_nil [simp]: "otafix_crc32_update c [] = c"
  by (simp add: otafix_crc32_update_def)

lemma crc32_update_byte_detected:
  "b \<noteq> b' \<Longrightarrow> otafix_crc32_update c (xs @ b # ys) \<noteq> otafix_crc32_update c (xs @ b' # ys)"
  using crc32.single_byte_detected [of b b' "NOT c" xs ys] by (auto simp: otafix_crc32_update_def)

lemma crc16_compute_append: "crc16_compute ys (Some (crc16_compute xs p)) = crc16_compute (xs @ ys) p"
  by (simp add: crc16_compute_def)

text \<open>
  The bit-serial, seed-chaining loop of \<open>crc32.h\<close> computes the classical byte-table
  CRC-32 however a buffer is cut into chunks: starting a stream with seed 0 and feeding the
  chunks one after the other gives the reference checksum of their concatenation.
\<close>

theorem crc32_stream_reference:
  "foldl otafix_crc32_update 0 chunks = crc32_reference (concat chunks)"
proof -
  have "foldl otafix_crc32_update c chunks = otafix_crc32_update c (concat chunks)" for c
    by (induction chunks arbitrary: c) (simp_all add: crc32_update_append)
  moreover have "foldl crc32_byte s data = foldl (\<lambda>crc b. drop_bit 8 crc XOR
      crc32_table (ucast crc XOR b)) s data" for s data
    by (rule foldl_cong) (simp_all add: crc32_byte_table)
  moreover have "NOT (0 :: u32) = UINT32_MAX" by simp
  ultimately show ?thesis by (simp only: otafix_crc32_update_def crc32_reference_def)
qed

text \<open>
  C27. Both checksums detect the corruption of any one byte of a record, whatever surrounds
  it and whatever the seed: two buffers that differ in exactly one byte never collide.
\<close>

theorem checksums_detect_byte_corruption:
  assumes "b \<noteq> b'"
  shows "otafix_crc32_update c (xs @ b # ys) \<noteq> otafix_crc32_update c (xs @ b' # ys) \<and>
         crc16_compute (xs @ b # ys) p \<noteq> crc16_compute (xs @ b' # ys) p"
  using assms crc32_update_byte_detected crc16.single_byte_detected
  by (auto simp: crc16_compute_def simp del: foldl_append foldl_Cons)

theorem checksums_detect_byte_corruption_witness:
  "otafix_crc32_update 0 [1, 2, 3] \<noteq> otafix_crc32_update 0 [1, 0x82, 3] \<and>
   crc16_compute [1, 2, 3] None \<noteq> crc16_compute [1, 0x82, 3] None"
proof -
  have ne: "(2 :: u8) \<noteq> 0x82" by simp
  show ?thesis
    using checksums_detect_byte_corruption [OF ne, of 0 "[1]" "[3]" None] by simp
qed

end
