(* ===== verification/Sha256.thy ===== *)
theory Sha256
  imports Prelude
begin

text \<open>
  The stand-alone SHA-256 of \<open>src/src/sha256.c\<close>: the context record, the block transform
  and the byte-streaming \<open>init\<close>/\<open>update\<close>/\<open>final\<close> interface.  The specification is the
  one-shot FIPS-180 function: pad the message, cut it into 64-byte blocks, fold the block
  transform over them.  The context a client holds after any number of updates refines the
  abstract state ``the bytes absorbed so far'' (predicate \<open>absorbs\<close>), through the locale
  \<open>block_absorber\<close>, which states what a buffered block hash owes to its clients.
\<close>

section \<open>The block transform\<close>

record sha256_ctx =
  sc_data :: bytes
  sc_datalen :: u32
  sc_bitlen :: u64
  sc_state :: "u32 list"

definition ROTR :: "u32 \<Rightarrow> nat \<Rightarrow> u32" where
  "ROTR a b = drop_bit b a OR push_bit (32 - b) a"

definition CH :: "u32 \<Rightarrow> u32 \<Rightarrow> u32 \<Rightarrow> u32" where
  "CH x y z = (x AND y) XOR (NOT x AND z)"

definition MAJ :: "u32 \<Rightarrow> u32 \<Rightarrow> u32 \<Rightarrow> u32" where
  "MAJ x y z = (x AND y) XOR (x AND z) XOR (y AND z)"

definition EP0 :: "u32 \<Rightarrow> u32" where "EP0 x = ROTR x 2 XOR ROTR x 13 XOR ROTR x 22"
definition EP1 :: "u32 \<Rightarrow> u32" where "EP1 x = ROTR x 6 XOR ROTR x 11 XOR ROTR x 25"
definition SIG0 :: "u32 \<Rightarrow> u32" where "SIG0 x = ROTR x 7 XOR ROTR x 18 XOR drop_bit 3 x"
definition SIG1 :: "u32 \<Rightarrow> u32" where "SIG1 x = ROTR x 17 XOR ROTR x 19 XOR drop_bit 10 x"

definition sha256_K :: "u32 list" where
  "sha256_K =
     [0x428a2f98, 0x71374491, 0xb5c0fbcf, 0xe9b5dba5, 0x3956c25b, 0x59f111f1, 0x923f82a4, 0xab1c5ed5] @
     [0xd807aa98, 0x12835b01, 0x243185be, 0x550c7dc3, 0x72be5d74, 0x80deb1fe, 0x9bdc06a7, 0xc19bf174] @
     [0xe49b69c1, 0xefbe4786, 0x0fc19dc6, 0x240ca1cc, 0x2de92c6f, 0x4a7484aa, 0x5cb0a9dc, 0x76f988da] @
     [0x983e5152, 0xa831c66d, 0xb00327c8, 0xbf597fc7, 0xc6e00bf3, 0xd5a79147, 0x06ca6351, 0x14292967] @
     [0x27b70a85, 0x2e1b2138, 0x4d2c6dfc, 0x53380d13, 0x650a7354, 0x766a0abb, 0x81c2c92e, 0x92722c85] @
     [0xa2bfe8a1, 0xa81a664b, 0xc24b8b70, 0xc76c51a3, 0xd192e819, 0xd6990624, 0xf40e3585, 0x106aa070] @
     [0x19a4c116, 0x1e376c08, 0x2748774c, 0x34b0bcb5, 0x391c0cb3, 0x4ed8aa4a, 0x5b9cca4f, 0x682e6ff3] @
     [0x748f82ee, 0x78a5636f, 0x84c87814, 0x8cc70208, 0x90befffa, 0xa4506ceb, 0xbef9a3f7, 0xc67178f2]"

definition be32_at :: "bytes \<Rightarrow> nat \<Rightarrow> u32" where
  "be32_at d j = push_bit 24 (ucast (d ! j)) OR push_bit 16 (ucast (d ! (j + 1))) OR
                 push_bit 8 (ucast (d ! (j + 2))) OR ucast (d ! (j + 3))"

definition sha256_schedule :: "bytes \<Rightarrow> u32 list" where
  "sha256_schedule d =
     fold (\<lambda>i m. m @ [SIG1 (m ! (i - 2)) + m ! (i - 7) + SIG0 (m ! (i - 15)) + m ! (i - 16)])
       [16..<64] (map (\<lambda>i. be32_at d (4 * i)) [0..<16])"

type_synonym sha256_vars = "u32 \<times> u32 \<times> u32 \<times> u32 \<times> u32 \<times> u32 \<times> u32 \<times> u32"

fun sha256_round :: "u32 \<Rightarrow> sha256_vars \<Rightarrow> sha256_vars" where
  "sha256_round km (a, b, c, d, e, f, g, h) =
     (let t1 = h + EP1 e + CH e f g + km; t2 = EP0 a + MAJ a b c
      in (t1 + t2, a, b, c, d + t1, e, f, g))"

definition sha256_compress :: "u32 list \<Rightarrow> bytes \<Rightarrow> u32 list" where
  "sha256_compress st d =
     (case fold sha256_round (map2 (+) sha256_K (sha256_schedule d))
        (st ! 0, st ! 1, st ! 2, st ! 3, st ! 4, st ! 5, st ! 6, st ! 7) of
        (a, b, c, dd, e, f, g, h) \<Rightarrow>
          [st ! 0 + a, st ! 1 + b, st ! 2 + c, st ! 3 + dd,
           st ! 4 + e, st ! 5 + f, st ! 6 + g, st ! 7 + h])"

definition sha256_transform :: "sha256_ctx \<Rightarrow> bytes \<Rightarrow> sha256_ctx" where
  "sha256_transform c d = c\<lparr>sc_state := sha256_compress (sc_state c) d\<rparr>"

section \<open>The streaming interface\<close>

definition sha256_initial_state :: "u32 list" where
  "sha256_initial_state = [0x6a09e667, 0xbb67ae85, 0x3c6ef372, 0xa54ff53a,
                           0x510e527f, 0x9b05688c, 0x1f83d9ab, 0x5be0cd19]"

definition sha256_init :: "sha256_ctx \<Rightarrow> sha256_ctx" where
  "sha256_init c = c\<lparr>sc_datalen := 0, sc_bitlen := 0, sc_state := sha256_initial_state\<rparr>"

definition sha256_update_byte :: "sha256_ctx \<Rightarrow> u8 \<Rightarrow> sha256_ctx" where
  "sha256_update_byte c b =
     (let c = c\<lparr>sc_data := (sc_data c)[unat (sc_datalen c) := b], sc_datalen := sc_datalen c + 1\<rparr>
      in if sc_datalen c = 64
         then (sha256_transform c (sc_data c))\<lparr>sc_bitlen := sc_bitlen c + 512, sc_datalen := 0\<rparr>
         else c)"

definition sha256_update :: "sha256_ctx \<Rightarrow> bytes \<Rightarrow> sha256_ctx" where
  "sha256_update c data = foldl sha256_update_byte c data"

text \<open>\<open>memset (p + i, 0, n)\<close> on a buffer.\<close>

definition zero_from :: "nat \<Rightarrow> nat \<Rightarrow> bytes \<Rightarrow> bytes" where
  "zero_from i n d = take i d @ replicate n 0 @ drop (i + n) d"

definition put_bitlen :: "u64 \<Rightarrow> bytes \<Rightarrow> bytes" where
  "put_bitlen bitlen d = fold (\<lambda>k d. d[63 - k := ucast (drop_bit (8 * k) bitlen)]) [0..<8] d"

definition sha256_digest_bytes :: "u32 list \<Rightarrow> bytes" where
  "sha256_digest_bytes st = map (\<lambda>i. ucast (drop_bit (24 - (i mod 4) * 8) (st ! (i div 4)))) [0..<32]"

definition sha256_final :: "sha256_ctx \<Rightarrow> bytes" where
  "sha256_final c =
     (let i = unat (sc_datalen c);
          c = c\<lparr>sc_data := (sc_data c)[i := 0x80]\<rparr>;
          i = i + 1;
          (c, i) = (if i > 56
                    then let c = c\<lparr>sc_data := zero_from i (64 - i) (sc_data c)\<rparr>
                         in (sha256_transform c (sc_data c), 0)
                    else (c, i));
          c = c\<lparr>sc_data := zero_from i (56 - i) (sc_data c)\<rparr>;
          c = c\<lparr>sc_bitlen := sc_bitlen c + ucast (sc_datalen c) * 8\<rparr>;
          c = c\<lparr>sc_data := put_bitlen (sc_bitlen c) (sc_data c)\<rparr>;
          c = sha256_transform c (sc_data c)
      in sha256_digest_bytes (sc_state c))"

section \<open>FIPS-180 specification\<close>

function blocks64 :: "'a list \<Rightarrow> 'a list list" where
  "blocks64 xs = (if length xs < 64 then [] else take 64 xs # blocks64 (drop 64 xs))"
  by pat_completeness auto
termination by (relation "measure length") auto

declare blocks64.simps [simp del]

definition be64 :: "u64 \<Rightarrow> bytes" where
  "be64 v = map (\<lambda>k. ucast (drop_bit (8 * (7 - k)) v)) [0..<8]"

definition sha256_pad :: "bytes \<Rightarrow> bytes" where
  "sha256_pad msg = msg @ [0x80] @ replicate ((119 - length msg mod 64) mod 64) 0 @
                    be64 (of_nat (8 * length msg))"

definition sha256_spec :: "bytes \<Rightarrow> bytes" where
  "sha256_spec msg =
     sha256_digest_bytes (foldl sha256_compress sha256_initial_state (blocks64 (sha256_pad msg)))"

definition sha256_blank :: sha256_ctx where
  "sha256_blank = \<lparr>sc_data = replicate 64 0, sc_datalen = 0, sc_bitlen = 0, sc_state = replicate 8 0\<rparr>"

definition sha256 :: "bytes \<Rightarrow> bytes" where
  "sha256 msg = sha256_final (sha256_update (sha256_init sha256_blank) msg)"

section \<open>Block-wise absorption\<close>

lemma blocks64_short: "length xs < 64 \<Longrightarrow> blocks64 xs = []"
  by (subst blocks64.simps) simp

lemma blocks64_block: "length b = 64 \<Longrightarrow> blocks64 (b @ xs) = b # blocks64 xs"
  by (subst blocks64.simps) simp

lemma blocks64_append:
  assumes "64 dvd length xs" shows "blocks64 (xs @ ys) = blocks64 xs @ blocks64 ys"
  using assms
proof (induction xs rule: blocks64.induct)
  case (1 xs)
  show ?case
  proof (cases "length xs < 64")
    case True
    with "1.prems" have "xs = []" by (auto dest: dvd_imp_le)
    then show ?thesis by (simp add: blocks64_short)
  next
    case False
    then have dvd: "64 dvd length (drop 64 xs)" using "1.prems" by (simp add: dvd_minus_self)
    have split: "xs = take 64 xs @ drop 64 xs" and len: "length (take 64 xs) = 64"
      using False by auto
    have "blocks64 (xs @ ys) = take 64 xs # blocks64 (drop 64 xs @ ys)"
      by (subst split, subst append_assoc) (rule blocks64_block [OF len])
    also have "\<dots> = take 64 xs # blocks64 (drop 64 xs) @ blocks64 ys" using "1.IH" [OF False dvd] by simp
    also have "\<dots> = blocks64 xs @ blocks64 ys" using False by (simp add: blocks64.simps [of xs])
    finally show ?thesis .
  qed
qed

text \<open>
  What a buffered block hash promises: its context stands for the message absorbed so far,
  one more byte extends that message, and nothing else of the context matters.
\<close>

locale block_absorber =
  fixes upd :: "'c \<Rightarrow> u8 \<Rightarrow> 'c" and abs :: "'c \<Rightarrow> bytes \<Rightarrow> bool" and fin :: "'c \<Rightarrow> 'h"
    and spec :: "bytes \<Rightarrow> 'h"
  assumes upd_abs: "abs c msg \<Longrightarrow> abs (upd c b) (msg @ [b])"
    and fin_abs: "abs c msg \<Longrightarrow> fin c = spec msg"
begin

lemma foldl_abs: "abs c msg \<Longrightarrow> abs (foldl upd c xs) (msg @ xs)"
proof (induction xs arbitrary: c msg)
  case Nil
  then show ?case by simp
next
  case (Cons b xs)
  from upd_abs [OF Cons.prems] have "abs (foldl upd (upd c b) xs) ((msg @ [b]) @ xs)" by (rule Cons.IH)
  then show ?case by simp
qed

lemma chunks_abs: "abs c msg \<Longrightarrow> abs (foldl (foldl upd) c chunks) (msg @ concat chunks)"
proof (induction chunks arbitrary: c msg)
  case Nil
  then show ?case by simp
next
  case (Cons ch chunks)
  from Cons.IH [OF foldl_abs [OF Cons.prems, of ch]] show ?case by simp
qed

lemma chunks_final: "abs c [] \<Longrightarrow> fin (foldl (foldl upd) c chunks) = spec (concat chunks)"
  using fin_abs [OF chunks_abs [of c "[]" chunks]] by simp

end

definition absorbs :: "sha256_ctx \<Rightarrow> bytes \<Rightarrow> bool" where
  "absorbs c msg \<longleftrightarrow>
     (let n = length msg; full = n div 64 * 64 in
      length (sc_data c) = 64 \<and> unat (sc_datalen c) = n mod 64 \<and>
      take (n mod 64) (sc_data c) = drop full msg \<and>
      sc_bitlen c = of_nat (8 * full) \<and>
      sc_state c = foldl sha256_compress sha256_initial_state (blocks64 (take full msg)))"

lemma absorbs_init: "length (sc_data c) = 64 \<Longrightarrow> absorbs (sha256_init c) []"
  by (simp add: absorbs_def sha256_init_def blocks64_short)

lemma absorbs_update_byte:
  assumes "absorbs c msg" shows "absorbs (sha256_update_byte c b) (msg @ [b])"
proof -
  define n full k where "n = length msg" and "full = n div 64 * 64" and "k = n mod 64"
  have nk: "n = full + k" and k64: "k < 64" by (simp_all add: full_def k_def)
  from assms have len: "length (sc_data c) = 64" and dl: "unat (sc_datalen c) = k"
    and tk: "take k (sc_data c) = drop full msg" and bl: "sc_bitlen c = of_nat (8 * full)"
    and st: "sc_state c = foldl sha256_compress sha256_initial_state (blocks64 (take full msg))"
    by (simp_all add: absorbs_def Let_def n_def full_def k_def)
  define d where "d = (sc_data c)[k := b]"
  have d: "take (k + 1) d = drop full msg @ [b]" "length d = 64"
    using len k64 tk by (simp_all add: d_def take_Suc_conv_app_nth)
  have dl1: "unat (sc_datalen c + 1) = k + 1"
    using dl k64 by (simp add: unat_word_ariths)
  have eq64: "sc_datalen c + 1 = 64 \<longleftrightarrow> k = 63"
    using dl1 by (simp add: word_unat_eq_iff)
  show ?thesis
  proof (cases "k = 63")
    case True
    have full': "length (msg @ [b]) = full + 64" "(full + 64) mod 64 = 0" "(full + 64) div 64 * 64 = full + 64"
      using nk True by (simp_all add: n_def [symmetric] full_def)
    have upd: "sha256_update_byte c b = c\<lparr>sc_data := d, sc_datalen := 0,
        sc_bitlen := sc_bitlen c + 512, sc_state := sha256_compress (sc_state c) d\<rparr>"
      using eq64 True by (simp add: sha256_update_byte_def sha256_transform_def Let_def d_def dl)
    have "d = drop full msg @ [b]" using d True by simp
    then have split: "msg @ [b] = take full msg @ d" by simp
    have tl: "length (take full msg) = full" using nk by (simp add: n_def [symmetric])
    have "64 dvd length (take full msg)" unfolding tl by (simp add: full_def)
    then have blk: "blocks64 (msg @ [b]) = blocks64 (take full msg) @ [d]"
      unfolding split by (simp add: blocks64_append blocks64_block [OF d(2), of "[]", simplified] blocks64_short)
    have bl': "sc_bitlen c + 512 = of_nat (8 * (full + 64))" by (simp add: bl)
    show ?thesis
      unfolding absorbs_def Let_def full' upd using blk st d bl' full' by simp
  next
    case False
    then have k1: "k + 1 < 64" using k64 by simp
    have full': "length (msg @ [b]) = full + (k + 1)" using nk by (simp add: n_def [symmetric])
    have div: "(full + (k + 1)) div 64 = n div 64" "(full + (k + 1)) mod 64 = k + 1"
      using k1 by (simp_all add: full_def)
    have upd: "sha256_update_byte c b = c\<lparr>sc_data := d, sc_datalen := sc_datalen c + 1\<rparr>"
      using eq64 False by (simp add: sha256_update_byte_def Let_def d_def dl)
    have tk': "take full (msg @ [b]) = take full msg" "drop full (msg @ [b]) = drop full msg @ [b]"
      using nk by (simp_all add: n_def [symmetric])
    show ?thesis
      unfolding absorbs_def Let_def full' div upd using d dl1 bl st tk' by (simp add: full_def [symmetric])
  qed
qed

lemma put_bitlen_append:
  assumes "length p = 56" "length q = 8" shows "put_bitlen v (p @ q) = p @ be64 v"
proof -
  from assms(2) obtain x0 x1 x2 x3 x4 x5 x6 x7 where q: "q = [x0, x1, x2, x3, x4, x5, x6, x7]"
    by (auto simp: length_Suc_conv eval_nat_numeral)
  have u8: "[0..<8] = [0, 1, 2, 3, 4, 5, 6, 7]" by (simp add: upt_rec)
  show ?thesis
    unfolding put_bitlen_def be64_def u8 by (simp add: q assms(1) list_update_append)
qed

lemma zero_from_append: "length p = i \<Longrightarrow> length q \<ge> n \<Longrightarrow> zero_from i n (p @ q) = p @ replicate n 0 @ drop n q"
  by (simp add: zero_from_def)

lemma absorbs_final:
  assumes "absorbs c msg" shows "sha256_final c = sha256_spec msg"
proof -
  define n full k where "n = length msg" and "full = n div 64 * 64" and "k = n mod 64"
  have nk: "n = full + k" and k64: "k < 64" by (simp_all add: full_def k_def)
  from assms have len: "length (sc_data c) = 64" and dl: "unat (sc_datalen c) = k"
    and tk: "take k (sc_data c) = drop full msg" and bl: "sc_bitlen c = of_nat (8 * full)"
    and st: "sc_state c = foldl sha256_compress sha256_initial_state (blocks64 (take full msg))"
    by (simp_all add: absorbs_def Let_def n_def full_def k_def)
  define r where "r = drop full msg"
  have rlen: "length r = k" using nk by (simp add: r_def n_def)
  define q where "q = drop (k + 1) (sc_data c)"
  have qlen: "length q = 63 - k" using len by (simp add: q_def)
  have data: "(sc_data c)[k := 0x80] = (r @ [0x80]) @ q"
    using len k64 tk by (simp add: r_def q_def upd_conv_take_nth_drop)
  have bl': "sc_bitlen c + ucast (sc_datalen c) * 8 = of_nat (8 * n)"
  proof -
    have "(ucast (sc_datalen c) :: u64) = of_nat k" by (metis dl of_nat_unat)
    then show ?thesis by (simp add: bl nk)
  qed
  have tl: "length (take full msg) = full" using nk by (simp add: n_def [symmetric])
  have dvd: "64 dvd length (take full msg)" unfolding tl by (simp add: full_def)
  have msg: "msg = take full msg @ r" by (simp add: r_def)
  define L where "L = be64 (of_nat (8 * n))"
  have Llen: "length L = 8" by (simp add: L_def be64_def)
  let ?H = "foldl sha256_compress"
  have spec: "sha256_spec msg = sha256_digest_bytes (?H (sc_state c)
      (blocks64 (r @ [0x80] @ replicate ((119 - k) mod 64) 0 @ L)))"
  proof -
    have "sha256_pad msg = take full msg @ (r @ [0x80] @ replicate ((119 - k) mod 64) 0 @ L)"
      using msg by (simp add: sha256_pad_def n_def [symmetric] k_def [symmetric] L_def)
    then show ?thesis by (simp add: sha256_spec_def blocks64_append [OF dvd] st)
  qed
  show ?thesis
  proof (cases "k + 1 > 56")
    case True
    let ?b1 = "r @ [0x80] @ replicate (63 - k) 0" and ?b2 = "replicate 56 0 @ L"
    have l12: "length ?b1 = 64" "length ?b2 = 64" using rlen k64 Llen by auto
    have rep: "replicate ((119 - k) mod 64) (0 :: u8) = replicate (63 - k) 0 @ replicate 56 0"
    proof -
      have "(119 - k) mod 64 = (63 - k) + 56" using True k64 by simp
      then show ?thesis by (simp only: replicate_add)
    qed
    have z1: "zero_from (k + 1) (64 - (k + 1)) ((r @ [0x80]) @ q) = ?b1"
      using rlen qlen k64 by (subst zero_from_append) auto
    have z2: "zero_from 0 56 ?b1 = replicate 56 0 @ drop 56 ?b1" by (simp add: zero_from_def)
    have fin: "sha256_final c = sha256_digest_bytes (sha256_compress (sha256_compress (sc_state c) ?b1) ?b2)"
      using True z1 z2 bl' put_bitlen_append [of "replicate 56 0" "drop 56 ?b1"] l12
      by (simp add: sha256_final_def Let_def dl data sha256_transform_def L_def del: drop_append)
    have "r @ [0x80] @ replicate ((119 - k) mod 64) 0 @ L = ?b1 @ ?b2" by (simp add: rep)
    then have "blocks64 (r @ [0x80] @ replicate ((119 - k) mod 64) 0 @ L) = [?b1, ?b2]"
      by (simp only: blocks64_block [OF l12(1)] blocks64_block [OF l12(2), of "[]", simplified] blocks64_short) (simp add: blocks64_short)
    then show ?thesis by (simp only: fin spec foldl.simps)
  next
    case False
    let ?b = "r @ [0x80] @ replicate (55 - k) 0 @ L"
    have l: "length ?b = 64" using rlen False Llen by auto
    have rep: "(119 - k) mod 64 = 55 - k" using False by (simp add: mod_if)
    have z: "zero_from (k + 1) (56 - (k + 1)) ((r @ [0x80]) @ q) = (r @ [0x80] @ replicate (55 - k) 0) @ drop (55 - k) q"
      using rlen qlen False by (subst zero_from_append) auto
    have fin: "sha256_final c = sha256_digest_bytes (sha256_compress (sc_state c) ?b)"
      using False z bl' put_bitlen_append [of "r @ [0x80] @ replicate (55 - k) 0" "drop (55 - k) q"] rlen qlen
      by (simp add: sha256_final_def Let_def dl data sha256_transform_def L_def)
    have "blocks64 (r @ [0x80] @ replicate ((119 - k) mod 64) 0 @ L) = [?b]"
      unfolding rep using blocks64_block [OF l, of "[]"] by (simp add: blocks64_short)
    then show ?thesis by (simp only: fin spec foldl.simps)
  qed
qed

interpretation sha: block_absorber sha256_update_byte absorbs sha256_final sha256_spec
  by unfold_locales (fact absorbs_update_byte, fact absorbs_final)

text \<open>
  C24. However the callers of \<open>sha256_update\<close> cut an image into pieces, and whatever bytes the
  context buffer held before \<open>sha256_init\<close>, \<open>sha256_final\<close> returns the FIPS-180 digest of
  the concatenation: padding across the 56-byte boundary, the 64-bit length field and the
  block buffering are right.
\<close>

theorem sha256_streams_fips:
  assumes "length (sc_data c) = 64"
  shows "sha256_final (foldl sha256_update (sha256_init c) chunks) = sha256_spec (concat chunks)"
proof -
  have "sha256_update = foldl sha256_update_byte" by (intro ext) (simp add: sha256_update_def)
  with sha.chunks_final [OF absorbs_init [OF assms]] show ?thesis by simp
qed

theorem sha256_streams_fips_witness:
  "sha256_final (foldl sha256_update (sha256_init sha256_blank) [[1, 2], [], [3]]) = sha256_spec [1, 2, 3]"
  using sha256_streams_fips [of sha256_blank "[[1, 2], [], [3]]"] by (simp add: sha256_blank_def)

lemma sha256_eq_spec: "sha256 msg = sha256_spec msg"
  using sha.fin_abs [OF sha.foldl_abs [OF absorbs_init [of sha256_blank]], of msg]
  by (simp add: sha256_def sha256_update_def sha256_blank_def)

lemma length_sha256_digest [simp]: "length (sha256_digest_bytes st) = 32"
  by (simp add: sha256_digest_bytes_def)

lemma length_sha256 [simp]: "length (sha256 msg) = 32"
  by (simp add: sha256_eq_spec sha256_spec_def)

end
