(* ===== verification/Handoff_Records.thy ===== *)
theory Handoff_Records
  imports Crc
begin

text \<open>
  The CRC-sealed records that carry an update request across a reset: the hybrid
  flash-plus-RAM hand-off (\<open>ota_hybrid_handoff.h\<close>), the retained authorization of an SD
  container (\<open>ota_sd_auth.h\<close>) and the internal token that authorizes a bootloader package on
  removable media (\<open>ota_sd_boot_token.h\<close>).  A C struct is a HOL record together with its
  72-byte little-endian image (the sources pin every offset with a static assertion); the
  token is the 64-byte array the code writes.  The locale \<open>sealed_record\<close> is the promise the
  bootloader relies on: a record that validates is sealed by its own CRC-32 and inverse, so
  no single-byte corruption of it validates.
\<close>

section \<open>Sealed byte images\<close>

definition sealed :: "nat \<Rightarrow> bytes \<Rightarrow> bool" where
  "sealed n bs \<longleftrightarrow> length bs = n + 8 \<and>
     rd_u32 (drop n bs) = otafix_crc32_update 0 (take n bs) \<and>
     rd_u32 (drop (n + 4) bs) = NOT (otafix_crc32_update 0 (take n bs))"

lemma rd_u32_update:
  assumes "length p = 4" "i < 4" "p ! i \<noteq> b" shows "rd_u32 (p[i := b]) \<noteq> rd_u32 p"
proof
  assume "rd_u32 (p[i := b]) = rd_u32 p"
  then have "p[i := b] = p" using assms(1) wr_rd_u32 [of p] wr_rd_u32 [of "p[i := b]"] by simp
  then have "p ! i = b" using assms(1,2) by (metis nth_list_update_eq)
  with assms(3) show False by contradiction
qed

lemma sealed_image:
  assumes "sealed n bs" shows "bs = take n bs @
    wr_u32 (otafix_crc32_update 0 (take n bs)) @ wr_u32 (NOT (otafix_crc32_update 0 (take n bs)))"
proof -
  let ?a = "take 4 (drop n bs)" and ?b = "drop (n + 4) bs"
  from assms have len: "length bs = n + 8" by (simp add: sealed_def)
  then have "wr_u32 (rd_u32 ?a) = ?a" and "wr_u32 (rd_u32 ?b) = ?b"
    by (intro wr_rd_u32, simp)+
  moreover have "rd_u32 ?a = rd_u32 (drop n bs)" by simp
  moreover have "bs = take n bs @ ?a @ ?b"
    by (metis append_take_drop_id drop_drop add.commute)
  ultimately show ?thesis using assms unfolding sealed_def by metis
qed

lemma sealed_determined:
  "sealed n bs \<Longrightarrow> sealed n bs' \<Longrightarrow> take n bs = take n bs' \<Longrightarrow> bs = bs'"
  using sealed_image [of n bs] sealed_image [of n bs'] by simp

lemma sealed_corruption:
  assumes "sealed n bs" "i < n + 8" "bs ! i \<noteq> b" shows "\<not> sealed n (bs[i := b])"
proof
  assume s': "sealed n (bs[i := b])"
  from assms(1) have len: "length bs = n + 8" by (simp add: sealed_def)
  show False
  proof (cases "i < n")
    case False
    then have "take n (bs[i := b]) = take n bs" by simp
    from sealed_determined [OF s' assms(1) this] show False
      using assms(2,3) len by (metis nth_list_update_eq)
  next
    case True
    let ?x = "take i bs" and ?y = "drop (Suc i) (take n bs)"
    have "take n bs = ?x @ bs ! i # ?y"
      using id_take_nth_drop [of i "take n bs"] True len by (simp add: min_absorb1)
    moreover have "take n (bs[i := b]) = ?x @ b # ?y"
      using upd_conv_take_nth_drop [of i "take n bs" b] True len
      by (simp add: take_update_swap min_absorb1)
    ultimately have "otafix_crc32_update 0 (take n (bs[i := b])) \<noteq> otafix_crc32_update 0 (take n bs)"
      using assms(3) crc32_update_byte_detected by metis
    moreover have "drop n (bs[i := b]) = drop n bs" using True by simp
    ultimately show False using s' assms(1) by (simp add: sealed_def)
  qed
qed

locale sealed_record =
  fixes to_bytes :: "'r \<Rightarrow> bytes" and valid :: "'r \<Rightarrow> bool" and n :: nat
  assumes valid_sealed: "valid r \<Longrightarrow> sealed n (to_bytes r)"
begin

lemma corruption_rejected:
  assumes "valid r" "i < n + 8" "to_bytes r ! i \<noteq> b" "to_bytes r' = (to_bytes r)[i := b]"
  shows "\<not> valid r'"
  using assms sealed_corruption [OF valid_sealed] valid_sealed [of r'] by auto

end

section \<open>The hybrid flash-plus-RAM hand-off\<close>

definition MOTA_HYBRID_HANDOFF_MAGIC :: bytes where
  "MOTA_HYBRID_HANDOFF_MAGIC = [0x4D, 0x4F, 0x54, 0x41, 0x48, 0x59, 0x42, 0x31]"

definition MOTA_HYBRID_HANDOFF_VERSION :: u16 where "MOTA_HYBRID_HANDOFF_VERSION = 1"
definition MOTA_HYBRID_HANDOFF_LEN :: u16 where "MOTA_HYBRID_HANDOFF_LEN = 72"
definition MOTA_HYBRID_HANDOFF_PURPOSE_APP :: u8 where "MOTA_HYBRID_HANDOFF_PURPOSE_APP = 1"
definition MOTA_HYBRID_HANDOFF_FORMAT :: u8 where "MOTA_HYBRID_HANDOFF_FORMAT = 2"
definition MOTA_HYBRID_ARENA_START :: u32 where "MOTA_HYBRID_ARENA_START = 0x20030000"
definition MOTA_HYBRID_ARENA_SIZE :: u32 where "MOTA_HYBRID_ARENA_SIZE = 0x00010000"

record mota_hybrid_handoff =
  hh_magic :: bytes
  hh_version :: u16
  hh_length :: u16
  hh_purpose :: u8
  hh_format_ver :: u8
  hh_reserved :: u16
  hh_container_total :: u32
  hh_flash_start :: u32
  hh_flash_len :: u32
  hh_ram_len :: u32
  hh_container_sha256 :: bytes
  hh_crc32 :: u32
  hh_crc32_inv :: u32

definition hybrid_prefix :: "mota_hybrid_handoff \<Rightarrow> bytes" where
  "hybrid_prefix r = hh_magic r @ wr_u16 (hh_version r) @ wr_u16 (hh_length r) @
     [hh_purpose r, hh_format_ver r] @ wr_u16 (hh_reserved r) @ wr_u32 (hh_container_total r) @
     wr_u32 (hh_flash_start r) @ wr_u32 (hh_flash_len r) @ wr_u32 (hh_ram_len r) @
     hh_container_sha256 r"

definition hybrid_bytes :: "mota_hybrid_handoff \<Rightarrow> bytes" where
  "hybrid_bytes r = hybrid_prefix r @ wr_u32 (hh_crc32 r) @ wr_u32 (hh_crc32_inv r)"

definition hybrid_of_bytes :: "bytes \<Rightarrow> mota_hybrid_handoff" where
  "hybrid_of_bytes b = \<lparr>hh_magic = take 8 b, hh_version = rd_u16 (drop 8 b),
     hh_length = rd_u16 (drop 10 b), hh_purpose = b ! 12, hh_format_ver = b ! 13,
     hh_reserved = rd_u16 (drop 14 b), hh_container_total = rd_u32 (drop 16 b),
     hh_flash_start = rd_u32 (drop 20 b), hh_flash_len = rd_u32 (drop 24 b),
     hh_ram_len = rd_u32 (drop 28 b), hh_container_sha256 = take 32 (drop 32 b),
     hh_crc32 = rd_u32 (drop 64 b), hh_crc32_inv = rd_u32 (drop 68 b)\<rparr>"

definition hybrid_wf :: "mota_hybrid_handoff \<Rightarrow> bool" where
  "hybrid_wf r \<longleftrightarrow> length (hh_magic r) = 8 \<and> length (hh_container_sha256 r) = 32"

definition mota_hybrid_handoff_crc32 :: "bytes \<Rightarrow> u32" where
  "mota_hybrid_handoff_crc32 data = otafix_crc32_update 0 data"

definition mota_hybrid_handoff_encode ::
    "u32 \<Rightarrow> u32 \<Rightarrow> u32 \<Rightarrow> u32 \<Rightarrow> bytes \<Rightarrow> mota_hybrid_handoff" where
  "mota_hybrid_handoff_encode container_total flash_start flash_len ram_len container_sha256 =
     (let out = \<lparr>hh_magic = MOTA_HYBRID_HANDOFF_MAGIC, hh_version = MOTA_HYBRID_HANDOFF_VERSION,
                 hh_length = MOTA_HYBRID_HANDOFF_LEN, hh_purpose = MOTA_HYBRID_HANDOFF_PURPOSE_APP,
                 hh_format_ver = MOTA_HYBRID_HANDOFF_FORMAT, hh_reserved = 0,
                 hh_container_total = container_total, hh_flash_start = flash_start,
                 hh_flash_len = flash_len, hh_ram_len = ram_len,
                 hh_container_sha256 = take 32 container_sha256, hh_crc32 = 0, hh_crc32_inv = 0\<rparr>;
          crc = mota_hybrid_handoff_crc32 (take 64 (hybrid_bytes out))
      in out\<lparr>hh_crc32 := crc, hh_crc32_inv := NOT crc\<rparr>)"

definition mota_hybrid_handoff_valid :: "mota_hybrid_handoff \<Rightarrow> bool" where
  "mota_hybrid_handoff_valid r =
     (if hh_magic r \<noteq> MOTA_HYBRID_HANDOFF_MAGIC \<or>
         hh_version r \<noteq> MOTA_HYBRID_HANDOFF_VERSION \<or> hh_length r \<noteq> MOTA_HYBRID_HANDOFF_LEN \<or>
         hh_purpose r \<noteq> MOTA_HYBRID_HANDOFF_PURPOSE_APP \<or>
         hh_format_ver r \<noteq> MOTA_HYBRID_HANDOFF_FORMAT \<or>
         hh_reserved r \<noteq> 0 \<or> hh_flash_len r = 0 \<or> hh_ram_len r = 0 \<or>
         hh_ram_len r > MOTA_HYBRID_ARENA_SIZE \<or> hh_flash_len r > UINT32_MAX - hh_ram_len r \<or>
         hh_container_total r \<noteq> hh_flash_len r + hh_ram_len r
      then False
      else let crc = mota_hybrid_handoff_crc32 (take 64 (hybrid_bytes r))
           in crc = hh_crc32 r \<and> hh_crc32_inv r = NOT crc)"

section \<open>The retained SD authorization\<close>

definition MOTA_SD_AUTH_MAGIC :: bytes where
  "MOTA_SD_AUTH_MAGIC = [0x4D, 0x4F, 0x54, 0x41, 0x53, 0x44, 0x41, 0x32]"

definition MOTA_SD_AUTH_VERSION :: u16 where "MOTA_SD_AUTH_VERSION = 2"
definition MOTA_SD_AUTH_LEN :: u16 where "MOTA_SD_AUTH_LEN = 72"
definition MOTA_SD_AUTH_PURPOSE_APP :: u8 where "MOTA_SD_AUTH_PURPOSE_APP = 1"
definition MOTA_SD_AUTH_PURPOSE_BOOTLOADER :: u8 where "MOTA_SD_AUTH_PURPOSE_BOOTLOADER = 2"
definition MOTA_SD_AUTH_APPROVAL_OFFSET :: u32 where "MOTA_SD_AUTH_APPROVAL_OFFSET = 201"

record mota_sd_auth =
  sa_magic :: bytes
  sa_version :: u16
  sa_length :: u16
  sa_purpose :: u8
  sa_format_ver :: u8
  sa_reserved :: u16
  sa_first_sector :: u32
  sa_sector_count :: u32
  sa_container_total :: u32
  sa_card_sector_count :: u32
  sa_container_sha256 :: bytes
  sa_crc32 :: u32
  sa_crc32_inv :: u32

definition sd_auth_prefix :: "mota_sd_auth \<Rightarrow> bytes" where
  "sd_auth_prefix r = sa_magic r @ wr_u16 (sa_version r) @ wr_u16 (sa_length r) @
     [sa_purpose r, sa_format_ver r] @ wr_u16 (sa_reserved r) @ wr_u32 (sa_first_sector r) @
     wr_u32 (sa_sector_count r) @ wr_u32 (sa_container_total r) @
     wr_u32 (sa_card_sector_count r) @ sa_container_sha256 r"

definition sd_auth_bytes :: "mota_sd_auth \<Rightarrow> bytes" where
  "sd_auth_bytes r = sd_auth_prefix r @ wr_u32 (sa_crc32 r) @ wr_u32 (sa_crc32_inv r)"

definition sd_auth_of_bytes :: "bytes \<Rightarrow> mota_sd_auth" where
  "sd_auth_of_bytes b = \<lparr>sa_magic = take 8 b, sa_version = rd_u16 (drop 8 b),
     sa_length = rd_u16 (drop 10 b), sa_purpose = b ! 12, sa_format_ver = b ! 13,
     sa_reserved = rd_u16 (drop 14 b), sa_first_sector = rd_u32 (drop 16 b),
     sa_sector_count = rd_u32 (drop 20 b), sa_container_total = rd_u32 (drop 24 b),
     sa_card_sector_count = rd_u32 (drop 28 b), sa_container_sha256 = take 32 (drop 32 b),
     sa_crc32 = rd_u32 (drop 64 b), sa_crc32_inv = rd_u32 (drop 68 b)\<rparr>"

definition sd_auth_wf :: "mota_sd_auth \<Rightarrow> bool" where
  "sd_auth_wf r \<longleftrightarrow> length (sa_magic r) = 8 \<and> length (sa_container_sha256 r) = 32"

definition mota_sd_auth_crc32 :: "bytes \<Rightarrow> u32" where
  "mota_sd_auth_crc32 data = otafix_crc32_update 0 data"

definition mota_sd_auth_encode ::
    "u8 \<Rightarrow> u8 \<Rightarrow> u32 \<Rightarrow> u32 \<Rightarrow> u32 \<Rightarrow> u32 \<Rightarrow> bytes \<Rightarrow> mota_sd_auth" where
  "mota_sd_auth_encode purpose format_ver first_sector sector_count container_total
       card_sector_count container_sha256 =
     (let out = \<lparr>sa_magic = MOTA_SD_AUTH_MAGIC, sa_version = MOTA_SD_AUTH_VERSION,
                 sa_length = MOTA_SD_AUTH_LEN, sa_purpose = purpose, sa_format_ver = format_ver,
                 sa_reserved = 0, sa_first_sector = first_sector, sa_sector_count = sector_count,
                 sa_container_total = container_total, sa_card_sector_count = card_sector_count,
                 sa_container_sha256 = take 32 container_sha256, sa_crc32 = 0, sa_crc32_inv = 0\<rparr>;
          crc = mota_sd_auth_crc32 (take 64 (sd_auth_bytes out))
      in out\<lparr>sa_crc32 := crc, sa_crc32_inv := NOT crc\<rparr>)"

definition mota_sd_auth_valid :: "mota_sd_auth \<Rightarrow> u8 \<Rightarrow> u8 \<Rightarrow> bool" where
  "mota_sd_auth_valid r expected_purpose expected_format =
     (if sa_magic r \<noteq> MOTA_SD_AUTH_MAGIC \<or> sa_version r \<noteq> MOTA_SD_AUTH_VERSION \<or>
         sa_length r \<noteq> MOTA_SD_AUTH_LEN \<or> sa_purpose r \<noteq> expected_purpose \<or>
         sa_format_ver r \<noteq> expected_format \<or> sa_reserved r \<noteq> 0 \<or>
         sa_first_sector r = 0 \<or> sa_sector_count r = 0 \<or> sa_container_total r = 0 \<or>
         sa_card_sector_count r = 0 \<or> sa_first_sector r \<ge> sa_card_sector_count r \<or>
         sa_sector_count r > sa_card_sector_count r - sa_first_sector r \<or>
         sa_sector_count r \<noteq> drop_bit 9 (sa_container_total r - 1) + 1
      then False
      else let crc = mota_sd_auth_crc32 (take 64 (sd_auth_bytes r))
           in crc = sa_crc32 r \<and> sa_crc32_inv r = NOT crc)"

section \<open>The SD bootloader token\<close>

definition MOTA_SD_BOOT_TOKEN_MAGIC :: bytes where
  "MOTA_SD_BOOT_TOKEN_MAGIC = [0x4D, 0x4F, 0x54, 0x41, 0x53, 0x44, 0x42, 0x4C]"

definition MOTA_SD_BOOT_TOKEN_VERSION :: u32 where "MOTA_SD_BOOT_TOKEN_VERSION = 1"
definition MOTA_SD_BOOT_TOKEN_LEN :: u32 where "MOTA_SD_BOOT_TOKEN_LEN = 64"

definition mota_sd_boot_token_crc32 :: "bytes \<Rightarrow> u32" where
  "mota_sd_boot_token_crc32 data = otafix_crc32_update 0 data"

text \<open>Writing a run of bytes into an array at an offset: \<open>memcpy (out + off, src, len)\<close>.\<close>

definition put_at :: "nat \<Rightarrow> bytes \<Rightarrow> bytes \<Rightarrow> bytes" where
  "put_at off src out = take off out @ src @ drop (off + length src) out"

definition mota_sd_boot_token_encode :: "u32 \<Rightarrow> bytes \<Rightarrow> bytes" where
  "mota_sd_boot_token_encode tot image_hash =
     (let out = replicate 64 0;
          out = put_at 0 MOTA_SD_BOOT_TOKEN_MAGIC out;
          out = put_at 8 (wr_u32 MOTA_SD_BOOT_TOKEN_VERSION) out;
          out = put_at 12 (wr_u32 MOTA_SD_BOOT_TOKEN_LEN) out;
          out = put_at 16 (wr_u32 tot) out;
          out = put_at 20 (wr_u32 (NOT tot)) out;
          out = put_at 24 (take 32 image_hash) out;
          crc = mota_sd_boot_token_crc32 (take 56 out);
          out = put_at 56 (wr_u32 crc) out
      in put_at 60 (wr_u32 (NOT crc)) out)"

definition mota_sd_boot_token_valid :: "bytes \<Rightarrow> u32 \<Rightarrow> bytes \<Rightarrow> bool" where
  "mota_sd_boot_token_valid token tot image_hash =
     (let crc = rd_u32 (drop 56 token)
      in take 8 token = MOTA_SD_BOOT_TOKEN_MAGIC \<and>
         rd_u32 (drop 8 token) = MOTA_SD_BOOT_TOKEN_VERSION \<and>
         rd_u32 (drop 12 token) = MOTA_SD_BOOT_TOKEN_LEN \<and>
         rd_u32 (drop 16 token) = tot \<and>
         rd_u32 (drop 20 token) = NOT tot \<and>
         take 32 (drop 24 token) = take 32 image_hash \<and>
         mota_sd_boot_token_crc32 (take 56 token) = crc \<and>
         rd_u32 (drop 60 token) = NOT crc)"

section \<open>Images and validity\<close>

lemma magic_lengths [simp]:
  "length MOTA_HYBRID_HANDOFF_MAGIC = 8" "length MOTA_SD_AUTH_MAGIC = 8"
  "length MOTA_SD_BOOT_TOKEN_MAGIC = 8"
  by (simp_all add: MOTA_HYBRID_HANDOFF_MAGIC_def MOTA_SD_AUTH_MAGIC_def MOTA_SD_BOOT_TOKEN_MAGIC_def)

lemma length_hybrid_prefix: "hybrid_wf r \<Longrightarrow> length (hybrid_prefix r) = 64"
  by (simp add: hybrid_wf_def hybrid_prefix_def)

lemma length_sd_auth_prefix: "sd_auth_wf r \<Longrightarrow> length (sd_auth_prefix r) = 64"
  by (simp add: sd_auth_wf_def sd_auth_prefix_def)

lemma hybrid_of_bytes_inverse: "hybrid_wf r \<Longrightarrow> hybrid_of_bytes (hybrid_bytes r) = r"
  by (cases r) (simp add: hybrid_of_bytes_def hybrid_bytes_def hybrid_prefix_def hybrid_wf_def nth_append)

lemma sd_auth_of_bytes_inverse: "sd_auth_wf r \<Longrightarrow> sd_auth_of_bytes (sd_auth_bytes r) = r"
  by (cases r) (simp add: sd_auth_of_bytes_def sd_auth_bytes_def sd_auth_prefix_def sd_auth_wf_def nth_append)

lemma take_hybrid_bytes: "hybrid_wf r \<Longrightarrow> take 64 (hybrid_bytes r) = hybrid_prefix r"
  by (simp add: hybrid_bytes_def length_hybrid_prefix)

lemma take_sd_auth_bytes: "sd_auth_wf r \<Longrightarrow> take 64 (sd_auth_bytes r) = sd_auth_prefix r"
  by (simp add: sd_auth_bytes_def length_sd_auth_prefix)

lemma hybrid_valid_sealed:
  "hybrid_wf r \<and> mota_hybrid_handoff_valid r \<Longrightarrow> sealed 64 (hybrid_bytes r)"
  by (auto simp: sealed_def hybrid_bytes_def length_hybrid_prefix mota_hybrid_handoff_valid_def
      mota_hybrid_handoff_crc32_def Let_def split: if_splits)

lemma sd_auth_valid_sealed:
  "sd_auth_wf r \<and> mota_sd_auth_valid r p f \<Longrightarrow> sealed 64 (sd_auth_bytes r)"
  by (auto simp: sealed_def sd_auth_bytes_def length_sd_auth_prefix mota_sd_auth_valid_def
      mota_sd_auth_crc32_def Let_def split: if_splits)

lemma boot_token_valid_sealed:
  "length t = 64 \<and> mota_sd_boot_token_valid t tot h \<Longrightarrow> sealed 56 t"
  by (auto simp: sealed_def mota_sd_boot_token_valid_def mota_sd_boot_token_crc32_def Let_def)

interpretation hybrid_record:
  sealed_record hybrid_bytes "\<lambda>r. hybrid_wf r \<and> mota_hybrid_handoff_valid r" 64
  by unfold_locales (fact hybrid_valid_sealed)

interpretation sd_auth_record:
  sealed_record sd_auth_bytes "\<lambda>r. sd_auth_wf r \<and> mota_sd_auth_valid r p f" 64 for p f
  by unfold_locales (fact sd_auth_valid_sealed)

interpretation boot_token_record:
  sealed_record "\<lambda>t. t" "\<lambda>t. length t = 64 \<and> mota_sd_boot_token_valid t tot h" 56 for tot h
  by unfold_locales (fact boot_token_valid_sealed)

lemma hybrid_encode_wf: "length sha = 32 \<Longrightarrow> hybrid_wf (mota_hybrid_handoff_encode t fs fl rl sha)"
  by (simp add: mota_hybrid_handoff_encode_def hybrid_wf_def Let_def)

lemma sd_auth_encode_wf:
  "length sha = 32 \<Longrightarrow> sd_auth_wf (mota_sd_auth_encode p f fs n t cs sha)"
  by (simp add: mota_sd_auth_encode_def sd_auth_wf_def Let_def)

lemma hybrid_encode_crc:
  assumes "length sha = 32"
  shows "let r = mota_hybrid_handoff_encode t fs fl rl sha; crc = mota_hybrid_handoff_crc32 (hybrid_prefix r)
         in take 64 (hybrid_bytes r) = hybrid_prefix r \<and> hh_crc32 r = crc \<and> hh_crc32_inv r = NOT crc"
  using assms take_hybrid_bytes [OF hybrid_encode_wf [OF assms]]
  by (simp add: mota_hybrid_handoff_encode_def Let_def take_hybrid_bytes hybrid_wf_def hybrid_prefix_def)

lemma sd_auth_encode_crc:
  assumes "length sha = 32"
  shows "let r = mota_sd_auth_encode p f fs n t cs sha; crc = mota_sd_auth_crc32 (sd_auth_prefix r)
         in take 64 (sd_auth_bytes r) = sd_auth_prefix r \<and> sa_crc32 r = crc \<and> sa_crc32_inv r = NOT crc"
  using assms take_sd_auth_bytes [OF sd_auth_encode_wf [OF assms]]
  by (simp add: mota_sd_auth_encode_def Let_def take_sd_auth_bytes sd_auth_wf_def sd_auth_prefix_def)

lemma no_add_overflow_iff: "\<not> fl > UINT32_MAX - (rl :: u32) \<longleftrightarrow> unat fl + unat rl < 2 ^ 32"
proof -
  have "rl \<le> UINT32_MAX" by (simp add: word_le_nat_alt) (use unat_u32_lt [of rl] in simp)
  then have "unat (UINT32_MAX - rl) = 2 ^ 32 - 1 - unat rl" by (simp add: unat_sub_le)
  then show ?thesis using unat_u32_lt [of rl] by (auto simp: not_less word_le_nat_alt)
qed

lemma hybrid_encode_valid:
  assumes "length sha = 32"
  shows "mota_hybrid_handoff_valid (mota_hybrid_handoff_encode t fs fl rl sha) \<longleftrightarrow>
    0 < unat fl \<and> 0 < unat rl \<and> unat rl \<le> 65536 \<and> unat t = unat fl + unat rl"
proof -
  define r where "r = mota_hybrid_handoff_encode t fs fl rl sha"
  have fields: "hh_magic r = MOTA_HYBRID_HANDOFF_MAGIC" "hh_version r = MOTA_HYBRID_HANDOFF_VERSION"
    "hh_length r = MOTA_HYBRID_HANDOFF_LEN" "hh_purpose r = MOTA_HYBRID_HANDOFF_PURPOSE_APP"
    "hh_format_ver r = MOTA_HYBRID_HANDOFF_FORMAT" "hh_reserved r = 0" "hh_flash_len r = fl"
    "hh_ram_len r = rl" "hh_container_total r = t"
    by (simp_all add: r_def mota_hybrid_handoff_encode_def Let_def)
  have "mota_hybrid_handoff_valid r \<longleftrightarrow> fl \<noteq> 0 \<and> rl \<noteq> 0 \<and> \<not> rl > MOTA_HYBRID_ARENA_SIZE \<and>
      \<not> fl > UINT32_MAX - rl \<and> t = fl + rl"
    using hybrid_encode_crc [OF assms, of t fs fl rl, folded r_def]
    by (simp add: mota_hybrid_handoff_valid_def fields Let_def)
  also have "\<dots> \<longleftrightarrow> 0 < unat fl \<and> 0 < unat rl \<and> unat rl \<le> 65536 \<and> unat fl + unat rl < 2 ^ 32 \<and> t = fl + rl"
    unfolding no_add_overflow_iff
    by (auto simp: MOTA_HYBRID_ARENA_SIZE_def not_less word_le_nat_alt unat_gt_0)
  also have "\<dots> \<longleftrightarrow> 0 < unat fl \<and> 0 < unat rl \<and> unat rl \<le> 65536 \<and> unat t = unat fl + unat rl"
    using unat_u32_lt [of t] by (auto simp: word_unat_eq_iff unat_word_ariths)
  finally show ?thesis by (simp add: r_def)
qed

text \<open>
  Publishing and consuming a hybrid hand-off: the 72 retained bytes of an encoded record
  decode to that record, and the bootloader accepts it exactly when both parts are non-empty,
  the RAM part fits the 64 KiB arena and the total is their sum without wrapping at 32 bits.
\<close>

lemma hybrid_handoff_roundtrip:
  assumes "length sha = 32"
  shows "let r = mota_hybrid_handoff_encode t fs fl rl sha
         in hybrid_of_bytes (hybrid_bytes r) = r \<and>
            (mota_hybrid_handoff_valid r \<longleftrightarrow>
               0 < unat fl \<and> 0 < unat rl \<and> unat rl \<le> 65536 \<and> unat t = unat fl + unat rl)"
  using hybrid_of_bytes_inverse [OF hybrid_encode_wf [OF assms]] hybrid_encode_valid [OF assms] by (simp add: Let_def)

lemma sectors_for:
  "0 < unat t \<Longrightarrow> unat (drop_bit 9 (t - 1 :: u32) + 1) = (unat t + 511) div 512"
proof -
  assume t: "0 < unat t"
  have "unat (drop_bit 9 (t - 1)) = (unat t - 1) div 512"
    using t by (simp only: unat_drop_bit_eq drop_bit_eq_div) (simp add: unat_div unat_minus_one unat_gt_0)
  moreover have "(unat t - 1) div 512 + 1 < 2 ^ 32" using unat_u32_lt [of t] by simp
  ultimately have "unat (drop_bit 9 (t - 1) + 1) = (unat t - 1) div 512 + 1"
    by (simp add: unat_word_ariths)
  with t show ?thesis by simp
qed

text \<open>
  Publishing and consuming the SD authorization: the retained bytes decode to the record
  the application encoded, and it is accepted exactly for the purpose and format it was made
  for, when its sector run lies on the card, above sector 0, and is the rounded-up container
  length.
\<close>

lemma sd_auth_roundtrip:
  assumes "length sha = 32"
  shows "let r = mota_sd_auth_encode p f fs n t cs sha
         in sd_auth_of_bytes (sd_auth_bytes r) = r \<and>
            (mota_sd_auth_valid r p' f' \<longleftrightarrow>
               p' = p \<and> f' = f \<and> 0 < unat fs \<and> 0 < unat t \<and>
               unat fs + unat n \<le> unat cs \<and> unat n = (unat t + 511) div 512)"
proof -
  define r where "r = mota_sd_auth_encode p f fs n t cs sha"
  have fields: "sa_magic r = MOTA_SD_AUTH_MAGIC" "sa_version r = MOTA_SD_AUTH_VERSION"
    "sa_length r = MOTA_SD_AUTH_LEN" "sa_purpose r = p" "sa_format_ver r = f" "sa_reserved r = 0"
    "sa_first_sector r = fs" "sa_sector_count r = n" "sa_container_total r = t"
    "sa_card_sector_count r = cs"
    by (simp_all add: r_def mota_sd_auth_encode_def Let_def)
  have sectors: "t \<noteq> 0 \<Longrightarrow> n = drop_bit 9 (t - 1) + 1 \<longleftrightarrow> unat n = (unat t + 511) div 512"
    by (simp add: word_unat_eq_iff [of n] sectors_for unat_gt_0)
  have "mota_sd_auth_valid r p' f' \<longleftrightarrow> p' = p \<and> f' = f \<and> fs \<noteq> 0 \<and> n \<noteq> 0 \<and> t \<noteq> 0 \<and>
      fs \<noteq> cs \<and> in_range_u32 fs n cs \<and> n = drop_bit 9 (t - 1) + 1"
    using sd_auth_encode_crc [OF assms, of p f fs n t cs, folded r_def]
    by (auto simp: mota_sd_auth_valid_def fields Let_def in_range_u32_def word_neq_0_conv)
  also have "\<dots> \<longleftrightarrow> p' = p \<and> f' = f \<and> 0 < unat fs \<and> 0 < unat n \<and> 0 < unat t \<and>
      unat fs + unat n \<le> unat cs \<and> unat n = (unat t + 511) div 512"
    using sectors by (auto simp: in_range_u32_iff unat_gt_0 unat_eq_zero)
  also have "\<dots> \<longleftrightarrow> p' = p \<and> f' = f \<and> 0 < unat fs \<and> 0 < unat t \<and>
      unat fs + unat n \<le> unat cs \<and> unat n = (unat t + 511) div 512" by auto
  finally show ?thesis using sd_auth_of_bytes_inverse [OF sd_auth_encode_wf [OF assms]] by (simp add: Let_def r_def)
qed

lemma boot_token_image:
  assumes "length h = 32"
  shows "mota_sd_boot_token_encode tot h =
    (let p = MOTA_SD_BOOT_TOKEN_MAGIC @ wr_u32 MOTA_SD_BOOT_TOKEN_VERSION @ wr_u32 MOTA_SD_BOOT_TOKEN_LEN @
             wr_u32 tot @ wr_u32 (NOT tot) @ h;
         crc = mota_sd_boot_token_crc32 p
     in p @ wr_u32 crc @ wr_u32 (NOT crc))"
proof -
  have steps: "length z1 = 8 \<Longrightarrow> length z2 = 4 \<Longrightarrow> length z3 = 4 \<Longrightarrow> length z4 = 4 \<Longrightarrow> length z5 = 4 \<Longrightarrow>
      length z6 = 32 \<Longrightarrow> put_at 24 (take 32 h) (put_at 20 (wr_u32 (NOT tot)) (put_at 16 (wr_u32 tot)
        (put_at 12 (wr_u32 MOTA_SD_BOOT_TOKEN_LEN) (put_at 8 (wr_u32 MOTA_SD_BOOT_TOKEN_VERSION)
          (put_at 0 MOTA_SD_BOOT_TOKEN_MAGIC (z1 @ z2 @ z3 @ z4 @ z5 @ z6 @ z)))))) =
      MOTA_SD_BOOT_TOKEN_MAGIC @ wr_u32 MOTA_SD_BOOT_TOKEN_VERSION @ wr_u32 MOTA_SD_BOOT_TOKEN_LEN @
        wr_u32 tot @ wr_u32 (NOT tot) @ h @ z" for z1 z2 z3 z4 z5 z6 z :: bytes
    using assms by (simp add: put_at_def)
  have seal: "length p = 56 \<Longrightarrow> length z7 = 4 \<Longrightarrow> length z8 = 4 \<Longrightarrow>
      put_at 60 (wr_u32 y) (put_at 56 (wr_u32 x) (p @ z7 @ z8)) = p @ wr_u32 x @ wr_u32 y"
    for p z7 z8 x y by (simp add: put_at_def)
  have "replicate 64 (0 :: u8) = replicate 8 0 @ replicate 4 0 @ replicate 4 0 @ replicate 4 0 @
      replicate 4 0 @ replicate 32 0 @ replicate 4 0 @ replicate 4 0"
    by (simp flip: replicate_add)
  moreover let ?p = "MOTA_SD_BOOT_TOKEN_MAGIC @ wr_u32 MOTA_SD_BOOT_TOKEN_VERSION @
      wr_u32 MOTA_SD_BOOT_TOKEN_LEN @ wr_u32 tot @ wr_u32 (NOT tot) @ h"
  have p: "length ?p = 56" using assms by simp
  then have "take 56 (?p @ z) = ?p" for z by simp
  ultimately show ?thesis
    unfolding mota_sd_boot_token_encode_def Let_def
    using seal [OF p, of "replicate 4 0" "replicate 4 0"] steps [of "replicate 8 0" "replicate 4 0"
        "replicate 4 0" "replicate 4 0" "replicate 4 0" "replicate 32 0" "replicate 4 0 @ replicate 4 0"]
    by (simp only: append_assoc length_replicate)
qed

text \<open>
  A bootloader token authorizes exactly the package it was written for: the encoded token
  is 64 bytes long and validates for a total length and image hash if and only if they are
  the encoded ones.
\<close>

lemma boot_token_roundtrip:
  assumes "length h = 32" and "length h' = 32"
  shows "length (mota_sd_boot_token_encode tot h) = 64 \<and>
         (mota_sd_boot_token_valid (mota_sd_boot_token_encode tot h) tot' h' \<longleftrightarrow> tot' = tot \<and> h' = h)"
  using assms by (auto simp: boot_token_image Let_def mota_sd_boot_token_valid_def)

text \<open>
  C25. Publishing and consuming the retained records.  The 72 retained bytes of an encoded hybrid hand-off decode to it, and it is accepted
  exactly when both parts are non-empty, the RAM part fits the 64 KiB arena and the total is their sum without wrapping at 32
  bits.  The bytes of an SD authorization decode to it, and it is accepted exactly for the purpose and format it was made for, when its
  sector run lies on the card, above sector 0, and is the rounded-up container length.  A bootloader token is 64 bytes long and
  authorizes exactly the total length and image hash it was written for.
\<close>

theorem handoff_records_roundtrip:
  assumes "length sha = 32" "length h = 32" "length h' = 32"
  shows "(let r = mota_hybrid_handoff_encode t fs fl rl sha
          in hybrid_of_bytes (hybrid_bytes r) = r \<and>
             (mota_hybrid_handoff_valid r \<longleftrightarrow> 0 < unat fl \<and> 0 < unat rl \<and> unat rl \<le> 65536 \<and> unat t = unat fl + unat rl)) \<and>
         (let r = mota_sd_auth_encode p f fs n t cs sha
          in sd_auth_of_bytes (sd_auth_bytes r) = r \<and>
             (mota_sd_auth_valid r p' f' \<longleftrightarrow>
                p' = p \<and> f' = f \<and> 0 < unat fs \<and> 0 < unat t \<and> unat fs + unat n \<le> unat cs \<and> unat n = (unat t + 511) div 512)) \<and>
         length (mota_sd_boot_token_encode tot h) = 64 \<and>
         (mota_sd_boot_token_valid (mota_sd_boot_token_encode tot h) tot' h' \<longleftrightarrow> tot' = tot \<and> h' = h)"
  using hybrid_handoff_roundtrip [OF assms(1)] sd_auth_roundtrip [OF assms(1)] boot_token_roundtrip [OF assms(2,3)] by blast

theorem handoff_records_roundtrip_witness:
  "mota_hybrid_handoff_valid (mota_hybrid_handoff_encode 0x2800 0x800 0x1000 0x1800 (replicate 32 7)) \<and>
   mota_sd_auth_valid (mota_sd_auth_encode MOTA_SD_AUTH_PURPOSE_APP 2 0x800 20 0x2800 100000 (replicate 32 7)) MOTA_SD_AUTH_PURPOSE_APP 2 \<and>
   \<not> mota_sd_boot_token_valid (mota_sd_boot_token_encode 41330 (replicate 32 5)) 41330 (replicate 32 6)"
  using handoff_records_roundtrip [where sha = "replicate 32 7" and h = "replicate 32 5" and h' = "replicate 32 6" and t = "0x2800" and fs = "0x800" and
      fl = "0x1000" and rl = "0x1800" and p = MOTA_SD_AUTH_PURPOSE_APP and f = 2 and n = 20 and cs = 100000 and p' = MOTA_SD_AUTH_PURPOSE_APP and
      f' = 2 and tot = 41330 and tot' = 41330]
  by (simp add: Let_def)

text \<open>
  C26. No retained record survives corruption: changing any one of the 72 bytes of a valid
  hybrid hand-off or SD authorization, or of the 64 bytes of a valid bootloader token, gives
  a record that is refused.
\<close>

theorem handoff_corruption_rejected:
  assumes "b \<noteq> b'"
  shows "(hybrid_wf r \<and> mota_hybrid_handoff_valid r \<and> i < 72 \<and> hybrid_bytes r ! i = b \<and>
           hybrid_wf r' \<and> hybrid_bytes r' = (hybrid_bytes r)[i := b'] \<longrightarrow> \<not> mota_hybrid_handoff_valid r') \<and>
         (sd_auth_wf a \<and> mota_sd_auth_valid a p f \<and> i < 72 \<and> sd_auth_bytes a ! i = b \<and>
           sd_auth_wf a' \<and> sd_auth_bytes a' = (sd_auth_bytes a)[i := b'] \<longrightarrow> \<not> mota_sd_auth_valid a' p f) \<and>
         (length t = 64 \<and> mota_sd_boot_token_valid t tot h \<and> i < 64 \<and> t ! i = b \<longrightarrow>
           \<not> mota_sd_boot_token_valid (t[i := b']) tot h)"
  using assms hybrid_record.corruption_rejected [of r i b' r'] sd_auth_record.corruption_rejected [of a p f i b' a']
    boot_token_record.corruption_rejected [of t tot h i b' "t[i := b']"] by auto

theorem handoff_corruption_rejected_witness:
  "mota_sd_boot_token_valid (mota_sd_boot_token_encode 41330 (replicate 32 5)) 41330 (replicate 32 5) \<and>
   \<not> mota_sd_boot_token_valid ((mota_sd_boot_token_encode 41330 (replicate 32 5))[0 := 0]) 41330 (replicate 32 5)"
proof -
  let ?t = "mota_sd_boot_token_encode 41330 (replicate 32 5)"
  have v: "mota_sd_boot_token_valid ?t 41330 (replicate 32 5)" and len: "length ?t = 64" and b: "?t ! 0 = 0x4D"
    by (simp_all add: boot_token_image mota_sd_boot_token_valid_def Let_def MOTA_SD_BOOT_TOKEN_MAGIC_def)
  have ne: "(0x4D :: u8) \<noteq> 0" by simp
  show ?thesis
    using handoff_corruption_rejected [OF ne, where t = ?t and i = 0 and tot = 41330 and h = "replicate 32 5"]
      v len b by simp
qed

end
