(* ===== verification/Boot_Settings.thy ===== *)
theory Boot_Settings
  imports Crc
begin

text \<open>
  The bootloader settings record (\<open>bootloader_types.h\<close>) and the integrity guard that reads it
  (\<open>src/src/bootloader_settings_guard.c\<close>).  The 32-byte flash image has no padding: the
  28-byte prefix older bootloaders wrote, then a CRC-16 of that prefix and its inverse.  A
  record is either legacy (erased trailer), or sealed.
\<close>

section \<open>The record\<close>

record bootloader_settings =
  bs_bank_0 :: u16
  bs_bank_0_crc :: u16
  bs_bank_1 :: u16
  bs_format_version :: u16
  bs_bank_0_size :: u32
  bs_sd_image_size :: u32
  bs_bl_image_size :: u32
  bs_app_image_size :: u32
  bs_sd_image_start :: u32
  bs_record_crc :: u16
  bs_record_crc_inv :: u16

abbreviation BANK_VALID_APP :: u16 where "BANK_VALID_APP \<equiv> 0x01"
abbreviation BANK_VALID_SD :: u16 where "BANK_VALID_SD \<equiv> 0xA5"
abbreviation BANK_VALID_BOOT :: u16 where "BANK_VALID_BOOT \<equiv> 0xAA"
abbreviation BANK_ERASED :: u16 where "BANK_ERASED \<equiv> 0xFE"
abbreviation BANK_INVALID_APP :: u16 where "BANK_INVALID_APP \<equiv> 0xFF"

definition BOOTLOADER_SETTINGS_FORMAT_VERSION :: u16 where
  "BOOTLOADER_SETTINGS_FORMAT_VERSION = 1"

definition settings_zero :: bootloader_settings where
  "settings_zero = \<lparr>bs_bank_0 = 0, bs_bank_0_crc = 0, bs_bank_1 = 0, bs_format_version = 0,
     bs_bank_0_size = 0, bs_sd_image_size = 0, bs_bl_image_size = 0, bs_app_image_size = 0,
     bs_sd_image_start = 0, bs_record_crc = 0, bs_record_crc_inv = 0\<rparr>"

definition settings_prefix :: "bootloader_settings \<Rightarrow> bytes" where
  "settings_prefix s = wr_u16 (bs_bank_0 s) @ wr_u16 (bs_bank_0_crc s) @ wr_u16 (bs_bank_1 s) @
     wr_u16 (bs_format_version s) @ wr_u32 (bs_bank_0_size s) @ wr_u32 (bs_sd_image_size s) @
     wr_u32 (bs_bl_image_size s) @ wr_u32 (bs_app_image_size s) @ wr_u32 (bs_sd_image_start s)"

definition settings_bytes :: "bootloader_settings \<Rightarrow> bytes" where
  "settings_bytes s = settings_prefix s @ wr_u16 (bs_record_crc s) @ wr_u16 (bs_record_crc_inv s)"

definition settings_of_bytes :: "bytes \<Rightarrow> bootloader_settings" where
  "settings_of_bytes b = \<lparr>bs_bank_0 = rd_u16 b, bs_bank_0_crc = rd_u16 (drop 2 b),
     bs_bank_1 = rd_u16 (drop 4 b), bs_format_version = rd_u16 (drop 6 b),
     bs_bank_0_size = rd_u32 (drop 8 b), bs_sd_image_size = rd_u32 (drop 12 b),
     bs_bl_image_size = rd_u32 (drop 16 b), bs_app_image_size = rd_u32 (drop 20 b),
     bs_sd_image_start = rd_u32 (drop 24 b), bs_record_crc = rd_u16 (drop 28 b),
     bs_record_crc_inv = rd_u16 (drop 30 b)\<rparr>"

section \<open>The guard\<close>

definition bootloader_settings_is_legacy :: "bootloader_settings \<Rightarrow> bool" where
  "bootloader_settings_is_legacy s \<longleftrightarrow>
     bs_record_crc s = UINT16_MAX \<and> bs_record_crc_inv s = UINT16_MAX"

definition bootloader_settings_integrity_valid :: "bootloader_settings \<Rightarrow> bool" where
  "bootloader_settings_integrity_valid s =
     (if bootloader_settings_is_legacy s then True
      else if bs_format_version s \<noteq> BOOTLOADER_SETTINGS_FORMAT_VERSION \<or>
              bs_record_crc_inv s \<noteq> NOT (bs_record_crc s) then False
      else crc16_compute (take 28 (settings_bytes s)) None = bs_record_crc s)"

definition bootloader_settings_seal :: "bootloader_settings \<Rightarrow> bootloader_settings" where
  "bootloader_settings_seal s =
     (let s = s\<lparr>bs_format_version := BOOTLOADER_SETTINGS_FORMAT_VERSION\<rparr>;
          s = s\<lparr>bs_record_crc := crc16_compute (take 28 (settings_bytes s)) None\<rparr>
      in s\<lparr>bs_record_crc_inv := NOT (bs_record_crc s)\<rparr>)"

section \<open>Properties\<close>

lemma length_settings_prefix [simp]: "length (settings_prefix s) = 28"
  by (simp add: settings_prefix_def)

lemma length_settings_bytes [simp]: "length (settings_bytes s) = 32"
  by (simp add: settings_bytes_def)

lemma take_settings_bytes [simp]: "take 28 (settings_bytes s) = settings_prefix s"
  by (simp add: settings_bytes_def)

lemma settings_of_bytes_inverse [simp]: "settings_of_bytes (settings_bytes s) = s"
  by (cases s) (simp add: settings_of_bytes_def settings_bytes_def settings_prefix_def)

lemma settings_prefix_trailer [simp]:
  "settings_prefix (s\<lparr>bs_record_crc := x\<rparr>) = settings_prefix s"
  "settings_prefix (s\<lparr>bs_record_crc_inv := y\<rparr>) = settings_prefix s"
  by (simp_all add: settings_prefix_def)

lemma not_self_complement: "NOT x \<noteq> (x :: u16)"
proof
  assume "NOT x = x"
  then have "bit (NOT x) 0 = bit x 0" by simp
  then show False by (simp add: bit_simps)
qed

lemma complement_not_legacy:
  "bs_record_crc_inv s = NOT (bs_record_crc s) \<Longrightarrow> \<not> bootloader_settings_is_legacy s"
  using not_self_complement by (auto simp: bootloader_settings_is_legacy_def)

lemma seal_sealed:
  "bs_format_version (bootloader_settings_seal s) = BOOTLOADER_SETTINGS_FORMAT_VERSION"
  "bs_record_crc (bootloader_settings_seal s) = crc16_compute (settings_prefix (bootloader_settings_seal s)) None"
  "bs_record_crc_inv (bootloader_settings_seal s) = NOT (bs_record_crc (bootloader_settings_seal s))"
  by (simp_all add: bootloader_settings_seal_def Let_def)

lemma seal_integrity: "bootloader_settings_integrity_valid (bootloader_settings_seal s)"
  by (simp add: bootloader_settings_integrity_valid_def seal_sealed)

lemma seal_not_legacy: "\<not> bootloader_settings_is_legacy (bootloader_settings_seal s)"
  by (simp add: complement_not_legacy seal_sealed)

lemma seal_fields [simp]:
  "bs_bank_0 (bootloader_settings_seal s) = bs_bank_0 s"
  "bs_bank_0_crc (bootloader_settings_seal s) = bs_bank_0_crc s"
  "bs_bank_1 (bootloader_settings_seal s) = bs_bank_1 s"
  "bs_bank_0_size (bootloader_settings_seal s) = bs_bank_0_size s"
  "bs_sd_image_size (bootloader_settings_seal s) = bs_sd_image_size s"
  "bs_bl_image_size (bootloader_settings_seal s) = bs_bl_image_size s"
  "bs_app_image_size (bootloader_settings_seal s) = bs_app_image_size s"
  "bs_sd_image_start (bootloader_settings_seal s) = bs_sd_image_start s"
  by (simp_all add: bootloader_settings_seal_def Let_def)

lemma settings_bytes_inverse:
  assumes "length b = 32" shows "settings_bytes (settings_of_bytes b) = b"
proof -
  have "take 2 (drop 30 b) = drop 30 b" and "rd_u16 b = rd_u16 (drop 0 b)" using assms by simp_all
  then show ?thesis
    using assms
    by (simp only: settings_bytes_def settings_prefix_def settings_of_bytes_def append_assoc
        bootloader_settings.simps wr_rd_u16_drop wr_rd_u32_drop take_drop_join)
       (simp add: wr_rd_u16_drop wr_rd_u32_drop take_drop_join take_drop_join [where k = 0, simplified])
qed

lemma settings_trailer_bytes:
  "settings_bytes s ! 28 = ucast (bs_record_crc s)" "settings_bytes s ! 29 = ucast (drop_bit 8 (bs_record_crc s))"
  "settings_bytes s ! 30 = ucast (bs_record_crc_inv s)"
  "settings_bytes s ! 31 = ucast (drop_bit 8 (bs_record_crc_inv s))"
  by (simp_all add: settings_bytes_def nth_append wr_u16_def)

lemma complement_bytes_not_both_FF:
  "\<not> (ucast c = (0xFF :: u8) \<and> ucast (NOT c :: u16) = (0xFF :: u8))"
  "\<not> (ucast (drop_bit 8 c) = (0xFF :: u8) \<and> ucast (drop_bit 8 (NOT c :: u16)) = (0xFF :: u8))"
proof -
  have ff: "bit (0xFF :: u8) 0" by simp
  have "bit (ucast c :: u8) 0 \<noteq> bit (ucast (NOT c) :: u8) 0"
    and "bit (ucast (drop_bit 8 c) :: u8) 0 \<noteq> bit (ucast (drop_bit 8 (NOT c)) :: u8) 0"
    by (auto simp: bit_simps)
  then show "\<not> (ucast c = (0xFF :: u8) \<and> ucast (NOT c) = (0xFF :: u8))"
    and "\<not> (ucast (drop_bit 8 c) = (0xFF :: u8) \<and> ucast (drop_bit 8 (NOT c)) = (0xFF :: u8))"
    using ff by metis+
qed

lemma corrupted_trailer_not_legacy:
  assumes "bs_record_crc_inv s = NOT (bs_record_crc s)" "28 \<le> i" "i < 32"
  shows "\<not> bootloader_settings_is_legacy (settings_of_bytes ((settings_bytes s)[i := b]))"
proof
  let ?t = "settings_of_bytes ((settings_bytes s)[i := b])"
  assume leg: "bootloader_settings_is_legacy ?t"
  have img: "settings_bytes ?t = (settings_bytes s)[i := b]" by (simp add: settings_bytes_inverse)
  have ff: "settings_bytes ?t ! j = 0xFF" if "28 \<le> j" "j < 32" for j
  proof -
    from that consider "j = 28" | "j = 29" | "j = 30" | "j = 31" by linarith
    then show ?thesis
      using leg by cases (simp_all only: settings_trailer_bytes bootloader_settings_is_legacy_def, simp_all)
  qed
  from assms(2,3) consider "i = 28 \<or> i = 30" | "i = 29 \<or> i = 31" by linarith
  then show False
  proof cases
    case 1
    then have "settings_bytes s ! 29 = 0xFF" "settings_bytes s ! 31 = 0xFF"
      using ff [of 29] ff [of 31] unfolding img by auto
    then show False
      using complement_bytes_not_both_FF(2) [of "bs_record_crc s"] assms(1) by (simp add: settings_trailer_bytes)
  next
    case 2
    then have "settings_bytes s ! 28 = 0xFF" "settings_bytes s ! 30 = 0xFF"
      using ff [of 28] ff [of 30] unfolding img by auto
    then show False
      using complement_bytes_not_both_FF(1) [of "bs_record_crc s"] assms(1) by (simp add: settings_trailer_bytes)
  qed
qed

lemma settings_trailer_rd [simp]:
  "rd_u16 (drop 28 (settings_bytes s)) = bs_record_crc s"
  "rd_u16 (drop 30 (settings_bytes s)) = bs_record_crc_inv s"
  by (simp_all add: settings_bytes_def)

definition sealed_settings :: "bootloader_settings \<Rightarrow> bool" where
  "sealed_settings t \<longleftrightarrow> bs_format_version t = BOOTLOADER_SETTINGS_FORMAT_VERSION \<and>
     bs_record_crc t = crc16_compute (settings_prefix t) None \<and>
     bs_record_crc_inv t = NOT (bs_record_crc t)"

lemma sealed_settings_seal: "sealed_settings (bootloader_settings_seal s)"
  by (simp add: sealed_settings_def seal_sealed(1,3)) (rule seal_sealed(2))

lemma integrity_not_legacy:
  "\<not> bootloader_settings_is_legacy t \<Longrightarrow> bootloader_settings_integrity_valid t = sealed_settings t"
  by (auto simp: bootloader_settings_integrity_valid_def sealed_settings_def)

lemma settings_prefix_corrupted:
  assumes "i < 28"
  shows "settings_prefix (settings_of_bytes ((settings_bytes t)[i := b])) =
    take i (settings_prefix t) @ b # drop (Suc i) (settings_prefix t)"
proof -
  have "settings_prefix (settings_of_bytes ((settings_bytes t)[i := b])) = take 28 ((settings_bytes t)[i := b])"
    by (subst take_settings_bytes [symmetric], subst settings_bytes_inverse) simp_all
  also have "\<dots> = (settings_prefix t)[i := b]" by (simp only: take_update_swap take_settings_bytes)
  finally show ?thesis using assms by (simp add: upd_conv_take_nth_drop)
qed

lemma prefix_corruption_rejected:
  assumes "sealed_settings t" "i < 28" "b \<noteq> settings_bytes t ! i"
  shows "\<not> bootloader_settings_integrity_valid (settings_of_bytes ((settings_bytes t)[i := b]))"
proof -
  let ?t = "settings_of_bytes ((settings_bytes t)[i := b])" and ?p = "settings_prefix t"
  have trailer: "bs_record_crc ?t = bs_record_crc t" "bs_record_crc_inv ?t = bs_record_crc_inv t"
    using assms(2) by (simp_all add: settings_of_bytes_def)
  have "?p = take i ?p @ ?p ! i # drop (Suc i) ?p" using assms(2) by (simp add: id_take_nth_drop)
  moreover have "b \<noteq> ?p ! i" using assms(2,3) by (simp add: settings_bytes_def nth_append)
  ultimately have "crc16_compute (settings_prefix ?t) None \<noteq> crc16_compute ?p None"
    unfolding settings_prefix_corrupted [OF assms(2)] crc16_compute_def
    using crc16.single_byte_detected by metis
  then show ?thesis
    using assms(1) trailer complement_not_legacy [of ?t]
    by (simp add: integrity_not_legacy sealed_settings_def)
qed

lemma trailer_corruption_rejected:
  assumes "sealed_settings t" "28 \<le> i" "i < 32" "b \<noteq> settings_bytes t ! i"
  shows "\<not> bootloader_settings_integrity_valid (settings_of_bytes ((settings_bytes t)[i := b]))"
proof
  let ?t = "settings_of_bytes ((settings_bytes t)[i := b])"
  assume valid: "bootloader_settings_integrity_valid ?t"
  have img: "settings_bytes ?t = (settings_bytes t)[i := b]" by (simp add: settings_bytes_inverse)
  have "\<not> bootloader_settings_is_legacy ?t"
    using assms(1-3) by (intro corrupted_trailer_not_legacy) (auto simp: sealed_settings_def)
  with valid have "sealed_settings ?t" by (simp add: integrity_not_legacy)
  moreover have pre: "settings_prefix ?t = settings_prefix t"
    using assms(2) img by (metis take_settings_bytes take_update_cancel)
  ultimately have "settings_bytes ?t = settings_bytes t"
    using assms(1) by (simp add: settings_bytes_def sealed_settings_def)
  with img assms(3,4) show False by (metis length_settings_bytes nth_list_update_eq)
qed



end
