(* ===== verification/Build_Config.thy ===== *)
theory Build_Config
  imports Prelude
begin

text \<open>
  The build-time configuration and the flash map.  The C sources select code with the
  preprocessor; here a build is a value of the record \<open>build\<close>, one field per macro the
  modelled code tests, and every definition that the preprocessor specialises takes the build
  as its first argument.  \<open>build_ok\<close> collects the \<open>#error\<close> guards of \<open>ota_delta.c\<close> and
  \<open>ota_rak_sd_info.h\<close>.  The map constants are those of \<open>ota_layout.h\<close> and \<open>dfu_types.h\<close>.
\<close>

section \<open>Build record\<close>

datatype chip = NRF52832 | NRF52833 | NRF52840

record build =
  b_chip :: chip
  b_recovery_allow_all_boards :: bool
  b_softdevice_family :: u32
  b_usb_vid :: u16
  b_usb_uf2_pid :: u16
  b_device_name :: bytes            \<comment> \<open>\<open>DEVICE_NAME\<close> without its terminating zero\<close>
  b_sd_card :: bool                 \<comment> \<open>\<open>MOTA_SD_CARD\<close>\<close>
  b_sd_bootloader_update :: bool    \<comment> \<open>\<open>MOTA_SD_BOOTLOADER_UPDATE\<close>\<close>
  b_sd_dual_store :: bool           \<comment> \<open>\<open>MOTA_SD_DUAL_STORE\<close>\<close>
  b_rak_sd_store :: bool            \<comment> \<open>\<open>MOTA_RAK_SD_STORE\<close>\<close>
  b_qspi_flash :: bool              \<comment> \<open>\<open>MOTA_QSPI_FLASH\<close>\<close>
  b_qspi_bootloader_update :: bool  \<comment> \<open>\<open>MOTA_QSPI_BOOTLOADER_UPDATE\<close>\<close>
  b_qspi_xiao_identity :: bool      \<comment> \<open>\<open>MOTA_QSPI_XIAO_IDENTITY\<close>\<close>
  b_internal_bootloader_update :: bool \<comment> \<open>\<open>MOTA_INTERNAL_BOOTLOADER_UPDATE\<close>\<close>
  b_rak_auto_store :: bool          \<comment> \<open>\<open>MOTA_RAK_AUTO_STORE\<close>\<close>
  b_rak_auto_rak4631 :: bool        \<comment> \<open>\<open>MOTA_RAK_AUTO_RAK4631\<close>\<close>
  b_ram_arena :: bool               \<comment> \<open>\<open>MOTA_RAM_ARENA_SIZE > 0\<close>\<close>

definition b_bootloader_update_enabled :: "build \<Rightarrow> bool" where
  "b_bootloader_update_enabled b \<longleftrightarrow>
     b_sd_bootloader_update b \<or> b_qspi_bootloader_update b \<or> b_internal_bootloader_update b"

definition build_ok :: "build \<Rightarrow> bool" where
  "build_ok b \<longleftrightarrow>
     (b_ram_arena b \<longrightarrow>
        \<not> ((\<not> b_internal_bootloader_update b \<and> \<not> b_rak_auto_store b) \<or>
           (b_sd_card b \<and> \<not> b_sd_dual_store b \<and> \<not> b_rak_sd_store b) \<or>
           (b_qspi_flash b \<and> \<not> b_rak_auto_store b))) \<and>
     (b_qspi_xiao_identity b \<longrightarrow>
        \<not> (\<not> b_qspi_bootloader_update b \<or> b_usb_vid b \<noteq> 0x2886 \<or>
           (b_usb_uf2_pid b \<noteq> 0x0044 \<and> b_usb_uf2_pid b \<noteq> 0x0045))) \<and>
     \<not> ((b_sd_bootloader_update b \<and> b_qspi_bootloader_update b) \<or>
        (b_sd_bootloader_update b \<and> b_internal_bootloader_update b \<and>
           \<not> b_sd_dual_store b \<and> \<not> b_rak_sd_store b) \<or>
        (b_qspi_bootloader_update b \<and> b_internal_bootloader_update b)) \<and>
     (b_sd_dual_store b \<longrightarrow>
        \<not> (\<not> b_sd_card b \<or> \<not> b_sd_bootloader_update b \<or> \<not> b_internal_bootloader_update b \<or>
           b_qspi_flash b)) \<and>
     (b_bootloader_update_enabled b \<longrightarrow> b_chip b = NRF52840) \<and>
     (if b_sd_bootloader_update b then b_sd_card b
      else if b_qspi_bootloader_update b then b_qspi_flash b
      else if b_internal_bootloader_update b
           then \<not> ((b_qspi_flash b \<and> \<not> b_rak_auto_store b) \<or> (b_sd_card b \<and> \<not> b_rak_sd_store b))
      else True) \<and>
     (b_rak_sd_store b \<longrightarrow>
        \<not> (\<not> b_rak_auto_store b \<or> \<not> b_rak_auto_rak4631 b \<or> \<not> b_qspi_flash b \<or> \<not> b_sd_card b \<or>
           \<not> b_internal_bootloader_update b \<or> b_sd_bootloader_update b \<or> \<not> b_ram_arena b \<or>
           b_sd_dual_store b)) \<and>
     length (b_device_name b) < 16"

text \<open>The internal-only nRF52840 profile (the T096/T114/ProMicro family of releases).\<close>

definition internal_build :: build where
  "internal_build = \<lparr>b_chip = NRF52840, b_recovery_allow_all_boards = False,
     b_softdevice_family = 140, b_usb_vid = 0x239A, b_usb_uf2_pid = 0x0071,
     b_device_name = [0x54, 0x31, 0x31, 0x34], b_sd_card = False,
     b_sd_bootloader_update = False, b_sd_dual_store = False, b_rak_sd_store = False,
     b_qspi_flash = False, b_qspi_bootloader_update = False, b_qspi_xiao_identity = False,
     b_internal_bootloader_update = True, b_rak_auto_store = False, b_rak_auto_rak4631 = False,
     b_ram_arena = True\<rparr>"

lemma build_ok_internal: "build_ok internal_build"
  by (simp add: build_ok_def internal_build_def b_bootloader_update_enabled_def)

definition board_id :: "build \<Rightarrow> u32" where
  "board_id b = push_bit 16 (ucast (b_usb_vid b)) OR ucast (b_usb_uf2_pid b)"

definition device_name_field :: "build \<Rightarrow> bytes" where
  "device_name_field b = take 16 (b_device_name b @ replicate 16 0)"

section \<open>Flash map\<close>

abbreviation PAGE :: u32 where "PAGE \<equiv> 0x1000"

definition MBR_SIZE :: u32 where [layout_simps]: "MBR_SIZE = 0x1000"
definition MOTA_NRF52_EXTRAFS_START :: u32 where [layout_simps]: "MOTA_NRF52_EXTRAFS_START = 0x000D4000"
definition MOTA_NRF52_APP_END :: u32 where [layout_simps]: "MOTA_NRF52_APP_END = 0x000ED000"
definition MOTA_NRF52_BL_START :: u32 where [layout_simps]: "MOTA_NRF52_BL_START = 0x000F4000"
definition MOTA_NRF52_BL_SIZE :: u32 where [layout_simps]: "MOTA_NRF52_BL_SIZE = 0x0000A000"
definition MOTA_NRF52_INTERNAL_BL_SLOT_START :: u32 where
  [layout_simps]: "MOTA_NRF52_INTERNAL_BL_SLOT_START = 0x000E2000"
definition MOTA_NRF52_INTERNAL_BL_SLOT_END :: u32 where
  [layout_simps]: "MOTA_NRF52_INTERNAL_BL_SLOT_END = 0x000ED000"
definition MOTA_NRF52_BL_SCRATCH_START :: u32 where
  [layout_simps]: "MOTA_NRF52_BL_SCRATCH_START = 0x000E0000"
definition MOTA_NRF52_STAGE_CEILING_LEGACY :: u32 where
  [layout_simps]: "MOTA_NRF52_STAGE_CEILING_LEGACY = 0x000D4000"
definition MOTA_NRF52_STAGE_CEILING_EXPANDED :: u32 where
  [layout_simps]: "MOTA_NRF52_STAGE_CEILING_EXPANDED = 0x000ED000"

fun BOOTLOADER_REGION_START :: "chip \<Rightarrow> u32" where
  "BOOTLOADER_REGION_START NRF52840 = 0x000F4000"
| "BOOTLOADER_REGION_START _ = 0x00074000"

fun BOOTLOADER_MBR_PARAMS_PAGE_ADDRESS :: "chip \<Rightarrow> u32" where
  "BOOTLOADER_MBR_PARAMS_PAGE_ADDRESS NRF52840 = 0x000FE000"
| "BOOTLOADER_MBR_PARAMS_PAGE_ADDRESS _ = 0x0007E000"

fun BOOTLOADER_SETTINGS_ADDRESS :: "chip \<Rightarrow> u32" where
  "BOOTLOADER_SETTINGS_ADDRESS NRF52840 = 0x000FF000"
| "BOOTLOADER_SETTINGS_ADDRESS _ = 0x0007F000"

definition DFU_BL_IMAGE_MAX_SIZE :: "chip \<Rightarrow> u32" where
  "DFU_BL_IMAGE_MAX_SIZE c = BOOTLOADER_MBR_PARAMS_PAGE_ADDRESS c - BOOTLOADER_REGION_START c"

lemma DFU_BL_IMAGE_MAX_SIZE_value [layout_simps]: "DFU_BL_IMAGE_MAX_SIZE c = 0xA000"
  by (cases c) (simp_all add: DFU_BL_IMAGE_MAX_SIZE_def)

text \<open>GPREGRET triggers and GPREGRET2 stage selectors and results.\<close>

definition GPREGRET_OTA_APPLY :: u32 where [layout_simps]: "GPREGRET_OTA_APPLY = 0x6A"
definition GPREGRET_BOOTLOADER_APPLY :: u32 where [layout_simps]: "GPREGRET_BOOTLOADER_APPLY = 0x6B"
definition GPREGRET2_OTA_STAGE_LEGACY :: u32 where [layout_simps]: "GPREGRET2_OTA_STAGE_LEGACY = 0xD4"
definition GPREGRET2_OTA_STAGE_EXPANDED :: u32 where [layout_simps]: "GPREGRET2_OTA_STAGE_EXPANDED = 0xED"
definition GPREGRET2_OTA_STAGE_QSPI :: u32 where [layout_simps]: "GPREGRET2_OTA_STAGE_QSPI = 0x51"
definition GPREGRET2_OTA_STAGE_RAK15001 :: u32 where [layout_simps]: "GPREGRET2_OTA_STAGE_RAK15001 = 0x52"
definition GPREGRET2_OTA_STAGE_HEADER_W25 :: u32 where [layout_simps]: "GPREGRET2_OTA_STAGE_HEADER_W25 = 0x54"
definition GPREGRET2_OTA_STAGE_SD :: u32 where [layout_simps]: "GPREGRET2_OTA_STAGE_SD = 0x53"
definition GPREGRET2_OTA_STAGE_HYBRID :: u32 where [layout_simps]: "GPREGRET2_OTA_STAGE_HYBRID = 0xA6"
definition GPREGRET2_BL_GATE :: u32 where [layout_simps]: "GPREGRET2_BL_GATE = 0xC1"
definition GPREGRET2_BL_CONTAINER :: u32 where [layout_simps]: "GPREGRET2_BL_CONTAINER = 0xC2"
definition GPREGRET2_BL_POLICY :: u32 where [layout_simps]: "GPREGRET2_BL_POLICY = 0xC3"
definition GPREGRET2_BL_INTEGRITY :: u32 where [layout_simps]: "GPREGRET2_BL_INTEGRITY = 0xC4"
definition GPREGRET2_BL_MANIFEST :: u32 where [layout_simps]: "GPREGRET2_BL_MANIFEST = 0xC5"
definition GPREGRET2_BL_APPROVAL :: u32 where [layout_simps]: "GPREGRET2_BL_APPROVAL = 0xC6"
definition GPREGRET2_BL_COPY :: u32 where [layout_simps]: "GPREGRET2_BL_COPY = 0xC7"
definition GPREGRET2_BL_MBR_HANDOFF :: u32 where [layout_simps]: "GPREGRET2_BL_MBR_HANDOFF = 0xC8"
definition GPREGRET2_BL_MBR_RETURNED :: u32 where [layout_simps]: "GPREGRET2_BL_MBR_RETURNED = 0xC9"

section \<open>Nordic error codes\<close>

datatype nrf_error =
    NRF_SUCCESS | NRF_ERROR_NO_MEM | NRF_ERROR_NOT_FOUND | NRF_ERROR_NOT_SUPPORTED
  | NRF_ERROR_INVALID_PARAM | NRF_ERROR_INVALID_STATE | NRF_ERROR_INVALID_LENGTH
  | NRF_ERROR_INVALID_DATA | NRF_ERROR_DATA_SIZE | NRF_ERROR_NULL | NRF_ERROR_INVALID_ADDR
  | NRF_ERROR_BUSY | NRF_ERROR_INTERNAL | NRF_ERROR_FORBIDDEN | NRF_ERROR_TIMEOUT

end
