(* ===== verification/Boot_Image.thy ===== *)
theory Boot_Image
  imports Crc Build_Config
begin

text \<open>
  Identity of a bootloader image (\<open>src/src/usb/uf2/bootloader_image.c\<close>): the CRC over the
  image with its own CRC field masked, the vector-table check, the scan for exactly one
  board-bound \<open>BLMF\<close> manifest and the classification by the trailing \<open>BLM2\<close> extension.  A
  pointer together with its \<open>image_size\<close> is the byte list of that length; offsets into it are
  \<open>nat\<close> (an image is at most the 1 MiB of flash, so the 32-bit offset arithmetic of the scan
  does not wrap).
\<close>

section \<open>Masked CRC and vectors\<close>

definition bootloader_image_crc32 :: "bytes \<Rightarrow> nat \<Rightarrow> u32" where
  "bootloader_image_crc32 img crc_offset =
     (if crc_offset \<ge> length img \<or> crc_offset > 2 ^ 32 - 1 - 4
      then otafix_crc32_update 0 img
      else let tail = length img - crc_offset;
               masked = (if tail < 4 then tail else 4);
               crc = otafix_crc32_update 0 (take crc_offset img);
               crc = otafix_crc32_update crc (replicate masked 0)
           in otafix_crc32_update crc (drop (crc_offset + masked) img))"

fun ram_end :: "chip \<Rightarrow> u32" where
  "ram_end NRF52832 = 0x20010000"
| "ram_end NRF52833 = 0x20020000"
| "ram_end NRF52840 = 0x20040000"

definition bootloader_image_vectors_valid :: "build \<Rightarrow> bytes \<Rightarrow> u32 \<Rightarrow> u32 \<Rightarrow> bool" where
  "bootloader_image_vectors_valid b img code_start code_size =
     (if length img < 8 \<or> code_size < 8 \<or> code_start > UINT32_MAX - code_size then False
      else let initial_sp = rd_u32 img;
               reset = rd_u32 (drop 4 img);
               reset_addr = reset AND NOT 1
           in initial_sp AND 7 = 0 \<and> initial_sp \<ge> 0x20000000 \<and>
              initial_sp \<le> ram_end (b_chip b) \<and> reset AND 1 \<noteq> 0 \<and>
              reset_addr \<ge> code_start \<and> reset_addr < code_start + code_size)"

section \<open>Manifest and extension\<close>

record bootloader_update_manifest =
  bm_magic0 :: u32
  bm_magic1 :: u32
  bm_version :: u16
  bm_header_size :: u16
  bm_image_start :: u32
  bm_image_size :: u32
  bm_board_id :: u32
  bm_device_name :: bytes
  bm_crc32 :: u32

definition manifest_of_bytes :: "bytes \<Rightarrow> bootloader_update_manifest" where
  "manifest_of_bytes c = \<lparr>bm_magic0 = rd_u32 c, bm_magic1 = rd_u32 (drop 4 c),
     bm_version = rd_u16 (drop 8 c), bm_header_size = rd_u16 (drop 10 c),
     bm_image_start = rd_u32 (drop 12 c), bm_image_size = rd_u32 (drop 16 c),
     bm_board_id = rd_u32 (drop 20 c), bm_device_name = take 16 (drop 24 c),
     bm_crc32 = rd_u32 (drop 40 c)\<rparr>"

record bootloader_update_extension =
  be_magic0 :: u32
  be_magic1 :: u32
  be_version :: u16
  be_header_size :: u16
  be_boot_version :: u32
  be_softdevice_family :: u16
  be_softdevice_fwid :: u16
  be_app_base :: u32
  be_layout_abi :: u16
  be_compat_flags :: u16
  be_reserved :: u32

definition extension_of_bytes :: "bytes \<Rightarrow> bootloader_update_extension" where
  "extension_of_bytes c = \<lparr>be_magic0 = rd_u32 c, be_magic1 = rd_u32 (drop 4 c),
     be_version = rd_u16 (drop 8 c), be_header_size = rd_u16 (drop 10 c),
     be_boot_version = rd_u32 (drop 12 c), be_softdevice_family = rd_u16 (drop 16 c),
     be_softdevice_fwid = rd_u16 (drop 18 c), be_app_base = rd_u32 (drop 20 c),
     be_layout_abi = rd_u16 (drop 24 c), be_compat_flags = rd_u16 (drop 26 c),
     be_reserved = rd_u32 (drop 28 c)\<rparr>"

record bootloader_image_info =
  bi_boot_version :: u32
  bi_softdevice_family :: u16
  bi_softdevice_fwid :: u16
  bi_app_base :: u32
  bi_layout_abi :: u16

datatype bootloader_image_format =
    BOOTLOADER_IMAGE_INVALID
  | BOOTLOADER_IMAGE_LEGACY
  | BOOTLOADER_IMAGE_V2 bootloader_image_info

definition BOOTLOADER_UPDATE_LAYOUT_ABI :: u16 where "BOOTLOADER_UPDATE_LAYOUT_ABI = 1"
definition MANIFEST_MAGIC :: bytes where
  "MANIFEST_MAGIC = [0x42, 0x4C, 0x4D, 0x46, 0x43, 0x52, 0x43, 0x31]"
abbreviation MANIFEST_SIZE :: nat where "MANIFEST_SIZE \<equiv> 44"
abbreviation EXTENSION_SIZE :: nat where "EXTENSION_SIZE \<equiv> 32"
abbreviation ENVELOPE_SIZE :: nat where "ENVELOPE_SIZE \<equiv> 76"

definition bootloader_extension_validate :: "bootloader_update_extension \<Rightarrow> bool" where
  "bootloader_extension_validate e =
     (let version = be_boot_version e
      in be_magic0 e = 0x324D4C42 \<and> be_magic1 e = 0x54464F53 \<and> be_version e = 2 \<and>
         be_header_size e = of_nat EXTENSION_SIZE \<and> version \<noteq> UINT32_MAX \<and>
         version AND 0xFF \<noteq> 0 \<and> be_softdevice_family e \<noteq> 0 \<and>
         be_softdevice_fwid e \<noteq> 0 \<and> be_app_base e \<noteq> 0 \<and>
         be_layout_abi e \<noteq> 0 \<and> be_compat_flags e = 0 \<and> be_reserved e = 0)"

definition recovery_identity_valid :: "bootloader_update_manifest \<Rightarrow> bool" where
  "recovery_identity_valid m =
     (let first = bm_device_name m ! 0
      in bm_board_id m \<noteq> 0 \<and> bm_board_id m \<noteq> UINT32_MAX \<and>
         first \<ge> 0x21 \<and> first \<le> 0x7E \<and> bm_device_name m ! 15 = 0)"

text \<open>The body of the scan loop up to the uniqueness test: whether it reaches it at an offset.\<close>

definition manifest_candidate_ok ::
    "build \<Rightarrow> bytes \<Rightarrow> u32 \<Rightarrow> u32 \<Rightarrow> bytes \<Rightarrow> bool \<Rightarrow> nat \<Rightarrow> bool" where
  "manifest_candidate_ok b img image_start expected_board_id expected_device_name
       allow_other_boards offset =
     (let candidate = drop offset img;
          m = manifest_of_bytes candidate
      in if take 8 candidate \<noteq> MANIFEST_MAGIC then False
         else if bm_version m \<noteq> 1 \<or> bm_header_size m \<noteq> of_nat MANIFEST_SIZE \<or>
                 bm_image_start m \<noteq> image_start \<or> bm_image_size m \<noteq> of_nat (length img) then False
         else let identity_matches =
                    (if b_recovery_allow_all_boards b \<and> allow_other_boards
                     then recovery_identity_valid m
                     else bm_board_id m = expected_board_id \<and>
                          bm_device_name m = take 16 expected_device_name)
              in if \<not> identity_matches then False
                 else bootloader_image_crc32 img (offset + 40) = bm_crc32 m)"

fun manifest_scan :: "(nat \<Rightarrow> bool) \<Rightarrow> nat list \<Rightarrow> nat option \<Rightarrow> nat option" where
  "manifest_scan ok [] valid_offset = valid_offset"
| "manifest_scan ok (offset # offsets) valid_offset =
     (if \<not> ok offset then manifest_scan ok offsets valid_offset
      else case valid_offset of
             Some _ \<Rightarrow> None
           | None \<Rightarrow> manifest_scan ok offsets (Some offset))"

definition scan_offsets :: "nat \<Rightarrow> nat list" where
  "scan_offsets image_size =
     (if image_size < MANIFEST_SIZE then []
      else map (\<lambda>i. 4 * i) [0..<(image_size - MANIFEST_SIZE) div 4 + 1])"

definition bootloader_manifest_find ::
    "build \<Rightarrow> bytes \<Rightarrow> u32 \<Rightarrow> u32 \<Rightarrow> bytes \<Rightarrow> bool \<Rightarrow> nat option" where
  "bootloader_manifest_find b img image_start expected_board_id expected_device_name allow_other_boards =
     (if length img < MANIFEST_SIZE then None
      else if length img > unat (UINT32_MAX - image_start) \<or>
              \<not> bootloader_image_vectors_valid b img image_start (of_nat (length img)) then None
      else manifest_scan
             (manifest_candidate_ok b img image_start expected_board_id expected_device_name allow_other_boards)
             (scan_offsets (length img)) None)"

definition bootloader_image_classify_impl ::
    "build \<Rightarrow> bytes \<Rightarrow> u32 \<Rightarrow> u32 \<Rightarrow> bytes \<Rightarrow> bool \<Rightarrow> bootloader_image_format" where
  "bootloader_image_classify_impl b img image_start expected_board_id expected_device_name allow_other_boards =
     (case bootloader_manifest_find b img image_start expected_board_id expected_device_name
             allow_other_boards of
        None \<Rightarrow> BOOTLOADER_IMAGE_INVALID
      | Some manifest_offset \<Rightarrow>
          if length img < ENVELOPE_SIZE \<or> manifest_offset \<noteq> length img - ENVELOPE_SIZE
          then BOOTLOADER_IMAGE_LEGACY
          else let ext = extension_of_bytes (drop (manifest_offset + MANIFEST_SIZE) img)
               in if \<not> bootloader_extension_validate ext then BOOTLOADER_IMAGE_INVALID
                  else BOOTLOADER_IMAGE_V2
                         \<lparr>bi_boot_version = be_boot_version ext,
                          bi_softdevice_family = be_softdevice_family ext,
                          bi_softdevice_fwid = be_softdevice_fwid ext,
                          bi_app_base = be_app_base ext,
                          bi_layout_abi = be_layout_abi ext\<rparr>)"

definition bootloader_image_classify ::
    "build \<Rightarrow> bytes \<Rightarrow> u32 \<Rightarrow> u32 \<Rightarrow> bytes \<Rightarrow> bootloader_image_format" where
  "bootloader_image_classify b img image_start board nm =
     bootloader_image_classify_impl b img image_start board nm False"

definition bootloader_image_classify_manual ::
    "build \<Rightarrow> bytes \<Rightarrow> u32 \<Rightarrow> u32 \<Rightarrow> bytes \<Rightarrow> bootloader_image_format" where
  "bootloader_image_classify_manual b img image_start board nm =
     bootloader_image_classify_impl b img image_start board nm (b_recovery_allow_all_boards b)"

definition bootloader_image_info ::
    "build \<Rightarrow> bytes \<Rightarrow> u32 \<Rightarrow> u32 \<Rightarrow> bytes \<Rightarrow> bootloader_image_info option" where
  "bootloader_image_info b img image_start board nm =
     (case bootloader_image_classify b img image_start board nm of
        BOOTLOADER_IMAGE_V2 info \<Rightarrow> Some info | _ \<Rightarrow> None)"

definition bootloader_image_validate :: "build \<Rightarrow> bytes \<Rightarrow> u32 \<Rightarrow> u32 \<Rightarrow> bytes \<Rightarrow> bool" where
  "bootloader_image_validate b img image_start board nm \<longleftrightarrow>
     bootloader_manifest_find b img image_start board nm False \<noteq> None"

section \<open>The scan finds the unique manifest\<close>

lemma manifest_scan_found:
  "manifest_scan ok offs (Some v) = (if \<exists>x \<in> set offs. ok x then None else Some v)"
  by (induction offs) auto

lemma manifest_scan_unique:
  assumes "distinct offs"
  shows "manifest_scan ok offs None = Some v \<longleftrightarrow> v \<in> set offs \<and> ok v \<and> (\<forall>x \<in> set offs. ok x \<longrightarrow> x = v)"
  using assms
proof (induction offs)
  case Nil
  then show ?case by simp
next
  case (Cons x offs)
  then show ?case by (cases "ok x") (auto simp: manifest_scan_found)
qed

lemma set_scan_offsets: "set (scan_offsets n) = {off. 4 dvd off \<and> off + MANIFEST_SIZE \<le> n}"
proof -
  have "off \<in> (\<lambda>i. 4 * i) ` {0..<(n - 44) div 4 + 1} \<longleftrightarrow> 4 dvd off \<and> off + 44 \<le> n" if "44 \<le> n" for off
  proof
    assume "off \<in> (\<lambda>i. 4 * i) ` {0..<(n - 44) div 4 + 1}"
    then obtain i where "off = 4 * i" "i \<le> (n - 44) div 4" by auto
    moreover from this have "4 * i \<le> n - 44" by linarith
    ultimately show "4 dvd off \<and> off + 44 \<le> n" using that by simp
  next
    assume *: "4 dvd off \<and> off + 44 \<le> n"
    then obtain i where "off = 4 * i" by (auto simp: dvd_def)
    with * show "off \<in> (\<lambda>i. 4 * i) ` {0..<(n - 44) div 4 + 1}" by auto
  qed
  then have "44 \<le> n \<Longrightarrow> set (scan_offsets n) = {off. 4 dvd off \<and> off + MANIFEST_SIZE \<le> n}"
    by (simp add: scan_offsets_def set_eq_iff del: upt_Suc)
  then show ?thesis by (cases "44 \<le> n") (auto simp: scan_offsets_def)
qed

lemma distinct_scan_offsets: "distinct (scan_offsets n)"
  by (simp add: scan_offsets_def distinct_map inj_on_def del: upt_Suc)

text \<open>
  The specification of the manifest search: the one aligned offset at which a permitted,
  CRC-matching manifest of the whole image stands.
\<close>

definition is_the_manifest ::
    "build \<Rightarrow> bytes \<Rightarrow> u32 \<Rightarrow> u32 \<Rightarrow> bytes \<Rightarrow> bool \<Rightarrow> nat \<Rightarrow> bool" where
  "is_the_manifest b img start board nm allow off \<longleftrightarrow>
     4 dvd off \<and> off + MANIFEST_SIZE \<le> length img \<and>
     manifest_candidate_ok b img start board nm allow off \<and>
     (\<forall>off'. 4 dvd off' \<and> off' + MANIFEST_SIZE \<le> length img \<and>
        manifest_candidate_ok b img start board nm allow off' \<longrightarrow> off' = off)"

lemma manifest_find_iff:
  "bootloader_manifest_find b img start board nm allow = Some off \<longleftrightarrow>
     length img \<le> unat (UINT32_MAX - start) \<and>
     bootloader_image_vectors_valid b img start (of_nat (length img)) \<and>
     is_the_manifest b img start board nm allow off"
  by (auto simp: bootloader_manifest_find_def manifest_scan_unique [OF distinct_scan_offsets]
      set_scan_offsets is_the_manifest_def)

lemma candidate_identity:
  assumes "manifest_candidate_ok b img start board nm allow off" "\<not> (b_recovery_allow_all_boards b \<and> allow)"
  shows "rd_u32 (drop (off + 20) img) = board" "take 16 (drop (off + 24) img) = take 16 nm"
    "rd_u32 (drop (off + 16) img) = of_nat (length img)" "rd_u32 (drop (off + 12) img) = start"
    "rd_u32 (drop (off + 40) img) = bootloader_image_crc32 img (off + 40)"
  using assms by (auto simp: manifest_candidate_ok_def manifest_of_bytes_def Let_def add.commute split: if_splits)

lemma crc32_masked:
  assumes "crc_offset + 4 \<le> length img" "length img < 2 ^ 32"
  shows "bootloader_image_crc32 img crc_offset =
    otafix_crc32_update 0 (take crc_offset img @ [0, 0, 0, 0] @ drop (crc_offset + 4) img)"
proof -
  have "replicate 4 (0 :: u8) = [0, 0, 0, 0]" by (simp add: numeral_eq_Suc)
  moreover have "\<not> length img - crc_offset < 4" using assms by linarith
  ultimately show ?thesis
    using assms by (simp add: bootloader_image_crc32_def Let_def crc32_update_append)
qed

text \<open>A 52-byte image for one board: two vectors followed by its manifest.\<close>

definition sample_body :: bytes where
  "sample_body = [0, 16, 0, 32, 9, 64, 15, 0, 66, 76, 77, 70, 67, 82, 67, 49, 1, 0, 44, 0, 0, 64, 15, 0, 52,
     0, 0, 0, 113, 0, 154, 35, 84, 0, 0, 0, 0, 0, 0, 0, 0, 0, 0, 0, 0, 0, 0, 0]"

definition sample_bootloader :: bytes where
  "sample_bootloader = sample_body @ wr_u32 (otafix_crc32_update 0 (sample_body @ [0, 0, 0, 0]))"

lemma sample_bootloader_len: "length sample_bootloader = 52" by (simp add: sample_bootloader_def sample_body_def)

text \<open>
  C22. The strict bootloader identity check accepts an image exactly when its vectors are
  usable for its region and there is one, and only one, word-aligned manifest in it that
  names this board and device, this start address and this length and carries the CRC-32 of
  the whole image computed with the CRC field zeroed.  A second valid manifest anywhere
  makes the image invalid.
\<close>

theorem bootloader_image_validate_iff:
  assumes "length img < 2 ^ 32"
  shows "bootloader_image_validate b img start board nm \<longleftrightarrow>
     length img \<le> unat (UINT32_MAX - start) \<and>
     bootloader_image_vectors_valid b img start (of_nat (length img)) \<and>
     (\<exists>!off. 4 dvd off \<and> off + MANIFEST_SIZE \<le> length img \<and>
        take 8 (drop off img) = MANIFEST_MAGIC \<and> rd_u16 (drop (off + 8) img) = 1 \<and>
        rd_u16 (drop (off + 10) img) = 44 \<and> rd_u32 (drop (off + 12) img) = start \<and>
        rd_u32 (drop (off + 16) img) = of_nat (length img) \<and>
        rd_u32 (drop (off + 20) img) = board \<and> take 16 (drop (off + 24) img) = take 16 nm \<and>
        rd_u32 (drop (off + 40) img) =
          otafix_crc32_update 0 (take (off + 40) img @ [0, 0, 0, 0] @ drop (off + 44) img))"
proof -
  have cand: "off + MANIFEST_SIZE \<le> length img \<Longrightarrow> manifest_candidate_ok b img start board nm False off \<longleftrightarrow>
      take 8 (drop off img) = MANIFEST_MAGIC \<and> rd_u16 (drop (off + 8) img) = 1 \<and>
      rd_u16 (drop (off + 10) img) = 44 \<and> rd_u32 (drop (off + 12) img) = start \<and>
      rd_u32 (drop (off + 16) img) = of_nat (length img) \<and>
      rd_u32 (drop (off + 20) img) = board \<and> take 16 (drop (off + 24) img) = take 16 nm \<and>
      rd_u32 (drop (off + 40) img) =
        otafix_crc32_update 0 (take (off + 40) img @ [0, 0, 0, 0] @ drop (off + 44) img)" for off
    using assms crc32_masked [of "off + 40" img]
    by (auto simp: manifest_candidate_ok_def manifest_of_bytes_def Let_def add.commute)
  have "bootloader_image_validate b img start board nm \<longleftrightarrow>
      length img \<le> unat (UINT32_MAX - start) \<and>
      bootloader_image_vectors_valid b img start (of_nat (length img)) \<and>
      (\<exists>!off. 4 dvd off \<and> off + MANIFEST_SIZE \<le> length img \<and> manifest_candidate_ok b img start board nm False off)"
    unfolding bootloader_image_validate_def not_None_eq manifest_find_iff is_the_manifest_def Ex1_def by auto
  also have "(\<exists>!off. 4 dvd off \<and> off + MANIFEST_SIZE \<le> length img \<and> manifest_candidate_ok b img start board nm False off) \<longleftrightarrow>
    (\<exists>!off. 4 dvd off \<and> off + MANIFEST_SIZE \<le> length img \<and>
        take 8 (drop off img) = MANIFEST_MAGIC \<and> rd_u16 (drop (off + 8) img) = 1 \<and>
        rd_u16 (drop (off + 10) img) = 44 \<and> rd_u32 (drop (off + 12) img) = start \<and>
        rd_u32 (drop (off + 16) img) = of_nat (length img) \<and>
        rd_u32 (drop (off + 20) img) = board \<and> take 16 (drop (off + 24) img) = take 16 nm \<and>
        rd_u32 (drop (off + 40) img) =
          otafix_crc32_update 0 (take (off + 40) img @ [0, 0, 0, 0] @ drop (off + 44) img))"
    using cand by (intro arg_cong [where f = Ex1] ext) blast
  finally show ?thesis .
qed

theorem bootloader_image_validate_iff_witness:
  "bootloader_image_validate internal_build sample_bootloader 0xF4000 0x239A0071 [84, 0, 0, 0, 0, 0, 0, 0, 0, 0, 0, 0, 0, 0, 0, 0]"
proof -
  let ?n = "[84, 0, 0, 0, 0, 0, 0, 0, 0, 0, 0, 0, 0, 0, 0, 0] :: bytes"
  have vec: "bootloader_image_vectors_valid internal_build sample_bootloader 0xF4000 52"
    by (simp add: bootloader_image_vectors_valid_def sample_bootloader_def sample_body_def rd_u32_def internal_build_def)
  have off: "4 dvd off \<and> off + MANIFEST_SIZE \<le> 52 \<Longrightarrow> off = 0 \<or> off = 4 \<or> off = 8" for off :: nat by presburger
  have magic: "take 8 (drop off sample_bootloader) = MANIFEST_MAGIC \<Longrightarrow> off = 8"
    if "off = 0 \<or> off = 4 \<or> off = 8" for off
    using that by (auto simp: sample_bootloader_def sample_body_def MANIFEST_MAGIC_def)
  have rd: "rd_u32 (drop 48 sample_bootloader) = otafix_crc32_update 0 (take 48 sample_bootloader @ [0, 0, 0, 0])"
    by (simp add: sample_bootloader_def sample_body_def)
  have "bootloader_image_validate internal_build sample_bootloader 0xF4000 0x239A0071 ?n \<longleftrightarrow>
      (\<exists>!off. 4 dvd off \<and> off + MANIFEST_SIZE \<le> 52 \<and> take 8 (drop off sample_bootloader) = MANIFEST_MAGIC \<and>
        rd_u16 (drop (off + 8) sample_bootloader) = 1 \<and> rd_u16 (drop (off + 10) sample_bootloader) = 44 \<and>
        rd_u32 (drop (off + 12) sample_bootloader) = 0xF4000 \<and> rd_u32 (drop (off + 16) sample_bootloader) = 52 \<and>
        rd_u32 (drop (off + 20) sample_bootloader) = 0x239A0071 \<and> take 16 (drop (off + 24) sample_bootloader) = ?n \<and>
        rd_u32 (drop (off + 40) sample_bootloader) =
          otafix_crc32_update 0 (take (off + 40) sample_bootloader @ [0, 0, 0, 0] @ drop (off + 44) sample_bootloader))"
    using bootloader_image_validate_iff [of sample_bootloader internal_build "0xF4000" "0x239A0071" ?n] vec
    by (simp add: sample_bootloader_len)
  also have "\<dots>"
  proof (rule ex1I [of _ 8], goal_cases)
    case 1
    show ?case
      by (simp add: rd sample_bootloader_len)
         (simp add: sample_bootloader_def sample_body_def MANIFEST_MAGIC_def rd_u32_def rd_u16_def)
  next
    case (2 off)
    then have "off = 0 \<or> off = 4 \<or> off = 8" by (intro off) blast
    then show ?case by (rule magic) (use 2 in blast)
  qed
  finally show ?thesis by simp
qed
end
