(* ===== verification/Soft_Device.thy ===== *)
theory Soft_Device
  imports Build_Config
begin

text \<open>
  What the bootloader reads of the installed Nordic SoftDevice (\<open>nrf_sdm.h\<close>, \<open>dfu_types.h\<close>,
  \<open>ota_softdevice_fwid.h\<close>): the information structure behind the MBR decides where the
  application region starts.  Flash is the address-indexed byte store \<open>m\<close>.
\<close>

definition SOFTDEVICE_INFO_STRUCT_OFFSET :: nat where [layout_simps]: "SOFTDEVICE_INFO_STRUCT_OFFSET = 0x2000"
definition SD_SIZE_OFFSET :: nat where [layout_simps]: "SD_SIZE_OFFSET = SOFTDEVICE_INFO_STRUCT_OFFSET + 0x08"
definition SD_FWID_OFFSET :: nat where [layout_simps]: "SD_FWID_OFFSET = SOFTDEVICE_INFO_STRUCT_OFFSET + 0x0C"
definition SD_ID_OFFSET :: nat where [layout_simps]: "SD_ID_OFFSET = SOFTDEVICE_INFO_STRUCT_OFFSET + 0x10"
definition SD_UNIQUE_STR_OFFSET :: nat where [layout_simps]: "SD_UNIQUE_STR_OFFSET = SOFTDEVICE_INFO_STRUCT_OFFSET + 0x18"
definition SD_UNIQUE_STR_SIZE :: nat where [layout_simps]: "SD_UNIQUE_STR_SIZE = 20"
definition SD_MAGIC_NUMBER :: u32 where [layout_simps]: "SD_MAGIC_NUMBER = 0x51B1E5DB"

definition rd_word :: "(u32 \<Rightarrow> u8) \<Rightarrow> u32 \<Rightarrow> u32" where
  "rd_word m a = rd_u32 (rd_bytes m a 4)"

definition is_sd_existed :: "(u32 \<Rightarrow> u8) \<Rightarrow> bool" where
  "is_sd_existed m \<longleftrightarrow> rd_word m (of_nat SOFTDEVICE_INFO_STRUCT_OFFSET + MBR_SIZE + 4) = SD_MAGIC_NUMBER"

definition SD_SIZE_GET :: "(u32 \<Rightarrow> u8) \<Rightarrow> u32 \<Rightarrow> u32" where
  "SD_SIZE_GET m baseaddr = rd_word m (baseaddr + of_nat SD_SIZE_OFFSET)"

definition SD_FWID_GET :: "(u32 \<Rightarrow> u8) \<Rightarrow> u32 \<Rightarrow> u16" where
  "SD_FWID_GET m baseaddr = rd_u16 (rd_bytes m (baseaddr + of_nat SD_FWID_OFFSET) 2)"

definition CODE_REGION_1_START :: "(u32 \<Rightarrow> u8) \<Rightarrow> u32" where
  "CODE_REGION_1_START m = (if is_sd_existed m then SD_SIZE_GET m MBR_SIZE else MBR_SIZE)"

definition mota_runtime_softdevice_fwid_get :: "(u32 \<Rightarrow> u8) \<Rightarrow> u16" where
  "mota_runtime_softdevice_fwid_get m = SD_FWID_GET m MBR_SIZE"

text \<open>Every one of these depends on the information structure only.\<close>

lemma rd_word_cong:
  assumes "\<And>a'. unat a \<le> unat a' \<Longrightarrow> unat a' < unat a + 4 \<Longrightarrow> m a' = m' a'" "unat a + 4 < 2 ^ 32"
  shows "rd_word m a = rd_word m' a"
proof -
  have "m (a + of_nat i) = m' (a + of_nat i)" if "i < 4" for i
    using that assms(2) by (intro assms(1)) (simp_all add: unat_word_ariths unat_of_nat)
  then have "rd_bytes m a 4 = rd_bytes m' a 4" by (rule rd_bytes_cong)
  then show ?thesis by (simp add: rd_word_def)
qed

lemma CODE_REGION_1_START_cong:
  assumes "\<And>a. 0x3000 \<le> a \<Longrightarrow> a < 0x3010 \<Longrightarrow> m a = m' a"
  shows "CODE_REGION_1_START m = CODE_REGION_1_START m'"
proof -
  have "rd_word m 0x3004 = rd_word m' 0x3004" "rd_word m 0x3008 = rd_word m' 0x3008"
    by (rule rd_word_cong; simp add: assms word_le_nat_alt word_less_nat_alt)+
  then show ?thesis
    by (simp add: CODE_REGION_1_START_def is_sd_existed_def SD_SIZE_GET_def layout_simps)
qed

end
