(* ===== verification/Image_Policy.thy ===== *)
theory Image_Policy
  imports Boot_Image Soft_Device
begin

text \<open>
  The role policy of Legacy DFU (\<open>src/src/dfu_image_policy.c\<close>): which START tuples are
  admitted before any flash is touched, and which received bytes may be activated in the role
  and split that the START packet declared.  The installed SoftDevice is read from the flash
  \<open>m\<close>; the running bootloader's own name field is \<open>device_name_field b\<close>.
\<close>

section \<open>START packet\<close>

record dfu_start_packet =
  dfu_update_mode :: u8
  sd_image_size :: u32
  bl_image_size :: u32
  app_image_size :: u32

definition DFU_UPDATE_SD :: u8 where [layout_simps]: "DFU_UPDATE_SD = 1"
definition DFU_UPDATE_BL :: u8 where [layout_simps]: "DFU_UPDATE_BL = 2"
definition DFU_UPDATE_APP :: u8 where [layout_simps]: "DFU_UPDATE_APP = 4"

text \<open>\<open>__builtin_add_overflow\<close>: \<open>None\<close> when the 32-bit sum wraps.\<close>

definition add_overflow :: "u32 \<Rightarrow> u32 \<Rightarrow> u32 option" where
  "add_overflow a b = (if unat a + unat b < 2 ^ 32 then Some (a + b) else None)"

definition populated_mode :: "dfu_start_packet \<Rightarrow> u8" where
  "populated_mode p =
     (if sd_image_size p \<noteq> 0 then DFU_UPDATE_SD else 0) OR
     (if bl_image_size p \<noteq> 0 then DFU_UPDATE_BL else 0) OR
     (if app_image_size p \<noteq> 0 then DFU_UPDATE_APP else 0)"

definition dfu_start_packet_validate :: "build \<Rightarrow> dfu_start_packet \<Rightarrow> nrf_error + u32" where
  "dfu_start_packet_validate b p =
     (if populated_mode p = 0 \<or> populated_mode p > DFU_UPDATE_APP \<or>
         dfu_update_mode p \<noteq> populated_mode p \<or>
         (sd_image_size p OR bl_image_size p OR app_image_size p) AND 3 \<noteq> 0
      then Inl NRF_ERROR_NOT_SUPPORTED
      else if bl_image_size p > DFU_BL_IMAGE_MAX_SIZE (b_chip b) then Inl NRF_ERROR_DATA_SIZE
      else case add_overflow (sd_image_size p) (bl_image_size p) of
             None \<Rightarrow> Inl NRF_ERROR_DATA_SIZE
           | Some image_size \<Rightarrow>
               (case add_overflow image_size (app_image_size p) of
                  None \<Rightarrow> Inl NRF_ERROR_DATA_SIZE
                | Some image_size \<Rightarrow> Inr image_size))"

section \<open>Role of the received bytes\<close>

record softdevice_image_info =
  si_family :: u32
  si_fwid :: u16
  si_app_base :: u32

definition dfu_policy_runtime_app_base :: "(u32 \<Rightarrow> u8) \<Rightarrow> u32" where
  "dfu_policy_runtime_app_base m = CODE_REGION_1_START m"

definition dfu_policy_runtime_softdevice_fwid :: "(u32 \<Rightarrow> u8) \<Rightarrow> u16" where
  "dfu_policy_runtime_softdevice_fwid m = (if is_sd_existed m then SD_FWID_GET m MBR_SIZE else 0)"

definition softdevice_info :: "build \<Rightarrow> bytes \<Rightarrow> softdevice_image_info option" where
  "softdevice_info b img =
     (if length img < SD_UNIQUE_STR_OFFSET + SD_UNIQUE_STR_SIZE \<or>
         unat (img ! SOFTDEVICE_INFO_STRUCT_OFFSET) \<le> SD_ID_OFFSET - SOFTDEVICE_INFO_STRUCT_OFFSET \<or>
         rd_u32 (drop (SOFTDEVICE_INFO_STRUCT_OFFSET + 4) img) \<noteq> SD_MAGIC_NUMBER
      then None
      else let info = \<lparr>si_family = rd_u32 (drop SD_ID_OFFSET img),
                       si_fwid = rd_u16 (drop SD_FWID_OFFSET img),
                       si_app_base = rd_u32 (drop SD_SIZE_OFFSET img)\<rparr>
           in if si_family info \<noteq> b_softdevice_family b \<or> si_fwid info = 0 \<or>
                 si_fwid info = UINT16_MAX \<or> si_app_base info \<le> MBR_SIZE \<or>
                 si_app_base info \<ge> BOOTLOADER_REGION_START (b_chip b) \<or>
                 si_app_base info AND (PAGE - 1) \<noteq> 0 \<or>
                 of_nat (length img) > si_app_base info - MBR_SIZE
              then None
              else if bootloader_image_vectors_valid b img MBR_SIZE (of_nat (length img))
                   then Some info else None)"

definition bootloader_info ::
    "build \<Rightarrow> (u32 \<Rightarrow> u8) \<Rightarrow> bytes \<Rightarrow> softdevice_image_info option \<Rightarrow> bool" where
  "bootloader_info b m img incoming_sd =
     (if b_recovery_allow_all_boards b
      then length img \<le> unat (DFU_BL_IMAGE_MAX_SIZE (b_chip b)) \<and>
           bootloader_image_vectors_valid b img (BOOTLOADER_REGION_START (b_chip b)) (of_nat (length img))
      else if length img \<noteq> unat (DFU_BL_IMAGE_MAX_SIZE (b_chip b)) then False
      else case bootloader_image_classify_manual b img (BOOTLOADER_REGION_START (b_chip b))
                  (board_id b) (device_name_field b) of
             BOOTLOADER_IMAGE_INVALID \<Rightarrow> False
           | BOOTLOADER_IMAGE_V2 candidate \<Rightarrow>
               let expected_fwid = (case incoming_sd of Some sd \<Rightarrow> si_fwid sd
                                    | None \<Rightarrow> dfu_policy_runtime_softdevice_fwid m);
                   expected_app_base = (case incoming_sd of Some sd \<Rightarrow> si_app_base sd
                                        | None \<Rightarrow> dfu_policy_runtime_app_base m)
               in ucast (bi_softdevice_family candidate) = b_softdevice_family b \<and>
                  bi_softdevice_fwid candidate = expected_fwid \<and>
                  bi_app_base candidate = expected_app_base \<and>
                  bi_layout_abi candidate = BOOTLOADER_UPDATE_LAYOUT_ABI
           | BOOTLOADER_IMAGE_LEGACY \<Rightarrow>
               (case incoming_sd of
                  None \<Rightarrow> True
                | Some sd \<Rightarrow> si_fwid sd = dfu_policy_runtime_softdevice_fwid m \<and>
                             si_app_base sd = dfu_policy_runtime_app_base m))"

definition dfu_image_policy_validate ::
    "build \<Rightarrow> (u32 \<Rightarrow> u8) \<Rightarrow> bytes \<Rightarrow> dfu_start_packet \<Rightarrow> nrf_error" where
  "dfu_image_policy_validate b m img p =
     (case dfu_start_packet_validate b p of
        Inl _ \<Rightarrow> NRF_ERROR_INVALID_DATA
      | Inr declared_size \<Rightarrow>
          if length img \<noteq> unat declared_size then NRF_ERROR_INVALID_DATA
          else let mode = dfu_update_mode p
          in if mode = DFU_UPDATE_APP
             then (if bootloader_image_vectors_valid b img (dfu_policy_runtime_app_base m)
                        (of_nat (length img))
                   then NRF_SUCCESS else NRF_ERROR_INVALID_DATA)
             else let incoming_sd = softdevice_info b (take (unat (sd_image_size p)) img)
             in if mode AND DFU_UPDATE_SD \<noteq> 0 \<and> incoming_sd = None then NRF_ERROR_INVALID_DATA
             else if mode = DFU_UPDATE_SD \<and>
                     (si_fwid (the incoming_sd) \<noteq> dfu_policy_runtime_softdevice_fwid m \<or>
                      si_app_base (the incoming_sd) \<noteq> dfu_policy_runtime_app_base m)
             then NRF_ERROR_INVALID_DATA
             else let incoming_sd_ptr = (if mode AND DFU_UPDATE_SD \<noteq> 0 then incoming_sd else None)
             in if mode AND DFU_UPDATE_BL \<noteq> 0 \<and>
                   \<not> bootloader_info b m
                       (take (unat (bl_image_size p)) (drop (unat (sd_image_size p)) img)) incoming_sd_ptr
                then NRF_ERROR_INVALID_DATA
                else NRF_SUCCESS)"

section \<open>Admitted START tuples\<close>

lemma populated_mode_cases:
  "populated_mode p = (if sd_image_size p \<noteq> 0 then 1 else 0) + (if bl_image_size p \<noteq> 0 then 2 else 0) +
     (if app_image_size p \<noteq> 0 then 4 else 0)"
  by (simp add: populated_mode_def layout_simps)

lemma add_overflow_eq_Some [simp]:
  "add_overflow a b = Some c \<longleftrightarrow> unat a + unat b < 2 ^ 32 \<and> c = a + b"
  by (auto simp: add_overflow_def)

lemma add_overflow_eq_None [simp]: "add_overflow a b = None \<longleftrightarrow> \<not> unat a + unat b < 2 ^ 32"
  by (auto simp: add_overflow_def)

text \<open>The tuple is well formed: its mode byte names its non-empty parts, in one of the four admitted roles.\<close>

definition start_tuple_wf :: "dfu_start_packet \<Rightarrow> bool" where
  "start_tuple_wf p \<longleftrightarrow>
     (dfu_update_mode p = 4 \<and> sd_image_size p = 0 \<and> bl_image_size p = 0 \<and> app_image_size p \<noteq> 0 \<or>
      dfu_update_mode p = 1 \<and> sd_image_size p \<noteq> 0 \<and> bl_image_size p = 0 \<and> app_image_size p = 0 \<or>
      dfu_update_mode p = 2 \<and> sd_image_size p = 0 \<and> bl_image_size p \<noteq> 0 \<and> app_image_size p = 0 \<or>
      dfu_update_mode p = 3 \<and> sd_image_size p \<noteq> 0 \<and> bl_image_size p \<noteq> 0 \<and> app_image_size p = 0) \<and>
     4 dvd unat (sd_image_size p) \<and> 4 dvd unat (bl_image_size p) \<and> 4 dvd unat (app_image_size p)"

lemma start_tuple_wf_guard:
  "start_tuple_wf p \<longleftrightarrow> \<not> (populated_mode p = 0 \<or> populated_mode p > DFU_UPDATE_APP \<or>
     dfu_update_mode p \<noteq> populated_mode p \<or>
     (sd_image_size p OR bl_image_size p OR app_image_size p) AND 3 \<noteq> 0)"
  unfolding or_and_zero_iff unfolding and3_zero_iff start_tuple_wf_def
  by (cases "sd_image_size p = 0"; cases "bl_image_size p = 0"; cases "app_image_size p = 0")
     (auto simp: populated_mode_cases layout_simps)

definition start_total :: "dfu_start_packet \<Rightarrow> nat" where
  "start_total p = unat (sd_image_size p) + unat (bl_image_size p) + unat (app_image_size p)"

lemma start_packet_Inr_iff:
  "dfu_start_packet_validate b p = Inr n \<longleftrightarrow>
     start_tuple_wf p \<and> bl_image_size p \<le> DFU_BL_IMAGE_MAX_SIZE (b_chip b) \<and> unat n = start_total p"
proof -
  have sum: "unat x + unat y < 2 ^ 32 \<and> unat (x + y) + unat z < 2 ^ 32 \<and> n = x + y + z \<longleftrightarrow>
      unat n = unat x + unat y + unat z" for x y z :: u32
    using unat_u32_lt [of n] by (auto simp: unat_word_ariths word_unat_eq_iff)
  show ?thesis
    unfolding dfu_start_packet_validate_def start_tuple_wf_guard start_total_def sum [symmetric]
    by (auto split: option.splits)
qed

text \<open>
  A START tuple is admitted exactly when its mode byte names its non-empty components, it
  is an application alone or any non-empty combination of SoftDevice and bootloader, every
  size is a multiple of four, the bootloader fits its region and the three sizes add up
  without wrapping; the size handed on is then their exact sum.  A malformed tuple is
  refused as unsupported, an oversized one as a size error.
\<close>

theorem dfu_start_packet_validate_spec:
  "dfu_start_packet_validate b p =
     (if \<not> start_tuple_wf p then Inl NRF_ERROR_NOT_SUPPORTED
      else if bl_image_size p > DFU_BL_IMAGE_MAX_SIZE (b_chip b) \<or> start_total p \<ge> 2 ^ 32
      then Inl NRF_ERROR_DATA_SIZE
      else Inr (of_nat (start_total p)))"
proof (cases "dfu_start_packet_validate b p")
  case (Inl e)
  then show ?thesis
    using start_packet_Inr_iff [of b p "of_nat (start_total p)"] unat_of_nat_u32 [of "start_total p"]
    by (auto simp: start_tuple_wf_guard dfu_start_packet_validate_def not_less [symmetric]
        split: if_splits option.splits)
next
  case (Inr n)
  then have "start_tuple_wf p" "bl_image_size p \<le> DFU_BL_IMAGE_MAX_SIZE (b_chip b)" "unat n = start_total p"
    by (auto simp: start_packet_Inr_iff)
  moreover from this(3) have "start_total p < 2 ^ 32" "n = of_nat (start_total p)"
    using unat_u32_lt [of n] by (simp_all flip: \<open>unat n = start_total p\<close>)
  ultimately show ?thesis using Inr by (simp add: not_less)
qed

section \<open>What an accepted image is\<close>

lemma softdevice_info_SomeD:
  assumes "softdevice_info b img = Some info" "length img < 2 ^ 32"
  shows "si_family info = b_softdevice_family b" "si_fwid info \<noteq> 0" "si_fwid info \<noteq> UINT16_MAX"
    "si_app_base info < BOOTLOADER_REGION_START (b_chip b)" "0x1000 dvd unat (si_app_base info)"
    "unat MBR_SIZE + length img \<le> unat (si_app_base info)"
    "bootloader_image_vectors_valid b img MBR_SIZE (of_nat (length img))"
proof -
  from assms(1) have *: "si_family info = b_softdevice_family b \<and> si_fwid info \<noteq> 0 \<and> si_fwid info \<noteq> UINT16_MAX \<and>
      si_app_base info < BOOTLOADER_REGION_START (b_chip b) \<and> si_app_base info AND 0xFFF = 0 \<and>
      MBR_SIZE < si_app_base info \<and> of_nat (length img) \<le> si_app_base info - MBR_SIZE \<and>
      bootloader_image_vectors_valid b img MBR_SIZE (of_nat (length img))"
    by (auto simp: softdevice_info_def Let_def split: if_splits)
  then show "si_family info = b_softdevice_family b" "si_fwid info \<noteq> 0" "si_fwid info \<noteq> UINT16_MAX"
    "si_app_base info < BOOTLOADER_REGION_START (b_chip b)" "0x1000 dvd unat (si_app_base info)"
    "bootloader_image_vectors_valid b img MBR_SIZE (of_nat (length img))"
    by (simp_all flip: page_aligned_iff)
  from * have "MBR_SIZE \<le> si_app_base info" "of_nat (length img) \<le> si_app_base info - MBR_SIZE" by auto
  then show "unat MBR_SIZE + length img \<le> unat (si_app_base info)"
    using assms(2) by (simp add: word_le_nat_alt unat_sub_le unat_of_nat_u32 le_diff_conv2 add.commute)
qed

lemma bootloader_info_strict:
  assumes "bootloader_info b m img sd" "\<not> b_recovery_allow_all_boards b"
  shows "length img = unat (DFU_BL_IMAGE_MAX_SIZE (b_chip b))"
    "bootloader_image_validate b img (BOOTLOADER_REGION_START (b_chip b)) (board_id b) (device_name_field b)"
    "bootloader_image_classify b img (BOOTLOADER_REGION_START (b_chip b)) (board_id b) (device_name_field b) =
       BOOTLOADER_IMAGE_V2 c \<Longrightarrow>
     ucast (bi_softdevice_family c) = b_softdevice_family b \<and>
     bi_softdevice_fwid c = (case sd of Some i \<Rightarrow> si_fwid i | None \<Rightarrow> dfu_policy_runtime_softdevice_fwid m) \<and>
     bi_app_base c = (case sd of Some i \<Rightarrow> si_app_base i | None \<Rightarrow> dfu_policy_runtime_app_base m)"
  using assms
  by (auto simp: bootloader_info_def bootloader_image_classify_manual_def bootloader_image_classify_def
      bootloader_image_classify_impl_def bootloader_image_validate_def Let_def
      split: if_splits option.splits bootloader_image_format.splits)



end
