(* ===== verification/Nor_Flash.thy ===== *)
theory Nor_Flash
  imports Build_Config
begin

text \<open>
  The flash device under the bootloader.  Page erase sets a page to ones and programming only
  clears bits: these are the semantics of the NVMC and of the host models of the repository
  (\<open>otah_erase\<close>, \<open>otah_write_words\<close> of \<open>src/test\<close>).  The bootloader's flash traffic is a
  sequence of \<open>flash_cmd\<close>, one per erased page and programmed word, so that a loss of power is
  a prefix of the sequence.  The locale \<open>nor_device\<close> is the interface the clients rely on.
\<close>

section \<open>Device\<close>

type_synonym flash = "u32 \<Rightarrow> u8"

definition in_page :: "u32 \<Rightarrow> u32 \<Rightarrow> bool" where
  "in_page page a \<longleftrightarrow> a - page < PAGE"

definition fl_erase :: "flash \<Rightarrow> u32 \<Rightarrow> flash" where
  "fl_erase m page = (\<lambda>a. if in_page page a then 0xFF else m a)"

definition program_bytes :: "flash \<Rightarrow> u32 \<Rightarrow> bytes \<Rightarrow> flash" where
  "program_bytes m a bs = (\<lambda>x. if unat (x - a) < length bs then m x AND bs ! unat (x - a) else m x)"

definition fl_write_word :: "flash \<Rightarrow> u32 \<Rightarrow> u32 \<Rightarrow> flash" where
  "fl_write_word m a w = program_bytes m a (wr_u32 w)"

fun fl_write_words :: "flash \<Rightarrow> u32 \<Rightarrow> u32 list \<Rightarrow> flash" where
  "fl_write_words m a [] = m"
| "fl_write_words m a (w # ws) = fl_write_words (fl_write_word m a w) (a + 4) ws"

datatype flash_cmd = Page_Erase u32 | Word_Write u32 u32

fun exec_cmd :: "flash_cmd \<Rightarrow> flash \<Rightarrow> flash" where
  "exec_cmd (Page_Erase a) m = fl_erase m a"
| "exec_cmd (Word_Write a w) m = fl_write_word m a w"

definition exec_cmds :: "flash_cmd list \<Rightarrow> flash \<Rightarrow> flash" where
  "exec_cmds cs m = fold exec_cmd cs m"

fun words_write_cmds :: "u32 \<Rightarrow> u32 list \<Rightarrow> flash_cmd list" where
  "words_write_cmds a [] = []"
| "words_write_cmds a (w # ws) = Word_Write a w # words_write_cmds (a + 4) ws"

fun words_of_bytes :: "bytes \<Rightarrow> u32 list" where
  "words_of_bytes (a # b # c # d # bs) = rd_u32 [a, b, c, d] # words_of_bytes bs"
| "words_of_bytes _ = []"

section \<open>Interface\<close>

lemma and_0xFF_left [simp]: "(0xFF :: u8) AND x = x"
proof -
  have "(0xFF :: u8) = - 1" by simp
  then show ?thesis by (simp only: and.left_neutral)
qed

locale nor_device =
  fixes erase :: "flash \<Rightarrow> u32 \<Rightarrow> flash"
    and prog :: "flash \<Rightarrow> u32 \<Rightarrow> bytes \<Rightarrow> flash"
  assumes erase_in: "in_page p a \<Longrightarrow> erase m p a = 0xFF"
    and erase_out: "\<not> in_page p a \<Longrightarrow> erase m p a = m a"
    and prog_in: "i < length bs \<Longrightarrow> length bs \<le> 2 ^ 32 \<Longrightarrow> prog m a bs (a + of_nat i) = m (a + of_nat i) AND bs ! i"
    and prog_out: "\<not> unat (x - a) < length bs \<Longrightarrow> prog m a bs x = m x"
begin

lemma read_after_program:
  assumes "rd_bytes m a (length bs) = replicate (length bs) 0xFF" "length bs \<le> 2 ^ 32"
  shows "rd_bytes (prog m a bs) a (length bs) = bs"
proof (rule nth_equalityI)
  fix i assume "i < length (rd_bytes (prog m a bs) a (length bs))"
  then have i: "i < length bs" by simp
  have "m (a + of_nat i) = rd_bytes m a (length bs) ! i" using i by simp
  then have "m (a + of_nat i) = 0xFF" using assms(1) i by simp
  then show "rd_bytes (prog m a bs) a (length bs) ! i = bs ! i"
    using i assms(2) prog_in [of i bs m a] by simp
qed simp

lemma read_after_erase:
  assumes "\<And>i. i < n \<Longrightarrow> in_page p (a + of_nat i)"
  shows "rd_bytes (erase m p) a n = replicate n 0xFF"
  by (rule nth_equalityI) (simp_all add: erase_in assms)

text \<open>A read window after programming part of it.\<close>

lemma read_program_window:
  assumes "off + length bs \<le> n" "n < 2 ^ 32"
  shows "rd_bytes (prog m (a + of_nat off) bs) a n =
    take off (rd_bytes m a n) @ map2 (AND) (take (length bs) (drop off (rd_bytes m a n))) bs @
    drop (off + length bs) (rd_bytes m a n)"
proof (rule nth_equalityI)
  fix i assume "i < length (rd_bytes (prog m (a + of_nat off) bs) a n)"
  then have i: "i < n" by simp
  consider "i < off" | j where "i = off + j" "j < length bs" | "off + length bs \<le> i"
    by (metis le_add_diff_inverse nat_add_left_cancel_less not_less)
  then show "rd_bytes (prog m (a + of_nat off) bs) a n ! i =
    (take off (rd_bytes m a n) @ map2 (AND) (take (length bs) (drop off (rd_bytes m a n))) bs @
     drop (off + length bs) (rd_bytes m a n)) ! i"
  proof cases
    case 1
    have "unat (a + of_nat i - (a + of_nat off)) = unat (of_nat i - of_nat off :: u32)" by simp
    also have "\<dots> = i + 2 ^ 32 - off"
      using 1 assms by (simp add: unat_sub_if_size word_size unat_of_nat_u32)
    finally have "unat (a + of_nat i - (a + of_nat off)) = i + 2 ^ 32 - off" .
    then have "\<not> unat (a + of_nat i - (a + of_nat off)) < length bs" using assms 1 by simp
    then show ?thesis using 1 i assms by (simp add: prog_out nth_append)
  next
    case 2
    then show ?thesis using prog_in [of j bs m "a + of_nat off"] i assms
      by (simp add: nth_append algebra_simps)
  next
    case 3
    then have "unat (of_nat i - of_nat off :: u32) = i - off"
      using i assms by (simp add: unat_sub_if_size word_size unat_of_nat_u32)
    then have "unat (a + of_nat i - (a + of_nat off)) = i - off" by simp
    then have "prog m (a + of_nat off) bs (a + of_nat i) = m (a + of_nat i)" using 3 by (intro prog_out) simp
    moreover have "\<not> i - off < length bs" using 3 by linarith
    ultimately show ?thesis using 3 i assms by (simp add: nth_append)
  qed
qed (use assms in simp)

text \<open>Erase a page, then program bytes that lie inside it: the bytes read back.\<close>

lemma erase_then_program:
  assumes "\<And>i. i < length bs \<Longrightarrow> in_page p (a + of_nat i)" "length bs \<le> 2 ^ 32"
  shows "rd_bytes (prog (erase m p) a bs) a (length bs) = bs"
  by (rule read_after_program) (use assms in \<open>simp_all add: read_after_erase\<close>)

end

section \<open>The device model provides the interface\<close>

lemma unat_offset [simp]: "i < 2 ^ 32 \<Longrightarrow> unat (a + of_nat i - (a :: u32)) = i"
  by (simp add: unat_of_nat_u32)

interpretation nor: nor_device fl_erase program_bytes
  by unfold_locales (auto simp: fl_erase_def program_bytes_def unat_of_nat_u32)

lemma program_bytes_Nil [simp]: "program_bytes m a [] = m"
  by (simp add: program_bytes_def)

lemma program_bytes_append:
  assumes "length bs + length cs \<le> 2 ^ 32"
  shows "program_bytes m a (bs @ cs) = program_bytes (program_bytes m a bs) (a + of_nat (length bs)) cs"
proof
  fix x
  let ?n = "length bs"
  have shift: "unat (x - (a + of_nat ?n)) = unat (x - a) - ?n" if "?n \<le> unat (x - a)"
  proof -
    have "of_nat ?n \<le> x - a" using that assms unat_u32_lt [of "x - a"]
      by (simp add: word_le_nat_alt unat_of_nat)
    then have "unat (x - a - of_nat ?n) = unat (x - a) - unat (of_nat ?n :: u32)" by (rule unat_sub)
    moreover have "unat (of_nat ?n :: u32) = ?n" using that unat_u32_lt [of "x - a"] by (intro unat_of_nat_u32) simp
    ultimately show ?thesis by (simp only: diff_diff_eq)
  qed
  have wrap: "\<not> unat (x - (a + of_nat ?n)) < length cs" if "unat (x - a) < ?n"
  proof
    assume *: "unat (x - (a + of_nat ?n)) < length cs"
    then have n: "unat (of_nat ?n :: u32) = ?n" using assms by (intro unat_of_nat_u32) linarith
    have "unat (x - (a + of_nat ?n)) + unat (of_nat ?n :: u32) < 2 ^ 32" using * assms unfolding n by linarith
    then have "unat ((x - (a + of_nat ?n)) + of_nat ?n) = unat (x - (a + of_nat ?n)) + ?n"
      by (simp only: unat_add_no_wrap n)
    then show False using that by simp
  qed
  show "program_bytes m a (bs @ cs) x = program_bytes (program_bytes m a bs) (a + of_nat ?n) cs x"
    using shift wrap by (cases "unat (x - a) < ?n") (auto simp: program_bytes_def nth_append)
qed

lemma fl_write_words_program:
  "length ws < 2 ^ 30 \<Longrightarrow> fl_write_words m a ws = program_bytes m a (concat (map wr_u32 ws))"
proof (induction ws arbitrary: m a)
  case (Cons w ws)
  have "length (concat (map wr_u32 ws)) = 4 * length ws" for ws by (induction ws) auto
  then have "program_bytes m a (wr_u32 w @ concat (map wr_u32 ws)) =
      program_bytes (program_bytes m a (wr_u32 w)) (a + 4) (concat (map wr_u32 ws))"
    using Cons.prems by (subst program_bytes_append) auto
  then show ?case using Cons by (simp add: fl_write_word_def)
qed simp

lemma exec_cmds_simps [simp]:
  "exec_cmds [] m = m" "exec_cmds (c # cs) m = exec_cmds cs (exec_cmd c m)"
  "exec_cmds (cs @ ds) m = exec_cmds ds (exec_cmds cs m)"
  by (simp_all add: exec_cmds_def)

lemma exec_words_write [simp]: "exec_cmds (words_write_cmds a ws) m = fl_write_words m a ws"
  by (induction ws arbitrary: a m) simp_all

lemma take_words_write_cmds: "take k (words_write_cmds a ws) = words_write_cmds a (take k ws)"
  by (induction ws arbitrary: k a) (auto simp: take_Cons split: nat.splits)

lemma length_words_write_cmds [simp]: "length (words_write_cmds a ws) = length ws"
  by (induction ws arbitrary: a) auto

lemma concat_words_of_bytes [simp]:
  "length bs mod 4 = 0 \<Longrightarrow> concat (map wr_u32 (words_of_bytes bs)) = bs"
  by (induction bs rule: words_of_bytes.induct) (auto simp: wr_rd_u32)

lemma length_words_of_bytes [simp]: "length (words_of_bytes bs) = length bs div 4"
  by (induction bs rule: words_of_bytes.induct) auto

text \<open>Frames: what a command cannot reach.\<close>

lemma fl_erase_frame [frame_simps]: "\<not> in_page p a \<Longrightarrow> fl_erase m p a = m a"
  by (rule nor.erase_out)

lemma program_bytes_frame [frame_simps]: "length bs \<le> unat (x - a) \<Longrightarrow> program_bytes m a bs x = m x"
  by (rule nor.prog_out) simp

lemma program_in_page_frame:
  assumes "\<not> in_page page x" "off + length bs \<le> 4096" "a = page + of_nat off"
  shows "program_bytes m a bs x = m x"
proof (rule program_bytes_frame)
  have far: "4096 \<le> unat (x - page)" using assms(1) by (simp add: in_page_def word_less_nat_alt)
  then have le: "of_nat off \<le> x - page" using assms(2) by (simp add: word_le_nat_alt unat_of_nat_u32)
  have "unat (x - page - of_nat off) = unat (x - page) - unat (of_nat off :: u32)" using le by (rule unat_sub)
  also have "unat (of_nat off :: u32) = off" using assms(2) by (intro unat_of_nat_u32) simp
  finally have "unat (x - a) = unat (x - page) - off" by (simp add: assms(3) diff_diff_eq)
  then show "length bs \<le> unat (x - a)" using far assms(2) by linarith
qed

end
