(* ===== verification/Boot_Control.thy ===== *)
theory Boot_Control
  imports Boot_Settings Soft_Device Nor_Flash
begin

text \<open>
  Boot control (\<open>lib/sdk11/.../bootloader_dfu/bootloader.c\<close>): whether the application in bank 0
  may be started, how the settings record is committed to flash, and the status machine that
  an update drives.  The commit is a sequence of flash commands, so a power loss is a prefix of
  it.  \<open>NRF_FICR->INFO.RAM\<close> (RAM size in KiB) and the transport close results are arguments.
\<close>

section \<open>Settings in flash and validity of bank 0\<close>

definition bootloader_util_settings_get :: "build \<Rightarrow> flash \<Rightarrow> bootloader_settings" where
  "bootloader_util_settings_get b m =
     settings_of_bytes (rd_bytes m (BOOTLOADER_SETTINGS_ADDRESS (b_chip b)) 32)"

definition app_vector_valid :: "build \<Rightarrow> flash \<Rightarrow> u32 \<Rightarrow> bool" where
  "app_vector_valid b m ficr_ram =
     (let app_addr = CODE_REGION_1_START m;
          sp_addr = rd_word m app_addr;
          reset_addr = rd_word m (app_addr + 4);
          ram_start = 0x20000000;
          ram_end = ram_start + push_bit 10 ficr_ram;
          reset_code_addr = reset_addr AND NOT 1
      in sp_addr \<noteq> UINT32_MAX \<and> reset_addr \<noteq> UINT32_MAX \<and> sp_addr \<ge> ram_start \<and>
         sp_addr \<le> ram_end \<and> sp_addr AND 7 = 0 \<and> reset_addr AND 1 \<noteq> 0 \<and>
         reset_code_addr \<ge> app_addr \<and> reset_code_addr < BOOTLOADER_REGION_START (b_chip b))"

definition bootloader_app_is_valid :: "build \<Rightarrow> flash \<Rightarrow> u32 \<Rightarrow> bool" where
  "bootloader_app_is_valid b m ficr_ram =
     (let app_addr = CODE_REGION_1_START m;
          reset_code_addr = rd_word m (app_addr + 4) AND NOT 1;
          s = bootloader_util_settings_get b m
      in if \<not> app_vector_valid b m ficr_ram then False
         else if bs_bank_0 s = BANK_VALID_APP
         then (if \<not> bootloader_settings_integrity_valid s then False
               else let image_size = bs_bank_0_size s;
                        maximum_size = BOOTLOADER_REGION_START (b_chip b) - app_addr;
                        legacy_without_crc = (bootloader_settings_is_legacy s \<and>
                          bs_bank_0_crc s = 0 \<and> image_size = 0)
                    in if \<not> legacy_without_crc \<and>
                          (image_size = 0 \<or> image_size > maximum_size \<or>
                           reset_code_addr \<ge> app_addr + image_size) then False
                       else let image_crc =
                              (if \<not> legacy_without_crc
                               then crc16_compute (rd_bytes m app_addr (unat image_size)) None else 0)
                            in image_crc = bs_bank_0_crc s)
         else bs_bank_0 s = 0xFFFF)"

definition bootloader_update_settings_valid :: "build \<Rightarrow> flash \<Rightarrow> bootloader_settings \<Rightarrow> bool" where
  "bootloader_update_settings_valid b m s =
     (if \<not> bootloader_settings_integrity_valid s then False
      else if bs_bank_0 s = BANK_VALID_SD
      then (if bs_sd_image_size s = 0 \<or> bs_app_image_size s \<noteq> 0 \<or>
               bs_bl_image_size s > DFU_BL_IMAGE_MAX_SIZE (b_chip b) \<or>
               bs_bank_1 s \<noteq> BANK_INVALID_APP \<or> bs_sd_image_start s \<noteq> CODE_REGION_1_START m \<or>
               bs_sd_image_size s > UINT32_MAX - bs_bl_image_size s then False
            else let tot = bs_sd_image_size s + bs_bl_image_size s
                 in bs_bank_0_size s = tot \<and>
                    tot \<le> BOOTLOADER_REGION_START (b_chip b) - bs_sd_image_start s)
      else bs_bank_1 s = BANK_VALID_BOOT \<and> bs_sd_image_size s = 0 \<and> bs_app_image_size s = 0 \<and>
           bs_bl_image_size s \<noteq> 0 \<and> bs_bl_image_size s \<le> DFU_BL_IMAGE_MAX_SIZE (b_chip b))"

definition bootloader_dfu_sd_in_progress :: "build \<Rightarrow> flash \<Rightarrow> bool" where
  "bootloader_dfu_sd_in_progress b m =
     bootloader_update_settings_valid b m (bootloader_util_settings_get b m)"

definition bootloader_settings_get :: "build \<Rightarrow> flash \<Rightarrow> bootloader_settings" where
  "bootloader_settings_get b m =
     (let s = bootloader_util_settings_get b m
      in if \<not> bootloader_update_settings_valid b m s
         then settings_zero\<lparr>bs_bank_0 := BANK_INVALID_APP, bs_bank_1 := BANK_INVALID_APP\<rparr>
         else s)"

section \<open>Committing the settings\<close>

datatype bootloader_status =
    BOOTLOADER_UPDATING | BOOTLOADER_SETTINGS_SAVING | BOOTLOADER_COMPLETE
  | BOOTLOADER_TIMEOUT | BOOTLOADER_SYS_RESET | BOOTLOADER_RESET_TO_SELF

datatype ps_cmd = Ps_Clear | Ps_Store nat bytes
datatype save_action = Submit ps_cmd | Set_Pending u8

record boot_ctl =
  bc_flash :: flash
  bc_is_ota :: bool
  m_update_status :: bootloader_status
  m_cancel_timeout_on_usb :: bool
  m_usb_was_mounted :: bool
  m_startup_dfu_has_activity :: bool
  m_app_update_complete :: bool
  m_settings_store_pending :: u8
  bc_queue :: "ps_cmd list"       \<comment> \<open>settings commands accepted by pstorage, oldest first\<close>
  bc_todo :: "save_action list"   \<comment> \<open>what a blocked OTA save has still to submit\<close>

text \<open>\<open>op_code = PSTORAGE_STORE_OP_CODE\<close> is \<open>is_store\<close>; a failing result traps before the test.\<close>

definition pstorage_callback_handler :: "bool \<Rightarrow> boot_ctl \<Rightarrow> boot_ctl" where
  "pstorage_callback_handler is_store s =
     (if m_update_status s = BOOTLOADER_SETTINGS_SAVING \<and> is_store \<and> m_settings_store_pending s \<noteq> 0
      then let s = s\<lparr>m_settings_store_pending := m_settings_store_pending s - 1\<rparr>
           in if m_settings_store_pending s = 0 then s\<lparr>m_update_status := BOOTLOADER_COMPLETE\<rparr> else s
      else s)"

definition settings_words :: "bootloader_settings \<Rightarrow> u32 list" where
  "settings_words s = words_of_bytes (settings_bytes s)"

text \<open>The direct commit: erase, geometry and trailer words, then the two marker words.\<close>

definition settings_save_cmds :: "build \<Rightarrow> bootloader_settings \<Rightarrow> flash_cmd list" where
  "settings_save_cmds b t =
     (let page = BOOTLOADER_SETTINGS_ADDRESS (b_chip b); ws = settings_words t
      in [Page_Erase page] @ words_write_cmds (page + 8) (drop 2 ws) @ words_write_cmds page (take 2 ws))"

definition settings_save_actions :: "bootloader_settings \<Rightarrow> save_action list" where
  "settings_save_actions t =
     [Submit Ps_Clear, Set_Pending 2,
      Submit (Ps_Store 8 (drop 8 (settings_bytes t))), Submit (Ps_Store 0 (take 8 (settings_bytes t)))]"

definition bootloader_settings_save :: "build \<Rightarrow> bootloader_settings \<Rightarrow> boot_ctl \<Rightarrow> boot_ctl" where
  "bootloader_settings_save b settings s =
     (let t = bootloader_settings_seal settings
      in if bc_is_ota s then s\<lparr>bc_todo := bc_todo s @ settings_save_actions t\<rparr>
         else pstorage_callback_handler True
                (s\<lparr>bc_flash := exec_cmds (settings_save_cmds b t) (bc_flash s),
                   m_settings_store_pending := 1\<rparr>))"

text \<open>
  The over-the-air commit runs through the pstorage queue.  A save submits its commands in
  order, waiting while the queue of \<open>cap\<close> slots is full; a SoftDevice flash event completes the
  oldest command and runs the callback.
\<close>

definition ps_exec :: "build \<Rightarrow> ps_cmd \<Rightarrow> flash \<Rightarrow> flash" where
  "ps_exec b c m =
     (case c of
        Ps_Clear \<Rightarrow> fl_erase m (BOOTLOADER_SETTINGS_ADDRESS (b_chip b))
      | Ps_Store off bs \<Rightarrow>
          fl_write_words m (BOOTLOADER_SETTINGS_ADDRESS (b_chip b) + of_nat off) (words_of_bytes bs))"

fun is_store_cmd :: "ps_cmd \<Rightarrow> bool" where
  "is_store_cmd Ps_Clear = False"
| "is_store_cmd (Ps_Store _ _) = True"

inductive ota_step :: "build \<Rightarrow> nat \<Rightarrow> boot_ctl \<Rightarrow> boot_ctl \<Rightarrow> bool" for b :: build and cap :: nat where
  submit: "bc_todo s = Submit c # t \<Longrightarrow> length (bc_queue s) < cap \<Longrightarrow>
    ota_step b cap s (s\<lparr>bc_queue := bc_queue s @ [c], bc_todo := t\<rparr>)"
| set_pending: "bc_todo s = Set_Pending n # t \<Longrightarrow>
    ota_step b cap s (s\<lparr>m_settings_store_pending := n, bc_todo := t\<rparr>)"
| complete: "bc_queue s = c # q \<Longrightarrow>
    ota_step b cap s
      (pstorage_callback_handler (is_store_cmd c)
        (s\<lparr>bc_flash := ps_exec b c (bc_flash s), bc_queue := q\<rparr>))"

inductive_cases ota_stepE: "ota_step b cap s s'"

section \<open>The update status machine\<close>

datatype dfu_status_code =
    DFU_UPDATE_APP_COMPLETE | DFU_UPDATE_SD_COMPLETE | DFU_UPDATE_SD_SWAPPED
  | DFU_UPDATE_BOOT_COMPLETE | DFU_BANK_0_ERASED | DFU_TIMEOUT | DFU_RESET
  | DFU_UF2_BOOTLOADER_COMPLETE

record dfu_update_status =
  us_code :: dfu_status_code
  us_app_crc :: u16
  us_sd_size :: u32
  us_bl_size :: u32
  us_app_size :: u32
  us_sd_image_start :: u32
  us_restart_into_bootloader :: bool

definition keep_bank_0 :: "bootloader_settings \<Rightarrow> bootloader_settings" where
  "keep_bank_0 p =
     (if bootloader_settings_integrity_valid p
      then settings_zero\<lparr>bs_bank_0 := bs_bank_0 p, bs_bank_0_crc := bs_bank_0_crc p,
             bs_bank_0_size := bs_bank_0_size p\<rparr>
      else settings_zero\<lparr>bs_bank_0 := BANK_INVALID_APP\<rparr>)"

fun bootloader_dfu_update_process ::
    "build \<Rightarrow> (bool \<Rightarrow> nrf_error) \<Rightarrow> dfu_update_status \<Rightarrow> boot_ctl \<Rightarrow> nrf_error + boot_ctl" where
  "bootloader_dfu_update_process b transport_close u s =
     (let p = bootloader_util_settings_get b (bc_flash s);
          saving = (\<lambda>s. s\<lparr>m_update_status := BOOTLOADER_SETTINGS_SAVING\<rparr>)
      in case us_code u of
           DFU_UPDATE_APP_COMPLETE \<Rightarrow>
             Inr (bootloader_settings_save b
               (settings_zero\<lparr>bs_bank_0_crc := us_app_crc u, bs_bank_0_size := us_app_size u,
                  bs_bank_0 := BANK_VALID_APP, bs_bank_1 := BANK_INVALID_APP\<rparr>)
               (saving (s\<lparr>m_app_update_complete := True\<rparr>)))
         | DFU_UPDATE_SD_COMPLETE \<Rightarrow>
             Inr (bootloader_settings_save b
               (settings_zero\<lparr>bs_bank_0_crc := us_app_crc u,
                  bs_bank_0_size := us_sd_size u + us_bl_size u + us_app_size u,
                  bs_bank_0 := BANK_VALID_SD, bs_bank_1 := BANK_INVALID_APP,
                  bs_sd_image_size := us_sd_size u, bs_bl_image_size := us_bl_size u,
                  bs_app_image_size := us_app_size u, bs_sd_image_start := us_sd_image_start u\<rparr>)
               (saving s))
         | DFU_UPDATE_BOOT_COMPLETE \<Rightarrow>
             Inr (bootloader_settings_save b
               ((keep_bank_0 p)\<lparr>bs_bank_1 := BANK_VALID_BOOT, bs_sd_image_size := us_sd_size u,
                  bs_bl_image_size := us_bl_size u, bs_app_image_size := us_app_size u\<rparr>)
               (saving s))
         | DFU_UPDATE_SD_SWAPPED \<Rightarrow>
             Inr (bootloader_settings_save b
               ((if bs_bank_0 p = BANK_VALID_SD
                 then settings_zero\<lparr>bs_bank_0_crc := 0, bs_bank_0_size := 0, bs_bank_0 := BANK_INVALID_APP\<rparr>
                 else keep_bank_0 p)
                  \<lparr>bs_bank_1 := BANK_INVALID_APP, bs_sd_image_size := 0, bs_bl_image_size := 0,
                   bs_app_image_size := 0\<rparr>)
               (saving s))
         | DFU_TIMEOUT \<Rightarrow>
             (let err_code = transport_close (bc_is_ota s)
              in if err_code \<noteq> NRF_SUCCESS then Inl err_code
                 else Inr (s\<lparr>m_update_status := BOOTLOADER_TIMEOUT\<rparr>))
         | DFU_BANK_0_ERASED \<Rightarrow>
             Inr (bootloader_settings_save b
               (settings_zero\<lparr>bs_bank_0_crc := 0, bs_bank_0_size := 0, bs_bank_0 := BANK_INVALID_APP,
                  bs_bank_1 := (if bootloader_settings_integrity_valid p then bs_bank_1 p
                                else BANK_INVALID_APP)\<rparr>) s)
         | DFU_RESET \<Rightarrow>
             Inr (s\<lparr>m_update_status :=
               (if \<not> us_restart_into_bootloader u then BOOTLOADER_SYS_RESET else BOOTLOADER_RESET_TO_SELF)\<rparr>)
         | DFU_UF2_BOOTLOADER_COMPLETE \<Rightarrow> Inr s)"

definition bootloader_must_reset_to_self :: "boot_ctl \<Rightarrow> bool" where
  "bootloader_must_reset_to_self s \<longleftrightarrow> m_update_status s = BOOTLOADER_RESET_TO_SELF"

definition bootloader_dfu_app_update_complete :: "boot_ctl \<Rightarrow> bool" where
  "bootloader_dfu_app_update_complete s \<longleftrightarrow>
     m_app_update_complete s \<and> m_update_status s = BOOTLOADER_COMPLETE"

definition bootloader_dfu_activity_mark :: "boot_ctl \<Rightarrow> boot_ctl" where
  "bootloader_dfu_activity_mark s = s\<lparr>m_startup_dfu_has_activity := True\<rparr>"

definition bootloader_mark_usb_mounted :: "boot_ctl \<Rightarrow> boot_ctl" where
  "bootloader_mark_usb_mounted s = s\<lparr>m_usb_was_mounted := True\<rparr>"

definition timeout_status :: dfu_update_status where
  "timeout_status = \<lparr>us_code = DFU_TIMEOUT, us_app_crc = 0, us_sd_size = 0, us_bl_size = 0,
     us_app_size = 0, us_sd_image_start = 0, us_restart_into_bootloader = False\<rparr>"

definition bootloader_timeout_startup_dfu ::
    "build \<Rightarrow> (bool \<Rightarrow> nrf_error) \<Rightarrow> boot_ctl \<Rightarrow> nrf_error + boot_ctl" where
  "bootloader_timeout_startup_dfu b transport_close s =
     (if \<not> m_startup_dfu_has_activity s
      then bootloader_dfu_update_process b transport_close timeout_status s else Inr s)"

definition dfu_startup_timer_handler ::
    "build \<Rightarrow> (bool \<Rightarrow> nrf_error) \<Rightarrow> boot_ctl \<Rightarrow> nrf_error + boot_ctl" where
  "dfu_startup_timer_handler b transport_close s =
     (if b_chip b \<noteq> NRF52832 \<and> m_cancel_timeout_on_usb s \<and> m_usb_was_mounted s then Inr s
      else bootloader_timeout_startup_dfu b transport_close s)"

text \<open>
  One pass of \<open>wait_for_events\<close> (the nRF52832 has no USB): \<open>events\<close> is what the scheduler and the USB task
  dispatch in this pass, \<open>vbus\<close> whether VBUS is present.  The flag of the result says whether the
  loop returns.
\<close>

definition wait_for_events_pass ::
    "build \<Rightarrow> (bool \<Rightarrow> nrf_error) \<Rightarrow> (boot_ctl \<Rightarrow> boot_ctl) \<Rightarrow> bool \<Rightarrow> boot_ctl \<Rightarrow>
      nrf_error + (boot_ctl \<times> bool)" where
  "wait_for_events_pass b transport_close events vbus s =
     (let s = events s;
          r = (if b_chip b \<noteq> NRF52832 \<and> m_cancel_timeout_on_usb s \<and> m_usb_was_mounted s \<and> \<not> vbus
               then bootloader_timeout_startup_dfu b transport_close s else Inr s)
      in case r of
           Inl e \<Rightarrow> Inl e
         | Inr s \<Rightarrow> Inr (s, m_update_status s \<in>
             {BOOTLOADER_COMPLETE, BOOTLOADER_TIMEOUT, BOOTLOADER_SYS_RESET, BOOTLOADER_RESET_TO_SELF}))"

definition bootloader_dfu_start_flags :: "bool \<Rightarrow> bool \<Rightarrow> boot_ctl \<Rightarrow> boot_ctl" where
  "bootloader_dfu_start_flags ota cancel_timeout_on_usb s =
     s\<lparr>m_cancel_timeout_on_usb := cancel_timeout_on_usb \<and> \<not> ota, m_usb_was_mounted := False,
       m_startup_dfu_has_activity := False, m_app_update_complete := False\<rparr>"

section \<open>What the commit leaves in flash\<close>

lemma settings_page:
  "in_page (BOOTLOADER_SETTINGS_ADDRESS c) (BOOTLOADER_SETTINGS_ADDRESS c + of_nat i)" if "i < 4096"
  using that by (simp add: in_page_def word_less_nat_alt unat_of_nat)

lemma rd_settings_erased:
  "rd_bytes (fl_erase m (BOOTLOADER_SETTINGS_ADDRESS c)) (BOOTLOADER_SETTINGS_ADDRESS c) 32 = replicate 32 0xFF"
  by (rule nor.read_after_erase) (simp add: settings_page)

lemma map2_and_FF: "length bs = n \<Longrightarrow> map2 (AND) (replicate n (0xFF :: u8)) bs = bs"
  by (induction bs arbitrary: n) auto

text \<open>Programming words into a window that is still erased there.\<close>

lemma rd_program_erased:
  assumes "rd_bytes m a n = xs @ replicate (length bs) 0xFF @ ys" "length xs = off" "n < 2 ^ 32"
    "a' = a + of_nat off"
  shows "rd_bytes (program_bytes m a' bs) a n = xs @ bs @ ys"
proof -
  have "length (rd_bytes m a n) = length (xs @ replicate (length bs) (0xFF :: u8) @ ys)" by (simp only: assms(1))
  then have "off + length bs \<le> n" using assms(2) by simp
  then show ?thesis
    unfolding assms(4) using assms(1-3)
    by (subst nor.read_program_window) (simp_all add: map2_and_FF)
qed

lemma settings_bytes_split: "settings_bytes t = take 8 (settings_bytes t) @ drop 8 (settings_bytes t)"
  by simp

lemma length8: "length xs = 8 \<Longrightarrow> \<exists>a b c d e f g h. xs = [a, b, c, d, e, f, g, h]"
  by (auto simp: length_Suc_conv eval_nat_numeral)

lemma concat_take_words:
  "length bs mod 4 = 0 \<Longrightarrow> concat (map wr_u32 (take j (words_of_bytes bs))) = take (4 * j) bs"
proof (induction bs arbitrary: j rule: words_of_bytes.induct)
  case (1 a b c d bs)
  have four: "take (4 * Suc n) (a # b # c # d # bs) = [a, b, c, d] @ take (4 * n) bs" for n
    using take_append [of "4 * Suc n" "[a, b, c, d]" bs] by simp
  have len: "length bs mod 4 = 0" using "1.prems" by simp
  show ?case
  proof (cases j)
    case (Suc n)
    then show ?thesis using "1.IH" [OF len] by (simp only: four) (simp add: wr_rd_u32)
  qed simp
qed auto

lemma length_settings_words [simp]: "length (settings_words t) = 8"
  by (simp add: settings_words_def)

lemma settings_words_split:
  "words_of_bytes (drop 8 (settings_bytes t)) = drop 2 (settings_words t)"
  "words_of_bytes (take 8 (settings_bytes t)) = take 2 (settings_words t)"
proof -
  have "words_of_bytes (xs @ ys) = words_of_bytes xs @ words_of_bytes ys" if "length xs = 8" for xs ys
    using length8 [OF that] by auto
  from this [of "take 8 (settings_bytes t)" "drop 8 (settings_bytes t)"]
  show "words_of_bytes (drop 8 (settings_bytes t)) = drop 2 (settings_words t)"
    "words_of_bytes (take 8 (settings_bytes t)) = take 2 (settings_words t)"
    by (simp_all add: settings_words_def)
qed

text \<open>The record after \<open>j\<close> geometry words, and after \<open>k\<close> marker words on top of all of them.\<close>

lemma rd_after_geometry:
  assumes "j \<le> 6"
  shows "rd_bytes (exec_cmds (Page_Erase (BOOTLOADER_SETTINGS_ADDRESS c) #
      words_write_cmds (BOOTLOADER_SETTINGS_ADDRESS c + 8) (take j (drop 2 (settings_words t)))) m)
      (BOOTLOADER_SETTINGS_ADDRESS c) 32 =
    replicate 8 0xFF @ take (4 * j) (drop 8 (settings_bytes t)) @ replicate (24 - 4 * j) 0xFF"
proof -
  let ?g = "concat (map wr_u32 (take j (drop 2 (settings_words t))))"
  have g: "?g = take (4 * j) (drop 8 (settings_bytes t))"
    by (simp add: concat_take_words flip: settings_words_split)
  have "(24 :: nat) = 4 * j + (24 - 4 * j)" using assms by simp
  then have "replicate 24 (0xFF :: u8) = replicate (4 * j) 0xFF @ replicate (24 - 4 * j) 0xFF"
    by (metis replicate_add)
  then have "rd_bytes (program_bytes (fl_erase m (BOOTLOADER_SETTINGS_ADDRESS c)) (BOOTLOADER_SETTINGS_ADDRESS c + 8) ?g)
      (BOOTLOADER_SETTINGS_ADDRESS c) 32 = replicate 8 0xFF @ ?g @ replicate (24 - 4 * j) 0xFF"
    using assms by (intro rd_program_erased [where off = 8])
      (auto simp: rd_settings_erased g simp flip: replicate_add)
  then show ?thesis by (simp add: fl_write_words_program g)
qed

lemma rd_after_marker:
  assumes "k \<le> 2"
  shows "rd_bytes (exec_cmds (Page_Erase (BOOTLOADER_SETTINGS_ADDRESS c) #
      words_write_cmds (BOOTLOADER_SETTINGS_ADDRESS c + 8) (drop 2 (settings_words t)) @
      words_write_cmds (BOOTLOADER_SETTINGS_ADDRESS c) (take k (settings_words t))) m)
      (BOOTLOADER_SETTINGS_ADDRESS c) 32 =
    take (4 * k) (settings_bytes t) @ replicate (8 - 4 * k) 0xFF @ drop 8 (settings_bytes t)"
proof -
  let ?A = "BOOTLOADER_SETTINGS_ADDRESS c"
  let ?g = "concat (map wr_u32 (take k (settings_words t)))"
  let ?m = "exec_cmds (Page_Erase ?A # words_write_cmds (?A + 8) (drop 2 (settings_words t))) m"
  have g: "?g = take (4 * k) (settings_bytes t)" by (simp add: settings_words_def concat_take_words)
  have "(8 :: nat) = 4 * k + (8 - 4 * k)" using assms by simp
  then have r: "replicate 8 (0xFF :: u8) = replicate (4 * k) 0xFF @ replicate (8 - 4 * k) 0xFF"
    by (metis replicate_add)
  have base: "rd_bytes ?m ?A 32 = replicate 8 0xFF @ drop 8 (settings_bytes t)"
    using rd_after_geometry [of 6 c t m] by simp
  have "rd_bytes (program_bytes ?m ?A ?g) ?A 32 = [] @ ?g @ (replicate (8 - 4 * k) 0xFF @ drop 8 (settings_bytes t))"
    using assms by (intro rd_program_erased [where off = 0]) (simp_all only: base g, simp_all add: r)
  then show ?thesis by (simp add: fl_write_words_program g)
qed

lemma save_cmds_take:
  fixes b t k
  defines "A \<equiv> BOOTLOADER_SETTINGS_ADDRESS (b_chip b)"
  shows "take k (settings_save_cmds b t) =
    (if k = 0 then []
     else if k \<le> 7 then Page_Erase A # words_write_cmds (A + 8) (take (k - 1) (drop 2 (settings_words t)))
     else Page_Erase A # words_write_cmds (A + 8) (drop 2 (settings_words t)) @
          words_write_cmds A (take (k - 7) (take 2 (settings_words t))))"
proof (cases k)
  case (Suc j)
  then show ?thesis
    by (cases "j \<le> 6") (simp_all add: settings_save_cmds_def Let_def take_words_write_cmds A_def)
qed simp

text \<open>The three shapes of a record that a commit can leave behind.\<close>

lemma settings_get_prefix:
  fixes b t m k
  assumes "1 \<le> k"
  defines "r \<equiv> rd_bytes (exec_cmds (take k (settings_save_cmds b t)) m) (BOOTLOADER_SETTINGS_ADDRESS (b_chip b)) 32"
  shows "k \<le> 7 \<Longrightarrow> take 8 r = replicate 8 0xFF"
    and "k = 8 \<Longrightarrow> take 4 (drop 4 r) = replicate 4 0xFF \<and> drop 8 r = drop 8 (settings_bytes t)"
    and "9 \<le> k \<Longrightarrow> r = settings_bytes t"
proof -
  show "take 8 r = replicate 8 0xFF" if "k \<le> 7"
    using that assms(1) rd_after_geometry [of "k - 1" "b_chip b" t m] unfolding r_def save_cmds_take by simp
  show "take 4 (drop 4 r) = replicate 4 0xFF \<and> drop 8 r = drop 8 (settings_bytes t)" if "k = 8"
    using that rd_after_marker [of 1 "b_chip b" t m] unfolding r_def save_cmds_take by simp
  show "r = settings_bytes t" if "9 \<le> k"
    using that rd_after_marker [of 2 "b_chip b" t m] unfolding r_def save_cmds_take by simp
qed

lemma rd_u16_FF: "take 2 xs = [0xFF, 0xFF] \<Longrightarrow> rd_u16 xs = 0xFFFF"
  using rd_u16_take [of 2 xs] by (simp add: rd_u16_def)

lemma erased_markers:
  assumes "take 8 r = replicate 8 0xFF"
  shows "bs_bank_0 (settings_of_bytes r) = 0xFFFF" "bs_bank_1 (settings_of_bytes r) = 0xFFFF"
proof -
  have "take 2 r = take 2 (take 8 r)" "take 2 (drop 4 r) = take 2 (drop 4 (take 8 r))"
    by (simp_all add: drop_take min_def)
  then have "take 2 r = [0xFF, 0xFF]" "take 2 (drop 4 r) = [0xFF, 0xFF]" by (simp_all add: assms numeral_2_eq_2)
  then show "bs_bank_0 (settings_of_bytes r) = 0xFFFF" "bs_bank_1 (settings_of_bytes r) = 0xFFFF"
    by (simp_all add: settings_of_bytes_def rd_u16_FF)
qed

lemma torn_marker_invalid:
  assumes "take 4 (drop 4 r) = replicate 4 0xFF" "drop 8 r = drop 8 (settings_bytes (bootloader_settings_seal t))"
  shows "\<not> bootloader_settings_integrity_valid (settings_of_bytes r)"
proof -
  let ?s = "bootloader_settings_seal t"
  have "take 2 (drop 6 r) = drop 2 (take 4 (drop 4 r))" by (simp add: drop_take)
  then have "bs_format_version (settings_of_bytes r) = 0xFFFF"
    by (simp add: assms(1) settings_of_bytes_def rd_u16_FF numeral_2_eq_2)
  moreover have "drop 28 r = drop 20 (drop 8 (settings_bytes ?s))" "drop 30 r = drop 22 (drop 8 (settings_bytes ?s))"
    by (simp_all flip: assms(2))
  then have "bs_record_crc_inv (settings_of_bytes r) = NOT (bs_record_crc (settings_of_bytes r))"
    by (simp add: settings_of_bytes_def seal_sealed(3))
  ultimately show ?thesis
    using complement_not_legacy
    by (auto simp: bootloader_settings_integrity_valid_def BOOTLOADER_SETTINGS_FORMAT_VERSION_def)
qed

lemma settings_page_above_sd:
  assumes "a < 0x4000" shows "\<not> in_page (BOOTLOADER_SETTINGS_ADDRESS c) a"
  using assms by (cases c) (simp_all add: in_page_def word_less_nat_alt unat_sub_if_size word_size)

lemma save_cmds_frame [frame_simps]:
  assumes "\<not> in_page (BOOTLOADER_SETTINGS_ADDRESS (b_chip b)) a"
  shows "exec_cmds (take k (settings_save_cmds b t)) m a = m a"
proof -
  have words: "length (concat (map wr_u32 ws)) = 4 * length ws" for ws :: "u32 list" by (induction ws) auto
  have "program_bytes m' (BOOTLOADER_SETTINGS_ADDRESS (b_chip b) + of_nat off) bs a = m' a" if "off + length bs \<le> 4096" for m' off bs
    using assms that by (rule program_in_page_frame) simp
  from this [of 8] this [of 0] show ?thesis
    using assms unfolding save_cmds_take
    by (simp add: fl_write_words_program words fl_erase_frame)
qed



section \<open>The over-the-air commit refines the direct one\<close>

definition settings_ps_cmds :: "bootloader_settings \<Rightarrow> ps_cmd list" where
  "settings_ps_cmds t = [Ps_Clear, Ps_Store 8 (drop 8 (settings_bytes t)), Ps_Store 0 (take 8 (settings_bytes t))]"

text \<open>The state after \<open>p\<close> submitted and \<open>q\<close> completed commands.\<close>

definition ota_progress :: "build \<Rightarrow> bootloader_settings \<Rightarrow> flash \<Rightarrow> nat \<Rightarrow> nat \<Rightarrow> boot_ctl \<Rightarrow> bool" where
  "ota_progress b t m p q s \<longleftrightarrow>
     q \<le> p \<and> p \<le> 3 \<and> bc_queue s = drop q (take p (settings_ps_cmds t)) \<and>
     bc_flash s = fold (ps_exec b) (take q (settings_ps_cmds t)) m \<and>
     (m_update_status s = (if q = 3 then BOOTLOADER_COMPLETE else BOOTLOADER_SETTINGS_SAVING)) \<and>
     ((p = 0 \<and> bc_todo s = settings_save_actions t) \<or>
      (p = 1 \<and> bc_todo s = drop 1 (settings_save_actions t)) \<or>
      (1 \<le> p \<and> bc_todo s = drop (Suc p) (settings_save_actions t) \<and>
       m_settings_store_pending s = (if q \<le> 1 then 2 else if q = 2 then 1 else 0)))"

lemma ota_progress_step:
  assumes "ota_progress b t m p q s" "ota_step b cap s s'"
  shows "\<exists>p' q'. ota_progress b t m p' q' s'"
proof -
  have pq: "p = 0 \<or> p = 1 \<or> p = 2 \<or> p = 3" "q = 0 \<or> q = 1 \<or> q = 2 \<or> q = 3" "q \<le> p"
    using assms(1) by (auto simp: ota_progress_def)
  note defs = ota_progress_def settings_save_actions_def settings_ps_cmds_def
  from assms(2) show ?thesis
  proof cases
    case (submit c r)
    then have "ota_progress b t m (Suc p) q s'"
      using assms(1) pq by (elim disjE) (simp_all add: defs)
    then show ?thesis by blast
  next
    case (set_pending n r)
    then have "ota_progress b t m p q s'"
      using assms(1) pq by (elim disjE) (simp_all add: defs)
    then show ?thesis by blast
  next
    case (complete c r)
    then have "ota_progress b t m p (Suc q) s'"
      using assms(1) pq by (elim disjE) (auto simp: defs pstorage_callback_handler_def)
    then show ?thesis by blast
  qed
qed

definition ota_measure :: "boot_ctl \<Rightarrow> nat" where
  "ota_measure s = 2 * length (bc_todo s) + length (bc_queue s)"

lemma callback_frame [simp]:
  "bc_todo (pstorage_callback_handler f s) = bc_todo s" "bc_queue (pstorage_callback_handler f s) = bc_queue s"
  "bc_flash (pstorage_callback_handler f s) = bc_flash s"
  by (simp_all add: pstorage_callback_handler_def Let_def)

lemma ota_step_measure: "ota_step b cap s s' \<Longrightarrow> ota_measure s' < ota_measure s"
  by (erule ota_step.cases) (auto simp: ota_measure_def)

lemma ota_progress_reachable:
  assumes "(ota_step b cap)\<^sup>*\<^sup>* s s'" "ota_progress b t m p q s"
  shows "\<exists>p' q'. ota_progress b t m p' q' s'"
  using assms by (induction arbitrary: p q rule: rtranclp_induct) (blast dest: ota_progress_step)+

lemma ps_cmds_prefix:
  assumes "q \<le> 3"
  shows "\<exists>k. fold (ps_exec b) (take q (settings_ps_cmds t)) m = exec_cmds (take k (settings_save_cmds b t)) m \<and>
    (q = 3 \<longrightarrow> length (settings_save_cmds b t) \<le> k)"
proof -
  consider "q = 0" | "q = 1" | "q = 2" | "q = 3" using assms by linarith
  then show ?thesis
  proof cases
    case 1
    then show ?thesis by (intro exI [of _ 0]) simp
  next
    case 2
    then show ?thesis
      by (intro exI [of _ 1]) (simp add: save_cmds_take settings_ps_cmds_def ps_exec_def)
  next
    case 3
    then show ?thesis
      by (intro exI [of _ 7]) (simp add: save_cmds_take settings_ps_cmds_def ps_exec_def settings_words_split)
  next
    case 4
    then show ?thesis
      by (intro exI [of _ 9])
         (simp add: settings_save_cmds_def settings_ps_cmds_def ps_exec_def settings_words_split Let_def)
  qed
qed

lemma ota_progress_enabled:
  assumes "ota_progress b t m p q s" "m_update_status s \<noteq> BOOTLOADER_COMPLETE" "0 < cap"
  shows "\<exists>s'. ota_step b cap s s'"
proof (cases "bc_queue s")
  case (Cons c r)
  then show ?thesis using complete by blast
next
  case Nil
  with assms obtain a r where "bc_todo s = a # r"
    by (cases "bc_todo s") (auto simp: ota_progress_def settings_save_actions_def settings_ps_cmds_def split: if_splits)
  then show ?thesis using Nil assms(3) submit [of s _ r cap b] set_pending [of s _ r b cap] by (cases a) auto
qed


definition idle_ctl :: boot_ctl where
  "idle_ctl = \<lparr>bc_flash = (\<lambda>_. 0xFF), bc_is_ota = True, m_update_status = BOOTLOADER_SETTINGS_SAVING,
     m_cancel_timeout_on_usb = False, m_usb_was_mounted = False, m_startup_dfu_has_activity = True,
     m_app_update_complete = True, m_settings_store_pending = 0, bc_queue = [], bc_todo = []\<rparr>"


section \<open>Boot decisions after an update\<close>

lemma save_cmds_app_base:
  "CODE_REGION_1_START (exec_cmds (take k (settings_save_cmds b t)) m) = CODE_REGION_1_START m"
  by (rule CODE_REGION_1_START_cong)
     (auto intro!: save_cmds_frame settings_page_above_sd simp: word_less_nat_alt)

lemma below_settings_page:
  assumes "unat a < unat (BOOTLOADER_REGION_START c)"
  shows "\<not> in_page (BOOTLOADER_SETTINGS_ADDRESS c) a"
  using assms by (cases c) (simp_all add: in_page_def word_less_nat_alt unat_sub_if_size word_size)

lemma rd_bytes_app_frame:
  assumes "\<And>a. unat a < unat (BOOTLOADER_REGION_START c) \<Longrightarrow> m' a = m a"
    "unat a + n \<le> unat (BOOTLOADER_REGION_START c)"
  shows "rd_bytes m' a n = rd_bytes m a n"
proof (rule rd_bytes_cong)
  fix i assume "i < n"
  moreover have "unat (BOOTLOADER_REGION_START c) < 2 ^ 32" using unat_u32_lt by simp
  ultimately have "unat (a + of_nat i) = unat a + i"
    using assms(2) by (simp add: unat_word_ariths unat_of_nat)
  then show "m' (a + of_nat i) = m (a + of_nat i)" using assms \<open>i < n\<close> by simp
qed

lemma app_vector_valid_cong:
  assumes "\<And>a. unat a < unat (BOOTLOADER_REGION_START (b_chip b)) \<Longrightarrow> m' a = m a"
    "CODE_REGION_1_START m' = CODE_REGION_1_START m"
    "unat (CODE_REGION_1_START m) + 8 \<le> unat (BOOTLOADER_REGION_START (b_chip b))"
  shows "app_vector_valid b m' ram = app_vector_valid b m ram"
    "rd_word m' (CODE_REGION_1_START m + 4) = rd_word m (CODE_REGION_1_START m + 4)"
proof -
  have "unat (CODE_REGION_1_START m + 4) = unat (CODE_REGION_1_START m) + 4"
    using assms(3) unat_u32_lt [of "BOOTLOADER_REGION_START (b_chip b)"] by (simp add: unat_word_ariths)
  then have "rd_bytes m' (CODE_REGION_1_START m) 4 = rd_bytes m (CODE_REGION_1_START m) 4"
    "rd_bytes m' (CODE_REGION_1_START m + 4) 4 = rd_bytes m (CODE_REGION_1_START m + 4) 4"
    using assms(1,3) by (auto intro!: rd_bytes_app_frame [where c = "b_chip b"])
  then show "app_vector_valid b m' ram = app_vector_valid b m ram"
    "rd_word m' (CODE_REGION_1_START m + 4) = rd_word m (CODE_REGION_1_START m + 4)"
    by (simp_all add: app_vector_valid_def Let_def assms(2) rd_word_def)
qed

lemma full_save:
  "bootloader_util_settings_get b (exec_cmds (settings_save_cmds b t) m) = t"
  "unat a < unat (BOOTLOADER_REGION_START (b_chip b)) \<Longrightarrow> exec_cmds (settings_save_cmds b t) m a = m a"
  "CODE_REGION_1_START (exec_cmds (settings_save_cmds b t) m) = CODE_REGION_1_START m"
proof -
  have all: "settings_save_cmds b t = take 9 (settings_save_cmds b t)"
    by (simp add: settings_save_cmds_def Let_def)
  show "bootloader_util_settings_get b (exec_cmds (settings_save_cmds b t) m) = t"
    using settings_get_prefix(3) [of 9 b t m] by (subst all) (simp add: bootloader_util_settings_get_def)
  show "unat a < unat (BOOTLOADER_REGION_START (b_chip b)) \<Longrightarrow> exec_cmds (settings_save_cmds b t) m a = m a"
    by (subst all) (rule save_cmds_frame [OF below_settings_page])
  show "CODE_REGION_1_START (exec_cmds (settings_save_cmds b t) m) = CODE_REGION_1_START m"
    by (subst all) (rule save_cmds_app_base)
qed

text \<open>After a direct save, bank 0 is judged by the sealed record and the unchanged image.\<close>

lemma app_valid_after_save:
  fixes b t m
  defines "A \<equiv> CODE_REGION_1_START m"
  assumes "unat A + 8 \<le> unat (BOOTLOADER_REGION_START (b_chip b))" "\<not> bootloader_settings_is_legacy t"
    "bootloader_settings_integrity_valid t"
  shows "bootloader_app_is_valid b (exec_cmds (settings_save_cmds b t) m) ram \<longleftrightarrow>
    app_vector_valid b m ram \<and>
    (bs_bank_0 t = 0xFFFF \<or>
     bs_bank_0 t = BANK_VALID_APP \<and> bs_bank_0_size t \<noteq> 0 \<and>
     bs_bank_0_size t \<le> BOOTLOADER_REGION_START (b_chip b) - A \<and>
     rd_word m (A + 4) AND NOT 1 < A + bs_bank_0_size t \<and>
     crc16_compute (rd_bytes m A (unat (bs_bank_0_size t))) None = bs_bank_0_crc t)"
proof -
  let ?m = "exec_cmds (settings_save_cmds b t) m" and ?R = "BOOTLOADER_REGION_START (b_chip b)"
  have av: "app_vector_valid b ?m ram = app_vector_valid b m ram" "rd_word ?m (A + 4) = rd_word m (A + 4)"
    unfolding A_def using assms(2) [unfolded A_def]
    by (intro app_vector_valid_cong; simp add: full_save(2,3))+
  have img: "rd_bytes ?m A (unat n) = rd_bytes m A (unat n)" if "n \<le> ?R - A" for n :: u32
  proof -
    have "A \<le> ?R" using assms(2) by (simp add: word_le_nat_alt)
    then have "unat A + unat n \<le> unat ?R" using that by (simp add: word_le_nat_alt unat_sub_le)
    then show ?thesis using full_save(2) by (intro rd_bytes_app_frame [where c = "b_chip b"])
  qed
  show ?thesis
    unfolding bootloader_app_is_valid_def Let_def full_save(1) full_save(3) A_def [symmetric] av
    using assms(3,4) img by (auto simp: not_less not_le)
qed

text \<open>
  C19. Completing a wired application update decides the next boot.  The settings are saved and the
  update counts as complete, and the application is startable at the next boot exactly when
  its vectors are plausible, the reported size is non-zero, ends below the bootloader and
  covers the reset handler, and the CRC-16 of the image in flash is the reported one.
\<close>

theorem app_update_boots_iff_verified:
  assumes "us_code u = DFU_UPDATE_APP_COMPLETE" "\<not> bc_is_ota s"
    and "unat (CODE_REGION_1_START (bc_flash s)) + 8 \<le> unat (BOOTLOADER_REGION_START (b_chip b))"
  shows "\<exists>s'. bootloader_dfu_update_process b tc u s = Inr s' \<and> bootloader_dfu_app_update_complete s' \<and>
    \<not> bootloader_dfu_sd_in_progress b (bc_flash s') \<and>
    (bootloader_app_is_valid b (bc_flash s') ram \<longleftrightarrow>
       app_vector_valid b (bc_flash s) ram \<and> us_app_size u \<noteq> 0 \<and>
       us_app_size u \<le> BOOTLOADER_REGION_START (b_chip b) - CODE_REGION_1_START (bc_flash s) \<and>
       rd_word (bc_flash s) (CODE_REGION_1_START (bc_flash s) + 4) AND NOT 1 <
         CODE_REGION_1_START (bc_flash s) + us_app_size u \<and>
       crc16_compute (rd_bytes (bc_flash s) (CODE_REGION_1_START (bc_flash s)) (unat (us_app_size u))) None =
         us_app_crc u)"
proof -
  let ?t = "bootloader_settings_seal (settings_zero\<lparr>bs_bank_0_crc := us_app_crc u, bs_bank_0_size := us_app_size u,
    bs_bank_0 := BANK_VALID_APP, bs_bank_1 := BANK_INVALID_APP\<rparr>)"
  obtain s' where s': "bootloader_dfu_update_process b tc u s = Inr s'"
    "bc_flash s' = exec_cmds (settings_save_cmds b ?t) (bc_flash s)" "bootloader_dfu_app_update_complete s'"
    using assms(1,2)
    by (simp add: bootloader_settings_save_def Let_def pstorage_callback_handler_def bootloader_dfu_app_update_complete_def)
  have "\<not> bootloader_dfu_sd_in_progress b (bc_flash s')"
    by (simp add: bootloader_dfu_sd_in_progress_def s'(2) full_save(1) bootloader_update_settings_valid_def)
  with s' show ?thesis
    using app_valid_after_save [OF assms(3) seal_not_legacy seal_integrity,
        of "settings_zero\<lparr>bs_bank_0_crc := us_app_crc u, bs_bank_0_size := us_app_size u,
    bs_bank_0 := BANK_VALID_APP, bs_bank_1 := BANK_INVALID_APP\<rparr>" ram]
    by auto
qed

definition sample_app_flash :: flash where
  "sample_app_flash = (\<lambda>_. 0)(0x1003 := 0x20, 0x1004 := 5, 0x1005 := 0x10)"

lemma sample_app_flash_facts:
  "CODE_REGION_1_START sample_app_flash = 0x1000"
  "rd_bytes sample_app_flash 0x1000 8 = [0, 0, 0, 0x20, 5, 0x10, 0, 0]"
  "rd_word sample_app_flash 0x1000 = 0x20000000" "rd_word sample_app_flash 0x1004 = 0x1005"
  by (simp_all add: CODE_REGION_1_START_def is_sd_existed_def rd_word_def rd_bytes_def rd_u32_def sample_app_flash_def
      layout_simps upt_conv_Cons)

theorem app_update_boots_iff_verified_witness:
  "\<exists>s'. bootloader_dfu_update_process internal_build (\<lambda>_. NRF_SUCCESS)
      (timeout_status\<lparr>us_code := DFU_UPDATE_APP_COMPLETE, us_app_size := 8,
        us_app_crc := crc16_compute [0, 0, 0, 0x20, 5, 0x10, 0, 0] None\<rparr>)
      (idle_ctl\<lparr>bc_is_ota := False, bc_flash := sample_app_flash\<rparr>) = Inr s' \<and>
    bootloader_app_is_valid internal_build (bc_flash s') 256"
  using app_update_boots_iff_verified [of "timeout_status\<lparr>us_code := DFU_UPDATE_APP_COMPLETE, us_app_size := 8,
        us_app_crc := crc16_compute [0, 0, 0, 0x20, 5, 0x10, 0, 0] None\<rparr>"
      "idle_ctl\<lparr>bc_is_ota := False, bc_flash := sample_app_flash\<rparr>" internal_build "\<lambda>_. NRF_SUCCESS" 256]
  by (simp add: sample_app_flash_facts app_vector_valid_def Let_def internal_build_def timeout_status_def)

lemma direct_save_settings:
  assumes "\<not> bc_is_ota s"
  shows "bc_flash (bootloader_settings_save b x s) =
      exec_cmds (settings_save_cmds b (bootloader_settings_seal x)) (bc_flash s)"
    and "bootloader_util_settings_get b (bc_flash (bootloader_settings_save b x s)) = bootloader_settings_seal x"
  using assms by (simp_all add: bootloader_settings_save_def Let_def full_save(1))


definition sample_complete :: dfu_update_status where
  "sample_complete = timeout_status\<lparr>us_code := DFU_UPDATE_APP_COMPLETE, us_app_size := 8, us_app_crc := 7\<rparr>"


text \<open>
  C28. Retiring a pending bootloader or SoftDevice swap does not keep a legacy no-check application.
  A legacy record with a zero CRC and size lets an application with plausible vectors start.
  Processing the end of a swap that did not touch bank 0 copies those fields into a sealed
  record, in which a zero size is an error: the same application no longer starts.
\<close>

theorem swap_drops_legacy_application:
  assumes "us_code u = DFU_UPDATE_SD_SWAPPED \<or> us_code u = DFU_UPDATE_BOOT_COMPLETE" "\<not> bc_is_ota s"
    and "p = bootloader_util_settings_get b (bc_flash s)" "bootloader_settings_is_legacy p"
    and "bs_bank_0 p = BANK_VALID_APP" "bs_bank_0_crc p = 0" "bs_bank_0_size p = 0"
    and "app_vector_valid b (bc_flash s) ram"
    and "unat (CODE_REGION_1_START (bc_flash s)) + 8 \<le> unat (BOOTLOADER_REGION_START (b_chip b))"
  shows "bootloader_app_is_valid b (bc_flash s) ram \<and>
    (\<exists>s'. bootloader_dfu_update_process b tc u s = Inr s' \<and> \<not> bootloader_app_is_valid b (bc_flash s') ram)"
proof
  have ok: "bootloader_settings_integrity_valid p" using assms(4) by (simp add: bootloader_settings_integrity_valid_def)
  then show "bootloader_app_is_valid b (bc_flash s) ram"
    using assms(3-8) by (simp add: bootloader_app_is_valid_def Let_def)
  obtain x s' where s': "bootloader_dfu_update_process b tc u s = Inr s'"
      "bc_flash s' = exec_cmds (settings_save_cmds b (bootloader_settings_seal x)) (bc_flash s)"
      "bs_bank_0 x = BANK_VALID_APP" "bs_bank_0_size x = 0"
    using assms(1) ok assms(2,3,5,7) by (elim disjE) (auto simp: Let_def direct_save_settings(1) keep_bank_0_def)
  then show "\<exists>s'. bootloader_dfu_update_process b tc u s = Inr s' \<and> \<not> bootloader_app_is_valid b (bc_flash s') ram"
    using app_valid_after_save [OF assms(9) seal_not_legacy seal_integrity, of x ram] by simp
qed

definition sample_legacy_flash :: flash where
  "sample_legacy_flash = sample_app_flash(0xFF000 := 1, 0xFF01C := 0xFF, 0xFF01D := 0xFF, 0xFF01E := 0xFF, 0xFF01F := 0xFF)"

theorem swap_drops_legacy_application_witness:
  "bootloader_app_is_valid internal_build sample_legacy_flash 256 \<and>
   (\<exists>s'. bootloader_dfu_update_process internal_build (\<lambda>_. NRF_SUCCESS) (timeout_status\<lparr>us_code := DFU_UPDATE_SD_SWAPPED\<rparr>)
      (idle_ctl\<lparr>bc_is_ota := False, bc_flash := sample_legacy_flash\<rparr>) = Inr s' \<and>
      \<not> bootloader_app_is_valid internal_build (bc_flash s') 256)"
proof -
  have base: "CODE_REGION_1_START sample_legacy_flash = 0x1000" "rd_word sample_legacy_flash 0x1000 = 0x20000000"
    "rd_word sample_legacy_flash 0x1004 = 0x1005"
    by (simp_all add: CODE_REGION_1_START_def is_sd_existed_def rd_word_def rd_bytes_def rd_u32_def
        sample_app_flash_def sample_legacy_flash_def layout_simps upt_conv_Cons)
  let ?p = "bootloader_util_settings_get internal_build sample_legacy_flash"
  have rec: "bootloader_settings_is_legacy ?p" "bs_bank_0 ?p = BANK_VALID_APP" "bs_bank_0_crc ?p = 0" "bs_bank_0_size ?p = 0"
    by (simp_all add: bootloader_util_settings_get_def settings_of_bytes_def bootloader_settings_is_legacy_def
        rd_bytes_def rd_u16_def rd_u32_def sample_app_flash_def sample_legacy_flash_def internal_build_def upt_conv_Cons)
  have vec: "app_vector_valid internal_build sample_legacy_flash 256"
    by (simp add: app_vector_valid_def base Let_def internal_build_def)
  show ?thesis
    using swap_drops_legacy_application [where b = internal_build and ram = 256 and p = ?p and tc = "\<lambda>_. NRF_SUCCESS"
        and u = "timeout_status\<lparr>us_code := DFU_UPDATE_SD_SWAPPED\<rparr>"
        and s = "idle_ctl\<lparr>bc_is_ota := False, bc_flash := sample_legacy_flash\<rparr>"] rec vec base
    by (simp add: internal_build_def)
qed

end
