(* ===== verification/Mota_Device.thy ===== *)
theory Mota_Device
  imports Nor_Flash Handoff_Records
begin

text \<open>
  The flash side of the \<open>.mota\<close> applier (\<open>src/src/ota_delta.c\<close>): page changes that are verified by
  reading back, and the one-page write-back cache under the in-place decoder.

  Everything outside the file is a parameter: the record \<open>mota_dev\<close> holds the flash controller,
  the SD and QSPI drivers and the MBR call over an arbitrary device state \<open>'d\<close>.  A media read may
  change the state, so that a card whose contents vary between reads is an instance.  The locale
  \<open>mota_device\<close> states what the applier relies on: an operation reaches only its own page and
  the external media leave the internal flash alone.  Nothing is assumed about whether an
  erase or a write succeeds; that is what the verification is for.
\<close>

section \<open>Device parameter and applier state\<close>

record 'd mota_dev =
  dv_mem :: "'d \<Rightarrow> flash"
  dv_erase :: "'d \<Rightarrow> u32 \<Rightarrow> 'd"
  dv_write :: "'d \<Rightarrow> u32 \<Rightarrow> u32 list \<Rightarrow> 'd"
  dv_sd_init :: "'d \<Rightarrow> bool \<times> 'd"
  dv_sd_read :: "'d \<Rightarrow> u32 \<Rightarrow> u32 \<Rightarrow> nat \<Rightarrow> bytes option \<times> 'd"
  dv_sd_deinit :: "'d \<Rightarrow> 'd"
  dv_qspi_set_source :: "'d \<Rightarrow> u32 \<Rightarrow> 'd"
  dv_qspi_init :: "'d \<Rightarrow> bool \<times> 'd"
  dv_qspi_capacity :: "'d \<Rightarrow> u32"
  dv_qspi_read :: "'d \<Rightarrow> u32 \<Rightarrow> nat \<Rightarrow> bytes option \<times> 'd"
  dv_qspi_write :: "'d \<Rightarrow> u32 \<Rightarrow> bytes \<Rightarrow> bool \<times> 'd"
  dv_qspi_deinit :: "'d \<Rightarrow> 'd"
  dv_mbr_copy :: "'d \<Rightarrow> u32 \<Rightarrow> bool \<times> 'd"

record 'd mota_st =
  st_dev :: 'd
  st_ram :: "u32 \<Rightarrow> u8"             \<comment> \<open>retained RAM: handoff record and arena\<close>
  st_gpregret :: u32
  st_gpregret2 :: u32
  st_resetreas :: u32
  g_cache :: bytes
  g_cache_page :: u32
  g_cache_dirty :: bool
  g_hybrid :: mota_hybrid_handoff
  g_sd_auth :: mota_sd_auth
  g_sd_auth_loaded :: bool
  g_sd_source :: bool
  g_sd_active :: bool
  g_qspi_source :: bool
  g_qspi_total_size :: u32

abbreviation fmem :: "('d, 'x) mota_dev_scheme \<Rightarrow> ('d, 'y) mota_st_scheme \<Rightarrow> flash" where
  "fmem D s \<equiv> dv_mem D (st_dev s)"

definition fl_read :: "'d mota_dev \<Rightarrow> 'd mota_st \<Rightarrow> u32 \<Rightarrow> nat \<Rightarrow> bytes" where
  "fl_read D s a n = rd_bytes (fmem D s) a n"

section \<open>Verified page changes\<close>

definition flash_page_matches :: "'d mota_dev \<Rightarrow> 'd \<Rightarrow> u32 \<Rightarrow> u32 list option \<Rightarrow> bool" where
  "flash_page_matches D d page ws =
     list_all (\<lambda>i. rd_u32 (rd_bytes (dv_mem D d) (page + of_nat i * 4) 4) =
                   (case ws of Some w \<Rightarrow> w ! i | None \<Rightarrow> UINT32_MAX)) [0..<1024]"

fun page_change_attempts :: "'d mota_dev \<Rightarrow> nat \<Rightarrow> u32 \<Rightarrow> u32 list option \<Rightarrow> 'd \<Rightarrow> bool \<times> 'd" where
  "page_change_attempts D 0 page ws d = (False, d)"
| "page_change_attempts D (Suc n) page ws d =
     (let d = dv_erase D d page;
          d = (case ws of Some w \<Rightarrow> dv_write D d page w | None \<Rightarrow> d)
      in if flash_page_matches D d page ws then (True, d)
         else page_change_attempts D n page ws d)"

definition FLASH_PAGE_ATTEMPTS :: nat where "FLASH_PAGE_ATTEMPTS = 3"

definition flash_page_change_verified ::
    "'d mota_dev \<Rightarrow> u32 \<Rightarrow> u32 list option \<Rightarrow> 'd mota_st \<Rightarrow> bool \<times> 'd mota_st" where
  "flash_page_change_verified D page ws s =
     (let (ok, d) = page_change_attempts D FLASH_PAGE_ATTEMPTS page ws (st_dev s)
      in (ok, s\<lparr>st_dev := d\<rparr>))"

definition flash_page_write_verified :: "'d mota_dev \<Rightarrow> u32 \<Rightarrow> u32 list \<Rightarrow> 'd mota_st \<Rightarrow> bool \<times> 'd mota_st" where
  "flash_page_write_verified D page ws s = flash_page_change_verified D page (Some ws) s"

definition flash_page_erase_verified :: "'d mota_dev \<Rightarrow> u32 \<Rightarrow> 'd mota_st \<Rightarrow> bool \<times> 'd mota_st" where
  "flash_page_erase_verified D page s = flash_page_change_verified D page None s"

section \<open>Write-back cache\<close>

definition cache_flush :: "'d mota_dev \<Rightarrow> 'd mota_st \<Rightarrow> bool \<times> 'd mota_st" where
  "cache_flush D s =
     (if g_cache_page s = 0 then (True, s)
      else let (ok, s) = (if g_cache_dirty s
                          then flash_page_write_verified D (g_cache_page s) (words_of_bytes (g_cache s)) s
                          else (True, s))
           in if \<not> ok then (False, s)
              else (True, s\<lparr>g_cache_page := 0, g_cache_dirty := False\<rparr>))"

definition cache_use :: "'d mota_dev \<Rightarrow> u32 \<Rightarrow> 'd mota_st \<Rightarrow> bool \<times> 'd mota_st" where
  "cache_use D page s =
     (if g_cache_page s = page then (True, s)
      else let (ok, s) = cache_flush D s
           in if \<not> ok then (False, s)
              else (True, s\<lparr>g_cache_page := page, g_cache_dirty := False, g_cache := fl_read D s page 4096\<rparr>))"

definition cread :: "'d mota_dev \<Rightarrow> u32 \<Rightarrow> nat \<Rightarrow> 'd mota_st \<Rightarrow> bytes" where
  "cread D addr n s =
     (let dst = fl_read D s addr n
      in if g_cache_page s \<noteq> 0 \<and> g_cache_dirty s
         then let cs = g_cache_page s; ce = g_cache_page s + PAGE; a = addr; e = addr + of_nat n;
                  os = (if a > cs then a else cs); oe = (if e < ce then e else ce)
              in if os < oe
                 then take (unat (os - a)) dst @ take (unat (oe - os)) (drop (unat (os - cs)) (g_cache s)) @
                      drop (unat (oe - a)) dst
                 else dst
         else dst)"

definition page_of :: "u32 \<Rightarrow> u32" where
  "page_of addr = addr AND NOT (PAGE - 1)"

lemma and_not_split: "(x AND NOT m) + (x AND m) = (x :: 'a :: len word)"
proof -
  have "(x AND NOT m) + (x AND m) = (x AND NOT m) OR (x AND m)"
    by (rule disjunctive_add_eq_or) (auto simp: bit_eq_iff bit_simps)
  also have "\<dots> = x" by (rule bit_word_eqI) (auto simp: bit_simps)
  finally show ?thesis .
qed

lemma page_of_eq: "page_of addr = addr - (addr AND 0xFFF)"
  using and_not_split [of addr "0xFFF"] by (simp add: page_of_def eq_diff_eq)

lemma page_off: "addr - page_of addr = addr AND 0xFFF" "unat (addr - page_of addr) = unat addr mod 4096"
proof -
  show *: "addr - page_of addr = addr AND 0xFFF" by (simp add: page_of_eq)
  show "unat (addr - page_of addr) = unat addr mod 4096"
    unfolding * using unat_and_mask [of addr 12] by (simp add: mask_eq_exp_minus_1)
qed

function cwrite :: "'d mota_dev \<Rightarrow> u32 \<Rightarrow> bytes \<Rightarrow> 'd mota_st \<Rightarrow> bool \<times> 'd mota_st" where
  "cwrite D addr src s =
     (if src = [] then (True, s)
      else let page = page_of addr; off = unat (addr - page);
               chunk = (if 4096 - off > length src then length src else 4096 - off);
               (ok, s) = cache_use D page s
           in if \<not> ok then (False, s)
              else cwrite D (addr + of_nat chunk) (drop chunk src)
                     (s\<lparr>g_cache := take off (g_cache s) @ take chunk src @ drop (off + chunk) (g_cache s),
                        g_cache_dirty := True\<rparr>))"
  by pat_completeness auto
termination
proof (relation "measure (\<lambda>(D, addr, src, s). length src)", goal_cases)
  case (2 D addr src s page off chunk _ ok s')
  have "off < 4096" unfolding 2(3) 2(2) page_off(2) by simp
  then show ?case using 2(1) by (simp add: 2(4))
qed simp

function cerase :: "'d mota_dev \<Rightarrow> u32 \<Rightarrow> nat \<Rightarrow> 'd mota_st \<Rightarrow> bool \<times> 'd mota_st" where
  "cerase D addr n s =
     (if n = 0 then (True, s)
      else let page = page_of addr; off = unat (addr - page);
               step = (if 4096 - off > n then n else 4096 - off);
               (ok, s) = (if g_cache_page s = page
                          then (True, s\<lparr>g_cache := replicate 4096 0xFF, g_cache_dirty := True\<rparr>)
                          else flash_page_erase_verified D page s)
           in if \<not> ok then (False, s) else cerase D (addr + of_nat step) (n - step) s)"
  by pat_completeness auto
termination
proof (relation "measure (\<lambda>(D, addr, n, s). n)", goal_cases)
  case (2 D addr n s page off step _ ok s')
  have "off < 4096" unfolding 2(3) 2(2) page_off(2) by simp
  then show ?case using 2(1) by (simp add: 2(4))
qed simp

declare cwrite.simps [simp del] cerase.simps [simp del]

section \<open>Interface of the device\<close>

locale mota_device =
  fixes D :: "'d mota_dev"
  assumes erase_frame: "\<not> in_page p a \<Longrightarrow> dv_mem D (dv_erase D d p) a = dv_mem D d a"
    and write_frame: "4 * length ws \<le> unat (x - a) \<Longrightarrow> dv_mem D (dv_write D d a ws) x = dv_mem D d x"
    and sd_init_frame: "dv_mem D (snd (dv_sd_init D d)) = dv_mem D d"
    and sd_read_frame: "dv_mem D (snd (dv_sd_read D d fs off n)) = dv_mem D d"
    and sd_read_length: "fst (dv_sd_read D d fs off n) = Some bs \<Longrightarrow> length bs = n"
    and sd_deinit_frame: "dv_mem D (dv_sd_deinit D d) = dv_mem D d"
    and qspi_source_frame: "dv_mem D (dv_qspi_set_source D d h) = dv_mem D d"
    and qspi_init_frame: "dv_mem D (snd (dv_qspi_init D d)) = dv_mem D d"
    and qspi_read_frame: "dv_mem D (snd (dv_qspi_read D d off n)) = dv_mem D d"
    and qspi_read_length: "fst (dv_qspi_read D d off n) = Some bs \<Longrightarrow> length bs = n"
    and qspi_write_frame: "dv_mem D (snd (dv_qspi_write D d off bs)) = dv_mem D d"
    and qspi_deinit_frame: "dv_mem D (dv_qspi_deinit D d) = dv_mem D d"

text \<open>The page a word list denotes, and what a successful comparison means.\<close>

lemma words_of_bytes_nth:
  "i < length bs div 4 \<Longrightarrow> words_of_bytes bs ! i = rd_u32 (take 4 (drop (4 * i) bs))"
proof (induction bs arbitrary: i rule: words_of_bytes.induct)
  case (1 a b c d bs)
  show ?case
  proof (cases i)
    case (Suc j)
    have "drop (4 * Suc j) (a # b # c # d # bs) = drop (4 * j) bs"
      using drop_append [of "4 * Suc j" "[a, b, c, d]" bs] by simp
    then show ?thesis using Suc 1 by simp
  qed (simp add: rd_u32_def)
qed auto

lemma rd_u32_inj: "length p = 4 \<Longrightarrow> length q = 4 \<Longrightarrow> rd_u32 p = rd_u32 q \<Longrightarrow> p = q"
  by (metis wr_rd_u32)

lemma quads_eq:
  assumes "length xs = 4 * n" "length ys = 4 * n"
    and "\<And>i. i < n \<Longrightarrow> take 4 (drop (4 * i) xs) = take 4 (drop (4 * i) ys)"
  shows "xs = ys"
proof (rule nth_equalityI)
  fix i assume "i < length xs"
  then have n: "i div 4 < n" using assms(1) by auto
  have "take 4 (drop (4 * (i div 4)) xs) ! (i mod 4) = take 4 (drop (4 * (i div 4)) ys) ! (i mod 4)"
    using assms(3) [OF n] by simp
  then show "xs ! i = ys ! i" using n assms(1,2) by (simp add: nth_drop)
qed (use assms in simp)

lemma list_all_upt: "list_all P [0..<n] \<longleftrightarrow> (\<forall>i<n. P i)"
  by (auto simp: list_all_iff)

lemma matches_iff:
  "flash_page_matches D d page ws \<longleftrightarrow>
     (\<forall>i<1024. rd_u32 (rd_bytes (dv_mem D d) (page + of_nat i * 4) 4) =
        (case ws of Some w \<Rightarrow> w ! i | None \<Rightarrow> UINT32_MAX))"
  unfolding flash_page_matches_def list_all_upt ..

lemma matches_bytes:
  assumes "length bs = 4096"
  shows "flash_page_matches D d page (Some (words_of_bytes bs)) \<longleftrightarrow> rd_bytes (dv_mem D d) page 4096 = bs"
proof -
  have w: "take 4 (drop (4 * i) (rd_bytes (dv_mem D d) page 4096)) = rd_bytes (dv_mem D d) (page + of_nat i * 4) 4"
    if "i < 1024" for i
    using that by (simp add: drop_rd_bytes take_rd_bytes mult.commute)
  have "flash_page_matches D d page (Some (words_of_bytes bs)) \<longleftrightarrow>
      (\<forall>i<1024. rd_u32 (rd_bytes (dv_mem D d) (page + of_nat i * 4) 4) = rd_u32 (take 4 (drop (4 * i) bs)))"
    using assms by (auto simp: matches_iff words_of_bytes_nth)
  also have "\<dots> \<longleftrightarrow> (\<forall>i<1024. take 4 (drop (4 * i) (rd_bytes (dv_mem D d) page 4096)) = take 4 (drop (4 * i) bs))"
    using assms by (auto simp: w intro!: rd_u32_inj)
  also have "\<dots> \<longleftrightarrow> rd_bytes (dv_mem D d) page 4096 = bs"
    using assms quads_eq [of "rd_bytes (dv_mem D d) page 4096" 1024 bs] by auto
  finally show ?thesis .
qed

lemma matches_erased:
  "flash_page_matches D d page None \<longleftrightarrow> rd_bytes (dv_mem D d) page 4096 = replicate 4096 0xFF"
proof -
  have "words_of_bytes (replicate 4096 0xFF) ! i = UINT32_MAX" if "i < 1024" for i
    using that by (simp add: words_of_bytes_nth rd_u32_def)
  then have "flash_page_matches D d page None = flash_page_matches D d page (Some (words_of_bytes (replicate 4096 0xFF)))"
    by (auto simp: matches_iff)
  then show ?thesis by (simp add: matches_bytes)
qed

lemma attempts_matches:
  "page_change_attempts D n page ws d = (True, d') \<Longrightarrow> flash_page_matches D d' page ws"
  by (induction n arbitrary: d) (auto simp: Let_def split: if_splits)

section \<open>Coherence of the cache\<close>

text \<open>
  The memory the decoder sees: flash overlaid with the dirty page.  The cache is consistent when
  its page address is page-aligned and a clean cached page equals flash.
\<close>

definition cview :: "'d mota_dev \<Rightarrow> 'd mota_st \<Rightarrow> flash" where
  "cview D s a = (if g_cache_page s \<noteq> 0 \<and> g_cache_dirty s \<and> in_page (g_cache_page s) a
                  then g_cache s ! unat (a - g_cache_page s) else fmem D s a)"

definition cache_ok :: "'d mota_dev \<Rightarrow> 'd mota_st \<Rightarrow> bool" where
  "cache_ok D s \<longleftrightarrow> length (g_cache s) = 4096 \<and> 4096 dvd unat (g_cache_page s) \<and>
     (g_cache_page s \<noteq> 0 \<and> \<not> g_cache_dirty s \<longrightarrow> g_cache s = rd_bytes (fmem D s) (g_cache_page s) 4096)"

lemma in_page_iff: "in_page p a \<longleftrightarrow> unat (a - p) < 4096"
  by (simp add: in_page_def word_less_nat_alt)

lemma rd_bytes_page: "in_page p a \<Longrightarrow> rd_bytes m p 4096 ! unat (a - p) = m a"
  by (simp add: in_page_iff)

lemma page_eqI:
  assumes "rd_bytes m p 4096 = bs" "in_page p a" shows "m a = bs ! unat (a - p)"
  using rd_bytes_page [OF assms(2), of m] assms(1) by simp

lemma page_of_aligned: "4096 dvd unat (page_of a)" "in_page (page_of a) a"
proof -
  have "page_of a AND 0xFFF = 0" unfolding page_of_def by (rule bit_word_eqI) (auto simp: bit_simps)
  then show "4096 dvd unat (page_of a)" by (simp add: page_aligned_iff)
  show "in_page (page_of a) a" by (simp add: in_page_iff page_off(2))
qed

lemma aligned_page_span: "4096 dvd unat (p :: u32) \<Longrightarrow> unat p + 4096 \<le> 2 ^ 32"
proof -
  assume "4096 dvd unat p"
  then obtain k where "unat p = 4096 * k" by (auto simp: dvd_def)
  with unat_u32_lt [of p] show ?thesis by simp
qed

lemma in_page_aligned_iff:
  assumes "4096 dvd unat p" shows "in_page p a \<longleftrightarrow> unat p \<le> unat a \<and> unat a < unat p + 4096"
proof (cases "p \<le> a")
  case True
  then show ?thesis by (auto simp: in_page_iff unat_sub_le word_le_nat_alt)
next
  case False
  have "unat (a - p) = unat a + 2 ^ 32 - unat p"
    using False by (simp add: unat_sub_if_size word_size word_le_nat_alt)
  then show ?thesis using False aligned_page_span [OF assms] by (simp add: in_page_iff word_le_nat_alt)
qed

lemma page_of_unique:
  assumes "4096 dvd unat p" "in_page p a" shows "page_of a = p"
proof -
  obtain k where k: "unat p = 4096 * k" using assms(1) by (auto simp: dvd_def)
  obtain j where j: "unat (page_of a) = 4096 * j" using page_of_aligned(1) [of a] by (auto simp: dvd_def)
  have "unat p \<le> unat a" "unat a < unat p + 4096" using assms by (simp_all add: in_page_aligned_iff)
  moreover have "unat (page_of a) \<le> unat a" "unat a < unat (page_of a) + 4096"
    using page_of_aligned [of a] by (simp_all add: in_page_aligned_iff)
  ultimately have "k = j" using k j by linarith
  then show ?thesis using k j by (simp add: word_unat_eq_iff)
qed

context mota_device
begin

lemma attempts_frame:
  assumes "\<And>w. ws = Some w \<Longrightarrow> length w = 1024" "\<not> in_page page a"
  shows "dv_mem D (snd (page_change_attempts D n page ws d)) a = dv_mem D d a"
  using assms
proof (induction n arbitrary: d)
  case (Suc n)
  have "dv_mem D (dv_write D d' page w) a = dv_mem D d' a" if "ws = Some w" for d' w
    using Suc.prems that by (intro write_frame) (simp add: in_page_iff)
  then show ?case using Suc by (auto simp: Let_def erase_frame split: option.splits)
qed simp

lemma change_verified:
  assumes "flash_page_change_verified D page ws s = (ok, s')" "\<And>w. ws = Some w \<Longrightarrow> length w = 1024"
  shows "s' = s\<lparr>st_dev := st_dev s'\<rparr>"
    and "\<not> in_page page a \<Longrightarrow> fmem D s' a = fmem D s a"
    and "ok \<Longrightarrow> flash_page_matches D (st_dev s') page ws"
  using assms(1) attempts_frame [OF assms(2), of ws page a FLASH_PAGE_ATTEMPTS "st_dev s"]
    attempts_matches [of D FLASH_PAGE_ATTEMPTS page ws "st_dev s"]
  by (auto simp: flash_page_change_verified_def split: prod.splits)

lemma write_verified:
  assumes "flash_page_write_verified D page (words_of_bytes bs) s = (ok, s')" "length bs = 4096"
  shows "s' = s\<lparr>st_dev := st_dev s'\<rparr>"
    and "\<not> in_page page a \<Longrightarrow> fmem D s' a = fmem D s a"
    and "ok \<Longrightarrow> rd_bytes (fmem D s') page 4096 = bs"
  using change_verified [OF assms(1) [unfolded flash_page_write_verified_def]] assms(2)
  by (auto simp: matches_bytes)

lemma erase_verified:
  assumes "flash_page_erase_verified D page s = (ok, s')"
  shows "s' = s\<lparr>st_dev := st_dev s'\<rparr>"
    and "\<not> in_page page a \<Longrightarrow> fmem D s' a = fmem D s a"
    and "ok \<Longrightarrow> rd_bytes (fmem D s') page 4096 = replicate 4096 0xFF"
  using change_verified [OF assms(1) [unfolded flash_page_erase_verified_def]]
  by (auto simp: matches_erased)

text \<open>The three outcomes of a flush.\<close>

lemma flush_cases:
  assumes "cache_flush D s = (ok, s')" "cache_ok D s"
  obtains (none) "g_cache_page s = 0" "ok" "s' = s"
  | (clean) "g_cache_page s \<noteq> 0" "\<not> g_cache_dirty s" "ok" "s' = s\<lparr>g_cache_page := 0, g_cache_dirty := False\<rparr>"
  | (dirty) s1 where "g_cache_page s \<noteq> 0" "g_cache_dirty s"
      "flash_page_write_verified D (g_cache_page s) (words_of_bytes (g_cache s)) s = (ok, s1)"
      "s' = (if ok then s1\<lparr>g_cache_page := 0, g_cache_dirty := False\<rparr> else s1)"
  using assms by (auto simp: cache_flush_def Let_def split: if_splits prod.splits)

lemma flush_ok:
  assumes "cache_flush D s = (True, s')" "cache_ok D s"
  shows "g_cache_page s' = 0" "cache_ok D s'" "fmem D s' = cview D s"
proof -
  from assms show "g_cache_page s' = 0" by (rule flush_cases) auto
  have len: "length (g_cache s) = 4096" using assms(2) by (simp add: cache_ok_def)
  show "fmem D s' = cview D s"
    using assms
  proof (cases rule: flush_cases)
    case (dirty s1)
    note w = write_verified [OF dirty(3) len]
    have "fmem D s1 a = cview D s a" for a
      using w(2) page_eqI [OF w(3)] dirty(1,2) by (cases "in_page (g_cache_page s) a") (auto simp: cview_def)
    then show ?thesis using dirty(4) by auto
  qed (auto simp: cview_def)
  show "cache_ok D s'"
    using assms
  proof (cases rule: flush_cases)
    case (dirty s1)
    then show ?thesis using write_verified(1) [OF dirty(3) len] len
      by (simp add: cache_ok_def) (metis mota_st.select_convs(6) mota_st.surjective mota_st.update_convs(1))
  qed (use assms(2) in \<open>auto simp: cache_ok_def\<close>)
qed

lemma flush_frame:
  assumes "cache_flush D s = (ok, s')" "cache_ok D s" "\<not> (g_cache_page s \<noteq> 0 \<and> in_page (g_cache_page s) a)"
  shows "fmem D s' a = fmem D s a"
  using assms(1,2)
proof (cases rule: flush_cases)
  case (dirty s1)
  have len: "length (g_cache s) = 4096" using assms(2) by (simp add: cache_ok_def)
  show ?thesis using write_verified(2) [OF dirty(3) len, of a] dirty(1,4) assms(3) by auto
qed simp_all

lemma flush_fail:
  assumes "cache_flush D s = (False, s')" "cache_ok D s"
  shows "g_cache_page s' = g_cache_page s" "cache_ok D s'"
proof -
  have len: "length (g_cache s) = 4096" using assms(2) by (simp add: cache_ok_def)
  from assms obtain s1 where 1: "flash_page_write_verified D (g_cache_page s) (words_of_bytes (g_cache s)) s = (False, s1)"
    "s' = s1" "g_cache_dirty s" by (cases rule: flush_cases) auto
  then have "s' = s\<lparr>st_dev := st_dev s'\<rparr>" using write_verified(1) [OF 1(1) len] by simp
  then obtain d where "s' = s\<lparr>st_dev := d\<rparr>" by blast
  then show "g_cache_page s' = g_cache_page s" "cache_ok D s'" using assms(2) 1(3) by (simp_all add: cache_ok_def)
qed

lemma use_ok:
  assumes "cache_use D page s = (True, s')" "cache_ok D s" "page \<noteq> 0" "4096 dvd unat page"
  shows "g_cache_page s' = page" "cache_ok D s'" "cview D s' = cview D s" "g_cache s' = rd_bytes (cview D s) page 4096"
proof -
  have "g_cache_page s' = page \<and> cache_ok D s' \<and> cview D s' = cview D s \<and> g_cache s' = rd_bytes (cview D s) page 4096"
  proof (cases "g_cache_page s = page")
    case True
    then have s': "s' = s" using assms(1) by (simp add: cache_use_def)
    have "g_cache s ! i = cview D s (page + of_nat i)" if "i < 4096" for i
    proof (cases "g_cache_dirty s")
      case True
      then show ?thesis using that \<open>g_cache_page s = page\<close> assms(3) by (simp add: cview_def in_page_iff unat_of_nat_u32)
    next
      case False
      then have "g_cache s = rd_bytes (fmem D s) page 4096" "cview D s = fmem D s"
        using assms(2,3) True by (auto simp: cache_ok_def cview_def)
      then show ?thesis using that by simp
    qed
    moreover have "length (g_cache s) = 4096" using assms(2) by (simp add: cache_ok_def)
    ultimately have "g_cache s = rd_bytes (cview D s) page 4096" by (intro nth_equalityI) auto
    then show ?thesis using True s' assms(2) by simp
  next
    case False
    then obtain s1 where s1: "cache_flush D s = (True, s1)"
        "s' = s1\<lparr>g_cache_page := page, g_cache_dirty := False, g_cache := fl_read D s1 page 4096\<rparr>"
      using assms(1) by (auto simp: cache_use_def Let_def split: prod.splits if_splits)
    note f = flush_ok [OF s1(1) assms(2)]
    have "cview D s' = fmem D s1" by (auto simp: cview_def s1(2))
    then show ?thesis using f assms(4) by (simp add: s1(2) cache_ok_def fl_read_def)
  qed
  then show "g_cache_page s' = page" "cache_ok D s'" "cview D s' = cview D s" "g_cache s' = rd_bytes (cview D s) page 4096"
    by auto
qed

text \<open>The patch a chunk copy applies to the cached page.\<close>

lemma cview_patch:
  assumes "g_cache_page s = page" "page \<noteq> 0" "g_cache s = rd_bytes m page 4096" "cview D s = m"
    "off + length bs \<le> 4096"
  shows "cview D (s\<lparr>g_cache := take off (g_cache s) @ bs @ drop (off + length bs) (g_cache s), g_cache_dirty := True\<rparr>) a =
    (if unat (a - (page + of_nat off)) < length bs then bs ! unat (a - (page + of_nat off)) else m a)"
proof (cases "in_page page a")
  case True
  define i where "i = unat (a - page)"
  have i: "i < 4096" "a = page + of_nat i" using True by (simp_all add: i_def in_page_iff)
  have rel: "off \<le> i \<Longrightarrow> unat (a - (page + of_nat off)) = i - off"
    using i assms(5) by (simp add: unat_sub_if_size word_size unat_of_nat_u32)
  have rel2: "i < off \<Longrightarrow> \<not> unat (a - (page + of_nat off)) < length bs"
    using i assms(5) by (simp add: unat_sub_if_size word_size unat_of_nat_u32)
  have "cview D (s\<lparr>g_cache := take off (g_cache s) @ bs @ drop (off + length bs) (g_cache s), g_cache_dirty := True\<rparr>) a =
      (take off (g_cache s) @ bs @ drop (off + length bs) (g_cache s)) ! i"
    using True assms(1,2) by (simp add: cview_def i_def)
  also have "\<dots> = (if off \<le> i \<and> i < off + length bs then bs ! (i - off) else m a)"
    using i assms(3,5) by (auto simp: nth_append not_less less_diff_conv2)
  finally show ?thesis using rel rel2 by (cases "off \<le> i") auto
next
  case False
  then have "\<not> unat (a - (page + of_nat off)) < length bs"
    using program_in_page_frame [of page a off "map (\<lambda>_. 0) bs" _ "\<lambda>_. 1"] assms(5)
    by (auto simp: program_bytes_def)
  moreover have "m a = fmem D s a" using False assms(1,4) by (auto simp: cview_def)
  ultimately show ?thesis using False assms(1) by (simp add: cview_def)
qed

text \<open>One iteration of the write loop.\<close>

lemma cwrite_step:
  assumes "cwrite D addr src s = (ok, s')" "src \<noteq> []"
  obtains off chunk okp s1 where "off = unat (addr - page_of addr)" "chunk = min (4096 - off) (length src)"
    "0 < chunk" "off + chunk \<le> 4096" "cache_use D (page_of addr) s = (okp, s1)"
    "\<not> okp \<longrightarrow> \<not> ok \<and> s' = s1"
    "okp \<longrightarrow> cwrite D (addr + of_nat chunk) (drop chunk src)
       (s1\<lparr>g_cache := take off (g_cache s1) @ take chunk src @ drop (off + chunk) (g_cache s1), g_cache_dirty := True\<rparr>) = (ok, s')"
proof -
  let ?off = "unat (addr - page_of addr)"
  have "?off < 4096" by (simp add: page_off(2))
  moreover have "0 < length src" using assms(2) by simp
  moreover obtain okp s1 where u: "cache_use D (page_of addr) s = (okp, s1)" by fastforce
  have m: "(if 4096 - ?off > length src then length src else 4096 - ?off) = min (4096 - ?off) (length src)" by (simp add: min_def)
  note e = assms(1) [unfolded cwrite.simps [of D addr src s] Let_def m u]
  ultimately show thesis
    by (intro that [of ?off "min (4096 - ?off) (length src)" okp s1]) (use e assms(2) u in \<open>auto split: if_splits\<close>)
qed

text \<open>A successful write is the byte-wise update of the visible memory.\<close>

lemma unat_shift:
  assumes "unat (addr :: u32) + n \<le> 2 ^ 32" "k \<le> n"
  shows "k \<le> unat (a - addr) \<Longrightarrow> unat (a - (addr + of_nat k)) = unat (a - addr) - k"
    and "unat (a - addr) < k \<Longrightarrow> \<not> unat (a - (addr + of_nat k)) < n - k"
proof -
  have k: "unat (of_nat k :: u32) = k \<or> k = 2 ^ 32" using assms by (cases "k = 2 ^ 32") (simp_all add: unat_of_nat_u32)
  have d: "a - (addr + of_nat k) = (a - addr) - of_nat k" by simp
  show "k \<le> unat (a - addr) \<Longrightarrow> unat (a - (addr + of_nat k)) = unat (a - addr) - k"
    unfolding d using k unat_u32_lt [of "a - addr"] by (auto simp: unat_sub_if_size word_size)
  show "unat (a - addr) < k \<Longrightarrow> \<not> unat (a - (addr + of_nat k)) < n - k"
    unfolding d using k assms unat_u32_lt [of "a - addr"] by (auto simp: unat_sub_if_size word_size)
qed

lemma cwrite_view:
  assumes "cwrite D addr src s = (True, s')" "cache_ok D s" "4096 \<le> unat addr" "unat addr + length src \<le> 2 ^ 32"
  shows "cache_ok D s' \<and> cview D s' = (\<lambda>a. if unat (a - addr) < length src then src ! unat (a - addr) else cview D s a)"
  using assms
proof (induction "length src" arbitrary: addr src s rule: less_induct)
  case less
  show ?case
  proof (cases "src = []")
    case True
    then show ?thesis using less.prems by (simp add: cwrite.simps)
  next
    case False
    from less.prems(1) False obtain off chunk s1 where
      off: "off = unat (addr - page_of addr)" and ch: "chunk = min (4096 - off) (length src)" "0 < chunk" "off + chunk \<le> 4096"
      and use: "cache_use D (page_of addr) s = (True, s1)"
      and rest: "cwrite D (addr + of_nat chunk) (drop chunk src)
        (s1\<lparr>g_cache := take off (g_cache s1) @ take chunk src @ drop (off + chunk) (g_cache s1), g_cache_dirty := True\<rparr>) = (True, s')"
      by (rule cwrite_step) auto
    let ?s = "s1\<lparr>g_cache := take off (g_cache s1) @ take chunk src @ drop (off + chunk) (g_cache s1), g_cache_dirty := True\<rparr>"
    have al: "4096 dvd unat (page_of addr)" "in_page (page_of addr) addr" by (rule page_of_aligned)+
    then have "unat (page_of addr) \<noteq> 0" using less.prems(3) by (auto simp: in_page_aligned_iff)
    then have nz: "page_of addr \<noteq> 0" by auto
    note u = use_ok [OF use less.prems(2) nz al(1)]
    have addr: "page_of addr + of_nat off = addr" by (simp add: off)
    have len: "length (take chunk src) = chunk" using ch by simp
    have v: "cview D ?s a = (if unat (a - addr) < chunk then src ! unat (a - addr) else cview D s a)" for a
      using cview_patch [OF u(1) nz u(4) u(3), of off "take chunk src" a, unfolded len addr] ch(3) by simp
    have ok: "cache_ok D ?s" using u(1,2) ch by (simp add: cache_ok_def)
    show ?thesis
    proof (cases "chunk = length src")
      case True
      then have "s' = ?s" using rest by (simp add: cwrite.simps)
      then show ?thesis using ok v True by auto
    next
      case False
      have lim: "unat addr + chunk < 2 ^ 32" using False ch less.prems(4) by simp
      then have na: "unat (addr + of_nat chunk) = unat addr + chunk" by (simp add: unat_word_ariths unat_of_nat)
      have "cache_ok D s' \<and> cview D s' = (\<lambda>a. if unat (a - (addr + of_nat chunk)) < length (drop chunk src)
          then drop chunk src ! unat (a - (addr + of_nat chunk)) else cview D ?s a)"
        using ch less.prems(3,4) na by (intro less.hyps [OF _ rest ok]) (auto simp: False)
      moreover have "(if unat (a - (addr + of_nat chunk)) < length (drop chunk src)
          then drop chunk src ! unat (a - (addr + of_nat chunk)) else cview D ?s a) =
          (if unat (a - addr) < length src then src ! unat (a - addr) else cview D s a)" for a
      proof (cases "chunk \<le> unat (a - addr)")
        case True
        have "unat (a - (addr + of_nat chunk)) = unat (a - addr) - chunk"
          using unat_shift(1) [OF less.prems(4) _ True] ch(1) by simp
        then show ?thesis unfolding v using True by (simp only:) (auto simp: less_diff_conv)
      next
        case F: False
        have "chunk \<le> length src" using ch(1) by simp
        then have "\<not> unat (a - (addr + of_nat chunk)) < length src - chunk"
          using unat_shift(2) [OF less.prems(4)] F not_le by blast
        moreover have "unat (a - addr) < length src" using F ch(1) by simp
        ultimately show ?thesis unfolding v length_drop using F by (simp only: if_False if_True not_le)
      qed
      ultimately show ?thesis by (simp only:)
    qed
  qed
qed

end

section \<open>Confinement to the workspace\<close>

text \<open>
  Everything the applier does through the cache stays inside a page-aligned window \<open>[lo, hi)\<close>:
  outside it flash is still \<open>m\<close>, and the cached page lies inside.
\<close>

definition confined :: "'d mota_dev \<Rightarrow> u32 \<Rightarrow> u32 \<Rightarrow> flash \<Rightarrow> 'd mota_st \<Rightarrow> bool" where
  "confined D lo hi m s \<longleftrightarrow> cache_ok D s \<and>
     (g_cache_page s \<noteq> 0 \<longrightarrow> unat lo \<le> unat (g_cache_page s) \<and> unat (g_cache_page s) + 4096 \<le> unat hi) \<and>
     (\<forall>a. \<not> (unat lo \<le> unat a \<and> unat a < unat hi) \<longrightarrow> fmem D s a = m a)"

lemma window_page:
  assumes "4096 dvd unat lo" "4096 dvd unat hi" "unat lo \<le> unat a" "unat a < unat hi"
  shows "unat lo \<le> unat (page_of a)" "unat (page_of a) + 4096 \<le> unat hi"
proof -
  obtain l h p where k: "unat lo = 4096 * l" "unat hi = 4096 * h" "unat (page_of a) = 4096 * p"
    using assms(1,2) page_of_aligned(1) [of a] by (auto simp: dvd_def)
  have r: "unat (page_of a) \<le> unat a" "unat a < unat (page_of a) + 4096"
    using page_of_aligned [of a] by (simp_all add: in_page_aligned_iff)
  have "l < p + 1" using k r assms(3) by linarith
  then show "unat lo \<le> unat (page_of a)" using k by simp
  have "p < h" using k r assms(4) by linarith
  then show "unat (page_of a) + 4096 \<le> unat hi" using k by simp
qed

lemma window_not_page:
  assumes "4096 dvd unat p" "unat lo \<le> unat p" "unat p + 4096 \<le> unat hi" "\<not> (unat lo \<le> unat a \<and> unat a < unat hi)"
  shows "\<not> in_page p a"
  using assms by (auto simp: in_page_aligned_iff)

context mota_device
begin

lemma confined_flush:
  assumes "cache_flush D s = (ok, s')" "confined D lo hi m s"
  shows "confined D lo hi m s'"
proof -
  have ok: "cache_ok D s" using assms(2) by (simp add: confined_def)
  have "fmem D s' a = fmem D s a" if "\<not> (unat lo \<le> unat a \<and> unat a < unat hi)" for a
  proof (rule flush_frame [OF assms(1) ok])
    show "\<not> (g_cache_page s \<noteq> 0 \<and> in_page (g_cache_page s) a)"
      using assms(2) that window_not_page by (auto simp: confined_def cache_ok_def)
  qed
  moreover have "cache_ok D s' \<and> (g_cache_page s' = 0 \<or> g_cache_page s' = g_cache_page s)"
    using flush_ok [of s s'] flush_fail [of s s'] assms(1) ok by (cases ok) auto
  ultimately show ?thesis using assms(2) by (auto simp: confined_def)
qed

lemma confined_use:
  assumes "cache_use D page s = (ok, s')" "confined D lo hi m s" "4096 dvd unat page"
    "unat lo \<le> unat page" "unat page + 4096 \<le> unat hi"
  shows "confined D lo hi m s'"
proof (cases "g_cache_page s = page")
  case True
  then show ?thesis using assms(1,2) by (simp add: cache_use_def)
next
  case False
  obtain ok1 s1 where f: "cache_flush D s = (ok1, s1)" by fastforce
  then have c: "confined D lo hi m s1" using assms(2) by (rule confined_flush)
  then show ?thesis using assms False f
    by (cases ok1) (auto simp: cache_use_def confined_def cache_ok_def fl_read_def)
qed

lemma confined_cwrite:
  assumes "cwrite D addr src s = (ok, s')" "confined D lo hi m s" "4096 dvd unat lo" "4096 dvd unat hi"
    "unat lo \<le> unat addr" "unat addr + length src \<le> unat hi"
  shows "confined D lo hi m s'"
  using assms
proof (induction "length src" arbitrary: addr src s rule: less_induct)
  case less
  show ?case
  proof (cases "src = []")
    case True
    then show ?thesis using less.prems by (simp add: cwrite.simps)
  next
    case False
    from less.prems(1) False obtain off chunk okp s1 where "off = unat (addr - page_of addr)" and
      ch: "chunk = min (4096 - off) (length src)" "0 < chunk" "off + chunk \<le> 4096"
      and use: "cache_use D (page_of addr) s = (okp, s1)" and stop: "\<not> okp \<longrightarrow> \<not> ok \<and> s' = s1"
      and rest: "okp \<longrightarrow> cwrite D (addr + of_nat chunk) (drop chunk src)
        (s1\<lparr>g_cache := take off (g_cache s1) @ take chunk src @ drop (off + chunk) (g_cache s1), g_cache_dirty := True\<rparr>) = (ok, s')"
      by (rule cwrite_step)
    have "unat addr < unat hi" using False less.prems(6) by (cases src) auto
    note w = window_page [OF less.prems(3,4,5) this]
    have c: "confined D lo hi m s1" using use less.prems(2) page_of_aligned(1) w by (rule confined_use)
    show ?thesis
    proof (cases okp)
      case True
      have c': "confined D lo hi m (s1\<lparr>g_cache := take off (g_cache s1) @ take chunk src @ drop (off + chunk) (g_cache s1),
          g_cache_dirty := True\<rparr>)"
        using c ch by (simp add: confined_def cache_ok_def)
      show ?thesis
      proof (cases "chunk = length src")
        case True
        then show ?thesis using rest [rule_format, OF \<open>okp\<close>] c' by (simp add: cwrite.simps)
      next
        case F: False
        have "unat addr + chunk < 2 ^ 32" using ch(1) less.prems(6) unat_u32_lt [of hi] F by simp
        then have na: "unat (addr + of_nat chunk) = unat addr + chunk" by (simp add: unat_word_ariths unat_of_nat)
        show ?thesis
          by (rule less.hyps [OF _ rest [rule_format, OF \<open>okp\<close>] c' less.prems(3,4)]) (use ch less.prems(5,6) na False in auto)
      qed
    next
      case False
      then show ?thesis using stop c by simp
    qed
  qed
qed

lemma confined_cerase:
  assumes "cerase D addr n s = (ok, s')" "confined D lo hi m s" "4096 dvd unat lo" "4096 dvd unat hi"
    "unat lo \<le> unat addr" "unat addr + n \<le> unat hi"
  shows "confined D lo hi m s'"
  using assms
proof (induction n arbitrary: addr s rule: less_induct)
  case (less n)
  show ?case
  proof (cases "n = 0")
    case True
    then show ?thesis using less.prems by (simp add: cerase.simps)
  next
    case False
    define off where "off = unat (addr - page_of addr)"
    define step where "step = (if 4096 - off > n then n else 4096 - off)"
    obtain okp s1 where e: "(if g_cache_page s = page_of addr
        then (True, s\<lparr>g_cache := replicate 4096 0xFF, g_cache_dirty := True\<rparr>)
        else flash_page_erase_verified D (page_of addr) s) = (okp, s1)" by fastforce
    have res: "(if \<not> okp then (False, s1) else cerase D (addr + of_nat step) (n - step) s1) = (ok, s')"
      using less.prems(1) False
      unfolding cerase.simps [of D addr n s] Let_def off_def [symmetric] step_def [symmetric] e by simp
    have "off < 4096" by (simp add: off_def page_off(2))
    then have st: "0 < step" "step \<le> n" using False by (auto simp: step_def)
    have "unat addr < unat hi" using False less.prems(6) by linarith
    note w = window_page [OF less.prems(3,4,5) this]
    have c: "confined D lo hi m s1"
    proof (cases "g_cache_page s = page_of addr")
      case True
      then show ?thesis using e less.prems(2) by (auto simp: confined_def cache_ok_def)
    next
      case F: False
      then have v: "flash_page_erase_verified D (page_of addr) s = (okp, s1)" using e by simp
      note ev = erase_verified [OF v]
      obtain d where d: "s1 = s\<lparr>st_dev := d\<rparr>" using ev(1) by blast
      have "g_cache_page s \<noteq> 0 \<Longrightarrow> rd_bytes (fmem D s1) (g_cache_page s) 4096 = rd_bytes (fmem D s) (g_cache_page s) 4096"
      proof (rule rd_bytes_cong)
        fix i :: nat assume "g_cache_page s \<noteq> 0" "i < 4096"
        then have "in_page (g_cache_page s) (g_cache_page s + of_nat i)" by (simp add: in_page_iff unat_of_nat_u32)
        moreover have "4096 dvd unat (g_cache_page s)" using less.prems(2) by (simp add: confined_def cache_ok_def)
        ultimately have "page_of (g_cache_page s + of_nat i) = g_cache_page s" by (intro page_of_unique)
        then have "\<not> in_page (page_of addr) (g_cache_page s + of_nat i)"
          using F page_of_unique [OF page_of_aligned(1), of addr "g_cache_page s + of_nat i"] by auto
        then show "fmem D s1 (g_cache_page s + of_nat i) = fmem D s (g_cache_page s + of_nat i)" by (rule ev(2))
      qed
      moreover have "fmem D s1 a = fmem D s a" if "\<not> (unat lo \<le> unat a \<and> unat a < unat hi)" for a
        using ev(2) window_not_page [OF page_of_aligned(1) w that] by blast
      ultimately show ?thesis using less.prems(2) unfolding confined_def cache_ok_def d by simp
    qed
    show ?thesis
    proof (cases "okp \<and> step < n")
      case True
      have "unat addr + step < 2 ^ 32" using st True less.prems(6) unat_u32_lt [of hi] by simp
      then have na: "unat (addr + of_nat step) = unat addr + step" by (simp add: unat_word_ariths unat_of_nat)
      have "cerase D (addr + of_nat step) (n - step) s1 = (ok, s')" using True res by simp
      then show ?thesis
        by (rule less.IH [OF _ _ c less.prems(3,4), rotated]) (use True st na less.prems(5,6) in auto)
    next
      case False
      then show ?thesis using res c st by (cases okp) (auto simp: cerase.simps)
    qed
  qed
qed

text \<open>A read through the cache is a read of the visible memory.\<close>

lemma nth_append3:
  assumes "length xs = l" "length ys = k"
  shows "i < l \<Longrightarrow> (xs @ ys @ zs) ! i = xs ! i"
    and "l \<le> i \<Longrightarrow> i < l + k \<Longrightarrow> (xs @ ys @ zs) ! i = ys ! (i - l)"
    and "l + k \<le> i \<Longrightarrow> (xs @ ys @ zs) ! i = zs ! (i - (l + k))"
  using assms by (auto simp: nth_append)

lemma cread_view:
  assumes "cache_ok D s" "unat addr + n < 2 ^ 32" "unat (g_cache_page s) + 4096 < 2 ^ 32"
  shows "cread D addr n s = rd_bytes (cview D s) addr n"
proof (cases "g_cache_page s \<noteq> 0 \<and> g_cache_dirty s")
  case False
  then have "cview D s = fmem D s" by (auto simp: cview_def)
  then show ?thesis using False unfolding cread_def fl_read_def Let_def by (simp only: if_False)
next
  case True
  let ?p = "g_cache_page s"
  have e: "unat (addr + of_nat n) = unat addr + n" "unat (?p + PAGE) = unat ?p + 4096"
    using assms by (simp_all add: unat_word_ariths unat_of_nat)
  define os where "os = (if addr > ?p then addr else ?p)"
  define oe where "oe = (if addr + of_nat n < ?p + PAGE then addr + of_nat n else ?p + PAGE)"
  have nos: "unat os = max (unat addr) (unat ?p)" by (auto simp: os_def word_less_nat_alt)
  have noe: "unat oe = min (unat addr + n) (unat ?p + 4096)" by (auto simp: oe_def word_less_nat_alt e)
  have al: "4096 dvd unat ?p" and len: "length (g_cache s) = 4096" using assms(1) by (simp_all add: cache_ok_def)
  have addr_i: "unat (addr + of_nat i) = unat addr + i" if "i < n" for i
    using that assms(2) by (simp add: unat_word_ariths unat_of_nat)
  have off_i: "in_page ?p (addr + of_nat i) \<Longrightarrow> unat (addr + of_nat i - ?p) = unat addr + i - unat ?p" if "i < n" for i
    using that addr_i by (simp add: in_page_aligned_iff [OF al] unat_sub_le word_le_nat_alt)
  show ?thesis
  proof (cases "os < oe")
    case False
    then have "\<not> in_page ?p (addr + of_nat i)" if "i < n" for i
      using that by (auto simp: in_page_aligned_iff [OF al] addr_i word_less_nat_alt nos noe)
    then have "rd_bytes (cview D s) addr n = rd_bytes (fmem D s) addr n"
      by (intro rd_bytes_cong) (simp add: cview_def)
    then show ?thesis using False True by (simp add: cread_def Let_def os_def oe_def fl_read_def)
  next
    case lt: True
    then have lt': "unat os < unat oe" by (simp add: word_less_nat_alt)
    have sub: "unat (os - addr) = unat os - unat addr" "unat (oe - os) = unat oe - unat os"
      "unat (os - ?p) = unat os - unat ?p" "unat (oe - addr) = unat oe - unat addr"
      using lt' by (simp_all add: unat_sub_le word_le_nat_alt nos noe)
    have c: "cread D addr n s = take (unat (os - addr)) (rd_bytes (fmem D s) addr n) @
        take (unat (oe - os)) (drop (unat (os - ?p)) (g_cache s)) @ drop (unat (oe - addr)) (rd_bytes (fmem D s) addr n)"
      using True lt unfolding cread_def Let_def os_def [symmetric] oe_def [symmetric] fl_read_def by simp
    show ?thesis
    proof (rule nth_equalityI)
      show "length (cread D addr n s) = length (rd_bytes (cview D s) addr n)"
        unfolding c sub using lt' len by (auto simp: nos noe min_def max_def)
      fix i assume "i < length (cread D addr n s)"
      then have i: "i < n" unfolding c sub using lt' len by (auto simp: nos noe min_def max_def split: if_splits)
      have "in_page ?p (addr + of_nat i) \<longleftrightarrow> unat os - unat addr \<le> i \<and> i < unat oe - unat addr"
        using i by (auto simp: in_page_aligned_iff [OF al] addr_i nos noe)
      then have inp: "in_page ?p (addr + of_nat i) \<longleftrightarrow> unat os - unat addr \<le> i \<and> i < unat oe - unat addr" .
      have b: "unat oe \<le> unat addr + n" "unat oe \<le> unat ?p + 4096" "unat ?p \<le> unat os" "unat addr \<le> unat os"
        by (simp_all add: nos noe)
      have L: "length (take (unat os - unat addr) (rd_bytes (fmem D s) addr n)) = unat os - unat addr"
        "length (take (unat oe - unat os) (drop (unat os - unat ?p) (g_cache s))) = unat oe - unat os"
        using b lt' len by auto
      have N: "unat os - unat addr + (unat oe - unat os) = unat oe - unat addr" using lt' nos by simp
      consider "i < unat os - unat addr" | "in_page ?p (addr + of_nat i)" | "unat oe - unat addr \<le> i"
        using inp by linarith
      then show "cread D addr n s ! i = rd_bytes (cview D s) addr n ! i"
      proof cases
        case 2
        then have k: "unat os - unat addr \<le> i" "i < unat oe - unat addr" using inp by auto
        have "cread D addr n s ! i =
            take (unat oe - unat os) (drop (unat os - unat ?p) (g_cache s)) ! (i - (unat os - unat addr))"
          unfolding c sub by (rule nth_append3(2) [OF L]) (use k N in linarith)+
        also have "\<dots> = g_cache s ! (unat os - unat ?p + (i - (unat os - unat addr)))"
        proof -
          have "i - (unat os - unat addr) < unat oe - unat os" using k N by linarith
          then show ?thesis using b len by simp
        qed
        also have "unat os - unat ?p + (i - (unat os - unat addr)) = unat addr + i - unat ?p"
          using k nos by (auto simp: max_def)
        finally show ?thesis using 2 True i by (simp add: cview_def off_i)
      next
        case 1
        then have "cread D addr n s ! i = take (unat os - unat addr) (rd_bytes (fmem D s) addr n) ! i"
          unfolding c sub by (rule nth_append3(1) [OF L])
        then show ?thesis using 1 i inp by (simp add: cview_def)
      next
        case 3
        then have "cread D addr n s ! i = drop (unat oe - unat addr) (rd_bytes (fmem D s) addr n) ! (i - (unat oe - unat addr))"
          unfolding c sub N [symmetric] by (intro nth_append3(3) [OF L])
        then show ?thesis using 3 i inp by (simp add: cview_def)
      qed
    qed
  qed
qed

end

section \<open>The host device\<close>

text \<open>
  The device of the host tests: NOR flash whose next \<open>h_faults\<close> programmings of one page
  come out with a flipped bit (\<open>readback_test.c\<close>), an SD extent and a QSPI chip as byte lists.
\<close>

record host =
  h_flash :: flash
  h_fault_page :: u32
  h_faults :: nat
  h_sd :: bytes
  h_qspi :: bytes

definition host_write :: "host \<Rightarrow> u32 \<Rightarrow> u32 list \<Rightarrow> host" where
  "host_write d a ws =
     (let m = fl_write_words (h_flash d) a ws
      in if a = h_fault_page d \<and> h_faults d \<noteq> 0 \<and> ws \<noteq> []
         then d\<lparr>h_flash := m(a := m a XOR 1), h_faults := h_faults d - 1\<rparr>
         else d\<lparr>h_flash := m\<rparr>)"

definition list_read :: "bytes \<Rightarrow> u32 \<Rightarrow> nat \<Rightarrow> bytes option" where
  "list_read bs off n = (if unat off + n \<le> length bs then Some (take n (drop (unat off) bs)) else None)"

definition list_program :: "bytes \<Rightarrow> nat \<Rightarrow> bytes \<Rightarrow> bytes" where
  "list_program bs off ws = take off bs @ map2 (AND) ws (take (length ws) (drop off bs)) @ drop (off + length ws) bs"

definition host_qspi_write :: "host \<Rightarrow> u32 \<Rightarrow> bytes \<Rightarrow> bool \<times> host" where
  "host_qspi_write d off ws =
     (if unat off + length ws \<le> length (h_qspi d) then (True, d\<lparr>h_qspi := list_program (h_qspi d) (unat off) ws\<rparr>)
      else (False, d))"

definition host_dev :: "host mota_dev" where
  "host_dev = \<lparr>dv_mem = h_flash, dv_erase = (\<lambda>d p. d\<lparr>h_flash := fl_erase (h_flash d) p\<rparr>),
     dv_write = host_write, dv_sd_init = (\<lambda>d. (True, d)),
     dv_sd_read = (\<lambda>d first off n. (list_read (h_sd d) off n, d)), dv_sd_deinit = (\<lambda>d. d),
     dv_qspi_set_source = (\<lambda>d h. d), dv_qspi_init = (\<lambda>d. (True, d)),
     dv_qspi_capacity = (\<lambda>d. of_nat (length (h_qspi d))),
     dv_qspi_read = (\<lambda>d off n. (list_read (h_qspi d) off n, d)),
     dv_qspi_write = host_qspi_write, dv_qspi_deinit = (\<lambda>d. d), dv_mbr_copy = (\<lambda>d a. (True, d))\<rparr>"

lemma length_concat_wr: "length (concat (map wr_u32 ws)) = 4 * length ws"
  by (induction ws) auto

lemma fl_write_words_frame:
  assumes "4 * length ws \<le> unat (x - a)" shows "fl_write_words m a ws x = m x"
proof -
  have "length ws < 2 ^ 30" using assms unat_u32_lt [of "x - a"] by simp
  then show ?thesis using assms by (simp add: fl_write_words_program program_bytes_frame length_concat_wr)
qed

interpretation host: mota_device host_dev
proof
  fix ws :: "u32 list" and x a :: u32 and d :: host
  assume "4 * length ws \<le> unat (x - a)"
  then show "dv_mem host_dev (dv_write host_dev d a ws) x = dv_mem host_dev d x"
    by (auto simp: host_dev_def host_write_def Let_def fl_write_words_frame)
qed (auto simp: host_dev_def fl_erase_frame list_read_def host_qspi_write_def split: if_splits)

text \<open>
  C29. A page write that reports success has put exactly the requested bytes into flash, a failed
  one has touched no other page, and this holds on every device whose operations stay within
  their page, however unreliable its erases and writes are.
\<close>

theorem page_write_verified:
  assumes "mota_device D" "flash_page_write_verified D page (words_of_bytes bs) s = (ok, s')" "length bs = 4096"
  shows "(ok \<longrightarrow> fl_read D s' page 4096 = bs) \<and> (\<forall>a. \<not> in_page page a \<longrightarrow> fmem D s' a = fmem D s a) \<and>
    (\<exists>d. s' = s\<lparr>st_dev := d\<rparr>)"
  using mota_device.write_verified [OF assms] by (auto simp: fl_read_def)

lemma host_fresh_page:
  assumes "length bs = 4096"
  shows "rd_bytes (fl_write_words (fl_erase m page) page (words_of_bytes bs)) page 4096 = bs"
proof -
  have "rd_bytes (program_bytes (fl_erase m page) page bs) page (length bs) = bs"
    using assms by (intro nor.erase_then_program) (simp_all add: in_page_iff unat_of_nat_u32)
  then show ?thesis using assms by (simp add: fl_write_words_program)
qed

lemma host_attempt:
  assumes "length bs = 4096" "h_faults d < n"
  shows "fst (page_change_attempts host_dev n page (Some (words_of_bytes bs)) d)"
  using assms(2)
proof (induction n arbitrary: d)
  case (Suc n)
  let ?d = "dv_write host_dev (dv_erase host_dev d page) page (words_of_bytes bs)"
  show ?case
  proof (cases "page = h_fault_page d \<and> h_faults d \<noteq> 0")
    case False
    then have "rd_bytes (dv_mem host_dev ?d) page 4096 = bs"
      using host_fresh_page [OF assms(1), of "h_flash d" page]
      by (auto simp: host_dev_def host_write_def Let_def)
    then show ?thesis using assms(1) by (simp add: matches_bytes Let_def)
  next
    case True
    have "length (words_of_bytes bs) = 1024" using assms(1) by simp
    then have "words_of_bytes bs \<noteq> []" by (metis list.size(3) zero_neq_numeral)
    then have "h_faults ?d = h_faults d - 1" using True by (simp add: host_dev_def host_write_def Let_def)
    then have "h_faults ?d < n" using Suc.prems True by linarith
    from Suc.IH [OF this] show ?thesis by (simp add: Let_def)
  qed
qed simp

definition boot_st :: "'d \<Rightarrow> 'd mota_st" where
  "boot_st d = \<lparr>st_dev = d, st_ram = (\<lambda>_. 0), st_gpregret = 0, st_gpregret2 = 0, st_resetreas = 4,
     g_cache = replicate 4096 0, g_cache_page = 0, g_cache_dirty = False,
     g_hybrid = hybrid_of_bytes (replicate 72 0), g_sd_auth = sd_auth_of_bytes (replicate 72 0),
     g_sd_auth_loaded = False, g_sd_source = False, g_sd_active = False, g_qspi_source = False,
     g_qspi_total_size = 0\<rparr>"

definition host_blank :: host where
  "host_blank = \<lparr>h_flash = (\<lambda>_. 0xFF), h_fault_page = 0x26000, h_faults = 2, h_sd = [], h_qspi = []\<rparr>"

text \<open>
  Three attempts ride out two faults: on the host flash a verified page write succeeds, and leaves
  the requested bytes, whenever fewer than three of its programmings are going to fail.
\<close>

theorem page_write_retries_succeed:
  assumes "length bs = 4096" "h_faults (st_dev s) < 3"
  shows "\<exists>s'. flash_page_write_verified host_dev page (words_of_bytes bs) s = (True, s') \<and>
    fl_read host_dev s' page 4096 = bs"
proof -
  obtain ok s' where w: "flash_page_write_verified host_dev page (words_of_bytes bs) s = (ok, s')" by fastforce
  moreover have ok using w host_attempt [OF assms(1), of "st_dev s" 3 page] assms(2)
    by (auto simp: flash_page_write_verified_def flash_page_change_verified_def FLASH_PAGE_ATTEMPTS_def
        simp del: page_change_attempts.simps split: prod.splits)
  ultimately show ?thesis using host.write_verified(3) [OF w assms(1)] by (auto simp: fl_read_def)
qed

theorem page_write_retries_succeed_witness:
  "\<exists>s'. flash_page_write_verified host_dev 0x26000 (words_of_bytes (replicate 4096 0x5A)) (boot_st host_blank) = (True, s')"
  using page_write_retries_succeed [of "replicate 4096 0x5A" "boot_st host_blank" "0x26000"]
  by (auto simp: boot_st_def host_blank_def)

theorem page_write_verified_witness:
  "\<exists>s'. flash_page_write_verified host_dev 0x26000 (words_of_bytes (replicate 4096 0x5A)) (boot_st host_blank) = (True, s') \<and>
     fl_read host_dev s' 0x26000 4096 = replicate 4096 0x5A \<and> fmem host_dev s' 0x27000 = 0xFF"
proof -
  obtain ok s' where w: "flash_page_write_verified host_dev 0x26000 (words_of_bytes (replicate 4096 0x5A)) (boot_st host_blank) = (ok, s')"
    by fastforce
  moreover have ok using w host_attempt [of "replicate 4096 0x5A" host_blank 3 "0x26000"]
    by (auto simp: flash_page_write_verified_def flash_page_change_verified_def FLASH_PAGE_ATTEMPTS_def boot_st_def host_blank_def
        simp del: page_change_attempts.simps split: prod.splits)
  moreover have "fmem host_dev (boot_st host_blank) 0x27000 = 0xFF" by (simp add: boot_st_def host_blank_def host_dev_def)
  moreover have "\<not> in_page 0x26000 0x27000" by (simp add: in_page_def)
  ultimately show ?thesis
    using page_write_verified [OF host.mota_device_axioms w] by auto
qed

text \<open>
  C30. The write-back cache is invisible.  After a successful write through it, every read through it
  returns the written bytes inside the written range and what was visible before outside it,
  although the data may still be in RAM; and once a flush succeeds flash itself holds
  everything that was visible.
\<close>

theorem cache_refines_memory:
  assumes "mota_device D" "cache_ok D s" "cwrite D addr src s = (True, s')" "4096 \<le> unat addr"
    and "unat addr + length src \<le> 2 ^ 32" "unat b + n < 2 ^ 32" "unat (g_cache_page s') + 4096 < 2 ^ 32"
  shows "cread D b n s' =
      map (\<lambda>i. let a = b + of_nat i in if unat (a - addr) < length src then src ! unat (a - addr) else cview D s a) [0..<n] \<and>
    (\<forall>s''. cache_flush D s' = (True, s'') \<longrightarrow> fmem D s'' = cview D s')"
proof -
  note w = mota_device.cwrite_view [OF assms(1,3,2,4,5)]
  then have "cread D b n s' = rd_bytes (cview D s') b n"
    using assms(6,7) by (intro mota_device.cread_view [OF assms(1)]) auto
  then show ?thesis
    using w mota_device.flush_ok(3) [OF assms(1)] by (auto simp: rd_bytes_def Let_def)
qed

theorem cache_refines_memory_witness:
  "\<exists>s'. cwrite host_dev 0x26FFE [1, 2] (boot_st host_blank) = (True, s') \<and> cread host_dev 0x26FFD 4 s' = [0xFF, 1, 2, 0xFF]"
proof -
  have p: "page_of 0x26FFE = 0x26000" by (simp add: page_of_def)
  have ok: "cache_ok host_dev (boot_st host_blank)" by (simp add: cache_ok_def boot_st_def)
  obtain s' where w: "cwrite host_dev 0x26FFE [1, 2] (boot_st host_blank) = (True, s')" "g_cache_page s' = 0x26000"
    by (simp add: cwrite.simps p cache_use_def cache_flush_def boot_st_def Let_def)
  have v: "cview host_dev (boot_st host_blank) a = 0xFF" for a
    by (simp add: cview_def boot_st_def host_blank_def host_dev_def)
  have big: "unat (- 1 :: u32) = 4294967295" by (simp add: unsigned_minus_1_eq_mask mask_eq_exp_minus_1)
  show ?thesis
    using cache_refines_memory [OF host.mota_device_axioms ok w(1), of "0x26FFD" 4] w
    by (simp add: upt_conv_Cons Let_def v big)
qed

end
