(* ===== verification/Mota_Format.thy ===== *)
theory Mota_Format
  imports Mota_Device Sha256 Soft_Device Boot_Settings
begin

text \<open>
  Sources and format of a staged \<open>.mota\<close> container (\<open>src/src/ota_delta.c\<close>): taking the retained
  handoffs, reading from the selected source, hashing a region, parsing the fixed header, the
  scan for the staged container and for the running image's trailer.  \<open>APP_BASE\<close> is read from
  the installed SoftDevice each time, as the macro does.  Reads return \<open>None\<close> where the code
  returns 0, with the device state they leave.
\<close>

section \<open>Constants\<close>

definition MAGIC :: bytes where "MAGIC = [0x6D, 0x4F, 0x54, 0x41]"
definition TRAILER :: bytes where "TRAILER = [0x76, 0x6B, 0x34, 0x39, 0x36]"
definition ENDF :: bytes where "ENDF = [0x45, 0x6E, 0x64, 0x46]"
definition APRV :: bytes where "APRV = [0x41, 0x50, 0x52, 0x56]"
definition ENDF_LEN :: u32 where [layout_simps]: "ENDF_LEN = 56"
definition MOTA_MFL :: u32 where [layout_simps]: "MOTA_MFL = 197"
definition MFLAG_FULL :: u8 where [layout_simps]: "MFLAG_FULL = 1"
definition MFLAG_SIGNED :: u8 where [layout_simps]: "MFLAG_SIGNED = 2"
definition MFLAG_BOOTLOADER :: u8 where [layout_simps]: "MFLAG_BOOTLOADER = 4"
definition CODEC_FULL :: u8 where [layout_simps]: "CODEC_FULL = 0"
definition CODEC_INPLACE :: u8 where [layout_simps]: "CODEC_INPLACE = 2"
definition MOTA_MIN_LEN :: u32 where [layout_simps]: "MOTA_MIN_LEN = 8 + MOTA_MFL + 5"
definition HEADER_LEN :: u32 where [layout_simps]: "HEADER_LEN = 8 + MOTA_MFL"
definition APPROVAL_OFFSET :: u32 where [layout_simps]: "APPROVAL_OFFSET = 201"
definition MOTA_RESETREAS_SOFTWARE :: u32 where [layout_simps]: "MOTA_RESETREAS_SOFTWARE = 4"

definition app_base :: "'d mota_dev \<Rightarrow> 'd mota_st \<Rightarrow> u32" where
  "app_base D s = CODE_REGION_1_START (fmem D s)"

section \<open>Retained handoffs\<close>

definition retained_handoff_take :: "u32 \<Rightarrow> 'd mota_st \<Rightarrow> bytes \<times> 'd mota_st" where
  "retained_handoff_take address s =
     (rd_bytes (st_ram s) address 72,
      s\<lparr>st_ram := (\<lambda>a. if unat (a - address) < 72 then 0 else st_ram s a)\<rparr>)"

definition hybrid_ram_read :: "u32 \<Rightarrow> u32 \<Rightarrow> 'd mota_st \<Rightarrow> bytes option" where
  "hybrid_ram_read offset len s =
     (if offset > MOTA_HYBRID_ARENA_SIZE \<or> len > MOTA_HYBRID_ARENA_SIZE - offset then None
      else Some (rd_bytes (st_ram s) (MOTA_HYBRID_ARENA_START + offset) (unat len)))"

definition hybrid_required_flash_len :: "u32 \<Rightarrow> u32" where
  "hybrid_required_flash_len tot =
     (if tot > MOTA_HYBRID_ARENA_SIZE + PAGE
      then (tot - MOTA_HYBRID_ARENA_SIZE + PAGE - 1) AND NOT (PAGE - 1)
      else PAGE)"

definition hybrid_geometry_ok :: "'d mota_dev \<Rightarrow> 'd mota_st \<Rightarrow> mota_hybrid_handoff \<Rightarrow> bool" where
  "hybrid_geometry_ok D s h =
     (if st_resetreas s \<noteq> MOTA_RESETREAS_SOFTWARE \<or> \<not> mota_hybrid_handoff_valid h \<or>
         hh_flash_start h AND (PAGE - 1) \<noteq> 0 \<or> hh_flash_len h AND (PAGE - 1) \<noteq> 0 \<or>
         hh_flash_start h < app_base D s \<or> hh_flash_start h > UINT32_MAX - hh_flash_len h then False
      else if hh_flash_start h + hh_flash_len h \<noteq> MOTA_NRF52_STAGE_CEILING_EXPANDED \<or>
              hh_container_total h < MOTA_MIN_LEN \<or>
              hh_flash_start h > UINT32_MAX - hh_container_total h then False
      else hh_flash_len h = hybrid_required_flash_len (hh_container_total h))"

definition hybrid_handoff_take :: "'d mota_dev \<Rightarrow> 'd mota_st \<Rightarrow> bool \<times> 'd mota_st" where
  "hybrid_handoff_take D s =
     (let (raw, s) = retained_handoff_take 0x20006008 s;
          h = hybrid_of_bytes raw
      in if hybrid_geometry_ok D s h then (True, s\<lparr>g_hybrid := h\<rparr>)
         else (False, s\<lparr>g_hybrid := h\<lparr>hh_container_total := 0\<rparr>\<rparr>))"

definition sd_auth_take :: "u8 \<Rightarrow> u8 \<Rightarrow> 'd mota_st \<Rightarrow> bool \<times> 'd mota_st" where
  "sd_auth_take purpose format_ver s =
     (let (raw, s) = retained_handoff_take 0x20006008 s;
          a = sd_auth_of_bytes raw;
          ok = mota_sd_auth_valid a purpose format_ver
      in (ok, s\<lparr>g_sd_auth := a, g_sd_auth_loaded := ok\<rparr>))"

section \<open>Reading the selected source\<close>

definition sd_source :: "build \<Rightarrow> 'd mota_st \<Rightarrow> bool" where
  "sd_source b s \<longleftrightarrow> b_sd_card b \<and> (if b_sd_dual_store b \<or> b_rak_sd_store b then g_sd_source s else True)"

definition external_staged_source :: "build \<Rightarrow> 'd mota_st \<Rightarrow> bool" where
  "external_staged_source b s \<longleftrightarrow> sd_source b s \<or> (b_qspi_flash b \<and> g_qspi_source s)"

definition hybrid_active :: "build \<Rightarrow> 'd mota_st \<Rightarrow> bool" where
  "hybrid_active b s \<longleftrightarrow> b_ram_arena b \<and> hh_container_total (g_hybrid s) \<noteq> 0"

definition hybrid_staged_read :: "'d mota_dev \<Rightarrow> u32 \<Rightarrow> u32 \<Rightarrow> 'd mota_st \<Rightarrow> bytes option" where
  "hybrid_staged_read D address len s =
     (let h = g_hybrid s
      in if hh_container_total h = 0 \<or> address < hh_flash_start h then None
         else let offset = address - hh_flash_start h
         in if offset > hh_container_total h \<or> len > hh_container_total h - offset then None
            else let chunk = (if offset < hh_flash_len h
                              then (if hh_flash_len h - offset > len then len else hh_flash_len h - offset)
                              else 0);
                     out = fl_read D s address (unat chunk);
                     rest = len - chunk
                 in if rest = 0 then Some out
                    else map_option (\<lambda>r. out @ r) (hybrid_ram_read (offset + chunk - hh_flash_len h) rest s))"

definition staged_read ::
    "'d mota_dev \<Rightarrow> build \<Rightarrow> u32 \<Rightarrow> u32 \<Rightarrow> 'd mota_st \<Rightarrow> bytes option \<times> 'd mota_st" where
  "staged_read D b a len s =
     (if sd_source b s
      then (if a > sa_container_total (g_sd_auth s) \<or> len > sa_container_total (g_sd_auth s) - a then (None, s)
            else let (r, d) = dv_sd_read D (st_dev s) (sa_first_sector (g_sd_auth s)) a (unat len)
                 in (r, s\<lparr>st_dev := d\<rparr>))
      else if hybrid_active b s then (hybrid_staged_read D a len s, s)
      else if b_qspi_flash b \<and> g_qspi_source s
      then (if a > g_qspi_total_size s \<or> len > g_qspi_total_size s - a then (None, s)
            else let (r, d) = dv_qspi_read D (st_dev s) a (unat len) in (r, s\<lparr>st_dev := d\<rparr>))
      else (Some (fl_read D s a (unat len)), s))"

section \<open>Hashing a region\<close>

definition normalize_chunk :: "u32 \<Rightarrow> u32 \<Rightarrow> u32 \<Rightarrow> bytes \<Rightarrow> bytes" where
  "normalize_chunk norm addr n buf =
     (if norm = UINT32_MAX then buf
      else let approval_end = norm + 4; chunk_end = addr + n;
               overlap_start = (if addr > norm then addr else norm);
               overlap_end = (if chunk_end < approval_end then chunk_end else approval_end)
           in if overlap_start < overlap_end
              then take (unat (overlap_start - addr)) buf @ replicate (unat (overlap_end - overlap_start)) 0 @
                   drop (unat (overlap_end - addr)) buf
              else buf)"

function sha256_read_loop ::
    "'d mota_dev \<Rightarrow> build \<Rightarrow> u32 \<Rightarrow> u32 \<Rightarrow> bool \<Rightarrow> u32 \<Rightarrow> sha256_ctx \<Rightarrow> 'd mota_st \<Rightarrow>
      sha256_ctx option \<times> 'd mota_st" where
  "sha256_read_loop D b addr len staged norm c s =
     (if len = 0 then (Some c, s)
      else let n = (if len < 256 then len else 256);
               (r, s) = (if staged then staged_read D b addr n s else (Some (fl_read D s addr (unat n)), s))
           in case r of
                None \<Rightarrow> (None, s)
              | Some buf \<Rightarrow>
                  sha256_read_loop D b (addr + n) (len - n) staged norm
                    (sha256_update c (normalize_chunk norm addr n buf)) s)"
  by pat_completeness auto
termination
proof (relation "measure (\<lambda>(D, b, addr, len, staged, norm, c, s). unat len)", goal_cases)
  case (2 D b addr len staged norm c s n x r s' buf)
  then have "n \<noteq> 0" "n \<le> len" by (auto simp: not_less)
  then have "0 < unat n" "unat (len - n) = unat len - unat n" "unat n \<le> unat len"
    by (simp_all add: unat_sub_le unat_gt_0 word_le_nat_alt)
  then show ?case by simp
qed simp

declare sha256_read_loop.simps [simp del]

definition sha256_read_region ::
    "'d mota_dev \<Rightarrow> build \<Rightarrow> u32 \<Rightarrow> u32 \<Rightarrow> bool \<Rightarrow> u32 \<Rightarrow> 'd mota_st \<Rightarrow> bytes option \<times> 'd mota_st" where
  "sha256_read_region D b addr len staged norm s =
     (let (r, s) = sha256_read_loop D b addr len staged norm (sha256_init sha256_blank) s
      in (map_option sha256_final r, s))"

definition sha256_region :: "'d mota_dev \<Rightarrow> build \<Rightarrow> u32 \<Rightarrow> u32 \<Rightarrow> 'd mota_st \<Rightarrow> bytes" where
  "sha256_region D b addr len s = the (fst (sha256_read_region D b addr len False UINT32_MAX s))"

definition region_hash_valid ::
    "'d mota_dev \<Rightarrow> build \<Rightarrow> u32 \<Rightarrow> u32 \<Rightarrow> bytes \<Rightarrow> bool \<Rightarrow> u32 \<Rightarrow> 'd mota_st \<Rightarrow> bool \<times> 'd mota_st" where
  "region_hash_valid D b address len expected staged norm s =
     (let (r, s) = sha256_read_region D b address len staged norm s in (r = Some expected, s))"

section \<open>Container header\<close>

record mota_min =
  mm_is_full :: bool
  mm_approved :: bool
  mm_format_ver :: u8
  mm_flags :: u8
  mm_hash_algo :: u8
  mm_block_size_log2 :: u8
  mm_total :: u32
  mm_image_size :: u32
  mm_payload_size :: u32
  mm_payload_addr :: u32
  mm_approval_addr :: u32
  mm_target_id :: u32
  mm_fw_version :: u32
  mm_block_count :: u32
  mm_image_hash :: bytes
  mm_codec_id :: u8
  mm_hw_id :: bytes
  mm_base_hash :: bytes

record mota_fixed_header =
  fh_magic :: bytes
  fh_total :: u32
  fh_format_ver :: u8
  fh_flags :: u8
  fh_hash_algo :: u8
  fh_target_id :: u32
  fh_fw_version :: u32
  fh_image_size :: u32
  fh_payload_size :: u32
  fh_block_size_log2 :: u8
  fh_merkle_root :: bytes
  fh_image_hash :: bytes
  fh_codec_id :: u8
  fh_hw_id :: bytes
  fh_base_hash :: bytes
  fh_signer :: bytes
  fh_signature :: bytes
  fh_approval :: bytes

definition header_of_bytes :: "bytes \<Rightarrow> mota_fixed_header" where
  "header_of_bytes h = \<lparr>fh_magic = take 4 h, fh_total = rd_u32 (drop 4 h), fh_format_ver = h ! 8,
     fh_flags = h ! 9, fh_hash_algo = h ! 10, fh_target_id = rd_u32 (drop 11 h),
     fh_fw_version = rd_u32 (drop 15 h), fh_image_size = rd_u32 (drop 19 h),
     fh_payload_size = rd_u32 (drop 23 h), fh_block_size_log2 = h ! 27,
     fh_merkle_root = take 4 (drop 28 h), fh_image_hash = take 32 (drop 32 h), fh_codec_id = h ! 64,
     fh_hw_id = take 32 (drop 65 h), fh_base_hash = take 8 (drop 97 h), fh_signer = take 32 (drop 105 h),
     fh_signature = take 64 (drop 137 h), fh_approval = take 4 (drop 201 h)\<rparr>"

definition block_count_of :: "u32 \<Rightarrow> u8 \<Rightarrow> u32" where
  "block_count_of payload_size log2 =
     (let block_size = push_bit (unat log2) 1; count = drop_bit (unat log2) payload_size
      in if payload_size AND (block_size - 1) \<noteq> 0 then count + 1 else count)"

definition header_min :: "u32 \<Rightarrow> mota_fixed_header \<Rightarrow> u32 \<Rightarrow> mota_min" where
  "header_min addr h block_count = \<lparr>mm_is_full = (fh_flags h AND MFLAG_FULL \<noteq> 0), mm_approved = (fh_approval h = APRV),
     mm_format_ver = fh_format_ver h, mm_flags = fh_flags h, mm_hash_algo = fh_hash_algo h,
     mm_block_size_log2 = fh_block_size_log2 h, mm_total = fh_total h,
     mm_image_size = fh_image_size h, mm_payload_size = fh_payload_size h,
     mm_payload_addr = addr + (HEADER_LEN + block_count * 4), mm_approval_addr = addr + APPROVAL_OFFSET,
     mm_target_id = fh_target_id h, mm_fw_version = fh_fw_version h,
     mm_block_count = block_count, mm_image_hash = fh_image_hash h,
     mm_codec_id = fh_codec_id h, mm_hw_id = fh_hw_id h, mm_base_hash = fh_base_hash h\<rparr>"

text \<open>The checks and the decoding after the header and the trailer have been read.\<close>

definition decode_header :: "build \<Rightarrow> u32 \<Rightarrow> mota_fixed_header \<Rightarrow> mota_min option" where
  "decode_header b addr h =
     (if fh_format_ver h \<noteq> 2 \<and> \<not> (b_bootloader_update_enabled b \<and> fh_format_ver h = 3) then None
      else if fh_block_size_log2 h = 0 \<or> fh_block_size_log2 h > 24 \<or> fh_payload_size h = 0 then None
      else let block_count = block_count_of (fh_payload_size h) (fh_block_size_log2 h)
      in if block_count = 0 \<or> block_count > 0xFFFF then None
      else let payload_offset = HEADER_LEN + block_count * 4;
               payload_end = fh_total h - 5
      in if payload_offset > payload_end \<or> fh_payload_size h \<noteq> payload_end - payload_offset then None
         else Some (header_min addr h block_count))"

definition parse_mota_at ::
    "'d mota_dev \<Rightarrow> build \<Rightarrow> u32 \<Rightarrow> u32 \<Rightarrow> 'd mota_st \<Rightarrow> mota_min option \<times> 'd mota_st" where
  "parse_mota_at D b addr limit s =
     (if addr > limit then (None, s)
      else let avail = limit - addr
      in if avail < HEADER_LEN + 5 then (None, s)
      else let (hdr, s) = staged_read D b addr HEADER_LEN s
      in case hdr of None \<Rightarrow> (None, s) | Some raw \<Rightarrow>
         let h = header_of_bytes raw
         in if fh_magic h \<noteq> MAGIC \<or> fh_total h < HEADER_LEN + 5 \<or> fh_total h > avail then (None, s)
            else let (t, s) = staged_read D b (addr + fh_total h - 5) 5 s
            in if t \<noteq> Some TRAILER then (None, s) else (decode_header b addr h, s))"

section \<open>Patch geometry\<close>

text \<open>
  The size decoder of a detools header: six bits in the first byte, seven in each later one,
  until a byte without the top bit.
\<close>

function dt_header_more ::
    "'d mota_dev \<Rightarrow> build \<Rightarrow> u32 \<Rightarrow> u32 \<Rightarrow> u32 \<Rightarrow> u8 \<Rightarrow> u32 \<Rightarrow> nat \<Rightarrow> 'd mota_st \<Rightarrow>
      (u32 \<times> u32) option \<times> 'd mota_st" where
  "dt_header_more D b addr len pos byte v shift s =
     (if byte AND 0x80 = 0 then (if v > 0x7FFFFFFF then (None, s) else (Some (v, pos), s))
      else if pos \<ge> len then (None, s)
      else let (r, s) = staged_read D b (addr + pos) 1 s
      in case r of None \<Rightarrow> (None, s) | Some bs \<Rightarrow>
         let bits = ucast (bs ! 0 AND 0x7F) :: u32
         in if shift \<ge> 32 \<or> bits > drop_bit shift UINT32_MAX then (None, s)
            else dt_header_more D b addr len (pos + 1) (bs ! 0) (v OR push_bit shift bits) (shift + 7) s)"
  by pat_completeness auto
termination
proof (relation "measure (\<lambda>(D, b, addr, len, pos, byte, v, shift, s). unat len - unat pos)", goal_cases)
  case (2 D b addr len pos byte v shift s x r s' bs bits)
  then have lt: "unat pos < unat len" by (simp add: word_le_nat_alt)
  then have "unat (pos + 1) = unat pos + 1" using unat_u32_lt [of len] by (simp add: unat_word_ariths)
  with lt show ?case by simp
qed simp

declare dt_header_more.simps [simp del]

definition dt_header_u32 ::
    "'d mota_dev \<Rightarrow> build \<Rightarrow> u32 \<Rightarrow> u32 \<Rightarrow> u32 \<Rightarrow> 'd mota_st \<Rightarrow> (u32 \<times> u32) option \<times> 'd mota_st" where
  "dt_header_u32 D b addr len pos s =
     (if pos \<ge> len then (None, s)
      else let (r, s) = staged_read D b (addr + pos) 1 s
      in case r of None \<Rightarrow> (None, s) | Some bs \<Rightarrow>
           dt_header_more D b addr len (pos + 1) (bs ! 0) (ucast (bs ! 0 AND 0x3F)) 6 s)"

fun dt_header_sizes ::
    "'d mota_dev \<Rightarrow> build \<Rightarrow> u32 \<Rightarrow> u32 \<Rightarrow> nat \<Rightarrow> u32 \<Rightarrow> 'd mota_st \<Rightarrow> u32 list option \<times> 'd mota_st" where
  "dt_header_sizes D b addr len 0 pos s = (Some [], s)"
| "dt_header_sizes D b addr len (Suc k) pos s =
     (let (r, s) = dt_header_u32 D b addr len pos s
      in case r of None \<Rightarrow> (None, s) | Some (v, pos) \<Rightarrow>
           let (rest, s) = dt_header_sizes D b addr len k pos s in (map_option (\<lambda>vs. v # vs) rest, s))"

definition dt_geometry_values_ok ::
    "mota_min \<Rightarrow> u32 \<Rightarrow> u32 \<Rightarrow> u8 \<Rightarrow> u32 \<Rightarrow> u32 \<Rightarrow> u32 \<Rightarrow> u32 \<Rightarrow> u32 \<Rightarrow> bool" where
  "dt_geometry_values_ok m body_len ws_span fixed memory segment shift from to_size =
     (if drop_bit 4 fixed AND 7 \<noteq> 1 \<or> fixed AND 0xF \<noteq> 2 then False
      else if memory = 0 \<or> memory > ws_span \<or> segment \<noteq> PAGE \<or> shift > memory \<or>
              shift mod segment \<noteq> 0 \<or> from > memory - shift \<or> to_size > memory then False
      else if body_len > UINT32_MAX - ENDF_LEN \<or> from \<noteq> body_len + ENDF_LEN then False
      else to_size = mm_image_size m \<and> to_size \<le> ws_span)"

definition dt_geometry_ok ::
    "'d mota_dev \<Rightarrow> build \<Rightarrow> mota_min \<Rightarrow> u32 \<Rightarrow> u32 \<Rightarrow> 'd mota_st \<Rightarrow> bool \<times> 'd mota_st" where
  "dt_geometry_ok D b m body_len ws_span s =
     (if mm_payload_size m < 2 then (False, s)
      else let (r, s) = staged_read D b (mm_payload_addr m) 1 s
      in case r of None \<Rightarrow> (False, s) | Some fixed \<Rightarrow>
         let (sizes, s) = dt_header_sizes D b (mm_payload_addr m) (mm_payload_size m) 5 1 s
         in case sizes of
              Some [memory, segment, shift, from, to_size] \<Rightarrow>
                (dt_geometry_values_ok m body_len ws_span (fixed ! 0) memory segment shift from to_size, s)
            | _ \<Rightarrow> (False, s))"

section \<open>Locating the container and the running image\<close>

fun scan_mota_pages ::
    "'d mota_dev \<Rightarrow> build \<Rightarrow> u32 \<Rightarrow> nat \<Rightarrow> 'd mota_st \<Rightarrow> (u32 \<times> mota_min) option \<times> 'd mota_st" where
  "scan_mota_pages D b stage_ceiling 0 s = (None, s)"
| "scan_mota_pages D b stage_ceiling (Suc k) s =
     (if \<not> of_nat (Suc k) * PAGE > app_base D s then (None, s)
      else let a = of_nat k * PAGE
      in if fl_read D s a 4 \<noteq> MAGIC then scan_mota_pages D b stage_ceiling k s
      else let (r, s) = parse_mota_at D b a stage_ceiling s
      in case r of
           None \<Rightarrow> scan_mota_pages D b stage_ceiling k s
         | Some m \<Rightarrow>
             if (stage_ceiling - mm_total m) AND NOT (PAGE - 1) = a then (Some (a, m), s)
             else scan_mota_pages D b stage_ceiling k s)"

definition scan_mota ::
    "'d mota_dev \<Rightarrow> build \<Rightarrow> u32 \<Rightarrow> 'd mota_st \<Rightarrow> (u32 \<times> mota_min) option \<times> 'd mota_st" where
  "scan_mota D b stage_ceiling s =
     (if sd_source b s
      then (if \<not> g_sd_auth_loaded s then (None, s)
            else let s = (if b_rak_sd_store b then s\<lparr>g_sd_active := True\<rparr> else s);
                     (ok, d) = dv_sd_init D (st_dev s); s = s\<lparr>st_dev := d\<rparr>
            in if \<not> ok then (None, s)
            else let (r, s) = parse_mota_at D b 0 (sa_container_total (g_sd_auth s)) s
            in case r of
                 Some m \<Rightarrow> if mm_total m = sa_container_total (g_sd_auth s) then (Some (1, m), s) else (None, s)
               | None \<Rightarrow> (None, s))
      else if b_sd_card b \<and> \<not> b_sd_dual_store b \<and> \<not> b_rak_sd_store b then (None, s)
      else if hybrid_active b s
      then (let h = g_hybrid s;
                (r, s) = parse_mota_at D b (hh_flash_start h) (hh_flash_start h + hh_container_total h) s
            in case r of
                 None \<Rightarrow> (None, s)
               | Some m \<Rightarrow>
                   if mm_total m \<noteq> hh_container_total h \<or>
                      mm_approval_addr m > hh_flash_start h + hh_flash_len h - 4 then (None, s)
                   else (if hh_flash_start h = 0 then None else Some (hh_flash_start h, m), s))
      else if b_qspi_flash b \<and> g_qspi_source s
      then (let (ok, d) = dv_qspi_init D (st_dev s); s = s\<lparr>st_dev := d\<rparr>
            in if \<not> ok then (None, s)
            else let capacity = dv_qspi_capacity D (st_dev s)
            in if capacity < MOTA_MIN_LEN then (None, s)
            else let (r, s) = parse_mota_at D b 0 capacity (s\<lparr>g_qspi_total_size := capacity\<rparr>)
            in case r of
                 None \<Rightarrow> (None, s)
               | Some m \<Rightarrow> (Some (1, m), s\<lparr>g_qspi_total_size := mm_total m\<rparr>))
      else if stage_ceiling \<noteq> MOTA_NRF52_STAGE_CEILING_LEGACY \<and>
              stage_ceiling \<noteq> MOTA_NRF52_STAGE_CEILING_EXPANDED \<and>
              \<not> (b_qspi_bootloader_update b \<and> stage_ceiling = MOTA_NRF52_BL_SCRATCH_START) then (None, s)
      else let top = (stage_ceiling - MOTA_MIN_LEN) AND NOT (PAGE - 1)
           in scan_mota_pages D b stage_ceiling (unat (top + PAGE) div 4096) s)"

definition endf_at :: "'d mota_dev \<Rightarrow> 'd mota_st \<Rightarrow> nat \<Rightarrow> bool" where
  "endf_at D s off =
     (let e = fl_read D s (app_base D s + of_nat off) 8 in take 4 e = ENDF \<and> rd_u32 (drop 4 e) = of_nat off)"

definition find_body_len :: "'d mota_dev \<Rightarrow> u32 \<Rightarrow> 'd mota_st \<Rightarrow> u32 option" where
  "find_body_len D app_limit s =
     (if app_limit \<le> app_base D s then None
      else map_option of_nat
             (List.find (endf_at D s) [0..<unat (app_limit - app_base D s) + 1 - unat ENDF_LEN]))"

definition ota_delta_live_app_fits_below :: "'d mota_dev \<Rightarrow> build \<Rightarrow> u32 \<Rightarrow> 'd mota_st \<Rightarrow> bool" where
  "ota_delta_live_app_fits_below D b limit s =
     (let base = app_base D s
      in if limit \<le> base + ENDF_LEN then False
         else case find_body_len D limit s of
                None \<Rightarrow> False
              | Some body_len \<Rightarrow>
                  if body_len = 0 \<or> body_len > limit - base - ENDF_LEN then False
                  else if take 8 (sha256_region D b base body_len s) \<noteq> fl_read D s (base + body_len + 8) 8 then False
                  else let settings = settings_of_bytes (fl_read D s (BOOTLOADER_SETTINGS_ADDRESS (b_chip b)) 32);
                           crc_bound = (bootloader_settings_integrity_valid settings \<and>
                             bs_bank_0 settings = BANK_VALID_APP \<and> bs_bank_0_size settings \<noteq> 0);
                           recorded_size = (if crc_bound then bs_bank_0_size settings else 0);
                           endf_size = body_len + ENDF_LEN
                       in \<not> crc_bound \<or> (recorded_size \<ge> endf_size \<and> recorded_size \<le> limit - base))"

section \<open>Media reads leave the flash alone\<close>

text \<open>
  What a read of the staged container may change: the state of the medium and the two
  bookkeeping variables of the external sources, never the internal flash.
\<close>

definition media_step :: "'d mota_dev \<Rightarrow> 'd mota_st \<Rightarrow> 'd mota_st \<Rightarrow> bool" where
  "media_step D s s' \<longleftrightarrow> (\<exists>d act tot. s' = s\<lparr>st_dev := d, g_sd_active := act, g_qspi_total_size := tot\<rparr> \<and>
     dv_mem D d = fmem D s)"

lemma media_step_refl [simp, intro]: "media_step D s s"
  unfolding media_step_def by (rule exI [of _ "st_dev s"], rule exI [of _ "g_sd_active s"], rule exI [of _ "g_qspi_total_size s"]) simp

lemma media_step_trans [trans]: "media_step D s s1 \<Longrightarrow> media_step D s1 s2 \<Longrightarrow> media_step D s s2"
  unfolding media_step_def by clarsimp blast

lemma media_step_dev: "dv_mem D d = fmem D s \<Longrightarrow> media_step D s (s\<lparr>st_dev := d\<rparr>)"
  unfolding media_step_def by (rule exI [of _ d], rule exI [of _ "g_sd_active s"], rule exI [of _ "g_qspi_total_size s"]) simp

lemma media_step_active: "media_step D s (s\<lparr>g_sd_active := x\<rparr>)"
  unfolding media_step_def by (rule exI [of _ "st_dev s"], rule exI [of _ x], rule exI [of _ "g_qspi_total_size s"]) simp

lemma media_step_total: "media_step D s (s\<lparr>g_qspi_total_size := x\<rparr>)"
  unfolding media_step_def by (rule exI [of _ "st_dev s"], rule exI [of _ "g_sd_active s"], rule exI [of _ x]) simp

lemma media_step_keeps:
  assumes "media_step D s s'"
  shows "fmem D s' = fmem D s" "fl_read D s' = fl_read D s" "app_base D s' = app_base D s"
    "st_ram s' = st_ram s" "st_gpregret s' = st_gpregret s" "st_gpregret2 s' = st_gpregret2 s"
    "g_cache s' = g_cache s" "g_cache_page s' = g_cache_page s" "g_cache_dirty s' = g_cache_dirty s"
    "g_hybrid s' = g_hybrid s" "g_sd_auth s' = g_sd_auth s" "g_sd_source s' = g_sd_source s"
    "g_qspi_source s' = g_qspi_source s" "g_sd_auth_loaded s' = g_sd_auth_loaded s"
    "st_resetreas s' = st_resetreas s"
    "sd_source b s' = sd_source b s" "external_staged_source b s' = external_staged_source b s"
    "hybrid_active b s' = hybrid_active b s"
proof -
  show m: "fmem D s' = fmem D s" using assms by (auto simp: media_step_def)
  show "fl_read D s' = fl_read D s" by (intro ext) (simp add: m fl_read_def)
  show "app_base D s' = app_base D s" by (simp add: m app_base_def)
qed (use assms in \<open>auto simp: media_step_def sd_source_def external_staged_source_def hybrid_active_def\<close>)

lemma chunk_lt:
  assumes "len \<noteq> 0" shows "unat (len - (if len < 256 then len else 256)) < unat (len :: u32)"
  using assms by (auto simp: unat_sub_le unat_gt_0 not_less)

context mota_device
begin

lemma staged_read_step: "staged_read D b a len s = (r, s') \<Longrightarrow> media_step D s s'"
  using sd_read_frame [of "st_dev s" "sa_first_sector (g_sd_auth s)" a "unat len"]
    qspi_read_frame [of "st_dev s" a "unat len"]
  by (auto simp: staged_read_def Let_def intro!: media_step_dev split: if_splits prod.splits)

lemma read_loop_step: "sha256_read_loop D b addr len staged norm c s = (r, s') \<Longrightarrow> media_step D s s'"
proof (induction "unat len" arbitrary: addr len c s rule: less_induct)
  case less
  show ?case
  proof (cases "len = 0")
    case True
    then show ?thesis using less.prems by (simp add: sha256_read_loop.simps)
  next
    case False
    let ?n = "if len < 256 then len else 256 :: u32"
    obtain q s1 where q: "(if staged then staged_read D b addr ?n s else (Some (fl_read D s addr (unat ?n)), s)) = (q, s1)"
      by fastforce
    then have 1: "media_step D s s1" by (auto split: if_splits dest: staged_read_step)
    have sm: "unat (len - ?n) < unat len" using False by (rule chunk_lt)
    show ?thesis
    proof (cases q)
      case None
      then show ?thesis using less.prems q False 1 by (subst (asm) sha256_read_loop.simps) (simp add: Let_def)
    next
      case (Some buf)
      then have "sha256_read_loop D b (addr + ?n) (len - ?n) staged norm
          (sha256_update c (normalize_chunk norm addr ?n buf)) s1 = (r, s')"
        using less.prems q False by (subst (asm) sha256_read_loop.simps) (simp add: Let_def)
      from media_step_trans [OF 1 less.hyps [OF sm this]] show ?thesis .
    qed
  qed
qed

lemma read_region_step: "sha256_read_region D b addr len staged norm s = (r, s') \<Longrightarrow> media_step D s s'"
  by (auto simp: sha256_read_region_def split: prod.splits dest: read_loop_step)

lemma region_hash_step: "region_hash_valid D b addr len h staged norm s = (ok, s') \<Longrightarrow> media_step D s s'"
  by (auto simp: region_hash_valid_def split: prod.splits dest: read_region_step)

lemma parse_step: "parse_mota_at D b addr limit s = (r, s') \<Longrightarrow> media_step D s s'"
  by (auto simp: parse_mota_at_def Let_def split: if_splits prod.splits option.splits
      dest!: staged_read_step intro: media_step_trans)

lemma header_more_step: "dt_header_more D b addr len pos byte v shift s = (r, s') \<Longrightarrow> media_step D s s'"
proof (induction "unat len - unat pos" arbitrary: pos byte v shift s rule: less_induct)
  case less
  have inc: "unat len - unat (pos + 1) < unat len - unat pos" if "\<not> len \<le> pos"
    using that unat_u32_lt [of len] by (simp add: unat_word_ariths word_le_nat_alt)
  show ?case
    using less.prems
    by (subst (asm) dt_header_more.simps)
       (auto simp: Let_def split: if_splits prod.splits option.splits dest!: staged_read_step less.hyps [OF inc]
         intro: media_step_trans)
qed

lemma header_u32_step: "dt_header_u32 D b addr len pos s = (r, s') \<Longrightarrow> media_step D s s'"
  by (auto simp: dt_header_u32_def Let_def split: if_splits prod.splits option.splits
      dest!: staged_read_step header_more_step intro: media_step_trans)

lemma header_sizes_step: "dt_header_sizes D b addr len k pos s = (r, s') \<Longrightarrow> media_step D s s'"
proof (induction k arbitrary: pos s r)
  case (Suc k)
  then show ?case
    by (auto simp: Let_def split: prod.splits option.splits dest!: header_u32_step intro: media_step_trans)
qed simp

lemma geometry_step: "dt_geometry_ok D b m body_len ws_span s = (r, s') \<Longrightarrow> media_step D s s'"
  by (auto simp: dt_geometry_ok_def Let_def split: if_splits prod.splits option.splits list.splits
      dest!: staged_read_step header_sizes_step intro: media_step_trans)

lemma scan_pages_step: "scan_mota_pages D b c k s = (r, s') \<Longrightarrow> media_step D s s'"
proof (induction k arbitrary: s)
  case (Suc k)
  then show ?case
    by (auto simp: Let_def split: prod.splits option.splits if_splits dest!: parse_step intro: media_step_trans)
qed simp

lemma sd_init_step: "dv_sd_init D (st_dev s) = (ok, d) \<Longrightarrow> media_step D s (s\<lparr>st_dev := d\<rparr>)"
  using sd_init_frame [of "st_dev s"] by (simp add: media_step_dev)

lemma qspi_init_step: "dv_qspi_init D (st_dev s) = (ok, d) \<Longrightarrow> media_step D s (s\<lparr>st_dev := d\<rparr>)"
  using qspi_init_frame [of "st_dev s"] by (simp add: media_step_dev)

lemma scan_sd_step:
  assumes "sd_source b s" "scan_mota D b c s = (r, s')" shows "media_step D s s'"
proof -
  define s1 where "s1 = (if b_rak_sd_store b then s\<lparr>g_sd_active := True\<rparr> else s)"
  have 1: "media_step D s s1" by (simp add: s1_def media_step_active)
  obtain ok d where i: "dv_sd_init D (st_dev s1) = (ok, d)" by fastforce
  have 2: "media_step D s (s1\<lparr>st_dev := d\<rparr>)" using 1 sd_init_step [OF i] by (rule media_step_trans)
  show ?thesis using assms 1 2 i
    by (auto simp: scan_mota_def Let_def simp flip: s1_def split: if_splits prod.splits option.splits
        dest!: parse_step intro: media_step_trans)
qed

lemma scan_qspi_step:
  assumes "dv_qspi_init D (st_dev s) = (True, d)" "parse_mota_at D b 0 x (s\<lparr>st_dev := d, g_qspi_total_size := x\<rparr>) = (r, s')"
  shows "media_step D s s'" "media_step D s (s'\<lparr>g_qspi_total_size := y\<rparr>)"
proof -
  have "media_step D s (s\<lparr>st_dev := d, g_qspi_total_size := x\<rparr>)"
    using media_step_trans [OF qspi_init_step [OF assms(1)] media_step_total] by simp
  then show "media_step D s s'" using parse_step [OF assms(2)] by (rule media_step_trans)
  then show "media_step D s (s'\<lparr>g_qspi_total_size := y\<rparr>)" using media_step_total by (rule media_step_trans)
qed

lemma scan_step: "scan_mota D b c s = (r, s') \<Longrightarrow> media_step D s s'"
  by (cases "sd_source b s")
     (auto simp: scan_sd_step, auto simp: scan_mota_def Let_def split: if_splits prod.splits option.splits
       dest: parse_step scan_pages_step qspi_init_step scan_qspi_step)

end

section \<open>What the region hash computes\<close>

lemma sha256_update_append: "sha256_update (sha256_update c xs) ys = sha256_update c (xs @ ys)"
  by (simp add: sha256_update_def)

text \<open>The container as the signer hashed it: the approval word at \<open>norm\<close> read as zero.\<close>

definition approval_zeroed :: "u32 \<Rightarrow> flash \<Rightarrow> flash" where
  "approval_zeroed norm v a = (if norm \<noteq> UINT32_MAX \<and> unat (a - norm) < 4 then 0 else v a)"

lemma patched_nth:
  assumes "length ys = k" "l + k \<le> length xs" "i < length xs"
  shows "(take l xs @ ys @ drop (l + k) xs) ! i = (if l \<le> i \<and> i < l + k then ys ! (i - l) else xs ! i)"
  using assms by (auto simp: nth_append)

lemma normalize_chunk_view:
  assumes "unat addr + unat n < 2 ^ 32" "norm = UINT32_MAX \<or> unat norm + 4 < 2 ^ 32"
  shows "normalize_chunk norm addr n (rd_bytes v addr (unat n)) = rd_bytes (approval_zeroed norm v) addr (unat n)"
proof (cases "norm = UINT32_MAX")
  case True
  then show ?thesis by (simp add: normalize_chunk_def approval_zeroed_def [abs_def])
next
  case False
  define os oe where "os = (if addr > norm then addr else norm)"
    and "oe = (if addr + n < norm + 4 then addr + n else norm + 4)"
  have e: "unat (addr + n) = unat addr + unat n" "unat (norm + 4) = unat norm + 4"
    using assms False by (simp_all add: unat_word_ariths)
  have u: "unat os = max (unat addr) (unat norm)" "unat oe = min (unat addr + unat n) (unat norm + 4)"
    using e by (auto simp: os_def oe_def word_less_nat_alt)
  have z: "approval_zeroed norm v (addr + of_nat i) =
      (if unat norm \<le> unat addr + i \<and> unat addr + i < unat norm + 4 then 0 else v (addr + of_nat i))" if "i < unat n" for i
  proof -
    have "unat (addr + of_nat i) = unat addr + i" using that assms(1) by (simp add: unat_word_ariths unat_of_nat_u32)
    then have "unat (addr + of_nat i - norm) < 4 \<longleftrightarrow> unat norm \<le> unat addr + i \<and> unat addr + i < unat norm + 4"
      using assms False that by (auto simp: unat_sub_if_size word_size word_le_nat_alt)
    then show ?thesis using False by (simp add: approval_zeroed_def)
  qed
  show ?thesis
  proof (cases "os < oe")
    case False
    have "\<not> (unat norm \<le> unat addr + i \<and> unat addr + i < unat norm + 4)" if "i < unat n" for i
      using False that u by (auto simp: word_less_nat_alt)
    then have "rd_bytes (approval_zeroed norm v) addr (unat n) = rd_bytes v addr (unat n)"
      using z by (intro rd_bytes_cong) auto
    then show ?thesis using False \<open>norm \<noteq> UINT32_MAX\<close>
      unfolding normalize_chunk_def Let_def os_def oe_def by (simp only: if_False)
  next
    case True
    let ?buf = "rd_bytes v addr (unat n)"
    have k: "unat (os - addr) = unat os - unat addr" "unat (oe - os) = unat oe - unat os" "unat (oe - addr) = unat oe - unat addr"
      using True u by (simp_all add: unat_sub_le word_le_nat_alt word_less_nat_alt)
    have r: "normalize_chunk norm addr n ?buf = take (unat (os - addr)) ?buf @ replicate (unat (oe - os)) 0 @ drop (unat (oe - addr)) ?buf"
      using True \<open>norm \<noteq> UINT32_MAX\<close> unfolding normalize_chunk_def Let_def os_def oe_def by (simp only: if_False if_True)
    have b: "unat addr \<le> unat os" "unat os < unat oe" "unat oe \<le> unat addr + unat n"
      using True u by (simp_all add: word_less_nat_alt)
    have d: "unat (oe - addr) = unat (os - addr) + unat (oe - os)" using b k by simp
    show ?thesis unfolding r d
    proof (rule nth_equalityI)
      fix i assume "i < length (take (unat (os - addr)) ?buf @ replicate (unat (oe - os)) 0 @
        drop (unat (os - addr) + unat (oe - os)) ?buf)"
      then have i: "i < unat n" using b k by simp
      have iff: "(unat (os - addr) \<le> i \<and> i < unat (os - addr) + unat (oe - os)) \<longleftrightarrow>
          (unat norm \<le> unat addr + i \<and> unat addr + i < unat norm + 4)"
        unfolding k using b u i by linarith
      have zz: "unat (os - addr) \<le> i \<and> i < unat (os - addr) + unat (oe - os) \<Longrightarrow>
          replicate (unat (oe - os)) (0 :: u8) ! (i - unat (os - addr)) = 0"
        by (subst nth_replicate) auto
      have "(take (unat (os - addr)) ?buf @ replicate (unat (oe - os)) 0 @ drop (unat (os - addr) + unat (oe - os)) ?buf) ! i =
          (if unat (os - addr) \<le> i \<and> i < unat (os - addr) + unat (oe - os) then replicate (unat (oe - os)) 0 ! (i - unat (os - addr)) else ?buf ! i)"
        using i b k by (intro patched_nth) simp_all
      then show "(take (unat (os - addr)) ?buf @ replicate (unat (oe - os)) 0 @ drop (unat (os - addr) + unat (oe - os)) ?buf) ! i =
          rd_bytes (approval_zeroed norm v) addr (unat n) ! i"
        using i z [OF i] zz unfolding iff by auto
    qed (use b k in simp)
  qed
qed

text \<open>A stretch of the source that reads as the memory \<open>v\<close> without changing the medium.\<close>

definition staged_view :: "'d mota_dev \<Rightarrow> build \<Rightarrow> 'd mota_st \<Rightarrow> flash \<Rightarrow> u32 \<Rightarrow> u32 \<Rightarrow> bool" where
  "staged_view D b s v addr len \<longleftrightarrow>
     (\<forall>a n. unat addr \<le> unat a \<and> unat a + unat n \<le> unat addr + unat len \<longrightarrow>
        staged_read D b a n s = (Some (rd_bytes v a (unat n)), s))"

lemma read_loop_view:
  assumes "if staged then staged_view D b s v addr len else v = fmem D s"
    "unat addr + unat len < 2 ^ 32" "norm = UINT32_MAX \<or> unat norm + 4 < 2 ^ 32"
  shows "sha256_read_loop D b addr len staged norm c s =
    (Some (sha256_update c (rd_bytes (approval_zeroed norm v) addr (unat len))), s)"
  using assms
proof (induction "unat len" arbitrary: addr len c rule: less_induct)
  case less
  show ?case
  proof (cases "len = 0")
    case True
    then show ?thesis by (simp add: sha256_read_loop.simps sha256_update_def)
  next
    case False
    define n where "n = (if len < 256 then len else 256 :: u32)"
    have n: "n \<le> len" "unat n \<le> unat len" by (auto simp: n_def not_less word_le_nat_alt)
    have sm: "unat (len - n) < unat len" unfolding n_def using False by (rule chunk_lt)
    have ar: "unat (addr + n) = unat addr + unat n" "unat (len - n) = unat len - unat n"
      using less.prems(2) n by (simp_all add: unat_word_ariths unat_sub_le)
    have q: "(if staged then staged_read D b addr n s else (Some (fl_read D s addr (unat n)), s)) =
        (Some (rd_bytes v addr (unat n)), s)"
      using less.prems(1) n(2) by (auto simp: staged_view_def fl_read_def split: if_splits)
    have v: "if staged then staged_view D b s v (addr + n) (len - n) else v = fmem D s"
      using less.prems(1) ar n(2) by (auto simp: staged_view_def split: if_splits)
    have cat: "rd_bytes w addr (unat n) @ rd_bytes w (addr + n) (unat len - unat n) = rd_bytes w addr (unat len)" for w
      using rd_bytes_append [of w addr "unat n" "unat len - unat n"] n(2) by simp
    have "sha256_read_loop D b addr len staged norm c s =
        sha256_read_loop D b (addr + n) (len - n) staged norm
          (sha256_update c (normalize_chunk norm addr n (rd_bytes v addr (unat n)))) s"
      using False q by (subst sha256_read_loop.simps) (simp add: Let_def flip: n_def)
    also have "\<dots> = (Some (sha256_update (sha256_update c (rd_bytes (approval_zeroed norm v) addr (unat n)))
        (rd_bytes (approval_zeroed norm v) (addr + n) (unat (len - n)))), s)"
      using less.hyps [OF sm v _ less.prems(3)] less.prems(2,3) ar n(2) by (simp add: normalize_chunk_view)
    finally show ?thesis by (simp add: sha256_update_append ar cat)
  qed
qed

lemma read_region_view:
  assumes "if staged then staged_view D b s v addr len else v = fmem D s"
    "unat addr + unat len < 2 ^ 32" "norm = UINT32_MAX \<or> unat norm + 4 < 2 ^ 32"
  shows "sha256_read_region D b addr len staged norm s = (Some (sha256 (rd_bytes (approval_zeroed norm v) addr (unat len))), s)"
  unfolding sha256_read_region_def read_loop_view [OF assms] by (simp add: sha256_def)

lemma approval_zeroed_max [simp]: "approval_zeroed UINT32_MAX v = v"
  by (rule ext) (simp add: approval_zeroed_def)

lemma sha256_region_eq:
  assumes "unat addr + unat len < 2 ^ 32"
  shows "sha256_region D b addr len s = sha256 (fl_read D s addr (unat len))"
  using read_region_view [of False D b s "fmem D s" addr len UINT32_MAX] assms
  by (simp add: sha256_region_def fl_read_def)

section \<open>What the container parser accepts\<close>

lemma unat_block_count:
  assumes "1 \<le> unat l" "unat l \<le> 24"
  shows "unat (block_count_of p l) = (unat p + 2 ^ unat l - 1) div 2 ^ unat l"
proof -
  define n where "n = unat l"
  have pm: "push_bit n 1 - 1 = (mask n :: u32)" by (simp add: mask_eq_exp_minus_1 push_bit_eq_mult)
  have r: "unat (p AND mask n) = unat p mod 2 ^ n" by (rule unat_and_mask)
  have q: "unat (drop_bit n p) = unat p div 2 ^ n" 
    using unat_drop_bit_eq [of n p] by (simp only: drop_bit_eq_div [of n "unat p"])
  have "unat p div 2 ^ n < 2 ^ 31"
  proof -
    have "(2 :: nat) ^ 1 \<le> 2 ^ n" using assms(1) unfolding n_def by (intro power_increasing) simp_all
    then have "unat p div 2 ^ n \<le> unat p div 2" by (intro div_le_mono2) simp_all
    then show ?thesis using unat_u32_lt [of p] by simp
  qed
  then have s: "unat (drop_bit n p + 1) = unat p div 2 ^ n + 1" using q by (simp add: unat_word_ariths)
  show ?thesis
  proof (cases "unat p mod 2 ^ n = 0")
    case True
    then have "p AND mask n = 0" using r by (simp add: unat_eq_zero)
    moreover obtain k where k: "unat p = 2 ^ n * k" using True by (auto simp: mod_eq_0_iff_dvd dvd_def)
    moreover obtain j where j: "(2 :: nat) ^ n = Suc j" using not0_implies_Suc by fastforce
    moreover have "(2 ^ n * k + 2 ^ n - 1) div 2 ^ n = k"
      using div_mult_self2 [of "Suc j" j k] by (simp add: j add.commute del: div_mult_self2)
    moreover have "unat (drop_bit n p) = k" unfolding q k by simp
    ultimately show ?thesis
      by (simp add: block_count_of_def Let_def pm flip: n_def del: push_bit_of_1)
  next
    case False
    then have "p AND mask n \<noteq> 0" using r by (metis unat_0)
    moreover have "(unat p + 2 ^ n - 1) div 2 ^ n = unat p div 2 ^ n + 1"
    proof (rule div_nat_eqI)
      define q r P where "q = unat p div 2 ^ n" and "r = unat p mod 2 ^ n" and "P = (2 :: nat) ^ n"
      have d: "unat p = P * q + r" "0 < r" "r < P" using False by (simp_all add: q_def r_def P_def)
      show "2 ^ n * (unat p div 2 ^ n + 1) \<le> unat p + 2 ^ n - 1"
        "unat p + 2 ^ n - 1 < 2 ^ n * Suc (unat p div 2 ^ n + 1)"
        unfolding q_def [symmetric] P_def [symmetric] using d by (simp_all add: distrib_left)
    qed
    ultimately show ?thesis using s by (simp add: block_count_of_def Let_def pm flip: n_def del: push_bit_of_1)
  qed
qed

text \<open>
  The container format over the naturals: a 205-byte header, one 4-byte leaf per block, the
  payload and a 5-byte trailer, with nothing between and nothing left over.
\<close>

definition mota_container :: "build \<Rightarrow> flash \<Rightarrow> u32 \<Rightarrow> u32 \<Rightarrow> mota_min \<Rightarrow> bool" where
  "mota_container b v addr limit m \<longleftrightarrow>
     (let h = header_of_bytes (rd_bytes v addr 205);
          payload = unat (fh_payload_size h); log2 = unat (fh_block_size_log2 h);
          count = (payload + 2 ^ log2 - 1) div 2 ^ log2; len = unat (fh_total h)
      in fh_magic h = MAGIC \<and> (fh_format_ver h = 2 \<or> b_bootloader_update_enabled b \<and> fh_format_ver h = 3) \<and>
         1 \<le> log2 \<and> log2 \<le> 24 \<and> 0 < payload \<and> count \<le> 65535 \<and>
         len = 205 + 4 * count + payload + 5 \<and> unat addr + len \<le> unat limit \<and>
         rd_bytes v (addr + of_nat (len - 5)) 5 = TRAILER \<and>
         m = header_min addr h (of_nat count))"

lemma decode_header_iff:
  assumes "210 \<le> unat (fh_total h)"
  shows "decode_header b addr h = Some m \<longleftrightarrow>
    (let payload = unat (fh_payload_size h); log2 = unat (fh_block_size_log2 h);
         count = (payload + 2 ^ log2 - 1) div 2 ^ log2
     in (fh_format_ver h = 2 \<or> b_bootloader_update_enabled b \<and> fh_format_ver h = 3) \<and>
        1 \<le> log2 \<and> log2 \<le> 24 \<and> 0 < payload \<and> count \<le> 65535 \<and>
        unat (fh_total h) = 205 + 4 * count + payload + 5 \<and>
        m = header_min addr h (of_nat count))"
proof (cases "fh_block_size_log2 h = 0 \<or> fh_block_size_log2 h > 24 \<or> fh_payload_size h = 0")
  case True
  then show ?thesis by (auto simp: decode_header_def Let_def word_less_nat_alt unat_eq_zero)
next
  case False
  define count where "count = (unat (fh_payload_size h) + 2 ^ unat (fh_block_size_log2 h) - 1) div 2 ^ unat (fh_block_size_log2 h)"
  have l: "1 \<le> unat (fh_block_size_log2 h)" "unat (fh_block_size_log2 h) \<le> 24" "0 < unat (fh_payload_size h)"
    using False by (auto simp: word_less_nat_alt unat_gt_0 Suc_le_eq)
  have c: "unat (block_count_of (fh_payload_size h) (fh_block_size_log2 h)) = count"
    unfolding count_def by (rule unat_block_count [OF l(1,2)])
  have c0: "count \<noteq> 0" unfolding count_def using l(3) by (simp add: div_eq_0_iff)
  then have b0: "block_count_of (fh_payload_size h) (fh_block_size_log2 h) \<noteq> 0" using c by auto
  have cw: "block_count_of (fh_payload_size h) (fh_block_size_log2 h) = of_nat count" using c by (simp flip: c)
  have hi: "block_count_of (fh_payload_size h) (fh_block_size_log2 h) > 0xFFFF \<longleftrightarrow> count > 65535"
    using c by (simp add: word_less_nat_alt)
  show ?thesis
  proof (cases "count > 65535")
    case True
    then have "decode_header b addr h = None" using False hi by (simp add: decode_header_def Let_def)
    then show ?thesis using True by (simp add: Let_def not_le flip: count_def del: One_nat_def)
  next
    case le: False
    have off: "unat (HEADER_LEN + block_count_of (fh_payload_size h) (fh_block_size_log2 h) * 4) = 205 + 4 * count"
      using le c by (simp add: layout_simps unat_word_ariths)
    have pe: "unat (fh_total h - 5) = unat (fh_total h) - 5"
      using assms(1) by (simp add: unat_sub_le word_le_nat_alt)
    have geo: "\<not> (HEADER_LEN + block_count_of (fh_payload_size h) (fh_block_size_log2 h) * 4 > fh_total h - 5 \<or>
        fh_payload_size h \<noteq> fh_total h - 5 - (HEADER_LEN + block_count_of (fh_payload_size h) (fh_block_size_log2 h) * 4)) \<longleftrightarrow>
        unat (fh_total h) = 205 + 4 * count + unat (fh_payload_size h) + 5"
      (is "\<not> (?po > ?pe \<or> ?ps \<noteq> ?pe - ?po) \<longleftrightarrow> _")
    proof (cases "?po \<le> ?pe")
      case True
      then have "unat (?pe - ?po) = unat (fh_total h) - 5 - (205 + 4 * count)" using off pe by (simp add: unat_sub_le)
      moreover have "205 + 4 * count \<le> unat (fh_total h) - 5" using True off pe by (simp add: word_le_nat_alt)
      ultimately have "?ps = ?pe - ?po \<longleftrightarrow> unat (fh_total h) = 205 + 4 * count + unat ?ps + 5"
        using assms(1) unfolding word_unat_eq_iff by linarith
      then show ?thesis using True by (simp add: not_less)
    next
      case False
      then have "\<not> 205 + 4 * count \<le> unat (fh_total h) - 5" using off pe by (simp add: word_le_nat_alt)
      then show ?thesis using False by (simp add: not_le)
    qed
    have small: "of_nat count > (0xFFFF :: u32) \<longleftrightarrow> False" using hi le cw by simp
    show ?thesis using False le b0 l geo cw
      by (auto simp: decode_header_def Let_def small not_less simp flip: count_def simp del: One_nat_def)
  qed
qed

lemma parse_mota_iff:
  assumes "addr \<le> limit" "staged_view D b s v addr (limit - addr)"
  shows "(parse_mota_at D b addr limit s = (Some m, s) \<longleftrightarrow> mota_container b v addr limit m) \<and>
    snd (parse_mota_at D b addr limit s) = s"
proof -
  have lim: "unat (limit - addr) = unat limit - unat addr" using assms(1) by (rule unat_sub_le)
  define h where "h = header_of_bytes (rd_bytes v addr 205)"
  have sh: "limit - addr < HEADER_LEN + 5 \<longleftrightarrow> unat limit - unat addr < 210"
    using lim by (simp add: word_less_nat_alt layout_simps)
  have tot: "fh_total h < HEADER_LEN + 5 \<longleftrightarrow> unat (fh_total h) < 210" "fh_total h > limit - addr \<longleftrightarrow> unat (fh_total h) > unat limit - unat addr"
    using lim by (simp_all add: word_less_nat_alt layout_simps)
  have na: "\<not> addr > limit" using assms(1) by simp
  have al: "unat addr \<le> unat limit" using assms(1) by (simp add: word_le_nat_alt)
  consider (short) "unat limit - unat addr < 210"
    | (bad) "210 \<le> unat limit - unat addr" "fh_magic h \<noteq> MAGIC \<or> unat (fh_total h) < 210 \<or> unat (fh_total h) > unat limit - unat addr"
    | (good) "210 \<le> unat limit - unat addr" "fh_magic h = MAGIC" "210 \<le> unat (fh_total h)" "unat (fh_total h) \<le> unat limit - unat addr"
    by linarith
  then show ?thesis
  proof cases
    case short
    then show ?thesis using na sh by (auto simp: parse_mota_at_def mota_container_def Let_def)
  next
    case bad
    have "staged_read D b addr HEADER_LEN s = (Some (rd_bytes v addr 205), s)"
      using assms(2) bad(1) lim by (simp add: staged_view_def layout_simps)
    then have "parse_mota_at D b addr limit s = (None, s)"
      using na sh tot bad by (auto simp: parse_mota_at_def Let_def simp flip: h_def)
    moreover have "\<not> mota_container b v addr limit m"
      using bad by (auto simp: mota_container_def Let_def simp flip: h_def)
    ultimately show ?thesis by simp
  next
    case good
    have r1: "staged_read D b addr HEADER_LEN s = (Some (rd_bytes v addr 205), s)"
      using assms(2) good(1) lim by (simp add: staged_view_def layout_simps)
    have ta: "addr + fh_total h - 5 = addr + of_nat (unat (fh_total h) - 5)"
      using good(3) by (simp add: of_nat_diff)
    have un: "unat (addr + fh_total h - 5) = unat addr + (unat (fh_total h) - 5)"
      unfolding ta using good(3,4) al unat_u32_lt [of limit]
      by (subst unat_add_no_wrap) (simp_all add: unat_of_nat_u32 del: of_nat_diff of_nat_unat)
    have r2: "staged_read D b (addr + fh_total h - 5) 5 s = (Some (rd_bytes v (addr + fh_total h - 5) 5), s)"
      using assms(2) [unfolded staged_view_def, rule_format, of "addr + fh_total h - 5" 5] good al un lim by (simp add: le_diff_conv2)
    have "parse_mota_at D b addr limit s =
        (if rd_bytes v (addr + fh_total h - 5) 5 \<noteq> TRAILER then (None, s) else (decode_header b addr h, s))"
      using na sh tot good r1 r2 by (simp add: parse_mota_at_def Let_def flip: h_def)
    moreover have "decode_header b addr h = Some m \<and> rd_bytes v (addr + fh_total h - 5) 5 = TRAILER \<longleftrightarrow> mota_container b v addr limit m"
      using good al unfolding decode_header_iff [OF good(3)] mota_container_def Let_def ta h_def [symmetric]
      by auto
    ultimately show ?thesis by auto
  qed
qed

section \<open>Size fields of a patch header\<close>

text \<open>The writer's side of the size encoding, over the naturals.\<close>

fun dt_size_tail :: "nat \<Rightarrow> bytes" where
  "dt_size_tail v = (if v < 128 then [of_nat v] else of_nat (128 + v mod 128) # dt_size_tail (v div 128))"

declare dt_size_tail.simps [simp del]

definition dt_size_bytes :: "nat \<Rightarrow> bytes" where
  "dt_size_bytes v = (if v < 64 then [of_nat v] else of_nat (128 + v mod 64) # dt_size_tail (v div 64))"

lemma dt_size_tail_nonempty: "dt_size_tail v \<noteq> []"
  by (simp add: dt_size_tail.simps)

lemma more_bit: "(x :: u8) AND 0x80 = 0 \<longleftrightarrow> unat x < 128"
proof -
  have u: "unat x < 256" using unsigned_less [of x, where ?'a = nat] by simp
  have "x AND 0x80 = 0 \<longleftrightarrow> \<not> bit x 7" using and_exp_eq_0_iff_not_bit [of x 7] by simp
  also have "bit x 7 \<longleftrightarrow> bit (unat x) 7" by (simp add: bit_unsigned_iff)
  also have "\<dots> \<longleftrightarrow> odd (unat x div 128)" by (simp add: bit_iff_odd)
  also have "\<not> odd (unat x div 128) \<longleftrightarrow> unat x < 128"
  proof (cases "unat x < 128")
    case False
    then have "unat x div 128 = 1" using u by (intro div_nat_eqI) simp_all
    then show ?thesis using False by simp
  qed simp
  finally show ?thesis .
qed

lemma size_byte:
  assumes "n < 128"
  shows "(of_nat n :: u8) AND 0x80 = 0" "unat ((of_nat n :: u8) AND 0x7F) = n"
    "(of_nat (128 + n) :: u8) AND 0x80 \<noteq> 0" "unat ((of_nat (128 + n) :: u8) AND 0x7F) = n"
    "n < 64 \<Longrightarrow> unat ((of_nat n :: u8) AND 0x3F) = n" "n < 64 \<Longrightarrow> unat ((of_nat (128 + n) :: u8) AND 0x3F) = n"
proof -
  show "(of_nat n :: u8) AND 0x80 = 0" using assms by (simp add: more_bit unat_of_nat)
  show "(of_nat (128 + n) :: u8) AND 0x80 \<noteq> 0"
    unfolding more_bit using assms by (simp add: unat_of_nat del: of_nat_add)
  have m: "unat ((of_nat k :: u8) AND 0x7F) = k mod 256 mod 128" "unat ((of_nat k :: u8) AND 0x3F) = k mod 256 mod 64" for k
    using unat_and_mask [of "of_nat k :: u8" 7] unat_and_mask [of "of_nat k :: u8" 6]
    by (simp_all add: mask_eq_exp_minus_1 unat_of_nat)
  show "unat ((of_nat n :: u8) AND 0x7F) = n" "unat ((of_nat (128 + n) :: u8) AND 0x7F) = n"
    unfolding m using assms by simp_all
  show "n < 64 \<Longrightarrow> unat ((of_nat n :: u8) AND 0x3F) = n" unfolding m by simp
  show "n < 64 \<Longrightarrow> unat ((of_nat (128 + n) :: u8) AND 0x3F) = n" 
    unfolding m using mod_mult_self2 [of n 64 2] by (simp add: add.commute)
qed

lemma or_push_bit:
  assumes "unat (v :: u32) < 2 ^ sh" "unat v + n * 2 ^ sh < 2 ^ 32"
  shows "unat (v OR push_bit sh (of_nat n)) = unat v + n * 2 ^ sh"
proof -
  have vb: "\<not> bit v i" if "sh \<le> i" for i
  proof -
    have "take_bit sh (unat v) = unat v" using assms(1) by (simp add: take_bit_nat_eq_self)
    then have "\<not> bit (unat v) i" using that by (metis bit_take_bit_iff not_less)
    then show ?thesis by (simp add: bit_unsigned_iff)
  qed
  have "v + push_bit sh (of_nat n) = v OR push_bit sh (of_nat n)"
    by (rule disjunctive_add_eq_or) (use vb in \<open>auto simp: bit_eq_iff bit_simps\<close>)
  moreover have "push_bit sh (of_nat n) = (of_nat (n * 2 ^ sh) :: u32)" by (simp add: push_bit_eq_mult)
  moreover have "unat (v + of_nat (n * 2 ^ sh)) = unat v + n * 2 ^ sh"
    using assms(2) by (subst unat_add_no_wrap) (simp_all add: unat_of_nat_u32 del: of_nat_mult)
  ultimately show ?thesis by simp
qed

text \<open>The encoding \<open>bs\<close> stands in the readable window at \<open>pos\<close>.\<close>

definition field_at :: "flash \<Rightarrow> u32 \<Rightarrow> u32 \<Rightarrow> u32 \<Rightarrow> bytes \<Rightarrow> bool" where
  "field_at w addr len pos bs \<longleftrightarrow> unat pos + length bs \<le> unat len \<and> rd_bytes w (addr + pos) (length bs) = bs"

lemma field_at_Cons:
  assumes "field_at w addr len pos (x # bs)"
  shows "\<not> len \<le> pos" "w (addr + pos) = x" "unat (pos + 1) = unat pos + 1" "field_at w addr len (pos + 1) bs"
proof -
  from assms have l: "unat pos + Suc (length bs) \<le> unat len" and r: "rd_bytes w (addr + pos) (Suc (length bs)) = x # bs"
    by (simp_all add: field_at_def)
  show "\<not> len \<le> pos" using l by (simp add: word_le_nat_alt)
  show u: "unat (pos + 1) = unat pos + 1" using l unat_u32_lt [of len] by (simp add: unat_word_ariths)
  show "w (addr + pos) = x" using nth_rd_bytes [of 0 "Suc (length bs)" w "addr + pos"] unfolding r by simp
  have "rd_bytes w (addr + pos + 1) (length bs) = bs"
    using drop_rd_bytes [of 1 w "addr + pos" "Suc (length bs)"] unfolding r by simp
  then show "field_at w addr len (pos + 1) bs" using l u by (simp add: field_at_def add.assoc)
qed

lemma field_at_append:
  assumes "field_at w addr len pos (xs @ ys)"
  shows "field_at w addr len pos xs" "field_at w addr len (pos + of_nat (length xs)) ys"
    "unat (pos + of_nat (length xs)) = unat pos + length xs"
proof -
  from assms have l: "unat pos + length xs + length ys \<le> unat len"
    and r: "rd_bytes w (addr + pos) (length xs + length ys) = xs @ ys" by (simp_all add: field_at_def)
  show u: "unat (pos + of_nat (length xs)) = unat pos + length xs"
    using l unat_u32_lt [of len] by (subst unat_add_no_wrap) (simp_all add: unat_of_nat_u32)
  have "rd_bytes w (addr + pos) (length xs) = xs" "rd_bytes w (addr + pos + of_nat (length xs)) (length ys) = ys"
    using r by (simp_all add: rd_bytes_append)
  then show "field_at w addr len pos xs" "field_at w addr len (pos + of_nat (length xs)) ys"
    using l u by (simp_all add: field_at_def add.assoc)
qed

lemma view_read_byte:
  assumes "staged_view D b s w addr len" "unat addr + unat len < 2 ^ 32" "field_at w addr len pos (x # bs)"
  shows "staged_read D b (addr + pos) 1 s = (Some [x], s)"
proof -
  note f = field_at_Cons [OF assms(3)]
  have "unat (addr + pos) = unat addr + unat pos"
    using f(1) assms(2) by (subst unat_add_no_wrap) (simp_all add: word_le_nat_alt)
  moreover have "unat pos + 1 \<le> unat len" using f(1) by (simp add: word_le_nat_alt)
  ultimately have "staged_read D b (addr + pos) 1 s = (Some (rd_bytes w (addr + pos) (unat (1 :: u32))), s)"
    using assms(1) by (simp add: staged_view_def)
  then show ?thesis using f(2) by (simp add: rd_bytes_def)
qed

lemma drop_max_ge:
  assumes "n * 2 ^ sh \<le> 0x7FFFFFFF" "unat (x :: u32) = n" shows "\<not> x > drop_bit sh UINT32_MAX"
proof -
  have "unat (drop_bit sh UINT32_MAX) = 4294967295 div 2 ^ sh"
    unfolding unat_drop_bit_eq by (simp add: drop_bit_eq_div)
  moreover have "n \<le> 4294967295 div 2 ^ sh"
    using assms(1) by (simp add: less_eq_div_iff_mult_less_eq)
  ultimately show ?thesis using assms(2) by (simp add: word_less_nat_alt)
qed

lemma unat_ucast_and7F: "unat (ucast (x AND 0x7F :: u8) :: u32) = unat (x AND 0x7F)"
  "unat (ucast (x AND 0x3F :: u8) :: u32) = unat (x AND 0x3F)"
  by (simp_all add: unsigned_ucast_eq take_bit_nat_eq_self_iff less_trans [OF unsigned_less])

lemma header_more_decode:
  assumes "staged_view D b s w addr len" "unat addr + unat len < 2 ^ 32"
    and "field_at w addr len pos (dt_size_tail k)" "1 \<le> k" "byte AND 0x80 \<noteq> 0"
    and "unat v < 2 ^ shift" "unat v + k * 2 ^ shift \<le> 0x7FFFFFFF"
  shows "dt_header_more D b addr len pos byte v shift s =
    (Some (of_nat (unat v + k * 2 ^ shift), pos + of_nat (length (dt_size_tail k))), s)"
  using assms(3-)
proof (induction k arbitrary: pos byte v shift rule: dt_size_tail.induct)
  case (1 k)
  note prems = 1(2-6)
  define x n rest where "x = hd (dt_size_tail k)" and "n = (if k < 128 then k else k mod 128)" and "rest = tl (dt_size_tail k)"
  have xs: "dt_size_tail k = x # rest" using dt_size_tail_nonempty [of k] by (simp add: x_def rest_def)
  from prems(1) have fa: "field_at w addr len pos (x # rest)" by (simp only: xs)
  note f = field_at_Cons [OF fa]
  have rd: "staged_read D b (addr + pos) 1 s = (Some [x], s)" using assms(1,2) fa by (rule view_read_byte)
  have s2: "(2 :: nat) ^ shift < 2 ^ 32"
  proof -
    have "2 ^ shift \<le> k * 2 ^ shift" using mult_le_mono1 [OF prems(2), of "2 ^ shift"] by simp
    then have "2 ^ shift \<le> (2147483647 :: nat)" using prems(5) by (rule le_trans [OF _ add_leD2])
    then show ?thesis by (rule le_less_trans) simp
  qed
  have sh: "shift < 32" by (rule power_less_imp_less_exp [OF _ s2]) simp
  have nk: "n \<le> k" by (simp add: n_def)
  have xn: "unat (x AND 0x7F) = n"
    using size_byte(2) [of k] size_byte(4) [of "k mod 128"]
    by (simp add: x_def n_def dt_size_tail.simps [of k] del: of_nat_add)
  have nle: "n * 2 ^ shift \<le> k * 2 ^ shift" using nk by simp
  have nb: "unat v + n * 2 ^ shift \<le> 2147483647" "n * 2 ^ shift \<le> 2147483647" using nle prems(5) by linarith+
  have bits: "\<not> (ucast (x AND 0x7F) :: u32) > drop_bit shift UINT32_MAX"
    using nb(2) xn by (intro drop_max_ge [of n]) (simp_all only: unat_ucast_and7F)
  define v' where "v' = v OR push_bit shift (ucast (x AND 0x7F) :: u32)"
  have uc: "(ucast (x AND 0x7F) :: u32) = of_nat n" using xn by (simp flip: xn)
  have v': "unat v' = unat v + n * 2 ^ shift"
    unfolding v'_def uc using nb(1) prems(4) by (intro or_push_bit) simp_all
  have unf: "dt_header_more D b addr len pos byte v shift s = dt_header_more D b addr len (pos + 1) x v' (shift + 7) s"
    using prems(3) f(1) rd sh bits by (subst dt_header_more.simps) (simp add: v'_def Let_def)
  show ?case
  proof (cases "k < 128")
    case True
    then have "x AND 0x80 = 0" "rest = []"
      using size_byte(1) [of k] by (simp_all add: x_def rest_def dt_size_tail.simps [of k])
    moreover have "\<not> v' > 0x7FFFFFFF" using v' nb(1) by (simp add: word_less_nat_alt)
    moreover have "v' = of_nat (unat v + k * 2 ^ shift)" using v' True n_def by (metis of_nat_unat ucast_id)
    ultimately show ?thesis unfolding unf by (subst dt_header_more.simps) (simp add: xs)
  next
    case False
    have x80: "x AND 0x80 \<noteq> 0" and rest: "rest = dt_size_tail (k div 128)"
      using False size_byte(3) [of "k mod 128"] by (simp_all add: x_def rest_def dt_size_tail.simps [of k] del: of_nat_add)
    have k: "k = 128 * (k div 128) + n" using False by (simp add: n_def)
    have tot: "unat v' + k div 128 * 2 ^ (shift + 7) = unat v + k * 2 ^ shift"
      using v' by (subst (2) k) (simp add: power_add algebra_simps)
    have "n < 128" by (simp add: n_def)
    then have "(n + 1) * 2 ^ shift \<le> 128 * 2 ^ shift" by (intro mult_le_mono1) simp
    then have "n * 2 ^ shift + 2 ^ shift \<le> 2 ^ (shift + 7)" by (simp only: distrib_right power_add mult.commute [of "2 ^ shift"]) simp
    then have lt: "unat v' < 2 ^ (shift + 7)" using v' prems(4) by linarith
    have "dt_header_more D b addr len (pos + 1) x v' (shift + 7) s =
        (Some (of_nat (unat v' + k div 128 * 2 ^ (shift + 7)), pos + 1 + of_nat (length (dt_size_tail (k div 128)))), s)"
      using False x80 lt tot f(4) prems(5) rest by (intro 1(1)) simp_all
    then show ?thesis unfolding unf tot by (simp add: xs rest)
  qed
qed

lemma header_u32_decode:
  assumes "staged_view D b s w addr len" "unat addr + unat len < 2 ^ 32"
    and "field_at w addr len pos (dt_size_bytes k)" "k \<le> 0x7FFFFFFF"
  shows "dt_header_u32 D b addr len pos s = (Some (of_nat k, pos + of_nat (length (dt_size_bytes k))), s)"
proof -
  define x rest where "x = hd (dt_size_bytes k)" and "rest = tl (dt_size_bytes k)"
  have xs: "dt_size_bytes k = x # rest" by (simp add: x_def rest_def dt_size_bytes_def)
  note f = field_at_Cons [OF assms(3) [unfolded xs]]
  have rd: "staged_read D b (addr + pos) 1 s = (Some [x], s)"
    using assms(1,2,3) unfolding xs by (rule view_read_byte)
  have unf: "dt_header_u32 D b addr len pos s = dt_header_more D b addr len (pos + 1) x (ucast (x AND 0x3F)) 6 s"
    using f(1) rd by (simp add: dt_header_u32_def)
  have xn: "unat (ucast (x AND 0x3F) :: u32) = k mod 64"
    using size_byte(5) [of k] size_byte(6) [of "k mod 64"]
    by (auto simp: x_def dt_size_bytes_def unat_ucast_and7F simp del: of_nat_add)
  show ?thesis
  proof (cases "k < 64")
    case True
    then have "x AND 0x80 = 0" "rest = []" "ucast (x AND 0x3F) = (of_nat k :: u32)" "\<not> (of_nat k :: u32) > 0x7FFFFFFF"
      using size_byte(1) [of k] xn
      by (simp_all add: x_def rest_def dt_size_bytes_def word_unat_eq_iff unat_of_nat_u32 word_less_nat_alt)
    then show ?thesis unfolding unf by (subst dt_header_more.simps) (simp add: xs)
  next
    case False
    have x80: "x AND 0x80 \<noteq> 0" and rest: "rest = dt_size_tail (k div 64)"
      using False size_byte(3) [of "k mod 64"] by (simp_all add: x_def rest_def dt_size_bytes_def del: of_nat_add)
    have "dt_header_more D b addr len (pos + 1) x (ucast (x AND 0x3F)) 6 s =
      (Some (of_nat (unat (ucast (x AND 0x3F) :: u32) + k div 64 * 2 ^ 6), pos + 1 + of_nat (length (dt_size_tail (k div 64)))), s)"
      using False x80 f(4) rest assms(4) xn by (intro header_more_decode [OF assms(1,2)]) simp_all
    then show ?thesis unfolding unf xn by (simp add: xs rest)
  qed
qed

text \<open>
  The pre-flight decoder reads back exactly the sizes a patch writer stored: for every list of sizes below \<open>2^31\<close> whose
  encodings stand in the readable payload, decoding returns the list and leaves the medium as it was.
\<close>

theorem dt_header_roundtrip:
  assumes "staged_view D b s w addr len" "unat addr + unat len < 2 ^ 32"
    and "field_at w addr len pos (concat (map dt_size_bytes ks))" "\<And>k. k \<in> set ks \<Longrightarrow> k \<le> 0x7FFFFFFF"
  shows "dt_header_sizes D b addr len (length ks) pos s = (Some (map of_nat ks), s)"
  using assms(3,4)
proof (induction ks arbitrary: pos)
  case (Cons k ks)
  note f = field_at_append [of w addr len pos "dt_size_bytes k" "concat (map dt_size_bytes ks)"]
  have "dt_header_u32 D b addr len pos s = (Some (of_nat k, pos + of_nat (length (dt_size_bytes k))), s)"
    using Cons.prems f by (intro header_u32_decode [OF assms(1,2)]) simp_all
  moreover have "dt_header_sizes D b addr len (length ks) (pos + of_nat (length (dt_size_bytes k))) s = (Some (map of_nat ks), s)"
    using Cons.prems f by (intro Cons.IH) simp_all
  ultimately show ?case by simp
qed simp

end
