(* ===== verification/Mota_Sources.thy ===== *)
theory Mota_Sources
  imports Mota_Format
begin

text \<open>
  What the selection and the reading of a staged container guarantee: the retained handoffs are one-shot, the hybrid source reads
  as one contiguous container, the parser accepts exactly the container format, and the page scan finds the current container and no stale one.
\<close>

section \<open>Images placed in flash\<close>

definition flash_with :: "u32 \<Rightarrow> bytes \<Rightarrow> flash" where
  "flash_with base bs a = (if unat (a - base) < length bs then bs ! unat (a - base) else 0xFF)"

lemma rd_flash_with:
  assumes "off + n \<le> length bs" "length bs < 2 ^ 32"
  shows "rd_bytes (flash_with base bs) (base + of_nat off) n = take n (drop off bs)"
proof (rule nth_equalityI)
  fix i assume "i < length (rd_bytes (flash_with base bs) (base + of_nat off) n)"
  then have i: "i < n" by simp
  have "unat (base + of_nat off + of_nat i - base :: u32) = off + i"
    using i assms by (simp add: unat_of_nat_u32 flip: of_nat_add)
  then show "rd_bytes (flash_with base bs) (base + of_nat off) n ! i = take n (drop off bs) ! i"
    using i assms by (simp add: flash_with_def)
qed (use assms in simp)

lemmas rd_flash_with_start = rd_flash_with [of 0, simplified]

definition host_with :: "u32 \<Rightarrow> bytes \<Rightarrow> host" where
  "host_with base bs = host_blank\<lparr>h_flash := flash_with base bs\<rparr>"

lemma fmem_host_with [simp]: "fmem host_dev (boot_st (host_with base bs)) = flash_with base bs"
  by (simp add: host_with_def boot_st_def host_dev_def)

text \<open>The internal flash as the source.\<close>

definition internal_source :: "build \<Rightarrow> 'd mota_st \<Rightarrow> bool" where
  "internal_source b s \<longleftrightarrow> \<not> sd_source b s \<and> \<not> hybrid_active b s \<and> \<not> (b_qspi_flash b \<and> g_qspi_source s)"

lemma internal_source_boot [simp]: "internal_source internal_build (boot_st d)"
  by (simp add: internal_source_def sd_source_def hybrid_active_def internal_build_def boot_st_def
      hybrid_of_bytes_def rd_u32_def)

lemma internal_read: "internal_source b s \<Longrightarrow> staged_read D b a n s = (Some (rd_bytes (fmem D s) a (unat n)), s)"
  unfolding internal_source_def staged_read_def fl_read_def by (elim conjE) (simp only: if_False)

lemma internal_view: "internal_source b s \<Longrightarrow> staged_view D b s (fmem D s) addr len"
  by (simp add: staged_view_def internal_read)

section \<open>One-shot handoffs\<close>

lemma zeros_neq: "x \<noteq> 0 \<Longrightarrow> 0 < n \<Longrightarrow> replicate n 0 \<noteq> (x :: u8) # xs"
  by (cases n) auto

lemma zero_record_rejected:
  "\<not> mota_hybrid_handoff_valid (hybrid_of_bytes (replicate 72 0))"
  "\<not> mota_sd_auth_valid (sd_auth_of_bytes (replicate 72 0)) p f"
  by (simp_all add: mota_hybrid_handoff_valid_def hybrid_of_bytes_def MOTA_HYBRID_HANDOFF_MAGIC_def
      mota_sd_auth_valid_def sd_auth_of_bytes_def MOTA_SD_AUTH_MAGIC_def zeros_neq)

lemma take_zeroes:
  assumes "retained_handoff_take a s = (raw, s')"
  shows "rd_bytes (st_ram s') a 72 = replicate 72 0"
  using assms by (intro nth_equalityI) (auto simp: retained_handoff_take_def unat_of_nat_u32)

text \<open>
  C33. A retained handoff can be taken once: taking it as a hybrid handoff or as an SD authorisation clears the record in RAM, so that
  whatever its outcome every later attempt to take it, as either kind and for any purpose, fails, until the application writes a new one.
\<close>

theorem handoff_one_shot:
  "fst (hybrid_handoff_take D (snd (hybrid_handoff_take D s))) = False \<and>
   fst (sd_auth_take p f (snd (hybrid_handoff_take D s))) = False \<and>
   fst (hybrid_handoff_take D (snd (sd_auth_take q g s))) = False \<and>
   fst (sd_auth_take p f (snd (sd_auth_take q g s))) = False \<and>
   rd_bytes (st_ram (snd (hybrid_handoff_take D s))) 0x20006008 72 = replicate 72 0"
proof -
  have h: "fst (hybrid_handoff_take D s') = False" and a: "fst (sd_auth_take p f s') = False"
    if "rd_bytes (st_ram s') 0x20006008 72 = replicate 72 0" for s' :: "'a mota_st"
    using that zero_record_rejected
    by (simp_all add: hybrid_handoff_take_def sd_auth_take_def retained_handoff_take_def hybrid_geometry_ok_def Let_def)
  have z: "rd_bytes (st_ram (snd (hybrid_handoff_take D s))) 0x20006008 72 = replicate 72 0"
    "rd_bytes (st_ram (snd (sd_auth_take q g s))) 0x20006008 72 = replicate 72 0"
    using take_zeroes [where a = "0x20006008" and s = s] by (auto simp: hybrid_handoff_take_def sd_auth_take_def Let_def split: prod.splits)
  show ?thesis using h a z by blast
qed

section \<open>The hybrid container\<close>

text \<open>The container a hybrid handoff describes: its flash prefix followed by the arena.\<close>

definition hybrid_virtual :: "'d mota_dev \<Rightarrow> 'd mota_st \<Rightarrow> flash" where
  "hybrid_virtual D s a =
     (let h = g_hybrid s in if unat (a - hh_flash_start h) < unat (hh_flash_len h) then fmem D s a
      else st_ram s (MOTA_HYBRID_ARENA_START + (a - hh_flash_start h - hh_flash_len h)))"

lemma hybrid_take_geometry:
  assumes "hybrid_handoff_take D s = (True, s')"
  shows "unat (hh_container_total (g_hybrid s')) = unat (hh_flash_len (g_hybrid s')) + unat (hh_ram_len (g_hybrid s'))"
    "unat (hh_ram_len (g_hybrid s')) \<le> 65536" "hh_container_total (g_hybrid s') \<noteq> 0"
    "unat (hh_flash_start (g_hybrid s')) + unat (hh_container_total (g_hybrid s')) < 2 ^ 32"
proof -
  define h where "h = g_hybrid s'"
  obtain raw s1 where "retained_handoff_take 0x20006008 s = (raw, s1)" by fastforce
  with assms have ok: "hybrid_geometry_ok D s1 h"
    by (auto simp: hybrid_handoff_take_def h_def Let_def split: if_splits)
  then have v: "mota_hybrid_handoff_valid h" and t: "\<not> hh_flash_start h > UINT32_MAX - hh_container_total h"
    by (auto simp: hybrid_geometry_ok_def split: if_splits)
  from v have r: "hh_ram_len h \<noteq> 0" "\<not> hh_ram_len h > MOTA_HYBRID_ARENA_SIZE" "\<not> hh_flash_len h > UINT32_MAX - hh_ram_len h"
    "hh_container_total h = hh_flash_len h + hh_ram_len h" "hh_flash_len h \<noteq> 0"
    by (auto simp: mota_hybrid_handoff_valid_def split: if_splits)
  have m: "unat (UINT32_MAX - x) = 4294967295 - unat x" for x :: u32
    by (subst unat_sub_le) (simp_all add: word_le_nat_alt, use unat_u32_lt [of x] in simp)
  have nw: "unat (hh_flash_len h) + unat (hh_ram_len h) < 2 ^ 32"
    using r(3) unat_u32_lt [of "hh_ram_len h"] by (simp add: word_less_nat_alt m)
  show s: "unat (hh_container_total (g_hybrid s')) = unat (hh_flash_len (g_hybrid s')) + unat (hh_ram_len (g_hybrid s'))"
    using nw r(4) by (simp add: unat_add_no_wrap flip: h_def)
  show "unat (hh_ram_len (g_hybrid s')) \<le> 65536"
    using r(2) by (simp add: word_less_nat_alt MOTA_HYBRID_ARENA_SIZE_def flip: h_def)
  show "hh_container_total (g_hybrid s') \<noteq> 0" using s r(1) by (auto simp: unat_eq_zero simp flip: h_def)
  show "unat (hh_flash_start (g_hybrid s')) + unat (hh_container_total (g_hybrid s')) < 2 ^ 32"
    using t unat_u32_lt [of "hh_container_total h"] by (simp add: word_less_nat_alt m flip: h_def)
qed

lemma hybrid_virtual_flash:
  assumes "unat (a - hh_flash_start (g_hybrid s)) + n \<le> unat (hh_flash_len (g_hybrid s))"
  shows "rd_bytes (hybrid_virtual D s) a n = rd_bytes (fmem D s) a n"
proof (rule rd_bytes_cong)
  fix i assume i: "i < n"
  have e: "a + of_nat i - hh_flash_start (g_hybrid s) = (a - hh_flash_start (g_hybrid s)) + of_nat i" by simp
  have "unat ((a - hh_flash_start (g_hybrid s)) + of_nat i) = unat (a - hh_flash_start (g_hybrid s)) + i"
    using i assms unat_u32_lt [of "hh_flash_len (g_hybrid s)"] by (subst unat_add_no_wrap) (simp_all add: unat_of_nat_u32)
  then show "hybrid_virtual D s (a + of_nat i) = fmem D s (a + of_nat i)"
    using i assms unfolding hybrid_virtual_def Let_def e by simp
qed

lemma hybrid_virtual_ram:
  assumes "unat (hh_flash_len (g_hybrid s)) \<le> unat (a - hh_flash_start (g_hybrid s))"
    "unat (a - hh_flash_start (g_hybrid s)) + n < 2 ^ 32"
  shows "rd_bytes (hybrid_virtual D s) a n =
    rd_bytes (st_ram s) (MOTA_HYBRID_ARENA_START + (a - hh_flash_start (g_hybrid s) - hh_flash_len (g_hybrid s))) n"
proof (rule nth_equalityI)
  fix i assume "i < length (rd_bytes (hybrid_virtual D s) a n)"
  then have i: "i < n" by simp
  have e: "a + of_nat i - hh_flash_start (g_hybrid s) = (a - hh_flash_start (g_hybrid s)) + of_nat i" by simp
  have "unat ((a - hh_flash_start (g_hybrid s)) + of_nat i) = unat (a - hh_flash_start (g_hybrid s)) + i"
    using i assms by (subst unat_add_no_wrap) (simp_all add: unat_of_nat_u32)
  then have "hybrid_virtual D s (a + of_nat i) =
      st_ram s (MOTA_HYBRID_ARENA_START + ((a - hh_flash_start (g_hybrid s)) + of_nat i - hh_flash_len (g_hybrid s)))"
    using assms unfolding hybrid_virtual_def Let_def e by simp
  then show "rd_bytes (hybrid_virtual D s) a n ! i =
      rd_bytes (st_ram s) (MOTA_HYBRID_ARENA_START + (a - hh_flash_start (g_hybrid s) - hh_flash_len (g_hybrid s))) n ! i"
    using i by (simp add: algebra_simps)
qed simp

lemma hybrid_ram_read_ok:
  assumes "unat off + unat n \<le> 65536"
  shows "hybrid_ram_read off n s = Some (rd_bytes (st_ram s) (MOTA_HYBRID_ARENA_START + off) (unat n))"
  using assms in_range_u32_iff [of off n MOTA_HYBRID_ARENA_SIZE]
  by (auto simp: hybrid_ram_read_def in_range_u32_def MOTA_HYBRID_ARENA_SIZE_def)

text \<open>
  After a hybrid handoff has been accepted, the staged source reads as one contiguous container that starts at the handoff's flash
  address: every window inside it, also one that straddles the end of the flash prefix, is read in full, and every other window is refused.
\<close>

theorem hybrid_reads_one_container:
  assumes "hybrid_handoff_take D s = (True, s')"
  shows "hybrid_staged_read D a n s' =
    (if unat (hh_flash_start (g_hybrid s')) \<le> unat a \<and>
        unat a + unat n \<le> unat (hh_flash_start (g_hybrid s')) + unat (hh_container_total (g_hybrid s'))
     then Some (rd_bytes (hybrid_virtual D s') a (unat n)) else None)"
proof -
  define h where "h = g_hybrid s'"
  note g = hybrid_take_geometry [OF assms, folded h_def]
  define off where "off = a - hh_flash_start h"
  have rng: "\<not> (off > hh_container_total h \<or> n > hh_container_total h - off) \<longleftrightarrow> unat off + unat n \<le> unat (hh_container_total h)"
    using in_range_u32_iff [of off n "hh_container_total h"] by (simp add: in_range_u32_def)
  show ?thesis
  proof (cases "unat (hh_flash_start h) \<le> unat a \<and> unat off + unat n \<le> unat (hh_container_total h)")
    case False
    then have "hybrid_staged_read D a n s' = None"
      using g(3) rng by (auto simp: hybrid_staged_read_def Let_def word_less_nat_alt simp flip: h_def off_def)
    moreover have "unat off = unat a - unat (hh_flash_start h)" if "unat (hh_flash_start h) \<le> unat a"
      using that by (simp add: off_def unat_sub_le word_le_nat_alt)
    ultimately show ?thesis using False by (auto simp flip: h_def)
  next
    case True
    have ou: "unat off = unat a - unat (hh_flash_start h)" using True by (simp add: off_def unat_sub_le word_le_nat_alt)
    define chunk where "chunk = (if off < hh_flash_len h then (if hh_flash_len h - off > n then n else hh_flash_len h - off) else 0)"
    have cu: "unat chunk = min (unat n) (unat (hh_flash_len h) - unat off)"
      by (auto simp: chunk_def word_less_nat_alt unat_sub_le word_le_nat_alt min_def)
    have cn: "chunk \<le> n" using cu by (simp add: word_le_nat_alt)
    have rest: "unat (n - chunk) = unat n - unat chunk" using cn by (rule unat_sub_le)
    have fl: "unat off < unat (hh_flash_len h) \<Longrightarrow> rd_bytes (hybrid_virtual D s') a (unat chunk) = fl_read D s' a (unat chunk)"
      using cu hybrid_virtual_flash [of a s' "unat chunk" D] by (simp add: fl_read_def flip: h_def off_def)
    have out: "rd_bytes (hybrid_virtual D s') a (unat chunk) = fl_read D s' a (unat chunk)"
      using fl cu by (cases "unat off < unat (hh_flash_len h)") (auto simp: fl_read_def)
    have split: "rd_bytes (hybrid_virtual D s') a (unat n) =
        rd_bytes (hybrid_virtual D s') a (unat chunk) @ rd_bytes (hybrid_virtual D s') (a + chunk) (unat (n - chunk))"
      using rd_bytes_append [of "hybrid_virtual D s'" a "unat chunk" "unat n - unat chunk"] cn rest
      by (simp add: word_le_nat_alt)
    have tail: "hybrid_ram_read (off + chunk - hh_flash_len h) (n - chunk) s' =
        Some (rd_bytes (hybrid_virtual D s') (a + chunk) (unat (n - chunk)))" if "n - chunk \<noteq> 0"
    proof -
      have "0 < unat n - unat chunk" using that rest by (metis unat_gt_0)
      then have ge: "unat (hh_flash_len h) \<le> unat off + unat chunk" using cu by simp
      have oc: "unat (off + chunk) = unat off + unat chunk" using True cn unat_u32_lt [of "hh_container_total h"]
        by (subst unat_add_no_wrap) (auto simp: word_le_nat_alt)
      have d: "unat (off + chunk - hh_flash_len h) = unat off + unat chunk - unat (hh_flash_len h)"
        using ge oc by (simp add: unat_sub_le word_le_nat_alt)
      have ac: "a + chunk - hh_flash_start h = off + chunk" by (simp add: off_def)
      have "hybrid_ram_read (off + chunk - hh_flash_len h) (n - chunk) s' =
          Some (rd_bytes (st_ram s') (MOTA_HYBRID_ARENA_START + (off + chunk - hh_flash_len h)) (unat (n - chunk)))"
        using d rest True g(1,2) ge cn by (intro hybrid_ram_read_ok) (simp add: word_le_nat_alt, linarith)
      moreover have "unat (off + chunk) + unat (n - chunk) < 2 ^ 32"
        using oc rest True cn unat_u32_lt [of "hh_container_total h"] by (simp add: word_le_nat_alt)
      ultimately show ?thesis using hybrid_virtual_ram [of s' "a + chunk" "unat (n - chunk)" D] ge oc
        by (simp add: ac flip: h_def)
    qed
    have "hybrid_staged_read D a n s' = (if n - chunk = 0 then Some (fl_read D s' a (unat chunk))
        else map_option (\<lambda>r. fl_read D s' a (unat chunk) @ r) (hybrid_ram_read (off + chunk - hh_flash_len h) (n - chunk) s'))"
      using True g(3) rng unfolding hybrid_staged_read_def Let_def h_def [symmetric] off_def [symmetric] chunk_def [symmetric]
      by (auto simp: word_less_nat_alt)
    then have "hybrid_staged_read D a n s' = Some (rd_bytes (hybrid_virtual D s') a (unat n))"
      using tail split out by (cases "n - chunk = 0") auto
    then show ?thesis using True ou by (auto simp flip: h_def)
  qed
qed

section \<open>Container format and page scan\<close>

text \<open>
  C31. On a source that reads as the memory \<open>v\<close>, the parser returns a container exactly when \<open>v\<close> holds one at that address:
  magic, an accepted version, a block size of 2 to \<open>2^24\<close>, at most 65535 blocks, header, leaves, payload and trailer filling the
  declared length without a gap, and all of it below the limit; the fields it returns are those of the header.
\<close>

theorem parse_mota_accepts_format:
  assumes "addr \<le> limit" "staged_view D b s v addr (limit - addr)"
  shows "fst (parse_mota_at D b addr limit s) = Some m \<longleftrightarrow> mota_container b v addr limit m"
  using parse_mota_iff [OF assms, of m] by (cases "parse_mota_at D b addr limit s") auto

lemma internal_parse:
  assumes "internal_source b s"
  shows "parse_mota_at D b addr limit s = (r, s') \<Longrightarrow> s' = s \<and> (r = Some m \<longleftrightarrow> mota_container b (fmem D s) addr limit m)"
proof (cases "addr \<le> limit")
  case True
  assume "parse_mota_at D b addr limit s = (r, s')"
  then show ?thesis using parse_mota_iff [OF True internal_view [OF assms], of D m] by auto
next
  case False
  assume "parse_mota_at D b addr limit s = (r, s')"
  then have "r = None" "s' = s" using False by (simp_all add: parse_mota_at_def not_le)
  then show ?thesis using False by (simp add: mota_container_def Let_def word_le_nat_alt)
qed

definition staged_at :: "build \<Rightarrow> flash \<Rightarrow> u32 \<Rightarrow> u32 \<Rightarrow> mota_min \<Rightarrow> bool" where
  "staged_at b v c a m \<longleftrightarrow> mota_container b v a c m \<and> page_of (c - mm_total m) = a"

lemma staged_at_magic: "staged_at b v c a m \<Longrightarrow> rd_bytes v a 4 = MAGIC"
  by (simp add: staged_at_def mota_container_def Let_def header_of_bytes_def take_rd_bytes)

lemma container_span: "mota_container b v a c m \<Longrightarrow> unat a + 210 \<le> unat c"
  by (simp add: mota_container_def Let_def)

lemma container_unique: "mota_container b v a c m \<Longrightarrow> mota_container b v a c m' \<Longrightarrow> m = m'"
  by (simp add: mota_container_def Let_def)

lemma scan_pages_Suc:
  assumes "internal_source b s" "Suc k < 2 ^ 20"
  shows "scan_mota_pages D b c (Suc k) s =
    (if (k + 1) * 4096 \<le> unat (app_base D s) then (None, s)
     else if \<exists>m. staged_at b (fmem D s) c (of_nat k * PAGE) m
     then (Some (of_nat k * PAGE, THE m. staged_at b (fmem D s) c (of_nat k * PAGE) m), s)
     else scan_mota_pages D b c k s)"
proof -
  let ?a = "of_nat k * PAGE :: u32"
  have un: "unat (of_nat (Suc k) * PAGE :: u32) = (k + 1) * 4096"
    using assms(2) by (simp add: unat_word_ariths unat_of_nat_u32)
  then have stop: "\<not> of_nat (Suc k) * PAGE > app_base D s \<longleftrightarrow> (k + 1) * 4096 \<le> unat (app_base D s)"
    by (simp add: word_less_nat_alt not_less del: of_nat_Suc)
  obtain r s' where pr: "parse_mota_at D b ?a c s = (r, s')" by fastforce
  note ip = internal_parse [OF assms(1) pr]
  show ?thesis
  proof (cases "\<exists>m. staged_at b (fmem D s) c ?a m")
    case True
    then obtain m where m: "staged_at b (fmem D s) c ?a m" by blast
    then have "(THE m. staged_at b (fmem D s) c ?a m) = m"
      by (intro the_equality) (auto simp: staged_at_def dest: container_unique)
    moreover have "r = Some m" "s' = s" "(c - mm_total m) AND NOT (PAGE - 1) = ?a"
      using ip m by (auto simp: staged_at_def page_of_def)
    ultimately show ?thesis using True stop pr staged_at_magic [OF m] by (auto simp: fl_read_def)
  next
    case False
    then have "r = Some m \<Longrightarrow> (c - mm_total m) AND NOT (PAGE - 1) \<noteq> ?a" for m
      using ip by (auto simp: staged_at_def page_of_def)
    then show ?thesis using False stop pr ip by (auto simp: Let_def split: option.splits)
  qed
qed

text \<open>The highest index below \<open>k\<close> whose page satisfies \<open>S\<close>.\<close>

definition highest :: "(nat \<Rightarrow> 'a) \<Rightarrow> (nat \<Rightarrow> bool) \<Rightarrow> ('a \<Rightarrow> 'b \<Rightarrow> bool) \<Rightarrow> nat \<Rightarrow> 'a \<Rightarrow> 'b \<Rightarrow> bool" where
  "highest P B S k a m \<longleftrightarrow> (\<exists>j<k. a = P j \<and> B j \<and> S a m \<and> (\<forall>i. j < i \<and> i < k \<longrightarrow> \<not> (\<exists>m'. S (P i) m')))"

lemma highest_hit:
  assumes "S (P k) m0" "\<And>m. S (P k) m \<Longrightarrow> m = m0" "B k"
  shows "highest P B S (Suc k) a m \<longleftrightarrow> a = P k \<and> m = m0"
proof
  assume "highest P B S (Suc k) a m"
  then obtain j where j: "j < Suc k" "a = P j" "S a m" "\<forall>i. j < i \<and> i < Suc k \<longrightarrow> \<not> (\<exists>m'. S (P i) m')"
    by (auto simp: highest_def)
  have "j = k" using j(1,4) assms(1) by (metis less_Suc_eq)
  then show "a = P k \<and> m = m0" using j assms(2) by simp
next
  assume "a = P k \<and> m = m0"
  then show "highest P B S (Suc k) a m" using assms(1,3) unfolding highest_def by (intro exI [of _ k]) auto
qed

lemma highest_miss: "(\<And>m. \<not> S (P k) m) \<Longrightarrow> highest P B S (Suc k) a m \<longleftrightarrow> highest P B S k a m"
  unfolding highest_def by (metis less_Suc_eq)

lemma highest_stop: "(\<And>j. j < k \<Longrightarrow> \<not> B j) \<Longrightarrow> \<not> highest P B S k a m"
  by (auto simp: highest_def)

lemma scan_pages_spec:
  assumes "internal_source b s" "k < 2 ^ 20"
  shows "snd (scan_mota_pages D b c k s) = s \<and>
    (fst (scan_mota_pages D b c k s) = Some (a, m) \<longleftrightarrow>
      highest (\<lambda>j. of_nat j * PAGE) (\<lambda>j. unat (app_base D s) < (j + 1) * 4096) (staged_at b (fmem D s) c) k a m)"
  using assms(2)
proof (induction k)
  case 0
  show ?case by (simp add: highest_def)
next
  case (Suc k)
  note IH = Suc.IH [OF Suc_lessD [OF Suc.prems]]
  let ?S = "staged_at b (fmem D s) c"
  consider (stop) "(k + 1) * 4096 \<le> unat (app_base D s)"
    | (hit) m0 where "unat (app_base D s) < (k + 1) * 4096" "?S (of_nat k * PAGE) m0"
    | (miss) "unat (app_base D s) < (k + 1) * 4096" "\<nexists>m. ?S (of_nat k * PAGE) m" by fastforce
  then show ?case
  proof cases
    case stop
    then have r: "scan_mota_pages D b c (Suc k) s = (None, s)" unfolding scan_pages_Suc [OF assms(1) Suc.prems] by (rule if_P)
    have "\<not> highest (\<lambda>j. of_nat j * PAGE) (\<lambda>j. unat (app_base D s) < (j + 1) * 4096) ?S (Suc k) a m"
    proof (rule highest_stop)
      show "\<not> unat (app_base D s) < (j + 1) * 4096" if "j < Suc k" for j using stop that by simp
    qed
    then show ?thesis unfolding r fst_conv snd_conv by (simp only: option.distinct simp_thms)
  next
    case hit
    have one: "m = m0" if "?S (of_nat k * PAGE) m" for m using that hit(2) by (auto simp: staged_at_def dest: container_unique)
    have the: "(THE m. ?S (of_nat k * PAGE) m) = m0" using hit(2) one by (rule the_equality)
    have ex: "\<exists>m. ?S (of_nat k * PAGE) m" using hit(2) by blast
    have go: "\<not> (k + 1) * 4096 \<le> unat (app_base D s)" using hit(1) by simp
    have r: "scan_mota_pages D b c (Suc k) s = (Some (of_nat k * PAGE, m0), s)"
      unfolding scan_pages_Suc [OF assms(1) Suc.prems] the if_not_P [OF go] if_P [OF ex] ..
    have "highest (\<lambda>j. of_nat j * PAGE) (\<lambda>j. unat (app_base D s) < (j + 1) * 4096) ?S (Suc k) a m \<longleftrightarrow>
        a = of_nat k * PAGE \<and> m = m0"
      using hit(2) one hit(1) by (intro highest_hit) blast+
    then show ?thesis unfolding r fst_conv snd_conv by (simp only: option.inject prod.inject) (metis)
  next
    case miss
    have go: "\<not> (k + 1) * 4096 \<le> unat (app_base D s)" using miss(1) by simp
    have e: "scan_mota_pages D b c (Suc k) s = scan_mota_pages D b c k s"
      unfolding scan_pages_Suc [OF assms(1) Suc.prems] if_not_P [OF go] if_not_P [OF miss(2)] ..
    show ?thesis unfolding e using IH highest_miss [of ?S "\<lambda>j. of_nat j * PAGE" k] miss(2) by auto
  qed
qed

text \<open>
  C32. In internal flash the scan finds the current container and never a stale one: it returns a page address and a container
  exactly when that page holds a well-formed container that is bottom-aligned against the staging ceiling, no page above it
  holds another such container, and the page lies above the start of the application region.  It changes nothing.
\<close>

theorem scan_finds_current_container:
  assumes "internal_source b s" "c = MOTA_NRF52_STAGE_CEILING_LEGACY \<or> c = MOTA_NRF52_STAGE_CEILING_EXPANDED"
  shows "snd (scan_mota D b c s) = s \<and>
    (fst (scan_mota D b c s) = Some (a, m) \<longleftrightarrow>
      staged_at b (fmem D s) c a m \<and> unat (app_base D s) < unat a + 4096 \<and>
      (\<forall>a' m'. a < a' \<longrightarrow> \<not> staged_at b (fmem D s) c a' m'))"
proof -
  define k where "k = unat c div 4096"
  have c: "unat c = k * 4096" "k < 2 ^ 20" "1 \<le> k" using assms(2) by (auto simp: k_def layout_simps)
  have top: "unat (((c - MOTA_MIN_LEN) AND NOT (PAGE - 1)) + PAGE) div 4096 = k"
    using assms(2) by (auto simp: k_def layout_simps)
  have e: "scan_mota D b c s = scan_mota_pages D b c k s"
    using assms unfolding top [symmetric] by (auto simp: scan_mota_def internal_source_def sd_source_def Let_def)
  have page: "\<exists>j<k. x = of_nat j * PAGE \<and> unat x = j * 4096" if "staged_at b (fmem D s) c x m'" for x m'
  proof -
    have "4096 dvd unat x" using that page_of_aligned(1) by (auto simp: staged_at_def)
    then obtain j where j: "unat x = 4096 * j" by (auto simp: dvd_def)
    have "unat x + 210 \<le> unat c" using that by (auto simp: staged_at_def dest: container_span)
    then have "j < k" using j c by simp
    moreover have "x = of_nat (unat x)" by simp
    ultimately show ?thesis using j by (intro exI [of _ j]) (simp add: mult.commute)
  qed
  have un: "unat (of_nat i * PAGE :: u32) = i * 4096" if "i < k" for i
    using that c(2) by (simp add: unat_word_ariths unat_of_nat_u32)
  have "highest (\<lambda>j. of_nat j * PAGE) (\<lambda>j. unat (app_base D s) < (j + 1) * 4096) (staged_at b (fmem D s) c) k a m \<longleftrightarrow>
      staged_at b (fmem D s) c a m \<and> unat (app_base D s) < unat a + 4096 \<and> (\<forall>a' m'. a < a' \<longrightarrow> \<not> staged_at b (fmem D s) c a' m')"
    (is "?H \<longleftrightarrow> ?R")
  proof
    assume ?H
    then obtain j where j: "j < k" "a = of_nat j * PAGE" "unat (app_base D s) < (j + 1) * 4096" "staged_at b (fmem D s) c a m"
      and hi: "\<And>i m'. j < i \<Longrightarrow> i < k \<Longrightarrow> \<not> staged_at b (fmem D s) c (of_nat i * PAGE) m'" by (auto simp: highest_def)
    have ua: "unat a = j * 4096" using un [OF j(1)] j(2) by simp
    have "\<not> staged_at b (fmem D s) c a' m'" if lt: "a < a'" for a' m'
    proof
      assume st: "staged_at b (fmem D s) c a' m'"
      from page [OF this] obtain i where "i < k" "a' = of_nat i * PAGE" "unat a' = i * 4096" by blast
      then show False using hi [of i m'] lt ua st by (simp add: word_less_nat_alt)
    qed
    then show ?R using j ua by simp
  next
    assume R: ?R
    then obtain j where j: "j < k" "a = of_nat j * PAGE" "unat a = j * 4096" using page by blast
    have "\<not> (\<exists>m'. staged_at b (fmem D s) c (of_nat i * PAGE) m')" if "j < i \<and> i < k" for i
      using R un [of i] j(3) that by (auto simp: word_less_nat_alt)
    then show ?H using j R unfolding highest_def by (intro exI [of _ j]) simp
  qed
  then show ?thesis unfolding e using scan_pages_spec [OF assms(1) c(2), of D c a m] by simp
qed

section \<open>A sample container\<close>

definition sample_prefix :: bytes where
  "sample_prefix = MAGIC @ wr_u32 218 @ [2, 1, 0] @ wr_u32 7 @ wr_u32 9 @ wr_u32 4 @ wr_u32 4 @ [10] @ replicate 4 0 @
     replicate 32 0x11 @ [0] @ replicate 32 0x22 @ replicate 8 0x33 @ replicate 32 0 @ replicate 64 0 @ APRV"

definition sample_mota :: bytes where
  "sample_mota = sample_prefix @ replicate 4 0 @ [1, 2, 3, 4] @ TRAILER"

definition sample_header :: mota_fixed_header where
  "sample_header = \<lparr>fh_magic = MAGIC, fh_total = 218, fh_format_ver = 2, fh_flags = 1, fh_hash_algo = 0,
     fh_target_id = 7, fh_fw_version = 9, fh_image_size = 4, fh_payload_size = 4, fh_block_size_log2 = 10,
     fh_merkle_root = replicate 4 0, fh_image_hash = replicate 32 0x11, fh_codec_id = 0,
     fh_hw_id = replicate 32 0x22, fh_base_hash = replicate 8 0x33, fh_signer = replicate 32 0,
     fh_signature = replicate 64 0, fh_approval = APRV\<rparr>"

lemma length_sample: "length sample_prefix = 205" "length sample_mota = 218"
  by (simp_all add: sample_prefix_def sample_mota_def MAGIC_def APRV_def TRAILER_def)

lemma header_sample: "header_of_bytes sample_prefix = sample_header"
  by (simp add: header_of_bytes_def sample_prefix_def sample_header_def MAGIC_def APRV_def wr_u32_def rd_u32_def nth_append)

lemma sample_container:
  "mota_container internal_build (flash_with 0xD3000 sample_mota) 0xD3000 0xD4000 (header_min 0xD3000 sample_header 1)"
proof -
  have "rd_bytes (flash_with 0xD3000 sample_mota) 0xD3000 205 = sample_prefix"
    using rd_flash_with_start [of 205 sample_mota "0xD3000"] by (simp add: length_sample) (simp add: sample_mota_def length_sample)
  moreover have "rd_bytes (flash_with 0xD3000 sample_mota) (0xD3000 + of_nat 213) 5 = TRAILER"
    using rd_flash_with [of 213 5 sample_mota "0xD3000"] by (simp add: length_sample) (simp add: sample_mota_def length_sample TRAILER_def)
  ultimately show ?thesis
    by (simp add: mota_container_def Let_def header_sample) (simp add: sample_header_def)
qed

theorem parse_mota_accepts_format_witness:
  "fst (parse_mota_at host_dev internal_build 0xD3000 0xD4000 (boot_st (host_with 0xD3000 sample_mota))) =
     Some (header_min 0xD3000 sample_header 1)"
  using parse_mota_accepts_format [of "0xD3000" "0xD4000" host_dev internal_build "boot_st (host_with 0xD3000 sample_mota)"
      "flash_with 0xD3000 sample_mota" "header_min 0xD3000 sample_header 1"] sample_container
    internal_view [OF internal_source_boot, of host_dev "host_with 0xD3000 sample_mota" "0xD3000" "0x1000"] by simp

lemma staged_only_page:
  assumes "staged_at b v 0xD4000 a m" shows "a \<le> 0xD3000"
proof -
  have "4096 dvd unat a" using assms page_of_aligned(1) by (auto simp: staged_at_def)
  moreover have "unat a + 210 \<le> 868352" using assms container_span [of b v a "0xD4000" m] by (simp add: staged_at_def)
  ultimately have "unat a \<le> 864256" by (auto simp: dvd_def)
  then show ?thesis by (simp add: word_le_nat_alt)
qed

lemma app_base_sample: "app_base host_dev (boot_st (host_with 0xD3000 bs)) = 0x1000" if "length bs \<le> 4096"
proof -
  have "rd_word (flash_with 0xD3000 bs) 0x3004 = UINT32_MAX"
    using that by (simp add: rd_word_def rd_bytes_def rd_u32_def flash_with_def)
  then show ?thesis by (simp add: app_base_def CODE_REGION_1_START_def is_sd_existed_def layout_simps
        SOFTDEVICE_INFO_STRUCT_OFFSET_def)
qed

theorem scan_finds_current_container_witness:
  "fst (scan_mota host_dev internal_build MOTA_NRF52_STAGE_CEILING_LEGACY (boot_st (host_with 0xD3000 sample_mota))) =
     Some (0xD3000, header_min 0xD3000 sample_header 1)"
proof -
  have "staged_at internal_build (flash_with 0xD3000 sample_mota) 0xD4000 0xD3000 (header_min 0xD3000 sample_header 1)"
    using sample_container by (simp add: staged_at_def page_of_def header_min_def sample_header_def)
  then show ?thesis
    using scan_finds_current_container [OF internal_source_boot, of MOTA_NRF52_STAGE_CEILING_LEGACY host_dev "host_with 0xD3000 sample_mota"
        "0xD3000" "header_min 0xD3000 sample_header 1"] staged_only_page
    by (simp add: MOTA_NRF52_STAGE_CEILING_LEGACY_def app_base_sample length_sample) (meson not_le)
qed

text \<open>A patch header: memory, segment, shift, from and to size.\<close>

theorem dt_header_roundtrip_witness:
  "fst (dt_header_sizes host_dev internal_build 0xD3000 11 5 0
     (boot_st (host_with 0xD3000 (concat (map dt_size_bytes [81920, 4096, 8192, 63, 6000]))))) = Some [81920, 4096, 8192, 63, 6000]"
proof -
  let ?bs = "concat (map dt_size_bytes [81920, 4096, 8192, 63, 6000])"
  have l: "length ?bs = 11" by (simp add: dt_size_bytes_def dt_size_tail.simps)
  have f: "field_at (flash_with 0xD3000 ?bs) 0xD3000 11 0 ?bs"
    using rd_flash_with_start [of 11 ?bs "0xD3000"] l by (simp add: field_at_def)
  have "dt_header_sizes host_dev internal_build 0xD3000 11 (length [81920 :: nat, 4096, 8192, 63, 6000]) 0 (boot_st (host_with 0xD3000 ?bs)) =
      (Some (map of_nat [81920, 4096, 8192, 63, 6000]), boot_st (host_with 0xD3000 ?bs))"
    by (rule dt_header_roundtrip [OF internal_view [OF internal_source_boot]])
       (use f in \<open>simp_all only: fmem_host_with\<close>, auto)
  moreover have "length [81920 :: nat, 4096, 8192, 63, 6000] = 5" by simp
  ultimately show ?thesis by (simp only: fst_conv) simp
qed

text \<open>A hybrid handoff over a page of flash and 100 bytes of the arena.\<close>

definition sample_handoff :: mota_hybrid_handoff where
  "sample_handoff = mota_hybrid_handoff_encode 4196 0xEC000 4096 100 (replicate 32 7)"

definition hybrid_st :: "host mota_st" where
  "hybrid_st = (boot_st host_blank)\<lparr>st_ram := flash_with 0x20006008 (hybrid_bytes sample_handoff)\<rparr>"

lemma sample_handoff_fields:
  "hh_flash_start sample_handoff = 0xEC000" "hh_flash_len sample_handoff = 4096" "hh_container_total sample_handoff = 4196"
  "hybrid_wf sample_handoff" "mota_hybrid_handoff_valid sample_handoff"
  using hybrid_encode_valid [of "replicate 32 7" 4196 "0xEC000" 4096 100] hybrid_encode_wf [of "replicate 32 7"]
  by (simp_all add: sample_handoff_def) (simp_all add: mota_hybrid_handoff_encode_def Let_def)

lemma hybrid_st_take:
  "\<exists>s'. hybrid_handoff_take host_dev hybrid_st = (True, s') \<and> g_hybrid s' = sample_handoff \<and> fmem host_dev s' = (\<lambda>_. 0xFF) \<and>
     st_ram s' 0x20030000 = 0xFF"
proof -
  note f = sample_handoff_fields
  have l: "length (hybrid_bytes sample_handoff) = 72" using f(4) by (simp add: hybrid_bytes_def length_hybrid_prefix)
  have raw: "rd_bytes (st_ram hybrid_st) 0x20006008 72 = hybrid_bytes sample_handoff"
    using rd_flash_with_start [of 72 "hybrid_bytes sample_handoff" "0x20006008"] l by (simp add: hybrid_st_def)
  have base: "CODE_REGION_1_START (\<lambda>_. 0xFF) = 0x1000"
    by (simp add: CODE_REGION_1_START_def is_sd_existed_def rd_word_def rd_bytes_def rd_u32_def layout_simps)
  have "hybrid_geometry_ok host_dev s sample_handoff" if "st_resetreas s = 4" "fmem host_dev s = (\<lambda>_. 0xFF)" for s
    using that f by (simp add: hybrid_geometry_ok_def app_base_def base layout_simps hybrid_required_flash_len_def
        MOTA_HYBRID_ARENA_SIZE_def)
  moreover have "fmem host_dev hybrid_st = (\<lambda>_. 0xFF)" "st_resetreas hybrid_st = 4"
    by (simp_all add: hybrid_st_def boot_st_def host_blank_def host_dev_def)
  moreover have "st_ram hybrid_st 0x20030000 = 0xFF" using l by (simp add: hybrid_st_def flash_with_def)
  ultimately show ?thesis
    using raw hybrid_of_bytes_inverse [OF f(4)] by (simp add: hybrid_handoff_take_def retained_handoff_take_def Let_def)
qed

lemma rd_bytes_2: "rd_bytes m a 2 = [m a, m (a + 1)]"
  by (simp add: rd_bytes_def numeral_2_eq_2)

theorem hybrid_reads_one_container_witness:
  "\<exists>s'. hybrid_handoff_take host_dev hybrid_st = (True, s') \<and>
     hybrid_staged_read host_dev 0xECFFF 2 s' = Some [0xFF, 0xFF] \<and> hybrid_staged_read host_dev 0xED063 2 s' = None"
proof -
  obtain s' where s': "hybrid_handoff_take host_dev hybrid_st = (True, s')" "g_hybrid s' = sample_handoff"
    "fmem host_dev s' = (\<lambda>_. 0xFF)" "st_ram s' 0x20030000 = 0xFF" using hybrid_st_take by blast
  have "rd_bytes (hybrid_virtual host_dev s') 0xECFFF 2 = [0xFF, 0xFF]"
    using s' sample_handoff_fields by (simp add: hybrid_virtual_def Let_def MOTA_HYBRID_ARENA_START_def rd_bytes_2)
  then show ?thesis using hybrid_reads_one_container [OF s'(1)] s'(1,2) sample_handoff_fields by simp
qed

section \<open>The running image\<close>

lemma find_Some_first:
  assumes "List.find P [0..<n] = Some k" shows "k < n" "P k" "\<And>j. j < k \<Longrightarrow> \<not> P j"
  using assms by (auto simp: find_Some_iff)

lemma find_body_len_first:
  assumes "find_body_len D limit s = Some body" 
  shows "app_base D s < limit" "unat body + 56 \<le> unat limit - unat (app_base D s)" "endf_at D s (unat body)"
    "\<And>j. j < unat body \<Longrightarrow> \<not> endf_at D s j"
proof -
  let ?n = "unat (limit - app_base D s) + 1 - unat ENDF_LEN"
  from assms have lt: "app_base D s < limit" by (auto simp: find_body_len_def split: if_splits)
  then have d: "unat (limit - app_base D s) = unat limit - unat (app_base D s)" by (simp add: unat_sub_le)
  have "map_option of_nat (List.find (endf_at D s) [0..<?n]) = Some body"
    using assms lt unfolding find_body_len_def by (simp only: not_le [symmetric] if_False)
  then obtain k where k: "List.find (endf_at D s) [0..<?n] = Some k" "body = of_nat k"
    by (cases "List.find (endf_at D s) [0..<?n]") (simp_all only: option.map option.inject option.distinct)
  note f = find_Some_first [OF k(1)]
  have "k + 56 \<le> unat limit - unat (app_base D s)" using f(1) unfolding d by (simp add: ENDF_LEN_def)
  moreover have "unat body = k" using calculation unat_u32_lt [of limit] by (simp add: k(2) unat_of_nat_u32)
  ultimately show "app_base D s < limit" "unat body + 56 \<le> unat limit - unat (app_base D s)" "endf_at D s (unat body)"
    "\<And>j. j < unat body \<Longrightarrow> \<not> endf_at D s j" using lt f by simp_all
qed

text \<open>
  When the check for an internal bootloader slot says that the live application ends below \<open>limit\<close>, it does: the first
  self-describing trailer in the application region gives a non-empty body whose SHA-256 prefix the trailer carries, body and trailer
  end at or below the limit, and so does the whole bank when settings that pass their integrity test vouch for it with a size.
\<close>

theorem live_app_ends_below:
  assumes "ota_delta_live_app_fits_below D b limit s"
  shows "\<exists>n>0. endf_at D s n \<and> (\<forall>j<n. \<not> endf_at D s j) \<and> unat (app_base D s) + n + 56 \<le> unat limit \<and>
    take 8 (sha256 (fl_read D s (app_base D s) n)) = fl_read D s (app_base D s + of_nat n + 8) 8 \<and>
    (let st = settings_of_bytes (fl_read D s (BOOTLOADER_SETTINGS_ADDRESS (b_chip b)) 32)
     in bootloader_settings_integrity_valid st \<and> bs_bank_0 st = BANK_VALID_APP \<and> bs_bank_0_size st \<noteq> 0 \<longrightarrow>
        n + 56 \<le> unat (bs_bank_0_size st) \<and> unat (app_base D s) + unat (bs_bank_0_size st) \<le> unat limit)"
proof -
  let ?base = "app_base D s"
  define st where "st = settings_of_bytes (fl_read D s (BOOTLOADER_SETTINGS_ADDRESS (b_chip b)) 32)"
  obtain body where f: "find_body_len D limit s = Some body"
    using assms by (auto simp: ota_delta_live_app_fits_below_def Let_def split: if_splits option.splits)
  note r = find_body_len_first [OF f]
  have lim: "unat (limit - ?base) = unat limit - unat ?base" using r(1) by (simp add: unat_sub_le)
  from assms f have a: "body \<noteq> 0" "take 8 (sha256_region D b ?base body s) = fl_read D s (?base + body + 8) 8"
    "bootloader_settings_integrity_valid st \<and> bs_bank_0 st = BANK_VALID_APP \<and> bs_bank_0_size st \<noteq> 0 \<Longrightarrow>
       body + ENDF_LEN \<le> bs_bank_0_size st \<and> bs_bank_0_size st \<le> limit - ?base"
    by (auto simp: ota_delta_live_app_fits_below_def Let_def st_def split: if_splits)
  have sum: "unat ?base + unat body + 56 \<le> unat limit" using r(1,2) by (simp add: word_less_nat_alt)
  have h: "sha256_region D b ?base body s = sha256 (fl_read D s ?base (unat body))"
    using sum unat_u32_lt [of limit] by (intro sha256_region_eq) simp
  have e: "unat (body + ENDF_LEN) = unat body + 56"
    using sum unat_u32_lt [of limit] by (simp add: unat_word_ariths ENDF_LEN_def)
  show ?thesis unfolding st_def [symmetric] Let_def
  proof (intro exI [of _ "unat body"] conjI impI)
    show "0 < unat body" using a(1) by (simp add: unat_gt_0)
    assume "bootloader_settings_integrity_valid st \<and> bs_bank_0 st = BANK_VALID_APP \<and> bs_bank_0_size st \<noteq> 0"
    from a(3) [OF this] show "unat body + 56 \<le> unat (bs_bank_0_size st)" "unat ?base + unat (bs_bank_0_size st) \<le> unat limit"
      using e lim r(1) by (auto simp: word_le_nat_alt word_less_nat_alt)
  qed (use r sum a(2) h in auto)
qed

definition sample_app :: bytes where
  "sample_app = [1, 2, 3, 4] @ ENDF @ wr_u32 4 @ take 8 (sha256 [1, 2, 3, 4]) @ replicate 40 0"

lemma length_sample_app: "length sample_app = 60"
  by (simp add: sample_app_def ENDF_def length_sha256)

lemma sample_app_read:
  "off + n \<le> 60 \<Longrightarrow> fl_read host_dev (boot_st (host_with 0x1000 sample_app)) (0x1000 + of_nat off) n = take n (drop off sample_app)"
  using rd_flash_with [of off n sample_app "0x1000"] by (simp add: fl_read_def length_sample_app)

lemma sample_app_base: "app_base host_dev (boot_st (host_with 0x1000 sample_app)) = 0x1000"
proof -
  have "rd_word (flash_with 0x1000 sample_app) 0x3004 = UINT32_MAX"
    by (simp add: rd_word_def rd_bytes_def rd_u32_def flash_with_def length_sample_app)
  then show ?thesis by (simp add: app_base_def CODE_REGION_1_START_def is_sd_existed_def layout_simps
        SOFTDEVICE_INFO_STRUCT_OFFSET_def)
qed

lemma sample_app_endf:
  "endf_at host_dev (boot_st (host_with 0x1000 sample_app)) 4"
  "j < 4 \<Longrightarrow> \<not> endf_at host_dev (boot_st (host_with 0x1000 sample_app)) j"
proof -
  have j: "j = 0 \<or> j = 1 \<or> j = 2 \<or> j = 3" if "j < 4" using that by arith
  show "endf_at host_dev (boot_st (host_with 0x1000 sample_app)) 4"
    using sample_app_read [of 4 8] by (simp add: endf_at_def Let_def sample_app_base) (simp add: sample_app_def ENDF_def wr_u32_def rd_u32_def)
  show "j < 4 \<Longrightarrow> \<not> endf_at host_dev (boot_st (host_with 0x1000 sample_app)) j"
    using sample_app_read [of j 8] j by (auto simp: endf_at_def Let_def sample_app_base) (auto simp: sample_app_def ENDF_def wr_u32_def)
qed

lemma sample_app_fits: "ota_delta_live_app_fits_below host_dev internal_build 0xE2000 (boot_st (host_with 0x1000 sample_app))"
proof -
  let ?s = "boot_st (host_with 0x1000 sample_app)"
  have "List.find (endf_at host_dev ?s) [0..<n] = Some 4" if "4 < n" for n
    using that sample_app_endf unfolding find_Some_iff by (intro exI [of _ 4]) simp
  then have body: "find_body_len host_dev 0xE2000 ?s = Some 4"
    by (simp add: find_body_len_def sample_app_base ENDF_LEN_def)
  have h: "sha256_region host_dev internal_build 0x1000 4 ?s = sha256 [1, 2, 3, 4]"
    using sha256_region_eq [of "0x1000" 4 host_dev internal_build ?s] sample_app_read [of 0 4]
    by simp (simp add: sample_app_def)
  have c: "fl_read host_dev ?s 0x100C 8 = take 8 (sha256 [1, 2, 3, 4])"
    using sample_app_read [of 12 8] by simp (simp add: sample_app_def ENDF_def length_sha256)
  have st: "bs_bank_0 (settings_of_bytes (fl_read host_dev ?s 0xFF000 32)) \<noteq> BANK_VALID_APP"
    by (simp add: settings_of_bytes_def fl_read_def rd_bytes_def rd_u32_def rd_u16_def flash_with_def length_sample_app)
  have chip: "b_chip internal_build = NRF52840" by (simp add: internal_build_def)
  show ?thesis
    using body h c st chip by (simp add: ota_delta_live_app_fits_below_def Let_def sample_app_base ENDF_LEN_def)
qed

theorem live_app_ends_below_witness:
  "\<exists>n>0. endf_at host_dev (boot_st (host_with 0x1000 sample_app)) n \<and> 0x1000 + n + 56 \<le> 0xE2000"
  using live_app_ends_below [OF sample_app_fits] by (auto simp: sample_app_base)

end
