(* ===== verification/Boot_Caps.thy ===== *)
theory Boot_Caps
  imports Boot_Image Sha256 Handoff_Records Mota_Format
begin

text \<open>
  What a staged bootloader must show before it may replace the running one (\<open>src/src/ota_delta.c\<close> with
  \<open>ota_bl_info.h\<close>, \<open>ota_ram_info.h\<close> and \<open>ota_rak_sd_info.h\<close>): the capability records this build carries, the scan
  for exactly one matching record of each kind, the hardware identity of the package, the manifest policy and the vector check.
\<close>

section \<open>Capability records of this build\<close>

definition MOTA_BL_STORAGE_SD :: u8 where [layout_simps]: "MOTA_BL_STORAGE_SD = 0x01"
definition MOTA_BL_STORAGE_STAGE_CEILING :: u8 where [layout_simps]: "MOTA_BL_STORAGE_STAGE_CEILING = 0x02"
definition MOTA_BL_STORAGE_QSPI :: u8 where [layout_simps]: "MOTA_BL_STORAGE_QSPI = 0x04"
definition MOTA_BL_STORAGE_BOOT_UPDATE :: u8 where [layout_simps]: "MOTA_BL_STORAGE_BOOT_UPDATE = 0x08"
definition MOTA_BL_STORAGE_HEADER_W25 :: u8 where [layout_simps]: "MOTA_BL_STORAGE_HEADER_W25 = 0x10"
definition MOTA_BL_STORAGE_KNOWN :: u8 where [layout_simps]:
  "MOTA_BL_STORAGE_KNOWN = MOTA_BL_STORAGE_SD OR MOTA_BL_STORAGE_STAGE_CEILING OR MOTA_BL_STORAGE_QSPI OR
     MOTA_BL_STORAGE_BOOT_UPDATE OR MOTA_BL_STORAGE_HEADER_W25"

definition MOTA_BL_MAGIC :: bytes where "MOTA_BL_MAGIC = [0x4D, 0x4F, 0x54, 0x41, 0x42, 0x4C, 0x44, 0x52]"
definition MOTA_RAM_INFO_MAGIC :: bytes where "MOTA_RAM_INFO_MAGIC = [0x4D, 0x4F, 0x54, 0x41, 0x52, 0x41, 0x4D, 0x41]"
definition MOTA_STOR_MAGIC :: bytes where "MOTA_STOR_MAGIC = [0x4D, 0x4F, 0x54, 0x41, 0x53, 0x54, 0x4F, 0x52]"
definition MOTA_RAK_SD_MAGIC :: bytes where "MOTA_RAK_SD_MAGIC = [0x4D, 0x4F, 0x54, 0x41, 0x53, 0x44, 0x52, 0x41]"

definition MOTA_BL_APPLY_ABI :: "build \<Rightarrow> u16" where
  "MOTA_BL_APPLY_ABI b = (if b_bootloader_update_enabled b then 3 else 2)"

definition MOTA_QSPI_STORAGE_FLAGS :: "build \<Rightarrow> u8" where
  "MOTA_QSPI_STORAGE_FLAGS b =
     (if b_rak_auto_store b then MOTA_BL_STORAGE_QSPI OR MOTA_BL_STORAGE_STAGE_CEILING OR MOTA_BL_STORAGE_HEADER_W25
      else if b_qspi_bootloader_update b then MOTA_BL_STORAGE_QSPI OR MOTA_BL_STORAGE_STAGE_CEILING OR MOTA_BL_STORAGE_BOOT_UPDATE
      else MOTA_BL_STORAGE_QSPI OR MOTA_BL_STORAGE_STAGE_CEILING)"

definition MOTA_SD_STORAGE_FLAGS :: "build \<Rightarrow> u8" where
  "MOTA_SD_STORAGE_FLAGS b =
     (if b_sd_bootloader_update b then MOTA_BL_STORAGE_SD OR MOTA_BL_STORAGE_BOOT_UPDATE else MOTA_BL_STORAGE_SD)"

definition MOTA_BOOT_UPDATE_STORAGE_FLAGS :: "build \<Rightarrow> u8" where
  "MOTA_BOOT_UPDATE_STORAGE_FLAGS b =
     (if b_rak_sd_store b then MOTA_BL_STORAGE_STAGE_CEILING OR MOTA_BL_STORAGE_BOOT_UPDATE
      else if b_sd_bootloader_update b then MOTA_SD_STORAGE_FLAGS b
      else if b_qspi_bootloader_update b then MOTA_QSPI_STORAGE_FLAGS b
      else MOTA_BL_STORAGE_STAGE_CEILING OR MOTA_BL_STORAGE_BOOT_UPDATE)"

definition MOTA_BOOT_UPDATE_CODEC_MASK :: u16 where "MOTA_BOOT_UPDATE_CODEC_MASK = 5"

definition g_mota_bl_info :: "build \<Rightarrow> bytes" where
  "g_mota_bl_info b = MOTA_BL_MAGIC @ wr_u16 (MOTA_BL_APPLY_ABI b) @
     (if b_sd_card b \<and> \<not> b_rak_sd_store b then wr_u16 5 @ [MOTA_SD_STORAGE_FLAGS b, 0, 0, 0]
      else if b_qspi_flash b \<and> (\<not> b_rak_auto_store b \<or> \<not> b_internal_bootloader_update b)
      then wr_u16 5 @ [MOTA_QSPI_STORAGE_FLAGS b, 0, 0, 0]
      else if b_internal_bootloader_update b then wr_u16 5 @ [MOTA_BOOT_UPDATE_STORAGE_FLAGS b, 0, 0, 0]
      else wr_u16 4 @ [MOTA_BL_STORAGE_STAGE_CEILING, 0, 0, 0])"

definition g_mota_ram_info :: bytes where
  "g_mota_ram_info = MOTA_RAM_INFO_MAGIC @ wr_u16 1 @ wr_u16 MOTA_HYBRID_HANDOFF_LEN @ wr_u32 MOTA_HYBRID_ARENA_SIZE"

definition has_app_capabilities :: "build \<Rightarrow> bool" where
  "has_app_capabilities b \<longleftrightarrow> b_rak_auto_store b \<or> b_sd_dual_store b"

definition g_mota_app_capabilities :: "build \<Rightarrow> bytes" where
  "g_mota_app_capabilities b = MOTA_STOR_MAGIC @ wr_u16 1 @ wr_u16 16 @
     [if b_sd_dual_store b then MOTA_BL_STORAGE_STAGE_CEILING else MOTA_BL_STORAGE_QSPI OR MOTA_BL_STORAGE_HEADER_W25, 0, 0, 0]"

definition g_mota_ram_capabilities :: "build \<Rightarrow> bytes" where
  "g_mota_ram_capabilities b = g_mota_ram_info @ (if has_app_capabilities b then g_mota_app_capabilities b else [])"

definition g_mota_rak_sd_info :: bytes where
  "g_mota_rak_sd_info = MOTA_RAK_SD_MAGIC @ wr_u16 1 @ wr_u16 MOTA_SD_AUTH_LEN @
     [MOTA_BL_STORAGE_SD, ucast GPREGRET2_OTA_STAGE_SD, 0, 0]"

section \<open>Scan for the capability records\<close>

text \<open>The three records looked for at one offset; each keeps its own count and ends the scan with \<open>None\<close>.\<close>

definition rak_sd_marker :: "bytes \<Rightarrow> bool" where
  "rak_sd_marker c \<longleftrightarrow> take 4 (drop 4 c) = drop 4 MOTA_RAK_SD_MAGIC \<and>
     (let abi = rd_u16 (drop 8 c); flags = c ! 12
      in abi \<ge> 1 \<and> abi \<noteq> 0xFFFF \<and> rd_u16 (drop 10 c) = MOTA_SD_AUTH_LEN \<and> flags AND MOTA_BL_STORAGE_SD \<noteq> 0 \<and>
         flags AND NOT MOTA_BL_STORAGE_SD = 0 \<and> c ! 14 OR c ! 15 = 0)"

definition rak_sd_phase :: "build \<Rightarrow> bytes \<Rightarrow> nat \<Rightarrow> nat option" where
  "rak_sd_phase b c sd_matches =
     (if b_rak_sd_store b \<and> rak_sd_marker c
      then if sd_matches + 1 > 1 \<or> rd_u16 (drop 8 c) \<noteq> 1 \<or> c ! 13 \<noteq> ucast GPREGRET2_OTA_STAGE_SD then None
           else Some (sd_matches + 1)
      else Some sd_matches)"

definition ram_phase :: "build \<Rightarrow> bytes \<Rightarrow> nat \<Rightarrow> nat \<Rightarrow> nat option" where
  "ram_phase b c off ram_matches =
     (if b_ram_arena b \<and> take 16 c = g_mota_ram_info
      then if ram_matches + 1 > 1 \<or>
              has_app_capabilities b \<and> (off + 32 > unat MOTA_NRF52_BL_SIZE \<or> take 16 (drop 16 c) \<noteq> g_mota_app_capabilities b)
           then None else Some (ram_matches + 1)
      else Some ram_matches)"

definition bl_marker :: "bytes \<Rightarrow> bool" where
  "bl_marker c \<longleftrightarrow>
     (let apply_abi = rd_u16 (drop 8 c); codec_mask = rd_u16 (drop 10 c)
      in apply_abi \<ge> 3 \<and> apply_abi \<noteq> 0xFFFF \<and> codec_mask AND MOTA_BOOT_UPDATE_CODEC_MASK = MOTA_BOOT_UPDATE_CODEC_MASK \<and>
         c ! 12 AND MOTA_BL_STORAGE_BOOT_UPDATE \<noteq> 0 \<and> c ! 12 AND NOT MOTA_BL_STORAGE_KNOWN = 0 \<and>
         c ! 13 OR c ! 14 OR c ! 15 = 0)"

definition bl_phase :: "build \<Rightarrow> bytes \<Rightarrow> nat \<Rightarrow> nat option" where
  "bl_phase b c matches =
     (if (if b_rak_sd_store b then take 4 (drop 4 c) \<noteq> drop 4 MOTA_BL_MAGIC else take 8 c \<noteq> MOTA_BL_MAGIC) then Some matches
      else if bl_marker c
      then if matches + 1 > 1 \<or> c ! 12 \<noteq> MOTA_BOOT_UPDATE_STORAGE_FLAGS b then None else Some (matches + 1)
      else Some matches)"

definition caps_step :: "build \<Rightarrow> bytes \<Rightarrow> nat \<Rightarrow> nat \<times> nat \<times> nat \<Rightarrow> (nat \<times> nat \<times> nat) option" where
  "caps_step b img off st =
     (let c = drop off img; (matches, sd_matches, ram_matches) = st
      in if b_rak_sd_store b \<and> take 4 c \<noteq> take 4 MOTA_BL_MAGIC then Some st
         else case rak_sd_phase b c sd_matches of None \<Rightarrow> None | Some sd \<Rightarrow>
              case ram_phase b c off ram_matches of None \<Rightarrow> None | Some ram \<Rightarrow>
              case bl_phase b c matches of None \<Rightarrow> None | Some n \<Rightarrow> Some (n, sd, ram))"

fun caps_scan :: "build \<Rightarrow> bytes \<Rightarrow> nat list \<Rightarrow> nat \<times> nat \<times> nat \<Rightarrow> (nat \<times> nat \<times> nat) option" where
  "caps_scan b img [] st = Some st"
| "caps_scan b img (off # offs) st = (case caps_step b img off st of None \<Rightarrow> None | Some st \<Rightarrow> caps_scan b img offs st)"

definition caps_offsets :: "nat list" where
  "caps_offsets = map (\<lambda>i. 4 * i) [0..<(unat MOTA_NRF52_BL_SIZE - 16) div 4 + 1]"

definition boot_image_caps_valid :: "build \<Rightarrow> bytes \<Rightarrow> bool" where
  "boot_image_caps_valid b img =
     (case caps_scan b img caps_offsets (0, 0, 0) of
        None \<Rightarrow> False
      | Some (matches, sd_matches, ram_matches) \<Rightarrow>
          matches = 1 \<and> (b_rak_sd_store b \<longrightarrow> sd_matches = 1) \<and> (b_ram_arena b \<longrightarrow> ram_matches = 1))"

section \<open>Package identity and policy\<close>

definition BOOT_UPDATE_HW_ID :: "build \<Rightarrow> bytes" where
  "BOOT_UPDATE_HW_ID b = [0x58, 0x49, 0x41, 0x4F, 0x5F, 0x42, 0x4C, 0x5F, 0x32, 0x38, 0x38, 0x36, 0x30, 0x30, 0x34,
     if b_usb_uf2_pid b = 0x0044 then 0x34 else 0x35] @ replicate 16 0"

definition BOOT_ID_DIGIT :: "u32 \<Rightarrow> nat \<Rightarrow> u8" where
  "BOOT_ID_DIGIT v sh = (let n = drop_bit sh v AND 0xF in ucast (if n < 10 then 0x30 + n else 0x41 + n - 10))"

definition boot_identity :: "build \<Rightarrow> bytes" where
  "boot_identity b = [0x4E, 0x52, 0x46, 0x5F, 0x42, 0x4C, 0x5F] @
     map (BOOT_ID_DIGIT (board_id b)) [28, 24, 20, 16, 12, 8, 4, 0] @ [0x5F] @ device_name_field b"

definition boot_update_expected_identity :: "build \<Rightarrow> (u32 \<times> bytes) option" where
  "boot_update_expected_identity b =
     (if b_qspi_xiao_identity b then Some (board_id b, BOOT_UPDATE_HW_ID b)
      else let name_len = length (b_device_name b)
      in if board_id b = 0 \<or> board_id b = UINT32_MAX \<or> name_len = 0 \<or> name_len > 15 then None
      else if list_ex (\<lambda>ch. ch < 0x21 \<or> ch > 0x7E) (b_device_name b) then None
      else let target_id = rd_u32 (sha256 (boot_identity b))
      in if target_id \<noteq> 0 \<and> target_id \<noteq> UINT32_MAX then Some (target_id, boot_identity b) else None)"

definition boot_vectors_valid :: "build \<Rightarrow> bytes \<Rightarrow> bool" where
  "boot_vectors_valid b vectors =
     (if \<not> bootloader_image_vectors_valid b vectors MOTA_NRF52_BL_START MOTA_NRF52_BL_SIZE then False
      else b_ram_arena b \<longrightarrow> rd_u32 vectors \<le> MOTA_HYBRID_ARENA_START)"

definition staged_vectors_valid :: "'d mota_dev \<Rightarrow> build \<Rightarrow> u32 \<Rightarrow> 'd mota_st \<Rightarrow> bool \<times> 'd mota_st" where
  "staged_vectors_valid D b payload_addr s =
     (let (r, s) = staged_read D b payload_addr 8 s
      in (case r of None \<Rightarrow> False | Some vectors \<Rightarrow> boot_vectors_valid b vectors, s))"

definition BOOT_UPDATE_BLOCK_COUNT :: u32 where [layout_simps]: "BOOT_UPDATE_BLOCK_COUNT = 40"
definition BOOT_UPDATE_PAYLOAD_OFFSET :: u32 where [layout_simps]:
  "BOOT_UPDATE_PAYLOAD_OFFSET = 8 + MOTA_MFL + BOOT_UPDATE_BLOCK_COUNT * 4"
definition BOOT_UPDATE_PACKAGE_SIZE :: u32 where [layout_simps]:
  "BOOT_UPDATE_PACKAGE_SIZE = BOOT_UPDATE_PAYLOAD_OFFSET + MOTA_NRF52_BL_SIZE + 5"

definition boot_update_policy_valid :: "build \<Rightarrow> mota_min \<Rightarrow> bool" where
  "boot_update_policy_valid b m =
     (case boot_update_expected_identity b of
        None \<Rightarrow> False
      | Some (expected_target_id, expected_hw_id) \<Rightarrow>
          mm_format_ver m = 3 \<and> mm_flags m = MFLAG_FULL OR MFLAG_SIGNED OR MFLAG_BOOTLOADER \<and>
          mm_hash_algo m = 0x12 \<and> mm_is_full m \<and> mm_codec_id m = CODEC_FULL \<and>
          mm_target_id m = expected_target_id \<and> mm_fw_version m \<noteq> 0 \<and> mm_hw_id m = expected_hw_id \<and>
          mm_base_hash m = replicate 8 0 \<and> mm_block_size_log2 m = 10 \<and>
          mm_block_count m = BOOT_UPDATE_BLOCK_COUNT \<and>
          mm_image_size m = MOTA_NRF52_BL_SIZE \<and> mm_payload_size m = MOTA_NRF52_BL_SIZE)"

definition BOOT_UPDATE_RAW_START :: "build \<Rightarrow> 'd mota_st \<Rightarrow> u32" where
  "BOOT_UPDATE_RAW_START b s =
     (if b_sd_dual_store b \<or> b_rak_sd_store b \<and> b_sd_bootloader_update b
      then (if g_sd_source s then MOTA_NRF52_BL_SCRATCH_START else MOTA_NRF52_INTERNAL_BL_SLOT_START)
      else if b_internal_bootloader_update b then MOTA_NRF52_INTERNAL_BL_SLOT_START
      else MOTA_NRF52_BL_SCRATCH_START)"

definition sd_boot_authorization_valid :: "'d mota_dev \<Rightarrow> mota_min \<Rightarrow> 'd mota_st \<Rightarrow> bool" where
  "sd_boot_authorization_valid D m s =
     (mm_total m = BOOT_UPDATE_PACKAGE_SIZE \<and>
      mota_sd_boot_token_valid (fl_read D s MOTA_NRF52_BL_SCRATCH_START 64) (mm_total m) (mm_image_hash m))"

text \<open>
  The extension \<open>inst\<close> of the running bootloader is a linked constant of its own image
  (\<open>bootloaderUpdateManifest.extension\<close>), here a parameter.
\<close>

definition installed_extension :: "build \<Rightarrow> u32 \<Rightarrow> u16 \<Rightarrow> u32 \<Rightarrow> bootloader_update_extension" where
  "installed_extension b version fwid appbase = \<lparr>be_magic0 = 0x324D4C42, be_magic1 = 0x54464F53, be_version = 2,
     be_header_size = of_nat EXTENSION_SIZE, be_boot_version = version, be_softdevice_family = ucast (b_softdevice_family b),
     be_softdevice_fwid = fwid, be_app_base = appbase, be_layout_abi = BOOTLOADER_UPDATE_LAYOUT_ABI,
     be_compat_flags = 0, be_reserved = 0\<rparr>"

definition installed_boot_info :: "bootloader_update_extension \<Rightarrow> bootloader_image_info option" where
  "installed_boot_info ext =
     (if \<not> bootloader_extension_validate ext then None
      else Some \<lparr>bi_boot_version = be_boot_version ext, bi_softdevice_family = be_softdevice_family ext,
        bi_softdevice_fwid = be_softdevice_fwid ext, bi_app_base = be_app_base ext, bi_layout_abi = be_layout_abi ext\<rparr>)"

definition boot_image_metadata_valid_at ::
    "'d mota_dev \<Rightarrow> build \<Rightarrow> bootloader_update_extension \<Rightarrow> u32 \<Rightarrow> mota_min \<Rightarrow> 'd mota_st \<Rightarrow> bool" where
  "boot_image_metadata_valid_at D b inst address m s =
     (let img = fl_read D s address (unat MOTA_NRF52_BL_SIZE)
      in case bootloader_image_info b img MOTA_NRF52_BL_START (board_id b) (device_name_field b) of
           None \<Rightarrow> False
         | Some candidate \<Rightarrow>
             if \<not> boot_image_caps_valid b img then False
             else case installed_boot_info inst of
                    None \<Rightarrow> False
                  | Some installed \<Rightarrow>
                      bi_softdevice_family candidate = bi_softdevice_family installed \<and>
                      bi_softdevice_fwid candidate = bi_softdevice_fwid installed \<and>
                      bi_app_base candidate = bi_app_base installed \<and>
                      bi_layout_abi candidate = bi_layout_abi installed \<and>
                      ucast (bi_softdevice_family candidate) = b_softdevice_family b \<and>
                      bi_softdevice_fwid candidate = mota_runtime_softdevice_fwid_get (fmem D s) \<and>
                      bi_app_base candidate = app_base D s \<and>
                      bi_layout_abi candidate = BOOTLOADER_UPDATE_LAYOUT_ABI \<and>
                      bi_boot_version candidate = mm_fw_version m)"

section \<open>The scan accepts exactly one record of each kind\<close>

fun count_scan :: "(nat \<Rightarrow> bool) \<Rightarrow> (nat \<Rightarrow> bool) \<Rightarrow> nat list \<Rightarrow> nat \<Rightarrow> nat option" where
  "count_scan ok ex [] n = Some n"
| "count_scan ok ex (x # xs) n =
     (if ok x then if n + 1 > 1 \<or> \<not> ex x then None else count_scan ok ex xs (n + 1) else count_scan ok ex xs n)"

lemma count_scan_found: "0 < n \<Longrightarrow> count_scan ok ex xs n = (if \<exists>x \<in> set xs. ok x then None else Some n)"
  by (induction xs) auto

lemma count_scan_one:
  assumes "distinct xs"
  shows "count_scan ok ex xs 0 = Some 1 \<longleftrightarrow> (\<exists>x \<in> set xs. ok x \<and> ex x \<and> (\<forall>y \<in> set xs. ok y \<longrightarrow> y = x))"
  using assms
proof (induction xs)
  case (Cons x xs)
  then show ?case by (cases "ok x") (auto simp: count_scan_found)
qed simp

definition bl_at :: "bytes \<Rightarrow> nat \<Rightarrow> bool" where
  "bl_at img off \<longleftrightarrow> take 8 (drop off img) = MOTA_BL_MAGIC \<and> bl_marker (drop off img)"

definition bl_exact :: "build \<Rightarrow> bytes \<Rightarrow> nat \<Rightarrow> bool" where
  "bl_exact b img off \<longleftrightarrow> drop off img ! 12 = MOTA_BOOT_UPDATE_STORAGE_FLAGS b"

definition sd_at :: "bytes \<Rightarrow> nat \<Rightarrow> bool" where
  "sd_at img off \<longleftrightarrow> take 8 (drop off img) = MOTA_RAK_SD_MAGIC \<and> rak_sd_marker (drop off img)"

definition sd_exact :: "bytes \<Rightarrow> nat \<Rightarrow> bool" where
  "sd_exact img off \<longleftrightarrow> rd_u16 (drop 8 (drop off img)) = 1 \<and> drop off img ! 13 = ucast GPREGRET2_OTA_STAGE_SD"

definition ram_at :: "bytes \<Rightarrow> nat \<Rightarrow> bool" where
  "ram_at img off \<longleftrightarrow> take 16 (drop off img) = g_mota_ram_info"

definition ram_exact :: "build \<Rightarrow> bytes \<Rightarrow> nat \<Rightarrow> bool" where
  "ram_exact b img off \<longleftrightarrow> (has_app_capabilities b \<longrightarrow>
     off + 32 \<le> unat MOTA_NRF52_BL_SIZE \<and> take 16 (drop 16 (drop off img)) = g_mota_app_capabilities b)"

lemma take8_split:
  assumes "length m = 8" shows "take 8 c = m \<longleftrightarrow> take 4 c = take 4 m \<and> take 4 (drop 4 c) = drop 4 m"
proof
  assume "take 8 c = m"
  then show "take 4 c = take 4 m \<and> take 4 (drop 4 c) = drop 4 m" using assms by (auto simp: drop_take)
next
  assume "take 4 c = take 4 m \<and> take 4 (drop 4 c) = drop 4 m"
  then have "take 4 c @ take 4 (drop 4 c) = m" using assms by (metis append_take_drop_id)
  then show "take 8 c = m" using take_add [of 4 4 c] by simp
qed

lemma ram_at_magic: "ram_at img off \<Longrightarrow> take 4 (drop off img) = take 4 MOTA_BL_MAGIC"
proof -
  assume "ram_at img off"
  then have "take 4 (take 16 (drop off img)) = take 4 g_mota_ram_info" by (simp add: ram_at_def)
  then show ?thesis by (simp add: g_mota_ram_info_def MOTA_RAM_INFO_MAGIC_def MOTA_BL_MAGIC_def min_def)
qed

lemma caps_step_counts:
  "caps_step b img off (n, sd, ram) =
     (case count_scan (\<lambda>x. b_rak_sd_store b \<and> sd_at img x) (sd_exact img) [off] sd of None \<Rightarrow> None | Some sd \<Rightarrow>
      case count_scan (\<lambda>x. b_ram_arena b \<and> ram_at img x) (ram_exact b img) [off] ram of None \<Rightarrow> None | Some ram \<Rightarrow>
      case count_scan (bl_at img) (bl_exact b img) [off] n of None \<Rightarrow> None | Some n \<Rightarrow> Some (n, sd, ram))"
proof -
  have l: "length MOTA_BL_MAGIC = 8" "length MOTA_RAK_SD_MAGIC = 8" "take 4 MOTA_RAK_SD_MAGIC = take 4 MOTA_BL_MAGIC"
    by (simp_all add: MOTA_BL_MAGIC_def MOTA_RAK_SD_MAGIC_def)
  note heads = take8_split [OF l(1)] take8_split [OF l(2), unfolded l(3)]
  show ?thesis
  proof (cases "b_rak_sd_store b \<and> take 4 (drop off img) \<noteq> take 4 MOTA_BL_MAGIC")
    case True
    then have "\<not> sd_at img off" "\<not> bl_at img off" "\<not> ram_at img off"
      using ram_at_magic [of img off] by (auto simp: sd_at_def bl_at_def heads)
    then show ?thesis using True by (simp add: caps_step_def Let_def)
  next
    case False
    have "bl_phase b (drop off img) n = count_scan (bl_at img) (bl_exact b img) [off] n"
      using False by (auto simp: bl_phase_def bl_at_def bl_exact_def heads)
    moreover have "rak_sd_phase b (drop off img) sd = count_scan (\<lambda>x. b_rak_sd_store b \<and> sd_at img x) (sd_exact img) [off] sd"
      using False by (auto simp: rak_sd_phase_def sd_at_def sd_exact_def heads rak_sd_marker_def)
    moreover have "ram_phase b (drop off img) off ram = count_scan (\<lambda>x. b_ram_arena b \<and> ram_at img x) (ram_exact b img) [off] ram"
      by (auto simp: ram_phase_def ram_at_def ram_exact_def)
    ultimately show ?thesis using False by (simp only: caps_step_def Let_def prod.case if_False)
  qed
qed

lemma caps_scan_counts:
  "caps_scan b img offs (n, sd, ram) = Some (n', sd', ram') \<longleftrightarrow>
     count_scan (bl_at img) (bl_exact b img) offs n = Some n' \<and>
     count_scan (\<lambda>x. b_rak_sd_store b \<and> sd_at img x) (sd_exact img) offs sd = Some sd' \<and>
     count_scan (\<lambda>x. b_ram_arena b \<and> ram_at img x) (ram_exact b img) offs ram = Some ram'"
proof (induction offs arbitrary: n sd ram)
  case (Cons off offs)
  show ?case unfolding caps_scan.simps caps_step_counts using Cons
    by (simp split: option.splits)
qed auto

lemma distinct_caps_offsets: "distinct caps_offsets"
  unfolding caps_offsets_def distinct_map by (simp add: inj_on_def)

text \<open>
  C34. The single pass over a candidate bootloader accepts it exactly when every kind of capability record this build demands
  occurs once at an aligned offset and that occurrence is exact: one privileged boot-update record with exactly this build's storage
  flags, one retained-arena record followed by this build's application capabilities, and in the combined RAK profile one SD record.
  A second record of a kind, or one that differs, is never hidden by the order or by a literal copy of the magic.
\<close>

theorem boot_caps_unique_records:
  "boot_image_caps_valid b img \<longleftrightarrow>
     (\<exists>x \<in> set caps_offsets. bl_at img x \<and> bl_exact b img x \<and> (\<forall>y \<in> set caps_offsets. bl_at img y \<longrightarrow> y = x)) \<and>
     (b_rak_sd_store b \<longrightarrow>
        (\<exists>x \<in> set caps_offsets. sd_at img x \<and> sd_exact img x \<and> (\<forall>y \<in> set caps_offsets. sd_at img y \<longrightarrow> y = x))) \<and>
     (b_ram_arena b \<longrightarrow>
        (\<exists>x \<in> set caps_offsets. ram_at img x \<and> ram_exact b img x \<and> (\<forall>y \<in> set caps_offsets. ram_at img y \<longrightarrow> y = x)))"
proof -
  let ?bl = "count_scan (bl_at img) (bl_exact b img) caps_offsets 0"
  let ?sd = "count_scan (\<lambda>x. b_rak_sd_store b \<and> sd_at img x) (sd_exact img) caps_offsets 0"
  let ?ram = "count_scan (\<lambda>x. b_ram_arena b \<and> ram_at img x) (ram_exact b img) caps_offsets 0"
  have off: "count_scan (\<lambda>x. False) ex xs 0 = Some 0" for ex xs by (induction xs) simp_all
  have "boot_image_caps_valid b img \<longleftrightarrow> (\<exists>sd ram. caps_scan b img caps_offsets (0, 0, 0) = Some (1, sd, ram) \<and>
      (b_rak_sd_store b \<longrightarrow> sd = 1) \<and> (b_ram_arena b \<longrightarrow> ram = 1))"
    by (auto simp: boot_image_caps_valid_def split: option.splits)
  also have "\<dots> \<longleftrightarrow> ?bl = Some 1 \<and> (\<exists>sd. ?sd = Some sd \<and> (b_rak_sd_store b \<longrightarrow> sd = 1)) \<and> (\<exists>ram. ?ram = Some ram \<and> (b_ram_arena b \<longrightarrow> ram = 1))"
    by (auto simp: caps_scan_counts)
  also have "(\<exists>sd. ?sd = Some sd \<and> (b_rak_sd_store b \<longrightarrow> sd = 1)) \<longleftrightarrow>
      (b_rak_sd_store b \<longrightarrow> count_scan (sd_at img) (sd_exact img) caps_offsets 0 = Some 1)"
    by (cases "b_rak_sd_store b") (auto simp: off)
  also have "(\<exists>ram. ?ram = Some ram \<and> (b_ram_arena b \<longrightarrow> ram = 1)) \<longleftrightarrow>
      (b_ram_arena b \<longrightarrow> count_scan (ram_at img) (ram_exact b img) caps_offsets 0 = Some 1)"
    by (cases "b_ram_arena b") (auto simp: off)
  finally show ?thesis unfolding count_scan_one [OF distinct_caps_offsets] .
qed

definition sample_caps_head :: bytes where
  "sample_caps_head = [0x4D, 0x4F, 0x54, 0x41, 0x42, 0x4C, 0x44, 0x52, 3, 0, 5, 0, 0x0A, 0, 0, 0,
     0x4D, 0x4F, 0x54, 0x41, 0x52, 0x41, 0x4D, 0x41, 1, 0, 72, 0, 0, 0, 1, 0]"

definition sample_caps :: bytes where
  "sample_caps = sample_caps_head @ replicate 40928 0"

lemma sample_caps_records: "sample_caps = g_mota_bl_info internal_build @ g_mota_ram_info @ replicate 40928 0"
  by (simp add: sample_caps_def sample_caps_head_def g_mota_bl_info_def g_mota_ram_info_def MOTA_BL_MAGIC_def MOTA_RAM_INFO_MAGIC_def
      MOTA_BL_APPLY_ABI_def b_bootloader_update_enabled_def internal_build_def MOTA_BOOT_UPDATE_STORAGE_FLAGS_def
      layout_simps wr_u16_def wr_u32_def MOTA_HYBRID_HANDOFF_LEN_def MOTA_HYBRID_ARENA_SIZE_def)

lemma sample_caps_offsets:
  assumes "x \<in> set caps_offsets"
  shows "x \<in> {0, 4, 8, 12, 16, 20, 24, 28} \<or> (\<exists>k. drop x sample_caps = replicate k 0)"
proof -
  obtain i where i: "x = 4 * i" using assms by (auto simp: caps_offsets_def)
  show ?thesis
  proof (cases "32 \<le> x")
    case True
    then have "drop x sample_caps = drop (x - 32) (replicate 40928 0)" by (simp add: sample_caps_def sample_caps_head_def [THEN arg_cong, of length])
    then show ?thesis by auto
  next
    case False
    then have "i \<in> {0, 1, 2, 3, 4, 5, 6, 7}" using i by auto
    then show ?thesis using i by auto
  qed
qed

lemma sample_caps_unique:
  assumes "x \<in> set caps_offsets"
  shows "bl_at sample_caps x \<Longrightarrow> x = 0" "ram_at sample_caps x \<Longrightarrow> x = 16"
proof -
  have z: "replicate n (0 :: u8) \<noteq> 0x4D # ys" for n ys
    by (cases n) simp_all
  show "bl_at sample_caps x \<Longrightarrow> x = 0"
    using sample_caps_offsets [OF assms] by (auto simp: bl_at_def MOTA_BL_MAGIC_def z) (auto simp: sample_caps_def sample_caps_head_def)
  show "ram_at sample_caps x \<Longrightarrow> x = 16"
    using sample_caps_offsets [OF assms]
    by (auto simp: ram_at_def g_mota_ram_info_def MOTA_RAM_INFO_MAGIC_def z) (auto simp: sample_caps_def sample_caps_head_def)
qed

theorem boot_caps_unique_records_witness:
  "boot_image_caps_valid internal_build (g_mota_bl_info internal_build @ g_mota_ram_info @ replicate 40928 0)"
proof -
  have b: "bl_at sample_caps 0" "bl_exact internal_build sample_caps 0"
    by (simp_all add: bl_at_def bl_exact_def bl_marker_def sample_caps_def sample_caps_head_def MOTA_BL_MAGIC_def Let_def rd_u16_def
        MOTA_BOOT_UPDATE_CODEC_MASK_def layout_simps MOTA_BOOT_UPDATE_STORAGE_FLAGS_def internal_build_def)
  have r: "ram_at sample_caps 16" "ram_exact internal_build sample_caps 16"
    by (simp_all add: ram_at_def ram_exact_def has_app_capabilities_def internal_build_def sample_caps_def sample_caps_head_def g_mota_ram_info_def
        MOTA_RAM_INFO_MAGIC_def wr_u16_def wr_u32_def MOTA_HYBRID_HANDOFF_LEN_def MOTA_HYBRID_ARENA_SIZE_def)
  have o: "0 \<in> set caps_offsets" "16 \<in> set caps_offsets"
    by (auto simp: caps_offsets_def layout_simps image_iff intro: bexI [of _ 4])
  have "\<not> b_rak_sd_store internal_build" by (simp add: internal_build_def)
  then show ?thesis unfolding sample_caps_records [symmetric]
    using boot_caps_unique_records [of internal_build sample_caps] b r o sample_caps_unique by blast
qed

end
