(* ===== verification/Mota_Apply.thy ===== *)
theory Mota_Apply
  imports Boot_Caps Mota_Sources Boot_Control
begin

text \<open>
  The applier itself (\<open>src/src/ota_delta.c\<close>): the settings commit, the four callbacks the patch decoder runs on, approval and
  cleanup, the external full install, the bootloader update and the entry point \<open>ota_delta_check_and_apply\<close>.

  The in-place decoder is a parameter \<open>dt\<close>: a tree of callback requests with their continuations, which is all a decoder can do
  to the device.  Results about the applier hold for every such tree, in particular for the vendored detools decoder.
\<close>

section \<open>Settings commit\<close>

definition commit_record :: "u16 \<Rightarrow> u16 \<Rightarrow> u32 \<Rightarrow> bootloader_settings" where
  "commit_record bank0 crc sz =
     bootloader_settings_seal (settings_zero\<lparr>bs_bank_0 := bank0, bs_bank_0_crc := crc, bs_bank_0_size := sz,
       bs_bank_1 := BANK_INVALID_APP\<rparr>)"

definition otah_settings_commit ::
    "'d mota_dev \<Rightarrow> build \<Rightarrow> u16 \<Rightarrow> u16 \<Rightarrow> u32 \<Rightarrow> 'd mota_st \<Rightarrow> 'd mota_st" where
  "otah_settings_commit D b bank0 crc sz s =
     (let ws = words_of_bytes (settings_bytes (commit_record bank0 crc sz));
          addr = BOOTLOADER_SETTINGS_ADDRESS (b_chip b);
          d = dv_erase D (st_dev s) addr;
          d = dv_write D d (addr + 8) (drop 2 ws);
          d = dv_write D d (addr + 4) [ws ! 1];
          d = dv_write D d addr [ws ! 0]
      in s\<lparr>st_dev := d\<rparr>)"

section \<open>Decoder callbacks\<close>

record apply_ctx =
  patch_addr :: u32
  patch_len :: u32
  patch_pos :: u32
  ws_lo :: u32
  ws_hi :: u32

definition dt_ws_addr :: "apply_ctx \<Rightarrow> u32 \<Rightarrow> nat \<Rightarrow> u32 option" where
  "dt_ws_addr c off n =
     (let span = ws_hi c - ws_lo c
      in if n > 0xFFFFFFFF then None
         else let z = of_nat n in if off > span \<or> z > span - off then None else Some (ws_lo c + off))"

definition dt_mr :: "'d mota_dev \<Rightarrow> apply_ctx \<Rightarrow> u32 \<Rightarrow> nat \<Rightarrow> 'd mota_st \<Rightarrow> bytes option" where
  "dt_mr D c src n s = (case dt_ws_addr c src n of None \<Rightarrow> None | Some addr \<Rightarrow> Some (cread D addr n s))"

definition dt_mw :: "'d mota_dev \<Rightarrow> apply_ctx \<Rightarrow> u32 \<Rightarrow> bytes \<Rightarrow> 'd mota_st \<Rightarrow> bool \<times> 'd mota_st" where
  "dt_mw D c dst src s = (case dt_ws_addr c dst (length src) of None \<Rightarrow> (False, s) | Some addr \<Rightarrow> cwrite D addr src s)"

definition dt_me :: "'d mota_dev \<Rightarrow> apply_ctx \<Rightarrow> u32 \<Rightarrow> nat \<Rightarrow> 'd mota_st \<Rightarrow> bool \<times> 'd mota_st" where
  "dt_me D c addr0 n s = (case dt_ws_addr c addr0 n of None \<Rightarrow> (False, s) | Some addr \<Rightarrow> cerase D addr n s)"

definition dt_pr ::
    "'d mota_dev \<Rightarrow> build \<Rightarrow> apply_ctx \<Rightarrow> nat \<Rightarrow> 'd mota_st \<Rightarrow> bytes option \<times> apply_ctx \<times> 'd mota_st" where
  "dt_pr D b c n s =
     (if n > 0xFFFFFFFF \<or> patch_pos c > patch_len c \<or> of_nat n > patch_len c - patch_pos c then (None, c, s)
      else let (r, s) = staged_read D b (patch_addr c + patch_pos c) (of_nat n) s
           in case r of None \<Rightarrow> (None, c, s)
                | Some bs \<Rightarrow> (Some bs, c\<lparr>patch_pos := patch_pos c + of_nat n\<rparr>, s))"

datatype dt_prog =
    Dt_Done int
  | Mem_Read u32 nat "bytes option \<Rightarrow> dt_prog"
  | Mem_Write u32 bytes "bool \<Rightarrow> dt_prog"
  | Mem_Erase u32 nat "bool \<Rightarrow> dt_prog"
  | Patch_Read nat "bytes option \<Rightarrow> dt_prog"

primrec run_dt ::
    "'d mota_dev \<Rightarrow> build \<Rightarrow> dt_prog \<Rightarrow> apply_ctx \<Rightarrow> 'd mota_st \<Rightarrow> int \<times> apply_ctx \<times> 'd mota_st" where
  "run_dt D b (Dt_Done r) = (\<lambda>c s. (r, c, s))"
| "run_dt D b (Mem_Read src n k) = (\<lambda>c s. run_dt D b (k (dt_mr D c src n s)) c s)"
| "run_dt D b (Mem_Write dst bs k) = (\<lambda>c s. let (ok, s) = dt_mw D c dst bs s in run_dt D b (k ok) c s)"
| "run_dt D b (Mem_Erase a n k) = (\<lambda>c s. let (ok, s) = dt_me D c a n s in run_dt D b (k ok) c s)"
| "run_dt D b (Patch_Read n k) = (\<lambda>c s. let (r, c, s) = dt_pr D b c n s in run_dt D b (k r) c s)"

section \<open>Approval, cleanup and authorised containers\<close>

definition APP_APPLY_END :: "build \<Rightarrow> u32" where
  "APP_APPLY_END b = (if b_qspi_xiao_identity b then MOTA_NRF52_BL_SCRATCH_START else MOTA_NRF52_APP_END)"

abbreviation result2 :: "u32 \<Rightarrow> 'd mota_st \<Rightarrow> 'd mota_st" where
  "result2 v s \<equiv> s\<lparr>st_gpregret2 := v\<rparr>"

definition clear_approval :: "'d mota_dev \<Rightarrow> build \<Rightarrow> mota_min \<Rightarrow> 'd mota_st \<Rightarrow> bool \<times> 'd mota_st" where
  "clear_approval D b m s =
     (if sd_source b s then (True, s)
      else if b_qspi_flash b \<and> g_qspi_source s
      then let (ok, d) = dv_qspi_write D (st_dev s) (mm_approval_addr m) [0, 0, 0, 0] in (ok, s\<lparr>st_dev := d\<rparr>)
      else let (ok, s) = cwrite D (mm_approval_addr m) [0, 0, 0, 0] s
           in if ok then cache_flush D s else (False, s))"

definition finish_apply :: "'d mota_dev \<Rightarrow> build \<Rightarrow> bool \<Rightarrow> 'd mota_st \<Rightarrow> bool \<times> 'd mota_st" where
  "finish_apply D b result s =
     (let s = (if b_sd_card b \<and> (if b_rak_sd_store b then g_sd_active s else sd_source b s)
               then let s = s\<lparr>st_dev := dv_sd_deinit D (st_dev s)\<rparr>
                    in if b_rak_sd_store b then s\<lparr>g_sd_active := False\<rparr> else s
               else s);
          s = (if b_qspi_flash b \<and> g_qspi_source s then s\<lparr>st_dev := dv_qspi_deinit D (st_dev s)\<rparr> else s)
      in (result, s))"

definition fail_apply :: "'d mota_dev \<Rightarrow> build \<Rightarrow> u32 \<Rightarrow> 'd mota_st \<Rightarrow> bool \<times> 'd mota_st" where
  "fail_apply D b result s = finish_apply D b False (result2 result s)"

definition sd_authorized_container_valid :: "'d mota_dev \<Rightarrow> build \<Rightarrow> 'd mota_st \<Rightarrow> bool \<times> 'd mota_st" where
  "sd_authorized_container_valid D b s =
     region_hash_valid D b 0 (sa_container_total (g_sd_auth s)) (sa_container_sha256 (g_sd_auth s)) True APPROVAL_OFFSET s"

definition hybrid_authorized_container_valid :: "'d mota_dev \<Rightarrow> build \<Rightarrow> 'd mota_st \<Rightarrow> bool \<times> 'd mota_st" where
  "hybrid_authorized_container_valid D b s =
     (let h = g_hybrid s
      in if hh_container_total h \<ge> HEADER_LEN + 5
         then region_hash_valid D b (hh_flash_start h) (hh_container_total h) (hh_container_sha256 h) True
                (hh_flash_start h + APPROVAL_OFFSET) s
         else (False, s))"

section \<open>Full images\<close>

text \<open>
  The copy loop by page index; its offset is \<open>k * PAGE\<close>.  A failed read leaves the page buffer filled
  with \<open>0xFF\<close>; what a driver may have left in it is never used, because the cache holds no page then.
\<close>

fun copy_pages ::
    "'d mota_dev \<Rightarrow> build \<Rightarrow> mota_min \<Rightarrow> u32 \<Rightarrow> u32 list \<Rightarrow> 'd mota_st \<Rightarrow> u32 \<times> 'd mota_st" where
  "copy_pages D b m destination [] s = (0, s)"
| "copy_pages D b m destination (off # offs) s =
     (let n = (if mm_image_size m - off > PAGE then PAGE else mm_image_size m - off);
          s = s\<lparr>g_cache := replicate 4096 0xFF\<rparr>;
          (r, s) = staged_read D b (mm_payload_addr m + off) n s
      in case r of None \<Rightarrow> (0xBB, s)
         | Some bs \<Rightarrow>
             let s = s\<lparr>g_cache := bs @ replicate (4096 - unat n) 0xFF\<rparr>;
                 (ok, s) = flash_page_write_verified D (destination + off) (words_of_bytes (g_cache s)) s
             in if \<not> ok then (0xBF, s) else copy_pages D b m destination offs s)"

definition page_offsets :: "u32 \<Rightarrow> u32 list" where
  "page_offsets sz = map (\<lambda>k. of_nat k * PAGE) [0..<(unat sz + 4095) div 4096]"

definition copy_staged_full_image ::
    "'d mota_dev \<Rightarrow> build \<Rightarrow> mota_min \<Rightarrow> u32 \<Rightarrow> 'd mota_st \<Rightarrow> u32 \<times> 'd mota_st" where
  "copy_staged_full_image D b m destination s = copy_pages D b m destination (page_offsets (mm_image_size m)) s"

definition full_image_hash_valid ::
    "'d mota_dev \<Rightarrow> build \<Rightarrow> mota_min \<Rightarrow> u32 \<Rightarrow> bool \<Rightarrow> 'd mota_st \<Rightarrow> bool \<times> 'd mota_st" where
  "full_image_hash_valid D b m address staged s =
     region_hash_valid D b address (mm_image_size m) (mm_image_hash m) staged UINT32_MAX s"

definition finish_app_update :: "'d mota_dev \<Rightarrow> build \<Rightarrow> mota_min \<Rightarrow> 'd mota_st \<Rightarrow> bool \<times> 'd mota_st" where
  "finish_app_update D b m s =
     (let (ok, s) = full_image_hash_valid D b m (app_base D s) False s
      in if \<not> ok then (False, result2 0xB7 s)
         else let image_crc = crc16_compute (fl_read D s (app_base D s) (unat (mm_image_size m))) None;
                  s = otah_settings_commit D b BANK_VALID_APP image_crc (mm_image_size m) s
              in (True, result2 0xB8 s))"

definition apply_full_external :: "'d mota_dev \<Rightarrow> build \<Rightarrow> mota_min \<Rightarrow> 'd mota_st \<Rightarrow> bool \<times> 'd mota_st" where
  "apply_full_external D b m s =
     (if \<not> mm_is_full m \<or> mm_codec_id m \<noteq> CODEC_FULL \<or> mm_image_size m = 0 \<or> mm_payload_size m \<noteq> mm_image_size m \<or>
         mm_image_size m > APP_APPLY_END b - app_base D s then (False, result2 0xB3 s)
      else let (ok, s) = full_image_hash_valid D b m (mm_payload_addr m) True s
      in if \<not> ok then (False, result2 0xBA s)
      else let (ok, s) = clear_approval D b m s
      in if \<not> ok then (False, result2 0xBC s)
      else let s = otah_settings_commit D b BANK_INVALID_APP 0 0 s;
               s = s\<lparr>g_cache_page := 0, g_cache_dirty := False\<rparr>;
               (result, s) = copy_staged_full_image D b m (app_base D s) s
      in if result \<noteq> 0 then (False, result2 result s)
         else finish_app_update D b m s)"

section \<open>Bootloader update\<close>

definition mbr_copy_bootloader :: "'d mota_dev \<Rightarrow> u32 \<Rightarrow> 'd mota_st \<Rightarrow> bool \<times> 'd mota_st" where
  "mbr_copy_bootloader D raw_start s = (let (ok, d) = dv_mbr_copy D (st_dev s) raw_start in (ok, s\<lparr>st_dev := d\<rparr>))"

definition boot_update_reject :: "'d mota_dev \<Rightarrow> build \<Rightarrow> mota_min \<Rightarrow> u32 \<Rightarrow> 'd mota_st \<Rightarrow> bool \<times> 'd mota_st" where
  "boot_update_reject D b m result s =
     (let s = result2 result s;
          s = (if mm_approved m
               then let (ok, s) = clear_approval D b m s in if ok then s else result2 GPREGRET2_BL_APPROVAL s
               else s)
      in finish_apply D b False s)"

definition scan_bootloader_mota ::
    "'d mota_dev \<Rightarrow> build \<Rightarrow> u32 \<Rightarrow> 'd mota_st \<Rightarrow> (u32 \<times> mota_min) option \<times> 'd mota_st" where
  "scan_bootloader_mota D b source s =
     (if b_sd_bootloader_update b \<and> sd_source b s then scan_mota D b (APP_APPLY_END b) s
      else if b_qspi_bootloader_update b
      then (if source \<noteq> GPREGRET2_OTA_STAGE_QSPI then (None, s)
            else scan_mota D b (APP_APPLY_END b) (s\<lparr>g_qspi_source := True\<rparr>))
      else if b_internal_bootloader_update b
      then (if source \<noteq> GPREGRET2_OTA_STAGE_EXPANDED then (None, s)
            else let (r, s) = scan_mota D b MOTA_NRF52_INTERNAL_BL_SLOT_END s
                 in case r of
                      Some (address, m) \<Rightarrow>
                        (if address = MOTA_NRF52_INTERNAL_BL_SLOT_START then Some (address, m) else None, s)
                    | None \<Rightarrow> (None, s))
      else (None, s))"

text \<open>The three stages of a bootloader update: selection, validation of the staged package, copy and handoff.\<close>

definition boot_update_install ::
    "'d mota_dev \<Rightarrow> build \<Rightarrow> bootloader_update_extension \<Rightarrow> mota_min \<Rightarrow> u32 \<Rightarrow> 'd mota_st \<Rightarrow> bool \<times> 'd mota_st" where
  "boot_update_install D b inst m raw_start s =
     (let (ok, s) = clear_approval D b m s
      in if \<not> ok then fail_apply D b GPREGRET2_BL_APPROVAL s
      else let (result, s) = copy_staged_full_image D b m raw_start s
      in if result \<noteq> 0 then fail_apply D b GPREGRET2_BL_COPY s
      else let (ok, s) = full_image_hash_valid D b m raw_start False s
      in if \<not> ok then fail_apply D b GPREGRET2_BL_COPY s
      else if \<not> boot_image_metadata_valid_at D b inst raw_start m s then fail_apply D b GPREGRET2_BL_MANIFEST s
      else let s = (if b_sd_bootloader_update b
                    then (if sd_source b s
                          then let s = s\<lparr>st_dev := dv_sd_deinit D (st_dev s)\<rparr>
                               in if b_rak_sd_store b then s\<lparr>g_sd_active := False\<rparr> else s
                          else s)
                    else if b_qspi_bootloader_update b
                    then s\<lparr>st_dev := dv_qspi_deinit D (st_dev s), g_qspi_source := False\<rparr>
                    else s);
               s = result2 GPREGRET2_BL_MBR_HANDOFF s;
               (ok, s) = mbr_copy_bootloader D raw_start s
      in if ok then (True, s) else (False, result2 GPREGRET2_BL_MBR_RETURNED s))"

definition boot_update_validate ::
    "'d mota_dev \<Rightarrow> build \<Rightarrow> bootloader_update_extension \<Rightarrow> mota_min \<Rightarrow> 'd mota_st \<Rightarrow> bool \<times> 'd mota_st" where
  "boot_update_validate D b inst m s =
     (if \<not> boot_update_policy_valid b m then boot_update_reject D b m GPREGRET2_BL_POLICY s
      else let (ok, s) = staged_vectors_valid D b (mm_payload_addr m) s
      in if \<not> ok then boot_update_reject D b m GPREGRET2_BL_INTEGRITY s
      else let (ok, s) = full_image_hash_valid D b m (mm_payload_addr m) True s
      in if \<not> ok then boot_update_reject D b m GPREGRET2_BL_INTEGRITY s
      else let raw_start = BOOT_UPDATE_RAW_START b s
      in if \<not> ota_delta_live_app_fits_below D b raw_start s then boot_update_reject D b m GPREGRET2_BL_POLICY s
      else if b_internal_bootloader_update b \<and>
              (b_sd_dual_store b \<or> b_rak_sd_store b \<and> b_sd_bootloader_update b \<longrightarrow> \<not> g_sd_source s) \<and>
              \<not> boot_image_metadata_valid_at D b inst (mm_payload_addr m) m s
      then boot_update_reject D b m GPREGRET2_BL_MANIFEST s
      else if b_sd_bootloader_update b \<and> sd_source b s \<and> \<not> sd_boot_authorization_valid D m s
      then boot_update_reject D b m GPREGRET2_BL_APPROVAL s
      else boot_update_install D b inst m raw_start s)"

definition apply_bootloader_update ::
    "'d mota_dev \<Rightarrow> build \<Rightarrow> bootloader_update_extension \<Rightarrow> 'd mota_st \<Rightarrow> bool \<times> 'd mota_st" where
  "apply_bootloader_update D b inst s =
     (let source = st_gpregret2 s;
          s = s\<lparr>st_gpregret := 0, st_gpregret2 := GPREGRET2_BL_GATE\<rparr>;
          s = (if b_sd_bootloader_update b \<and> (b_sd_dual_store b \<or> b_rak_sd_store b)
               then s\<lparr>g_sd_source := (source = GPREGRET2_OTA_STAGE_SD)\<rparr> else s);
          taken = b_sd_bootloader_update b \<and> sd_source b s;
          (sd_authorized, s) = (if taken then sd_auth_take MOTA_SD_AUTH_PURPOSE_BOOTLOADER 3 s else (True, s))
      in if taken \<and> source \<noteq> GPREGRET2_OTA_STAGE_SD then fail_apply D b GPREGRET2_BL_CONTAINER s
      else if \<not> sd_authorized then fail_apply D b GPREGRET2_BL_APPROVAL s
      else let (r, s) = scan_bootloader_mota D b source s
      in case r of
           None \<Rightarrow> fail_apply D b GPREGRET2_BL_CONTAINER s
         | Some (_, m) \<Rightarrow>
             if \<not> mm_approved m then fail_apply D b GPREGRET2_BL_CONTAINER s
             else let (ok, s) = (if taken then sd_authorized_container_valid D b s else (True, s))
             in if \<not> ok then boot_update_reject D b m GPREGRET2_BL_APPROVAL s
                else boot_update_validate D b inst m s)"

section \<open>Application update\<close>

definition stage_ceiling_of :: "build \<Rightarrow> u32 \<Rightarrow> u32" where
  "stage_ceiling_of b stage_handoff =
     (let c = (if stage_handoff = GPREGRET2_OTA_STAGE_EXPANDED \<or>
                  b_ram_arena b \<and> stage_handoff = GPREGRET2_OTA_STAGE_HYBRID
               then MOTA_NRF52_STAGE_CEILING_EXPANDED else MOTA_NRF52_STAGE_CEILING_LEGACY)
      in if b_qspi_bootloader_update b \<and> c > APP_APPLY_END b then APP_APPLY_END b else c)"

definition app_limit_of :: "build \<Rightarrow> u32 \<Rightarrow> 'd mota_st \<Rightarrow> u32" where
  "app_limit_of b stage_ceiling s =
     (if b_rak_sd_store b then (if external_staged_source b s then APP_APPLY_END b else stage_ceiling)
      else if b_sd_card b then APP_APPLY_END b
      else if b_qspi_flash b then (if g_qspi_source s then APP_APPLY_END b else stage_ceiling)
      else if b_internal_bootloader_update b then APP_APPLY_END b
      else stage_ceiling)"

definition workspace_end :: "'d mota_dev \<Rightarrow> build \<Rightarrow> u32 \<Rightarrow> u32 \<Rightarrow> 'd mota_st \<Rightarrow> u32" where
  "workspace_end D b mota_addr app_limit s =
     (if b_sd_card b \<or> b_qspi_flash b
      then app_base D s + ((if external_staged_source b s then app_limit else mota_addr) - app_base D s)
      else if b_internal_bootloader_update b then (if mota_addr < app_limit then mota_addr else app_limit)
      else mota_addr)"

definition reject_apply :: "'d mota_dev \<Rightarrow> build \<Rightarrow> mota_min \<Rightarrow> u32 \<Rightarrow> 'd mota_st \<Rightarrow> bool \<times> 'd mota_st" where
  "reject_apply D b m code s =
     (let (ok, s) = clear_approval D b m (result2 code s)
      in finish_apply D b False (if ok then s else result2 0xBC s))"

text \<open>From the commit point on: the running application is invalidated, then rewritten.\<close>

definition apply_delta ::
    "'d mota_dev \<Rightarrow> build \<Rightarrow> (u32 \<Rightarrow> dt_prog) \<Rightarrow> mota_min \<Rightarrow> u32 \<Rightarrow> 'd mota_st \<Rightarrow> bool \<times> 'd mota_st" where
  "apply_delta D b dt m ws_end s =
     (let s = otah_settings_commit D b BANK_INVALID_APP 0 0 s;
          c = \<lparr>patch_addr = mm_payload_addr m, patch_len = mm_payload_size m, patch_pos = 0,
               ws_lo = app_base D s, ws_hi = ws_end\<rparr>;
          (r, c, s) = run_dt D b (dt (mm_payload_size m)) c s
      in if r < 0 then fail_apply D b (0x90 OR (of_int (- r) AND 0x0F)) s
      else let (ok, s) = cache_flush D s
      in if \<not> ok then fail_apply D b 0xBF s
      else if patch_pos c \<noteq> patch_len c then fail_apply D b 0x99 s
      else if of_int r \<noteq> mm_image_size m then fail_apply D b 0xB6 s
      else let (ok, s) = finish_app_update D b m s in finish_apply D b ok s)"

definition apply_app_container ::
    "'d mota_dev \<Rightarrow> build \<Rightarrow> (u32 \<Rightarrow> dt_prog) \<Rightarrow> u32 \<Rightarrow> mota_min \<Rightarrow> u32 \<Rightarrow> 'd mota_st \<Rightarrow> bool \<times> 'd mota_st" where
  "apply_app_container D b dt mota_addr m app_limit s =
     (if mm_format_ver m \<noteq> 2 \<or> mm_flags m AND NOT (MFLAG_FULL OR MFLAG_SIGNED) \<noteq> 0 then reject_apply D b m 0xB3 s
      else let (ok, s) = (if sd_source b s then sd_authorized_container_valid D b s else (True, s))
      in if \<not> ok then reject_apply D b m 0xBD s
      else if external_staged_source b s \<and> mm_is_full m
      then (let (ok, s) = apply_full_external D b m s in finish_apply D b ok s)
      else if mm_is_full m \<or> mm_codec_id m \<noteq> CODEC_INPLACE \<or> mm_image_size m = 0 \<or>
              mm_image_size m > app_limit - app_base D s then reject_apply D b m 0xB3 s
      else case find_body_len D app_limit s of
             None \<Rightarrow> reject_apply D b m 0xB4 s
           | Some body_len \<Rightarrow>
               if take 8 (sha256_region D b (app_base D s) body_len s) \<noteq> mm_base_hash m then reject_apply D b m 0xB5 s
               else let ws_end = workspace_end D b mota_addr app_limit s;
                        (ok, s) = dt_geometry_ok D b m body_len (ws_end - app_base D s) s
                    in if \<not> ok then reject_apply D b m 0xB9 s
                    else let (ok, s) = clear_approval D b m s
                    in if \<not> ok then fail_apply D b 0xBC s
                       else apply_delta D b dt m ws_end s)"

definition select_source :: "'d mota_dev \<Rightarrow> build \<Rightarrow> u32 \<Rightarrow> 'd mota_st \<Rightarrow> 'd mota_st" where
  "select_source D b stage_handoff s =
     (if b_qspi_flash b
      then let q = (stage_handoff = GPREGRET2_OTA_STAGE_QSPI \<or>
                    b_rak_auto_rak4631 b \<and> stage_handoff = GPREGRET2_OTA_STAGE_RAK15001 \<or>
                    b_rak_auto_store b \<and> stage_handoff = GPREGRET2_OTA_STAGE_HEADER_W25);
               s = s\<lparr>g_qspi_source := q\<rparr>
           in if b_rak_auto_store b \<and> q then s\<lparr>st_dev := dv_qspi_set_source D (st_dev s) stage_handoff\<rparr> else s
      else s)"

definition apply_app_update :: "'d mota_dev \<Rightarrow> build \<Rightarrow> (u32 \<Rightarrow> dt_prog) \<Rightarrow> 'd mota_st \<Rightarrow> bool \<times> 'd mota_st" where
  "apply_app_update D b dt s =
     (let stage_handoff = st_gpregret2 s;
          s = s\<lparr>st_gpregret := 0, st_gpregret2 := 0xB1\<rparr>;
          s = (if b_sd_dual_store b \<or> b_rak_sd_store b
               then s\<lparr>g_sd_source := (stage_handoff = GPREGRET2_OTA_STAGE_SD)\<rparr> else s);
          (ok, s) = (if b_ram_arena b \<and> stage_handoff = GPREGRET2_OTA_STAGE_HYBRID
                     then hybrid_handoff_take D s else (True, s))
      in if \<not> ok then fail_apply D b 0xBE s
      else let s = select_source D b stage_handoff s;
               stage_ceiling = stage_ceiling_of b stage_handoff;
               app_limit = app_limit_of b stage_ceiling s;
               (ok, s) = (if sd_source b s then sd_auth_take MOTA_SD_AUTH_PURPOSE_APP 2 s else (True, s))
      in if \<not> ok then fail_apply D b 0xBD s
      else let (ok, s) = (if hybrid_active b s then hybrid_authorized_container_valid D b s else (True, s))
      in if \<not> ok then fail_apply D b 0xBA s
      else let (r, s) = scan_mota D b stage_ceiling s
      in case r of
           None \<Rightarrow> fail_apply D b 0xB2 s
         | Some (mota_addr, m) \<Rightarrow>
             if \<not> mm_approved m then fail_apply D b 0xB2 s
             else apply_app_container D b dt mota_addr m app_limit s)"

definition ota_delta_check_and_apply ::
    "'d mota_dev \<Rightarrow> build \<Rightarrow> bootloader_update_extension \<Rightarrow> (u32 \<Rightarrow> dt_prog) \<Rightarrow> 'd mota_st \<Rightarrow> bool \<times> 'd mota_st" where
  "ota_delta_check_and_apply D b inst dt s =
     (let s = (if b_rak_sd_store b
               then s\<lparr>g_sd_source := False, g_sd_active := False, g_sd_auth_loaded := False, g_qspi_source := False,
                      g_qspi_total_size := 0, g_hybrid := g_hybrid s\<lparr>hh_container_total := 0\<rparr>\<rparr>
               else s);
          trigger = st_gpregret s
      in if b_bootloader_update_enabled b \<and> trigger = GPREGRET_BOOTLOADER_APPLY then apply_bootloader_update D b inst s
         else if trigger \<noteq> GPREGRET_OTA_APPLY then finish_apply D b False s
         else apply_app_update D b dt s)"

end
