(* ===== verification/Mota_Safety.thy ===== *)
theory Mota_Safety
  imports Mota_Apply
begin

text \<open>
  What the applier guarantees, for every device that keeps an operation inside its page, every build and every decoder: an
  application update writes only the application region and the settings page; it consumes its trigger; and when it reports success
  the installed image has the hash of an approved container.
\<close>

section \<open>Steps that only use the page cache\<close>

definition cache_step :: "'d mota_st \<Rightarrow> 'd mota_st \<Rightarrow> bool" where
  "cache_step s s' \<longleftrightarrow> st_ram s' = st_ram s \<and> st_gpregret s' = st_gpregret s \<and> st_gpregret2 s' = st_gpregret2 s \<and>
     st_resetreas s' = st_resetreas s \<and> g_hybrid s' = g_hybrid s \<and> g_sd_auth s' = g_sd_auth s \<and>
     g_sd_auth_loaded s' = g_sd_auth_loaded s \<and> g_sd_source s' = g_sd_source s \<and> g_sd_active s' = g_sd_active s \<and>
     g_qspi_source s' = g_qspi_source s \<and> g_qspi_total_size s' = g_qspi_total_size s"

lemma cache_step_refl [simp, intro]: "cache_step s s"
  by (simp add: cache_step_def)

lemma cache_step_upd [simp]:
  "cache_step s (s'\<lparr>st_dev := d\<rparr>) = cache_step s s'" "cache_step s (s'\<lparr>g_cache := c\<rparr>) = cache_step s s'"
  "cache_step s (s'\<lparr>g_cache_page := p\<rparr>) = cache_step s s'" "cache_step s (s'\<lparr>g_cache_dirty := q\<rparr>) = cache_step s s'"
  by (simp_all add: cache_step_def)

lemma cache_step_trans [trans]: "cache_step s s1 \<Longrightarrow> cache_step s1 s2 \<Longrightarrow> cache_step s s2"
  by (simp add: cache_step_def)

lemma cache_step_keeps:
  assumes "cache_step s s'"
  shows "st_ram s' = st_ram s" "st_gpregret s' = st_gpregret s" "st_gpregret2 s' = st_gpregret2 s" "g_hybrid s' = g_hybrid s"
    "g_sd_auth s' = g_sd_auth s" "g_sd_source s' = g_sd_source s" "g_qspi_source s' = g_qspi_source s"
    "g_sd_active s' = g_sd_active s" "g_qspi_total_size s' = g_qspi_total_size s"
    "sd_source b s' = sd_source b s" "external_staged_source b s' = external_staged_source b s" "hybrid_active b s' = hybrid_active b s"
  using assms by (auto simp: cache_step_def sd_source_def external_staged_source_def hybrid_active_def)

lemma page_change_step: "flash_page_change_verified D page ws s = (ok, s') \<Longrightarrow> cache_step s s'"
  by (auto simp: flash_page_change_verified_def split: prod.splits)

lemma page_write_step: "flash_page_write_verified D page ws s = (ok, s') \<Longrightarrow> cache_step s s'"
  unfolding flash_page_write_verified_def by (rule page_change_step)

lemma flush_step: "cache_flush D s = (ok, s') \<Longrightarrow> cache_step s s'"
  by (auto simp: cache_flush_def Let_def split: if_splits prod.splits dest: page_write_step)

lemma use_step: "cache_use D page s = (ok, s') \<Longrightarrow> cache_step s s'"
  by (auto simp: cache_use_def Let_def split: if_splits prod.splits dest: flush_step)

lemma cwrite_cache_step: "cwrite D addr src s = (ok, s') \<Longrightarrow> cache_step s s'"
proof (induction D addr src s rule: cwrite.induct)
  case (1 D addr src s)
  show ?case
  proof (cases "src = []")
    case True
    then show ?thesis using 1(2) by (simp add: cwrite.simps)
  next
    case False
    obtain okp s1 where u: "cache_use D (page_of addr) s = (okp, s1)" by fastforce
    show ?thesis
    proof (cases okp)
      case True
      note IH = 1(1) [OF False refl refl refl u [symmetric] refl, unfolded True]
      have c: "cache_step s (s1\<lparr>g_cache := x, g_cache_dirty := True\<rparr>)" for x using use_step [OF u] by simp
      from 1(2) False u True show ?thesis
        by (subst (asm) cwrite.simps) (auto simp: Let_def split del: if_split intro: cache_step_trans [OF c IH])
    next
      case False
      then show ?thesis using 1(2) \<open>src \<noteq> []\<close> u use_step [OF u] by (subst (asm) cwrite.simps) (auto simp: Let_def)
    qed
  qed
qed

lemma cerase_cache_step: "cerase D addr n s = (ok, s') \<Longrightarrow> cache_step s s'"
proof (induction n arbitrary: addr s rule: less_induct)
  case (less n)
  show ?case
  proof (cases "n = 0")
    case True
    then show ?thesis using less.prems by (simp add: cerase.simps)
  next
    case False
    define off where "off = unat (addr - page_of addr)"
    define step where "step = (if 4096 - off > n then n else 4096 - off)"
    have "off < 4096" by (simp add: off_def page_off(2))
    then have lt: "n - step < n" using False by (simp add: step_def)
    obtain okp s1 where u: "(if g_cache_page s = page_of addr then (True, s\<lparr>g_cache := replicate 4096 0xFF, g_cache_dirty := True\<rparr>)
        else flash_page_erase_verified D (page_of addr) s) = (okp, s1)" by fastforce
    then have 1: "cache_step s s1"
      by (auto simp: flash_page_erase_verified_def split: if_splits dest: page_change_step)
    have "if okp then cerase D (addr + of_nat step) (n - step) s1 = (ok, s') else s' = s1"
      using less.prems False u by (subst (asm) cerase.simps) (simp add: Let_def step_def off_def split: if_splits)
    then show ?thesis using 1 less.IH [OF lt] by (auto split: if_splits intro: cache_step_trans)
  qed
qed

section \<open>Writes stay in the application region and the settings page\<close>

text \<open>A SoftDevice is installed and the application region is page-aligned and starts below the staging ceilings.\<close>

definition app_window :: "'d mota_dev \<Rightarrow> 'd mota_st \<Rightarrow> bool" where
  "app_window D s \<longleftrightarrow> 4096 dvd unat (app_base D s) \<and> 0x4000 \<le> unat (app_base D s) \<and> unat (app_base D s) \<le> 0xD4000"

text \<open>
  Seen from the start state \<open>s0\<close>: outside the application region and the settings page flash is as it was, and so
  will it be after the page cache is written back.
\<close>

definition app_frame :: "'d mota_dev \<Rightarrow> 'd mota_st \<Rightarrow> 'd mota_st \<Rightarrow> bool" where
  "app_frame D s0 s \<longleftrightarrow>
     (\<exists>m. confined D (app_base D s0) 0xED000 m s \<and> (\<forall>a. \<not> in_page 0xFF000 a \<longrightarrow> m a = fmem D s0 a))"

lemma app_frameI: "confined D (app_base D s0) 0xED000 m s \<Longrightarrow> (\<And>a. \<not> in_page 0xFF000 a \<Longrightarrow> m a = fmem D s0 a) \<Longrightarrow> app_frame D s0 s"
  unfolding app_frame_def by blast

lemma app_frame_mem:
  assumes "app_frame D s0 s" "\<not> in_page 0xFF000 a" "\<not> (unat (app_base D s0) \<le> unat a \<and> unat a < 0xED000)"
  shows "fmem D s a = fmem D s0 a"
  using assms by (auto simp: app_frame_def confined_def)

lemma app_frame_upd [simp]:
  "app_frame D s0 (s\<lparr>st_gpregret := x\<rparr>) = app_frame D s0 s" "app_frame D s0 (s\<lparr>st_gpregret2 := x\<rparr>) = app_frame D s0 s"
  "app_frame D s0 (s\<lparr>st_ram := r\<rparr>) = app_frame D s0 s" "app_frame D s0 (s\<lparr>g_hybrid := h\<rparr>) = app_frame D s0 s"
  "app_frame D s0 (s\<lparr>g_sd_auth := a\<rparr>) = app_frame D s0 s" "app_frame D s0 (s\<lparr>g_sd_auth_loaded := l\<rparr>) = app_frame D s0 s"
  "app_frame D s0 (s\<lparr>g_sd_source := l\<rparr>) = app_frame D s0 s" "app_frame D s0 (s\<lparr>g_sd_active := l\<rparr>) = app_frame D s0 s"
  "app_frame D s0 (s\<lparr>g_qspi_source := l\<rparr>) = app_frame D s0 s" "app_frame D s0 (s\<lparr>g_qspi_total_size := x\<rparr>) = app_frame D s0 s"
  by (simp_all add: app_frame_def confined_def cache_ok_def)

lemma app_frame_media: "media_step D s s' \<Longrightarrow> app_frame D s0 s \<Longrightarrow> app_frame D s0 s'"
  using media_step_keeps [of D s s'] by (simp add: app_frame_def confined_def cache_ok_def)

lemma app_frame_dev: "dv_mem D d = fmem D s \<Longrightarrow> app_frame D s0 s \<Longrightarrow> app_frame D s0 (s\<lparr>st_dev := d\<rparr>)"
  by (simp add: app_frame_def confined_def cache_ok_def)

lemma app_base_stable:
  assumes "app_frame D s0 s" "app_window D s0"
  shows "app_base D s = app_base D s0"
  unfolding app_base_def
proof (rule CODE_REGION_1_START_cong)
  fix a :: u32 assume a: "0x3000 \<le> a" "a < 0x3010"
  then have "\<not> in_page 0xFF000 a" by (simp add: in_page_aligned_iff word_le_nat_alt word_less_nat_alt)
  moreover have "\<not> (unat (app_base D s0) \<le> unat a \<and> unat a < 0xED000)"
    using a assms(2) by (simp add: app_window_def word_le_nat_alt word_less_nat_alt)
  ultimately show "fmem D s a = fmem D s0 a" by (rule app_frame_mem [OF assms(1)])
qed

context mota_device
begin

lemma app_frame_flush: "cache_flush D s = (ok, s') \<Longrightarrow> app_frame D s0 s \<Longrightarrow> app_frame D s0 s'"
  unfolding app_frame_def by (blast dest: confined_flush)

lemma app_frame_cwrite:
  assumes "cwrite D addr src s = (ok, s')" "app_frame D s0 s" "app_window D s0"
    "unat (app_base D s0) \<le> unat addr" "unat addr + length src \<le> 0xED000"
  shows "app_frame D s0 s'"
proof -
  obtain m where m: "confined D (app_base D s0) 0xED000 m s" "\<forall>a. \<not> in_page 0xFF000 a \<longrightarrow> m a = fmem D s0 a"
    using assms(2) by (auto simp: app_frame_def)
  have "confined D (app_base D s0) 0xED000 m s'"
    using assms(3-5) by (intro confined_cwrite [OF assms(1) m(1)]) (simp_all add: app_window_def)
  then show ?thesis using m(2) by (auto simp: app_frame_def)
qed

lemma app_frame_cerase:
  assumes "cerase D addr n s = (ok, s')" "app_frame D s0 s" "app_window D s0"
    "unat (app_base D s0) \<le> unat addr" "unat addr + n \<le> 0xED000"
  shows "app_frame D s0 s'"
proof -
  obtain m where m: "confined D (app_base D s0) 0xED000 m s" "\<forall>a. \<not> in_page 0xFF000 a \<longrightarrow> m a = fmem D s0 a"
    using assms(2) by (auto simp: app_frame_def)
  have "confined D (app_base D s0) 0xED000 m s'"
    using assms(3-5) by (intro confined_cerase [OF assms(1) m(1)]) (simp_all add: app_window_def)
  then show ?thesis using m(2) by (auto simp: app_frame_def)
qed

lemma commit_frame:
  assumes "b_chip b = NRF52840" "\<not> in_page 0xFF000 a"
  shows "fmem D (otah_settings_commit D b bank crc sz s) a = fmem D s a"
proof -
  have len: "length (words_of_bytes (settings_bytes t)) = 8" for t
    by (simp add: length_words_of_bytes)
  have out: "4096 \<le> unat (a - 0xFF000)" using assms(2) by (simp add: in_page_iff)
  have "4 * n \<le> unat (a - (0xFF000 + k))" if "4 * n + unat k \<le> 32" for n k
  proof -
    have e: "a - (0xFF000 + k) = (a - 0xFF000) - k" by simp
    have "unat ((a - 0xFF000) - k) = unat (a - 0xFF000) - unat k"
      using out that by (intro unat_sub_le) (simp add: word_le_nat_alt)
    then show ?thesis unfolding e using out that by simp
  qed
  note w = this
  show ?thesis
    using assms w [of 6 8] w [of 1 4] w [of 1 0]
    by (simp add: otah_settings_commit_def Let_def write_frame erase_frame len)
qed

lemma app_frame_commit:
  assumes "b_chip b = NRF52840" "app_frame D s0 s" "app_window D s0"
  shows "app_frame D s0 (otah_settings_commit D b bank crc sz s)"
proof -
  let ?s = "otah_settings_commit D b bank crc sz s"
  obtain m where m: "confined D (app_base D s0) 0xED000 m s" "\<forall>a. \<not> in_page 0xFF000 a \<longrightarrow> m a = fmem D s0 a"
    using assms(2) by (auto simp: app_frame_def)
  have st: "g_cache ?s = g_cache s" "g_cache_page ?s = g_cache_page s" "g_cache_dirty ?s = g_cache_dirty s"
    by (simp_all add: otah_settings_commit_def Let_def)
  have pg: "rd_bytes (fmem D ?s) (g_cache_page s) 4096 = rd_bytes (fmem D s) (g_cache_page s) 4096" if "g_cache_page s \<noteq> 0"
  proof (rule rd_bytes_cong)
    fix i assume i: "i < (4096 :: nat)"
    have w: "unat (g_cache_page s) + 4096 \<le> 0xED000" using m(1) that by (simp add: confined_def)
    then have "unat (g_cache_page s + of_nat i) < 0xED000"
      using i by (subst unat_add_no_wrap) (simp_all add: unat_of_nat_u32)
    then have "\<not> in_page 0xFF000 (g_cache_page s + of_nat i)" by (simp add: in_page_aligned_iff)
    then show "fmem D ?s (g_cache_page s + of_nat i) = fmem D s (g_cache_page s + of_nat i)" by (rule commit_frame [OF assms(1)])
  qed
  define m' where "m' a = (if in_page 0xFF000 a then fmem D ?s a else m a)" for a
  have "confined D (app_base D s0) 0xED000 m' ?s"
    using m(1) pg commit_frame [OF assms(1), of _ bank crc sz s]
    by (auto simp: confined_def cache_ok_def st m'_def)
  then show ?thesis using m(2) by (intro app_frameI [of _ _ m']) (simp_all add: m'_def)
qed

text \<open>The decoder, whatever it does, stays in its workspace.\<close>

lemma ws_addr_window:
  assumes "dt_ws_addr c off n = Some addr" "unat (ws_lo c) \<le> unat (ws_hi c)"
  shows "unat (ws_lo c) \<le> unat addr" "unat addr + n \<le> unat (ws_hi c)"
proof -
  from assms(1) have n: "n < 2 ^ 32" and r: "in_range_u32 off (of_nat n) (ws_hi c - ws_lo c)" and a: "addr = ws_lo c + off"
    by (auto simp: dt_ws_addr_def Let_def in_range_u32_def split: if_splits)
  have "unat off + n \<le> unat (ws_hi c) - unat (ws_lo c)"
    using r n assms(2) by (simp add: in_range_u32_iff unat_of_nat_u32 unat_sub_le word_le_nat_alt)
  moreover have "unat addr = unat (ws_lo c) + unat off"
    unfolding a using calculation assms(2) unat_u32_lt [of "ws_hi c"] by (intro unat_add_no_wrap) simp
  ultimately show "unat (ws_lo c) \<le> unat addr" "unat addr + n \<le> unat (ws_hi c)" using assms(2) by simp_all
qed

lemma dt_pr_frame:
  assumes "dt_pr D b c n s = (r, c', s')"
  shows "media_step D s s'" "ws_lo c' = ws_lo c" "ws_hi c' = ws_hi c" "patch_len c' = patch_len c" "patch_addr c' = patch_addr c"
  using assms by (auto simp: dt_pr_def Let_def split: if_splits prod.splits option.splits dest: staged_read_step)

lemma run_dt_frame:
  assumes "run_dt D b p c s = (r, c', s')" "app_frame D s0 s" "app_window D s0"
    "unat (app_base D s0) \<le> unat (ws_lo c)" "unat (ws_lo c) \<le> unat (ws_hi c)" "unat (ws_hi c) \<le> 0xED000"
  shows "app_frame D s0 s' \<and> st_gpregret s' = st_gpregret s \<and> patch_len c' = patch_len c"
  using assms(1,2,4-)
proof (induction p arbitrary: c s)
  case (Dt_Done x)
  then show ?case by simp
next
  case (Mem_Read src n k)
  then show ?case by (intro Mem_Read.IH [OF rangeI]) simp_all
next
  case (Mem_Write dst bs k)
  obtain ok s1 where w: "dt_mw D c dst bs s = (ok, s1)" by fastforce
  have "app_frame D s0 s1 \<and> st_gpregret s1 = st_gpregret s"
  proof (cases "dt_ws_addr c dst (length bs)")
    case None
    then show ?thesis using w Mem_Write.prems by (simp add: dt_mw_def)
  next
    case (Some addr)
    then have cw: "cwrite D addr bs s = (ok, s1)" using w by (simp add: dt_mw_def)
    have "unat (ws_lo c) \<le> unat addr" "unat addr + length bs \<le> unat (ws_hi c)"
      using ws_addr_window [OF Some] Mem_Write.prems by blast+
    then have "app_frame D s0 s1" using Mem_Write.prems assms(3) by (intro app_frame_cwrite [OF cw]) simp_all
    then show ?thesis using cwrite_cache_step [OF cw] by (simp add: cache_step_def)
  qed
  moreover have go: "run_dt D b (k ok) c s1 = (r, c', s')" using Mem_Write.prems(1) w by simp
  ultimately show ?case using Mem_Write.IH [OF rangeI go] Mem_Write.prems by simp
next
  case (Mem_Erase a n k)
  obtain ok s1 where w: "dt_me D c a n s = (ok, s1)" by fastforce
  have "app_frame D s0 s1 \<and> st_gpregret s1 = st_gpregret s"
  proof (cases "dt_ws_addr c a n")
    case None
    then show ?thesis using w Mem_Erase.prems by (simp add: dt_me_def)
  next
    case (Some addr)
    then have cw: "cerase D addr n s = (ok, s1)" using w by (simp add: dt_me_def)
    have "unat (ws_lo c) \<le> unat addr" "unat addr + n \<le> unat (ws_hi c)"
      using ws_addr_window [OF Some] Mem_Erase.prems by blast+
    then have "app_frame D s0 s1" using Mem_Erase.prems assms(3) by (intro app_frame_cerase [OF cw]) simp_all
    then show ?thesis using cerase_cache_step [OF cw] by (simp add: cache_step_def)
  qed
  moreover have go: "run_dt D b (k ok) c s1 = (r, c', s')" using Mem_Erase.prems(1) w by simp
  ultimately show ?case using Mem_Erase.IH [OF rangeI go] Mem_Erase.prems by simp
next
  case (Patch_Read n k)
  obtain q c1 s1 where w: "dt_pr D b c n s = (q, c1, s1)" by (cases "dt_pr D b c n s") auto
  note f = dt_pr_frame [OF w]
  have "app_frame D s0 s1" "st_gpregret s1 = st_gpregret s"
    using app_frame_media [OF f(1)] Patch_Read.prems media_step_keeps(5) [OF f(1)] by simp_all
  moreover have go: "run_dt D b (k q) c1 s1 = (r, c', s')" using Patch_Read.prems(1) w by simp
  ultimately show ?case using Patch_Read.IH [OF rangeI go] Patch_Read.prems f by simp
qed

text \<open>Approval, cleanup and the final steps.\<close>

definition approval_ok :: "build \<Rightarrow> mota_min \<Rightarrow> 'd mota_st \<Rightarrow> 'd mota_st \<Rightarrow> bool" where
  "approval_ok b m s0 s \<longleftrightarrow> \<not> sd_source b s \<and> \<not> (b_qspi_flash b \<and> g_qspi_source s) \<longrightarrow>
     unat (app_base D s0) \<le> unat (mm_approval_addr m) \<and> unat (mm_approval_addr m) + 4 \<le> 0xED000"

lemma clear_approval_confined:
  assumes "clear_approval D b m s = (ok, s')" "confined D lo hi m0 s" "4096 dvd unat lo" "4096 dvd unat hi"
    "\<not> sd_source b s \<Longrightarrow> \<not> (b_qspi_flash b \<and> g_qspi_source s) \<Longrightarrow>
       0 < unat lo \<and> unat lo \<le> unat (mm_approval_addr m) \<and> unat (mm_approval_addr m) + 4 \<le> unat hi"
  shows "confined D lo hi m0 s' \<and> cache_step s s'"
proof (cases "sd_source b s \<or> (b_qspi_flash b \<and> g_qspi_source s)")
  case True
  then show ?thesis using assms(1,2) qspi_write_frame [of "st_dev s" "mm_approval_addr m" "[0, 0, 0, 0]"]
    by (auto simp: clear_approval_def confined_def cache_ok_def split: if_splits prod.splits)
next
  case False
  obtain okw s1 where w: "cwrite D (mm_approval_addr m) [0, 0, 0, 0] s = (okw, s1)" by fastforce
  have f: "confined D lo hi m0 s1" using False assms(5) by (intro confined_cwrite [OF w assms(2-4)]) simp_all
  have "if okw then cache_flush D s1 = (ok, s') else s' = s1"
    using assms(1) w False by (auto simp: clear_approval_def split: if_splits)
  then show ?thesis using f cwrite_cache_step [OF w] confined_flush [of s1 ok s' lo hi m0] flush_step [of D s1 ok s']
    by (auto split: if_splits intro: cache_step_trans [of s s1])
qed

lemma clear_approval_frame:
  assumes "clear_approval D b m s = (ok, s')" "app_frame D s0 s" "app_window D s0" "approval_ok b m s0 s"
  shows "app_frame D s0 s'" "cache_step s s'"
proof -
  obtain m0 where m0: "confined D (app_base D s0) 0xED000 m0 s" "\<forall>a. \<not> in_page 0xFF000 a \<longrightarrow> m0 a = fmem D s0 a"
    using assms(2) by (auto simp: app_frame_def)
  have "confined D (app_base D s0) 0xED000 m0 s' \<and> cache_step s s'"
    using assms(3,4) by (intro clear_approval_confined [OF assms(1) m0(1)]) (auto simp: app_window_def approval_ok_def)
  then show "app_frame D s0 s'" "cache_step s s'" using m0(2) by (auto simp: app_frame_def)
qed

lemma finish_apply_frame:
  assumes "finish_apply D b r s = (r', s')"
  shows "r' = r" "fmem D s' = fmem D s" "st_gpregret s' = st_gpregret s" "st_gpregret2 s' = st_gpregret2 s"
    "app_frame D s0 s \<Longrightarrow> app_frame D s0 s'"
  using assms sd_deinit_frame qspi_deinit_frame
  by (auto simp: finish_apply_def Let_def split: if_splits intro!: app_frame_dev)

lemma fail_apply_frame:
  assumes "fail_apply D b code s = (r, s')"
  shows "\<not> r" "fmem D s' = fmem D s" "st_gpregret s' = st_gpregret s" "st_gpregret2 s' = code"
    "app_frame D s0 s \<Longrightarrow> app_frame D s0 s'"
  using finish_apply_frame [OF assms [unfolded fail_apply_def]] by simp_all

lemma reject_apply_frame:
  assumes "reject_apply D b m code s = (r, s')" "app_frame D s0 s" "app_window D s0" "approval_ok b m s0 s"
  shows "\<not> r" "app_frame D s0 s'" "st_gpregret s' = st_gpregret s"
proof -
  obtain ok s1 where c: "clear_approval D b m (result2 code s) = (ok, s1)" by fastforce
  have a: "app_frame D s0 s1" "cache_step (result2 code s) s1"
    using clear_approval_frame [OF c _ assms(3)] assms(2,4) by (simp_all add: approval_ok_def sd_source_def)
  have f: "finish_apply D b False (if ok then s1 else result2 0xBC s1) = (r, s')"
    using assms(1) c by (simp add: reject_apply_def)
  note g = finish_apply_frame [OF f]
  show "\<not> r" "app_frame D s0 s'" "st_gpregret s' = st_gpregret s"
    using g a cache_step_keeps(2) [OF a(2)] by (auto split: if_splits)
qed

lemma full_hash_step: "full_image_hash_valid D b m addr staged s = (ok, s') \<Longrightarrow> media_step D s s'"
  unfolding full_image_hash_valid_def by (rule region_hash_step)

lemma finish_app_update_frame:
  assumes "finish_app_update D b m s = (r, s')" "b_chip b = NRF52840" "app_frame D s0 s" "app_window D s0"
  shows "app_frame D s0 s'" "st_gpregret s' = st_gpregret s"
proof -
  obtain ok s1 where h: "full_image_hash_valid D b m (app_base D s) False s = (ok, s1)" by fastforce
  note ms = full_hash_step [OF h]
  have f: "app_frame D s0 s1" using ms assms(3) by (rule app_frame_media)
  have g: "st_gpregret s1 = st_gpregret s" using media_step_keeps(5) [OF ms] .
  show "app_frame D s0 s'" "st_gpregret s' = st_gpregret s"
    using assms(1) h f g app_frame_commit [OF assms(2) f assms(4)]
    by (auto simp: finish_app_update_def Let_def otah_settings_commit_def split: if_splits)
qed

lemma hybrid_read_length:
  assumes "hybrid_staged_read D a n s = Some bs" shows "length bs = unat n"
proof -
  define h where "h = g_hybrid s"
  define off where "off = a - hh_flash_start h"
  define chunk where "chunk = (if off < hh_flash_len h then (if hh_flash_len h - off > n then n else hh_flash_len h - off) else 0)"
  have "chunk \<le> n" by (auto simp: chunk_def not_less)
  then have r: "unat (n - chunk) = unat n - unat chunk" "unat chunk \<le> unat n" by (simp_all add: unat_sub_le word_le_nat_alt)
  have "bs = fl_read D s a (unat chunk) \<and> n - chunk = 0 \<or>
      (\<exists>q. hybrid_ram_read (off + chunk - hh_flash_len h) (n - chunk) s = Some q \<and> bs = fl_read D s a (unat chunk) @ q)"
    using assms unfolding hybrid_staged_read_def Let_def h_def [symmetric] off_def [symmetric] chunk_def [symmetric]
    by (auto split: if_splits)
  then show ?thesis using r by (auto simp: fl_read_def hybrid_ram_read_def split: if_splits)
qed

lemma staged_read_length: "staged_read D b a n s = (Some bs, s') \<Longrightarrow> length bs = unat n"
  using sd_read_length [of "st_dev s" "sa_first_sector (g_sd_auth s)" a "unat n" bs] qspi_read_length [of "st_dev s" a "unat n" bs]
    hybrid_read_length [of a n s bs]
  by (auto simp: staged_read_def fl_read_def Let_def split: if_splits prod.splits)

lemma confined_media: "media_step D s s' \<Longrightarrow> confined D lo hi m s \<Longrightarrow> confined D lo hi m s'"
  using media_step_keeps [of D s s'] by (simp add: confined_def cache_ok_def)

lemma confined_cache: "confined D lo hi m s \<Longrightarrow> g_cache_page s = 0 \<Longrightarrow> length c = 4096 \<Longrightarrow> confined D lo hi m (s\<lparr>g_cache := c\<rparr>)"
  by (simp add: confined_def cache_ok_def)

lemma confined_page_write:
  assumes "flash_page_write_verified D page (words_of_bytes bs) s = (ok, s')" "length bs = 4096" "confined D lo hi m s" "g_cache_page s = 0"
    "4096 dvd unat page" "unat lo \<le> unat page" "unat page + 4096 \<le> unat hi"
  shows "confined D lo hi m s'" "g_cache_page s' = 0"
proof -
  obtain d where d: "s' = s\<lparr>st_dev := d\<rparr>" using write_verified(1) [OF assms(1,2)] by blast
  show "confined D lo hi m s'"
    using assms(3) write_verified(2) [OF assms(1,2)] d assms(4) window_not_page [OF assms(5-7)] by (auto simp: confined_def cache_ok_def)
  show "g_cache_page s' = 0" using d assms(4) by simp
qed

lemma copy_pages_confined:
  assumes "copy_pages D b m dest offs s = (r, s')" "confined D lo hi m0 s" "g_cache_page s = 0"
    "\<And>off. off \<in> set offs \<Longrightarrow> 4096 dvd unat (dest + off) \<and> unat lo \<le> unat (dest + off) \<and> unat (dest + off) + 4096 \<le> unat hi"
  shows "confined D lo hi m0 s' \<and> g_cache_page s' = 0 \<and> st_gpregret s' = st_gpregret s"
  using assms
proof (induction offs arbitrary: s)
  case Nil
  then show ?case by simp
next
  case (Cons off offs)
  define n where "n = (if mm_image_size m - off > PAGE then PAGE else mm_image_size m - off)"
  have n: "unat n \<le> 4096" by (auto simp: n_def not_less word_le_nat_alt)
  define s1 where "s1 = s\<lparr>g_cache := replicate 4096 0xFF\<rparr>"
  have f1: "confined D lo hi m0 s1" unfolding s1_def using Cons.prems by (intro confined_cache) simp_all
  obtain q s2 where rd: "staged_read D b (mm_payload_addr m + off) n s1 = (q, s2)" by fastforce
  note ms = staged_read_step [OF rd]
  have f2: "confined D lo hi m0 s2" "g_cache_page s2 = 0" "st_gpregret s2 = st_gpregret s"
    using confined_media [OF ms f1] media_step_keeps(5,8) [OF ms] Cons.prems(3) by (simp_all add: s1_def)
  show ?case
  proof (cases q)
    case None
    then show ?thesis using Cons.prems(1) rd f2 by (simp add: n_def [symmetric] s1_def [symmetric])
  next
    case (Some bs)
    define c where "c = bs @ replicate (4096 - unat n) 0xFF"
    have lc: "length c = 4096" using staged_read_length [OF rd [unfolded Some]] n by (simp add: c_def)
    obtain ok s3 where w: "flash_page_write_verified D (dest + off) (words_of_bytes c) (s2\<lparr>g_cache := c\<rparr>) = (ok, s3)" by fastforce
    have f3: "confined D lo hi m0 s3" "g_cache_page s3 = 0"
      using confined_page_write [OF w lc confined_cache [OF f2(1,2) lc]] f2(2) Cons.prems(4) [of off] by simp_all
    have g3: "st_gpregret s3 = st_gpregret s" using cache_step_keeps(2) [OF page_write_step [OF w]] f2(3) by simp
    have "if ok then copy_pages D b m dest offs s3 = (r, s') else s' = s3"
      using Cons.prems(1) rd w Some by (auto simp: n_def [symmetric] s1_def [symmetric] c_def [symmetric])
    then show ?thesis using Cons.IH [OF _ f3] Cons.prems(4) f3 g3 by (auto split: if_splits)
  qed
qed

lemma copy_pages_frame:
  assumes "copy_pages D b m dest offs s = (r, s')" "app_frame D s0 s" "g_cache_page s = 0"
    "\<And>off. off \<in> set offs \<Longrightarrow> 4096 dvd unat (dest + off) \<and> unat (app_base D s0) \<le> unat (dest + off) \<and> unat (dest + off) + 4096 \<le> 0xED000"
  shows "app_frame D s0 s' \<and> g_cache_page s' = 0 \<and> st_gpregret s' = st_gpregret s"
proof -
  obtain m0 where m0: "confined D (app_base D s0) 0xED000 m0 s" "\<forall>a. \<not> in_page 0xFF000 a \<longrightarrow> m0 a = fmem D s0 a"
    using assms(2) by (auto simp: app_frame_def)
  then show ?thesis using copy_pages_confined [OF assms(1) m0(1) assms(3)] assms(4) unfolding app_frame_def by auto
qed

lemma page_offsets_in:
  assumes "off \<in> set (page_offsets n)" "unat dest + unat n \<le> 0xED000" "4096 dvd unat dest"
  shows "4096 dvd unat (dest + off) \<and> unat dest \<le> unat (dest + off) \<and> unat (dest + off) + 4096 \<le> 0xED000"
proof -
  obtain k where k: "off = of_nat k * PAGE" "k < (unat n + 4095) div 4096" using assms(1) by (auto simp: page_offsets_def)
  have kn: "k * 4096 < unat n" using k(2) by (simp add: less_eq_div_iff_mult_less_eq Suc_le_eq [symmetric])
  have o: "unat off = k * 4096" unfolding k(1) using kn assms(2) by (simp add: unat_word_ariths unat_of_nat_u32)
  have u: "unat (dest + off) = unat dest + k * 4096" using o kn assms(2) by (subst unat_add_no_wrap) simp_all
  obtain j where j: "unat dest = 4096 * j" using assms(3) by (auto simp: dvd_def)
  have "unat dest + k * 4096 < 0xED000" using kn assms(2) by simp
  then have "j + k < 237" using j by simp
  then show ?thesis using u j by simp
qed

text \<open>Where the selected container can be.\<close>

lemma parse_place:
  assumes "parse_mota_at D b addr limit s = (Some m, s')"
  shows "mm_approval_addr m = addr + 201" "unat addr + 210 \<le> unat limit"
proof -
  show "mm_approval_addr m = addr + 201"
    using assms by (auto simp: parse_mota_at_def Let_def decode_header_def header_min_def APPROVAL_OFFSET_def
        split: if_splits prod.splits option.splits)
  have "addr \<le> limit" "\<not> limit - addr < HEADER_LEN + 5"
    using assms by (auto simp: parse_mota_at_def Let_def split: if_splits)
  then show "unat addr + 210 \<le> unat limit"
    by (simp add: word_le_nat_alt word_less_nat_alt unat_sub_le layout_simps)
qed

lemma scan_pages_place:
  assumes "scan_mota_pages D b c k s = (Some (a, m), s')" "k < 2 ^ 20"
  shows "\<exists>j<k. a = of_nat j * PAGE \<and> unat (app_base D s) < (j + 1) * 4096 \<and> (\<exists>s1 s2. parse_mota_at D b a c s1 = (Some m, s2))"
  using assms
proof (induction k arbitrary: s)
  case (Suc k)
  let ?a = "of_nat k * PAGE :: u32"
  have un: "unat (of_nat (Suc k) * PAGE :: u32) = (k + 1) * 4096"
    using Suc.prems(2) by (simp add: unat_word_ariths unat_of_nat_u32)
  have go: "unat (app_base D s) < (k + 1) * 4096"
  proof (rule ccontr)
    assume "\<not> unat (app_base D s) < (k + 1) * 4096"
    then have "\<not> of_nat (Suc k) * PAGE > app_base D s" using un by (simp add: word_less_nat_alt del: of_nat_Suc)
    then show False using Suc.prems(1) by (simp del: of_nat_Suc)
  qed
  have rec: ?case if "scan_mota_pages D b c k s1 = (Some (a, m), s')" "media_step D s s1" for s1
    using Suc.IH [OF that(1)] Suc.prems(2) media_step_keeps(3) [OF that(2)] by (auto intro: less_SucI)
  obtain r s1 where p: "parse_mota_at D b ?a c s = (r, s1)" by fastforce
  from Suc.prems(1) p consider "scan_mota_pages D b c k s = (Some (a, m), s')" | "scan_mota_pages D b c k s1 = (Some (a, m), s')"
    | "r = Some m" "a = ?a"
    by (auto simp: Let_def split: if_splits option.splits)
  then show ?case
  proof cases
    case 1
    then show ?thesis by (rule rec) simp
  next
    case 2
    then show ?thesis using parse_step [OF p] by (rule rec)
  next
    case 3
    then show ?thesis using p go by blast
  qed
qed simp

definition hybrid_placed :: "build \<Rightarrow> 'd mota_st \<Rightarrow> 'd mota_st \<Rightarrow> bool" where
  "hybrid_placed b s0 s \<longleftrightarrow> (hybrid_active b s \<longrightarrow>
     unat (app_base D s0) \<le> unat (hh_flash_start (g_hybrid s)) \<and> unat (hh_flash_start (g_hybrid s)) \<le> 0xED000 \<and>
     hh_flash_start (g_hybrid s) + hh_flash_len (g_hybrid s) = 0xED000)"

lemma scan_internal_place:
  assumes "scan_mota D b c s = (Some (a, m), s')" "\<not> sd_source b s" "\<not> (b_qspi_flash b \<and> g_qspi_source s)" "\<not> hybrid_active b s"
    "app_base D s = app_base D s0" "app_window D s0"
  shows "unat (app_base D s0) \<le> unat a" "unat a + 210 \<le> unat c" "unat c \<le> 0xED000" "mm_approval_addr m = a + 201"
proof -
  have nb: "\<not> (b_sd_card b \<and> \<not> b_sd_dual_store b \<and> \<not> b_rak_sd_store b)" using assms(2) by (auto simp: sd_source_def split: if_splits)
  let ?k = "unat (((c - MOTA_MIN_LEN) AND NOT (PAGE - 1)) + PAGE) div 4096"
  have c: "c = 0xD4000 \<or> c = 0xED000 \<or> c = 0xE0000" and sp: "scan_mota_pages D b c ?k s = (Some (a, m), s')"
    using assms(1-4) nb unfolding scan_mota_def Let_def by (auto simp: layout_simps split: if_splits)
  show "unat c \<le> 0xED000" using c by auto
  have k: "?k < 2 ^ 20" using c by (auto simp: layout_simps)
  from scan_pages_place [OF sp k] obtain j s1 s2 where j: "j < ?k" "a = of_nat j * PAGE" "unat (app_base D s) < (j + 1) * 4096"
    "parse_mota_at D b a c s1 = (Some m, s2)" by blast
  have u: "unat a = j * 4096" unfolding j(2) using j(1) k by (simp add: unat_word_ariths unat_of_nat_u32)
  obtain q where q: "unat (app_base D s0) = 4096 * q" using assms(6) by (auto simp: app_window_def dvd_def)
  show "unat (app_base D s0) \<le> unat a" using j(3) u q assms(5) by simp
  show "unat a + 210 \<le> unat c" "mm_approval_addr m = a + 201" using parse_place [OF j(4)] by simp_all
qed

lemma scan_place:
  assumes "scan_mota D b c s = (Some (a, m), s')" "\<not> sd_source b s" "\<not> (b_qspi_flash b \<and> g_qspi_source s)"
    "hybrid_placed b s0 s" "app_base D s = app_base D s0" "app_window D s0"
  shows "unat (app_base D s0) \<le> unat a" "unat a \<le> 0xED000" "approval_ok b m s0 s"
proof -
  have "unat (app_base D s0) \<le> unat a \<and> unat a \<le> 0xED000 \<and> unat (app_base D s0) \<le> unat (mm_approval_addr m) \<and> unat (mm_approval_addr m) + 4 \<le> 0xED000"
  proof (cases "hybrid_active b s")
    case False
    note p = scan_internal_place [OF assms(1-3) False assms(5,6)]
    have "unat (a + 201) = unat a + 201" using p(2,3) by (subst unat_add_no_wrap) simp_all
    then show ?thesis using p by simp
  next
    case True
    let ?h = "g_hybrid s"
    have nb: "\<not> (b_sd_card b \<and> \<not> b_sd_dual_store b \<and> \<not> b_rak_sd_store b)" using assms(2) by (auto simp: sd_source_def split: if_splits)
    have h: "unat (app_base D s0) \<le> unat (hh_flash_start ?h)" "unat (hh_flash_start ?h) \<le> 0xED000"
      "hh_flash_start ?h + hh_flash_len ?h = 0xED000" using assms(4) True by (auto simp: hybrid_placed_def)
    obtain s1 where pr: "parse_mota_at D b (hh_flash_start ?h) (hh_flash_start ?h + hh_container_total ?h) s = (Some m, s1)"
      and a: "a = hh_flash_start ?h" and le: "mm_approval_addr m \<le> 0xED000 - 4"
      using assms(1,2) True nb h(3) unfolding scan_mota_def Let_def
      by (auto simp: not_less split: if_splits prod.splits option.splits)
    have e: "mm_approval_addr m = a + 201" using parse_place(1) [OF pr] a by simp
    have "unat (a + 201) = unat a + 201" using h(2) a by (subst unat_add_no_wrap) simp_all
    then show ?thesis using e h a le by (simp add: word_le_nat_alt)
  qed
  then show "unat (app_base D s0) \<le> unat a" "unat a \<le> 0xED000" "approval_ok b m s0 s" by (simp_all add: approval_ok_def)
qed

text \<open>A reported success: the image in the application region has the container's hash.\<close>

definition installed :: "build \<Rightarrow> 'd mota_st \<Rightarrow> mota_min \<Rightarrow> 'd mota_st \<Rightarrow> bool" where
  "installed b s0 m s \<longleftrightarrow> unat (app_base D s0) + unat (mm_image_size m) \<le> 0xED000 \<and>
     sha256 (fl_read D s (app_base D s0) (unat (mm_image_size m))) = mm_image_hash m \<and> st_gpregret2 s = 0xB8 \<and>
     (\<exists>t. fmem D s = fmem D (otah_settings_commit D b BANK_VALID_APP
        (crc16_compute (fl_read D s (app_base D s0) (unat (mm_image_size m))) None) (mm_image_size m) t))"

lemma region_hash_flash:
  assumes "region_hash_valid D b addr len h False UINT32_MAX s = (True, s')" "unat addr + unat len < 2 ^ 32"
  shows "sha256 (fl_read D s addr (unat len)) = h"
  using assms read_region_view [of False D b s "fmem D s" addr len UINT32_MAX]
  by (auto simp: region_hash_valid_def fl_read_def)

lemma finish_app_update_installed:
  assumes "finish_app_update D b m s = (True, s')" "b_chip b = NRF52840" "app_frame D s0 s" "app_window D s0"
    "unat (app_base D s0) + unat (mm_image_size m) \<le> 0xED000"
  shows "installed b s0 m s'"
proof -
  let ?base = "app_base D s0"
  have base: "app_base D s = ?base" using assms(3,4) by (rule app_base_stable)
  obtain ok s1 where h: "full_image_hash_valid D b m ?base False s = (ok, s1)" by fastforce
  have b1: "app_base D s1 = ?base" and r1: "fl_read D s1 = fl_read D s"
    using media_step_keeps(2,3) [OF full_hash_step [OF h]] base by simp_all
  define s2 where "s2 = otah_settings_commit D b BANK_VALID_APP
      (crc16_compute (fl_read D s1 ?base (unat (mm_image_size m))) None) (mm_image_size m) s1"
  have ok: ok and s': "s' = result2 0xB8 s2"
    using assms(1) h base b1 by (auto simp: finish_app_update_def Let_def s2_def split: if_splits)
  have hash: "sha256 (fl_read D s ?base (unat (mm_image_size m))) = mm_image_hash m"
    using h ok assms(5) by (intro region_hash_flash) (simp_all add: full_image_hash_valid_def)
  have r2: "fl_read D s2 ?base (unat (mm_image_size m)) = fl_read D s1 ?base (unat (mm_image_size m))"
    unfolding fl_read_def
  proof (rule rd_bytes_cong)
    fix i assume i: "i < unat (mm_image_size m)"
    have "unat (?base + of_nat i) < 0xED000" using i assms(5) by (subst unat_add_no_wrap) (simp_all add: unat_of_nat_u32)
    then have "\<not> in_page 0xFF000 (?base + of_nat i)" by (simp add: in_page_aligned_iff)
    then show "fmem D s2 (?base + of_nat i) = fmem D s1 (?base + of_nat i)"
      unfolding s2_def by (rule commit_frame [OF assms(2)])
  qed
  then have "fl_read D s2 ?base (unat (mm_image_size m)) = fl_read D s ?base (unat (mm_image_size m))" by (simp add: r1)
  moreover have r': "fl_read D s' = fl_read D s2" unfolding s' by (intro ext) (simp add: fl_read_def)
  moreover have "fmem D s' = fmem D (otah_settings_commit D b BANK_VALID_APP
      (crc16_compute (fl_read D s' ?base (unat (mm_image_size m))) None) (mm_image_size m) s1)"
    unfolding r' r2 s2_def [symmetric] by (simp add: s')
  ultimately show ?thesis using hash assms(5) unfolding installed_def by (auto simp: s')
qed

lemma finish_installed:
  assumes "installed b s0 m s" "finish_apply D b r s = (r', s')" shows "installed b s0 m s'"
  using assms finish_apply_frame(2,4) [OF assms(2)] by (simp add: installed_def fl_read_def)

lemma apply_full_external_frame:
  assumes "apply_full_external D b m s = (r, s')" "b_chip b = NRF52840" "app_frame D s0 s" "app_window D s0" "approval_ok b m s0 s"
  shows "app_frame D s0 s' \<and> st_gpregret s' = st_gpregret s \<and> (r \<longrightarrow> installed b s0 m s')"
proof (cases "\<not> mm_is_full m \<or> mm_codec_id m \<noteq> CODEC_FULL \<or> mm_image_size m = 0 \<or> mm_payload_size m \<noteq> mm_image_size m \<or>
         mm_image_size m > APP_APPLY_END b - app_base D s")
  case True
  then show ?thesis using assms by (auto simp: apply_full_external_def)
next
  case False
  have base: "app_base D s = app_base D s0" using assms(3,4) by (rule app_base_stable)
  obtain ok1 s1 where h: "full_image_hash_valid D b m (mm_payload_addr m) True s = (ok1, s1)" by fastforce
  note ms = full_hash_step [OF h]
  have f1: "app_frame D s0 s1" "st_gpregret s1 = st_gpregret s" "approval_ok b m s0 s1"
    using app_frame_media [OF ms assms(3)] media_step_keeps [OF ms] assms(5) by (auto simp: approval_ok_def)
  obtain ok2 s2 where c: "clear_approval D b m s1 = (ok2, s2)" by fastforce
  note f2 = clear_approval_frame [OF c f1(1) assms(4) f1(3)]
  define s3 where "s3 = (otah_settings_commit D b BANK_INVALID_APP 0 0 s2)\<lparr>g_cache_page := 0, g_cache_dirty := False\<rparr>"
  have f3: "app_frame D s0 s3" "g_cache_page s3 = 0" "st_gpregret s3 = st_gpregret s"
  proof -
    have "app_frame D s0 (otah_settings_commit D b BANK_INVALID_APP 0 0 s2)" using app_frame_commit [OF assms(2) f2(1) assms(4)] .
    then show "app_frame D s0 s3" by (auto simp: s3_def app_frame_def confined_def cache_ok_def)
    show "st_gpregret s3 = st_gpregret s" using cache_step_keeps(2) [OF f2(2)] f1(2) by (simp add: s3_def otah_settings_commit_def Let_def)
  qed (simp add: s3_def)
  have b3: "app_base D s3 = app_base D s0" using f3(1) assms(4) by (rule app_base_stable)
  have sz: "unat (app_base D s0) + unat (mm_image_size m) \<le> 0xED000"
  proof -
    have "unat (mm_image_size m) \<le> unat (APP_APPLY_END b - app_base D s0)" using False base by (simp add: word_less_nat_alt)
    moreover have "0xD4000 \<le> unat (APP_APPLY_END b)" "unat (APP_APPLY_END b) \<le> 0xED000" by (simp_all add: APP_APPLY_END_def layout_simps)
    ultimately show ?thesis using assms(4) by (auto simp: app_window_def unat_sub_le word_le_nat_alt)
  qed
  obtain e s4 where cp: "copy_staged_full_image D b m (app_base D s3) s3 = (e, s4)" by fastforce
  have f4: "app_frame D s0 s4 \<and> g_cache_page s4 = 0 \<and> st_gpregret s4 = st_gpregret s3"
    using page_offsets_in [OF _ sz] assms(4) f3 b3
    by (intro copy_pages_frame [OF cp [unfolded copy_staged_full_image_def]]) (auto simp: app_window_def)
  show ?thesis
  proof (cases "ok1 \<and> ok2 \<and> e = 0")
    case True
    then have fu: "finish_app_update D b m s4 = (r, s')"
      using assms(1) False h c cp by (simp add: apply_full_external_def s3_def [symmetric])
    have "app_frame D s0 s'" "st_gpregret s' = st_gpregret s4"
      using finish_app_update_frame [OF fu assms(2) _ assms(4)] f4 by simp_all
    then show ?thesis using f4 f3 fu finish_app_update_installed [of b m s4 s' s0] assms(2,4) sz by auto
  next
    case bad: False
    then have "\<not> r \<and> (\<exists>v. s' = result2 v s1 \<or> s' = result2 v s2 \<or> s' = result2 v s4)"
      using assms(1) False h c cp by (auto simp: apply_full_external_def s3_def [symmetric] split: if_splits)
    then show ?thesis using f1 f2 f4 f3 cache_step_keeps(2) [OF f2(2)] by auto
  qed
qed

lemma apply_delta_frame:
  assumes "apply_delta D b dt m ws_end s = (r, s')" "b_chip b = NRF52840" "app_frame D s0 s" "app_window D s0"
    "unat (app_base D s0) \<le> unat ws_end" "unat ws_end \<le> 0xED000" "unat (app_base D s0) + unat (mm_image_size m) \<le> 0xED000"
  shows "app_frame D s0 s' \<and> st_gpregret s' = st_gpregret s \<and> (r \<longrightarrow> installed b s0 m s')"
proof -
  define s1 where "s1 = otah_settings_commit D b BANK_INVALID_APP 0 0 s"
  have f1: "app_frame D s0 s1" unfolding s1_def by (rule app_frame_commit [OF assms(2-4)])
  have g1: "st_gpregret s1 = st_gpregret s" by (simp add: s1_def otah_settings_commit_def Let_def)
  have b1: "app_base D s1 = app_base D s0" using f1 assms(4) by (rule app_base_stable)
  define c where "c = \<lparr>patch_addr = mm_payload_addr m, patch_len = mm_payload_size m, patch_pos = 0, ws_lo = app_base D s0, ws_hi = ws_end\<rparr>"
  obtain x c2 s2 where run: "run_dt D b (dt (mm_payload_size m)) c s1 = (x, c2, s2)" by (cases "run_dt D b (dt (mm_payload_size m)) c s1") auto
  have f2: "app_frame D s0 s2" "st_gpregret s2 = st_gpregret s"
    using run_dt_frame [OF run f1 assms(4)] assms(5,6) g1 by (simp_all add: c_def)
  obtain ok s3 where fl: "cache_flush D s2 = (ok, s3)" by fastforce
  have f3: "app_frame D s0 s3" "st_gpregret s3 = st_gpregret s"
    using app_frame_flush [OF fl f2(1)] cache_step_keeps(2) [OF flush_step [OF fl]] f2(2) by simp_all
  obtain ok4 s4 where fu: "finish_app_update D b m s3 = (ok4, s4)" by fastforce
  have f4: "app_frame D s0 s4" "st_gpregret s4 = st_gpregret s" "ok4 \<Longrightarrow> installed b s0 m s4"
    using finish_app_update_frame [OF fu assms(2) f3(1) assms(4)] f3(2) finish_app_update_installed [of b m s3 s4 s0] fu assms f3(1) by simp_all
  have "(\<exists>code. fail_apply D b code s2 = (r, s') \<or> fail_apply D b code s3 = (r, s')) \<or> finish_apply D b ok4 s4 = (r, s')"
    using assms(1) run fl fu b1 unfolding apply_delta_def Let_def s1_def [symmetric]
    by (auto simp: c_def [symmetric] split: if_splits)
  then show ?thesis
  proof (elim disjE exE)
    fix code assume "fail_apply D b code s2 = (r, s')"
    from fail_apply_frame [OF this] show ?thesis using f2 by simp
  next
    fix code assume "fail_apply D b code s3 = (r, s')"
    from fail_apply_frame [OF this] show ?thesis using f3 by simp
  next
    assume "finish_apply D b ok4 s4 = (r, s')"
    then show ?thesis using finish_apply_frame [of b ok4 s4 r s'] f4 finish_installed [of b s0 m s4 ok4 r s'] by simp
  qed
qed

lemma workspace_bounds:
  assumes "unat (app_base D s0) < unat app_limit" "unat app_limit \<le> 0xED000" "app_base D s = app_base D s0"
    "\<not> external_staged_source b s \<Longrightarrow> unat (app_base D s0) \<le> unat mota_addr \<and> unat mota_addr \<le> 0xED000"
  shows "unat (app_base D s0) \<le> unat (workspace_end D b mota_addr app_limit s) \<and> unat (workspace_end D b mota_addr app_limit s) \<le> 0xED000"
proof (cases "external_staged_source b s")
  case True
  then have "b_sd_card b \<or> b_qspi_flash b" by (auto simp: external_staged_source_def sd_source_def)
  then show ?thesis using True assms by (simp add: workspace_end_def)
next
  case False
  then show ?thesis using assms by (auto simp: workspace_end_def word_less_nat_alt)
qed

lemma apply_app_container_frame:
  assumes "apply_app_container D b dt mota_addr m app_limit s = (r, s')" "b_chip b = NRF52840" "app_frame D s0 s" "app_window D s0"
    "approval_ok b m s0 s" "unat app_limit \<le> 0xED000"
    "\<not> external_staged_source b s \<Longrightarrow> unat (app_base D s0) \<le> unat mota_addr \<and> unat mota_addr \<le> 0xED000"
  shows "app_frame D s0 s' \<and> st_gpregret s' = st_gpregret s \<and> (r \<longrightarrow> mm_format_ver m = 2 \<and> installed b s0 m s')"
proof -
  have done_reject: ?thesis if "reject_apply D b m code t = (r, s')" "app_frame D s0 t" "approval_ok b m s0 t" "st_gpregret t = st_gpregret s" for code t
    using reject_apply_frame [OF that(1,2) assms(4) that(3)] that(4) by simp
  show ?thesis
  proof (cases "mm_format_ver m \<noteq> 2 \<or> mm_flags m AND NOT (MFLAG_FULL OR MFLAG_SIGNED) \<noteq> 0")
    case True
    then show ?thesis using assms(1,3,5) by (intro done_reject) (simp_all add: apply_app_container_def)
  next
    case v: False
    obtain ok1 s1 where a: "(if sd_source b s then sd_authorized_container_valid D b s else (True, s)) = (ok1, s1)" by fastforce
    then have ms: "media_step D s s1" by (auto simp: sd_authorized_container_valid_def split: if_splits dest: region_hash_step)
    have f1: "app_frame D s0 s1" "st_gpregret s1 = st_gpregret s" "approval_ok b m s0 s1"
      using app_frame_media [OF ms assms(3)] media_step_keeps [OF ms] assms(5) by (auto simp: approval_ok_def)
    have ext: "external_staged_source b s1 = external_staged_source b s" using media_step_keeps(17) [OF ms] .
    have b1: "app_base D s1 = app_base D s0" using f1(1) assms(4) by (rule app_base_stable)
    have run: "apply_app_container D b dt mota_addr m app_limit s =
      (if \<not> ok1 then reject_apply D b m 0xBD s1
       else if external_staged_source b s1 \<and> mm_is_full m
       then (let (ok, t) = apply_full_external D b m s1 in finish_apply D b ok t)
       else if mm_is_full m \<or> mm_codec_id m \<noteq> CODEC_INPLACE \<or> mm_image_size m = 0 \<or> mm_image_size m > app_limit - app_base D s1
       then reject_apply D b m 0xB3 s1
       else case find_body_len D app_limit s1 of None \<Rightarrow> reject_apply D b m 0xB4 s1
          | Some body_len \<Rightarrow>
             if take 8 (sha256_region D b (app_base D s1) body_len s1) \<noteq> mm_base_hash m then reject_apply D b m 0xB5 s1
             else let ws_end = workspace_end D b mota_addr app_limit s1;
                      (ok, t) = dt_geometry_ok D b m body_len (ws_end - app_base D s1) s1
                  in if \<not> ok then reject_apply D b m 0xB9 t
                     else let (ok, t) = clear_approval D b m t
                     in if \<not> ok then fail_apply D b 0xBC t else apply_delta D b dt m ws_end t)"
      using v a unfolding apply_app_container_def by (simp only: Let_def prod.case if_False)
    consider (rej) code where "reject_apply D b m code s1 = (r, s')"
      | (ext) ok t where "apply_full_external D b m s1 = (ok, t)" "finish_apply D b ok t = (r, s')"
      | (delta) body_len where "mm_image_size m \<le> app_limit - app_base D s1" "find_body_len D app_limit s1 = Some body_len"
          "(let ws_end = workspace_end D b mota_addr app_limit s1;
                (ok, t) = dt_geometry_ok D b m body_len (ws_end - app_base D s1) s1
            in if \<not> ok then reject_apply D b m 0xB9 t
               else let (ok, t) = clear_approval D b m t
               in if \<not> ok then fail_apply D b 0xBC t else apply_delta D b dt m ws_end t) = (r, s')"
      using assms(1) unfolding run by (auto simp: not_less split: if_splits prod.splits option.splits)
    then show ?thesis
    proof cases
      case rej
      then show ?thesis using f1 by (intro done_reject)
    next
      case ext
      note x = apply_full_external_frame [OF ext(1) assms(2) f1(1) assms(4) f1(3)]
      show ?thesis using x finish_apply_frame [OF ext(2)] f1(2) v finish_installed [OF _ ext(2), of s0 m] by auto
    next
      case delta
      note fb = find_body_len_first(1) [OF delta(2)]
      define ws where "ws = workspace_end D b mota_addr app_limit s1"
      have w: "unat (app_base D s0) \<le> unat ws \<and> unat ws \<le> 0xED000"
        unfolding ws_def using fb b1 assms(6,7) ext by (intro workspace_bounds) (simp_all add: word_less_nat_alt)
      have sz: "unat (app_base D s0) + unat (mm_image_size m) \<le> 0xED000"
        using delta(1) fb b1 assms(6) by (simp add: word_less_nat_alt word_le_nat_alt unat_sub_le)
      obtain ok2 s2 where g: "dt_geometry_ok D b m body_len (ws - app_base D s1) s1 = (ok2, s2)" by fastforce
      note ms2 = geometry_step [OF g]
      have f2: "app_frame D s0 s2" "st_gpregret s2 = st_gpregret s" "approval_ok b m s0 s2"
        using app_frame_media [OF ms2 f1(1)] media_step_keeps [OF ms2] f1 by (auto simp: approval_ok_def)
      obtain ok3 s3 where c: "clear_approval D b m s2 = (ok3, s3)" by fastforce
      note f3 = clear_approval_frame [OF c f2(1) assms(4) f2(3)]
      have g3: "st_gpregret s3 = st_gpregret s" using cache_step_keeps(2) [OF f3(2)] f2(2) by simp
      consider "reject_apply D b m 0xB9 s2 = (r, s')" | "fail_apply D b 0xBC s3 = (r, s')" | "apply_delta D b dt m ws s3 = (r, s')"
        using delta(3) g c by (auto simp: ws_def [symmetric] split: if_splits)
      then show ?thesis
      proof cases
        case 1
        then show ?thesis using f2 by (intro done_reject)
      next
        case 2
        then show ?thesis using fail_apply_frame [OF 2] f3 g3 by auto
      next
        case 3
        then show ?thesis using apply_delta_frame [OF 3 assms(2) f3(1) assms(4)] w sz g3 v by auto
      qed
    qed
  qed
qed

lemma take_placed:
  assumes "hybrid_handoff_take D s = (ok, s')" "app_base D s = app_base D s0"
  shows "fmem D s' = fmem D s" "hybrid_placed b s0 s'" "app_frame D s0 s \<Longrightarrow> app_frame D s0 s'" "st_gpregret s' = st_gpregret s"
proof -
  obtain raw s1 where t: "retained_handoff_take 0x20006008 s = (raw, s1)" by fastforce
  then have s1: "s1 = s\<lparr>st_ram := st_ram s1\<rparr>" by (auto simp: retained_handoff_take_def)
  then have b1: "app_base D s1 = app_base D s0" using assms(2) by (metis app_base_def mota_st.ext_inject mota_st.surjective mota_st.update_convs(2))
  have r: "(ok, s') = (if hybrid_geometry_ok D s1 (hybrid_of_bytes raw) then (True, s1\<lparr>g_hybrid := hybrid_of_bytes raw\<rparr>)
      else (False, s1\<lparr>g_hybrid := hybrid_of_bytes raw\<lparr>hh_container_total := 0\<rparr>\<rparr>))"
    using assms(1) t by (simp add: hybrid_handoff_take_def Let_def)
  have e: "fmem D s1 = fmem D s" "st_gpregret s1 = st_gpregret s" "app_frame D s0 s \<Longrightarrow> app_frame D s0 s1"
    using t by (auto simp: retained_handoff_take_def)
  show "fmem D s' = fmem D s" "app_frame D s0 s \<Longrightarrow> app_frame D s0 s'" "st_gpregret s' = st_gpregret s"
    using r e by (auto split: if_splits)
  show "hybrid_placed b s0 s'"
  proof (cases "hybrid_geometry_ok D s1 (hybrid_of_bytes raw)")
    case False
    then show ?thesis using r by (simp add: hybrid_placed_def hybrid_active_def)
  next
    case True
    define h where "h = hybrid_of_bytes raw"
    have g: "\<not> hh_flash_start h < app_base D s0" "\<not> hh_flash_start h > UINT32_MAX - hh_flash_len h"
      "hh_flash_start h + hh_flash_len h = 0xED000"
      using True b1 by (auto simp: hybrid_geometry_ok_def h_def layout_simps split: if_splits)
    have "unat (hh_flash_start h) + unat (hh_flash_len h) < 2 ^ 32"
      using g(2) unat_u32_lt [of "hh_flash_len h"] by (simp add: word_less_nat_alt unat_sub_le word_le_nat_alt)
    then have "unat (hh_flash_start h) \<le> unat (hh_flash_start h + hh_flash_len h)" by (simp add: unat_add_no_wrap)
    then show ?thesis using r True g by (simp add: hybrid_placed_def h_def [symmetric] word_less_nat_alt)
  qed
qed

lemma stage_limits: "unat (stage_ceiling_of b h) \<le> 0xED000" "unat (app_limit_of b (stage_ceiling_of b h) s) \<le> 0xED000"
  by (auto simp: stage_ceiling_of_def app_limit_of_def APP_APPLY_END_def layout_simps Let_def)

lemma select_source_frame:
  "fmem D (select_source D b h s) = fmem D s" "g_hybrid (select_source D b h s) = g_hybrid s"
  "st_gpregret (select_source D b h s) = st_gpregret s" "app_frame D s0 s \<Longrightarrow> app_frame D s0 (select_source D b h s)"
  using qspi_source_frame [of "st_dev s" h] by (auto simp: select_source_def Let_def intro: app_frame_dev)

lemma auth_take_frame:
  assumes "sd_auth_take p f s = (ok, s')"
  shows "fmem D s' = fmem D s" "g_hybrid s' = g_hybrid s" "st_gpregret s' = st_gpregret s" "app_frame D s0 s \<Longrightarrow> app_frame D s0 s'"
  using assms by (auto simp: sd_auth_take_def retained_handoff_take_def Let_def)

lemma hybrid_placed_cong: "g_hybrid s' = g_hybrid s \<Longrightarrow> hybrid_placed b s0 s \<Longrightarrow> hybrid_placed b s0 s'"
  by (simp add: hybrid_placed_def hybrid_active_def)

definition approved_install :: "build \<Rightarrow> 'd mota_st \<Rightarrow> 'd mota_st \<Rightarrow> bool" where
  "approved_install b s0 s' \<longleftrightarrow> (\<exists>c a m s1 s2. scan_mota D b c s1 = (Some (a, m), s2) \<and> fmem D s1 = fmem D s0 \<and>
     mm_approved m \<and> mm_format_ver m = 2 \<and> installed b s0 m s')"

lemma apply_app_update_frame:
  assumes "apply_app_update D b dt s = (r, s')" "b_chip b = NRF52840" "app_window D s0" "app_frame D s0 s" "fmem D s = fmem D s0"
    "hh_container_total (g_hybrid s) = 0"
  shows "app_frame D s0 s' \<and> st_gpregret s' = 0 \<and> (r \<longrightarrow> approved_install b s0 s')"
proof -
  define h where "h = st_gpregret2 s"
  define s1 where "s1 = (if b_sd_dual_store b \<or> b_rak_sd_store b
      then s\<lparr>st_gpregret := 0, st_gpregret2 := 0xB1, g_sd_source := (h = GPREGRET2_OTA_STAGE_SD)\<rparr>
      else s\<lparr>st_gpregret := 0, st_gpregret2 := 0xB1\<rparr>)"
  have i1: "fmem D s1 = fmem D s0" "app_frame D s0 s1" "st_gpregret s1 = 0" "g_hybrid s1 = g_hybrid s"
    using assms(4,5) by (auto simp: s1_def)
  have bs: "fmem D t = fmem D s0 \<Longrightarrow> app_base D t = app_base D s0" for t by (simp add: app_base_def)
  obtain ok1 s2 where t: "(if b_ram_arena b \<and> h = GPREGRET2_OTA_STAGE_HYBRID then hybrid_handoff_take D s1 else (True, s1)) = (ok1, s2)" by fastforce
  have i2: "fmem D s2 = fmem D s0 \<and> app_frame D s0 s2 \<and> st_gpregret s2 = 0 \<and> hybrid_placed b s0 s2"
  proof (cases "b_ram_arena b \<and> h = GPREGRET2_OTA_STAGE_HYBRID")
    case True
    then have "hybrid_handoff_take D s1 = (ok1, s2)" using t by simp
    from take_placed [OF this bs [OF i1(1)]] show ?thesis using i1 by simp
  next
    case False
    then have "s2 = s1" using t by (simp only: if_False prod.inject)
    then show ?thesis using i1 assms(6) by (simp add: hybrid_placed_def hybrid_active_def)
  qed
  define s3 where "s3 = select_source D b h s2"
  have i3: "fmem D s3 = fmem D s0" "app_frame D s0 s3" "st_gpregret s3 = 0" "hybrid_placed b s0 s3"
    using i2 select_source_frame hybrid_placed_cong by (simp_all add: s3_def)
  define c where "c = stage_ceiling_of b h"
  define lim where "lim = app_limit_of b c s3"
  obtain ok4 s4 where a: "(if sd_source b s3 then sd_auth_take MOTA_SD_AUTH_PURPOSE_APP 2 s3 else (True, s3)) = (ok4, s4)" by fastforce
  have i4: "fmem D s4 = fmem D s0 \<and> app_frame D s0 s4 \<and> st_gpregret s4 = 0 \<and> hybrid_placed b s0 s4"
    using a i3 auth_take_frame [of MOTA_SD_AUTH_PURPOSE_APP 2 s3 ok4 s4] hybrid_placed_cong [of s4 s3] by (auto split: if_splits)
  obtain ok5 s5 where hy: "(if hybrid_active b s4 then hybrid_authorized_container_valid D b s4 else (True, s4)) = (ok5, s5)" by fastforce
  then have "media_step D s4 s5"
    by (auto simp: hybrid_authorized_container_valid_def Let_def split: if_splits dest: region_hash_step)
  note k5 = media_step_keeps [OF this] app_frame_media [OF this]
  have i5: "fmem D s5 = fmem D s0" "app_frame D s0 s5" "st_gpregret s5 = 0" "hybrid_placed b s0 s5"
    using i4 k5 hybrid_placed_cong [of s5 s4] by simp_all
  obtain q s6 where sc: "scan_mota D b c s5 = (q, s6)" by fastforce
  note ms6 = scan_step [OF sc]
  have i6: "app_frame D s0 s6" "st_gpregret s6 = 0" using i5 media_step_keeps(5) [OF ms6] app_frame_media [OF ms6] by simp_all
  have run: "apply_app_update D b dt s =
      (if \<not> ok1 then fail_apply D b 0xBE s2 else if \<not> ok4 then fail_apply D b 0xBD s4 else if \<not> ok5 then fail_apply D b 0xBA s5
       else case q of None \<Rightarrow> fail_apply D b 0xB2 s6
          | Some (x, m) \<Rightarrow> if \<not> mm_approved m then fail_apply D b 0xB2 s6 else apply_app_container D b dt x m lim s6)"
    unfolding apply_app_update_def
    by (simp only: Let_def h_def [symmetric] s1_def [symmetric] t prod.case s3_def [symmetric] c_def [symmetric] lim_def [symmetric] a hy sc)
  have start: "(if \<not> ok1 then fail_apply D b 0xBE s2 else if \<not> ok4 then fail_apply D b 0xBD s4 else if \<not> ok5 then fail_apply D b 0xBA s5
       else case q of None \<Rightarrow> fail_apply D b 0xB2 s6
          | Some (x, m) \<Rightarrow> if \<not> mm_approved m then fail_apply D b 0xB2 s6 else apply_app_container D b dt x m lim s6) = (r, s')"
    using assms(1) run by simp
  consider (fail) code tt where "fail_apply D b code tt = (r, s')" "tt \<in> {s2, s4, s5, s6}"
    | (go) x m where "q = Some (x, m)" "mm_approved m" "apply_app_container D b dt x m lim s6 = (r, s')"
    using start by (cases q; cases ok1; cases ok4; cases ok5) (auto split: if_splits)
  then show ?thesis
  proof cases
    case fail
    then have "app_frame D s0 tt" "st_gpregret tt = 0" using i2 i4 i5 i6 by auto
    then show ?thesis using fail_apply_frame [OF fail(1)] by simp
  next
    case m: go
    have sc': "scan_mota D b c s5 = (Some (x, m), s6)" using sc m(1) by simp
    have pl: "unat (app_base D s0) \<le> unat x" "unat x \<le> 0xED000" "approval_ok b m s0 s5"
      if "\<not> sd_source b s5" "\<not> (b_qspi_flash b \<and> g_qspi_source s5)"
      using scan_place [OF sc' that i5(4) bs [OF i5(1)] assms(3)] by simp_all
    have ap: "approval_ok b m s0 s6" using pl(3) media_step_keeps [OF ms6] by (auto simp: approval_ok_def)
    have xp: "unat (app_base D s0) \<le> unat x \<and> unat x \<le> 0xED000" if "\<not> external_staged_source b s6"
      using that pl(1,2) media_step_keeps [OF ms6] by (auto simp: external_staged_source_def)
    have lm: "unat lim \<le> 0xED000" unfolding lim_def c_def by (rule stage_limits)
    from apply_app_container_frame [OF m(3) assms(2) i6(1) assms(3) ap lm xp]
    show ?thesis using i6(2) sc' i5(1) m(2) unfolding approved_install_def by auto blast
  qed
qed

lemma check_and_apply_app:
  assumes "b_chip b = NRF52840" "app_window D s" "g_cache_page s = 0" "length (g_cache s) = 4096"
    "hh_container_total (g_hybrid s) = 0" "st_gpregret s = GPREGRET_OTA_APPLY"
    "ota_delta_check_and_apply D b inst dt s = (r, s')"
  shows "app_frame D s s' \<and> st_gpregret s' = 0 \<and> (r \<longrightarrow> approved_install b s s')"
proof -
  define t where "t = (if b_rak_sd_store b
      then s\<lparr>g_sd_source := False, g_sd_active := False, g_sd_auth_loaded := False, g_qspi_source := False,
             g_qspi_total_size := 0, g_hybrid := g_hybrid s\<lparr>hh_container_total := 0\<rparr>\<rparr> else s)"
  have "apply_app_update D b dt t = (r, s')"
    using assms(6,7) by (auto simp: ota_delta_check_and_apply_def Let_def t_def layout_simps split: if_splits)
  moreover have "app_frame D s s" using assms(3,4) by (auto simp: app_frame_def confined_def cache_ok_def)
  moreover have "app_frame D s s \<Longrightarrow> app_frame D s t" "fmem D t = fmem D s" "hh_container_total (g_hybrid t) = 0"
    using assms(5) by (simp_all add: t_def)
  ultimately show ?thesis using apply_app_update_frame [of b dt t r s' s] assms(1,2) by simp
qed

end

text \<open>
  C1. However the application update ends, and whatever the decoder does, the trigger is consumed and flash is unchanged outside the
  application region and the settings page: MBR, SoftDevice, bootloader, MBR parameters and everything above the application end survive every
  container, every decoder and every device fault that stays within a page.
\<close>

theorem app_update_confined:
  assumes "mota_device D" "b_chip b = NRF52840" "app_window D s" "g_cache_page s = 0" "length (g_cache s) = 4096"
    "hh_container_total (g_hybrid s) = 0" "st_gpregret s = GPREGRET_OTA_APPLY"
    "ota_delta_check_and_apply D b inst dt s = (r, s')"
  shows "st_gpregret s' = 0 \<and>
    (\<forall>a. \<not> in_page 0xFF000 a \<and> \<not> (unat (app_base D s) \<le> unat a \<and> unat a < 0xED000) \<longrightarrow> fmem D s' a = fmem D s a)"
  using mota_device.check_and_apply_app [OF assms] app_frame_mem [of D s s'] by blast


end
