(* ===== verification/Mota_Install.thy ===== *)
theory Mota_Install
  imports Mota_Safety
begin

text \<open>
  What the applier achieves on a device that works: the interface \<open>sound_device\<close> adds to \<open>mota_device\<close> that erases and
  programmings of the internal flash take effect and that the external chip holds a fixed byte sequence.  A full image staged
  there is then installed, byte for byte, and the settings vouch for it.
\<close>

section \<open>A device that works\<close>

locale sound_device = mota_device D for D :: "'d mota_dev" +
  fixes good :: "'d \<Rightarrow> bool" and media :: "'d \<Rightarrow> bytes"
  assumes good_erase: "good d \<Longrightarrow> good (dv_erase D d p) \<and> dv_mem D (dv_erase D d p) = fl_erase (dv_mem D d) p \<and> media (dv_erase D d p) = media d"
    and good_write: "good d \<Longrightarrow> good (dv_write D d a ws) \<and> dv_mem D (dv_write D d a ws) = fl_write_words (dv_mem D d) a ws \<and>
      media (dv_write D d a ws) = media d"
    and good_init: "good d \<Longrightarrow> fst (dv_qspi_init D d) \<and> good (snd (dv_qspi_init D d)) \<and> media (snd (dv_qspi_init D d)) = media d"
    and good_capacity: "good d \<Longrightarrow> dv_qspi_capacity D d = of_nat (length (media d)) \<and> length (media d) < 2 ^ 32"
    and good_read: "good d \<Longrightarrow> unat off + n \<le> length (media d) \<Longrightarrow>
      dv_qspi_read D d off n = (Some (take n (drop (unat off) (media d))), d)"
    and good_program: "good d \<Longrightarrow> unat off + length bs \<le> length (media d) \<Longrightarrow> fst (dv_qspi_write D d off bs) \<and>
      good (snd (dv_qspi_write D d off bs)) \<and> media (snd (dv_qspi_write D d off bs)) = list_program (media d) (unat off) bs"

interpretation host_sound: sound_device host_dev "\<lambda>d. h_faults d = 0 \<and> length (h_qspi d) < 2 ^ 32" h_qspi
proof
  fix d :: host and off :: u32 and bs :: bytes
  assume "h_faults d = 0 \<and> length (h_qspi d) < 2 ^ 32" "unat off + length bs \<le> length (h_qspi d)"
  then show "fst (dv_qspi_write host_dev d off bs) \<and>
      (h_faults (snd (dv_qspi_write host_dev d off bs)) = 0 \<and> length (h_qspi (snd (dv_qspi_write host_dev d off bs))) < 2 ^ 32) \<and>
      h_qspi (snd (dv_qspi_write host_dev d off bs)) = list_program (h_qspi d) (unat off) bs"
    by (simp add: host_dev_def host_qspi_write_def list_program_def)
qed (auto simp: host_dev_def host_write_def Let_def list_read_def)

section \<open>The settings record after a commit\<close>

lemma program_bytes_swap: "program_bytes (program_bytes m a xs) c ys = program_bytes (program_bytes m c ys) a xs"
  by (rule ext) (simp add: program_bytes_def ac_simps)

lemma three_part_program:
  assumes "length xs = 4" "length ys = 4" "length zs \<le> 4088"
  shows "program_bytes (program_bytes (program_bytes m (a + 8) zs) (a + 4) ys) a xs = program_bytes m a (xs @ ys @ zs)"
proof -
  have "program_bytes m a (xs @ ys @ zs) = program_bytes (program_bytes (program_bytes m a xs) (a + 4) ys) (a + 4 + 4) zs"
    using assms program_bytes_append [of xs "ys @ zs" m a] program_bytes_append [of ys zs "program_bytes m a xs" "a + 4"] by simp
  also have "a + 4 + 4 = a + 8" by simp
  finally have *: "program_bytes m a (xs @ ys @ zs) = program_bytes (program_bytes (program_bytes m a xs) (a + 4) ys) (a + 8) zs" .
  show ?thesis unfolding * program_bytes_swap [of _ "a + 4" ys a xs] program_bytes_swap [of _ "a + 8" zs a xs]
    program_bytes_swap [of _ "a + 8" zs "a + 4" ys] ..
qed

context sound_device
begin

lemma commit_sound:
  fixes bank0 crc :: u16 and sz :: u32
  assumes "good (st_dev s)" "b_chip b = NRF52840"
  defines "s' \<equiv> otah_settings_commit D b bank0 crc sz s"
  shows "good (st_dev s')" "media (st_dev s') = media (st_dev s)" "s' = s\<lparr>st_dev := st_dev s'\<rparr>"
    "fmem D s' = program_bytes (fl_erase (fmem D s) 0xFF000) 0xFF000 (settings_bytes (commit_record bank0 crc sz))"
proof -
  define ws where "ws = words_of_bytes (settings_bytes (commit_record bank0 crc sz))"
  have l: "length ws = 8" by (simp add: ws_def)
  have a: "BOOTLOADER_SETTINGS_ADDRESS (b_chip b) = 0xFF000" using assms(2) by simp
  define d1 where "d1 = dv_erase D (st_dev s) 0xFF000"
  define d2 where "d2 = dv_write D d1 (0xFF000 + 8) (drop 2 ws)"
  define d3 where "d3 = dv_write D d2 (0xFF000 + 4) [ws ! 1]"
  define d4 where "d4 = dv_write D d3 0xFF000 [ws ! 0]"
  have s': "s' = s\<lparr>st_dev := d4\<rparr>"
    unfolding s'_def otah_settings_commit_def Let_def ws_def [symmetric] a d1_def [symmetric] d2_def [symmetric] d3_def [symmetric] d4_def [symmetric] ..
  have g1: "good d1" "dv_mem D d1 = fl_erase (fmem D s) 0xFF000" "media d1 = media (st_dev s)"
    using good_erase [OF assms(1)] by (simp_all add: d1_def)
  have g2: "good d2" "dv_mem D d2 = fl_write_words (dv_mem D d1) (0xFF000 + 8) (drop 2 ws)" "media d2 = media (st_dev s)"
    using good_write [OF g1(1)] g1(3) by (simp_all add: d2_def)
  have g3: "good d3" "dv_mem D d3 = fl_write_words (dv_mem D d2) (0xFF000 + 4) [ws ! 1]" "media d3 = media (st_dev s)"
    using good_write [OF g2(1)] g2(3) by (simp_all add: d3_def)
  have g4: "good d4" "dv_mem D d4 = fl_write_words (dv_mem D d3) 0xFF000 [ws ! 0]" "media d4 = media (st_dev s)"
    using good_write [OF g3(1)] g3(3) by (simp_all add: d4_def)
  have split: "ws = ws ! 0 # ws ! 1 # drop 2 ws"
    using l Cons_nth_drop_Suc [of 0 ws] Cons_nth_drop_Suc [of 1 ws] by (simp add: numeral_2_eq_2)
  have "concat (map wr_u32 ws) = settings_bytes (commit_record bank0 crc sz)" by (simp add: ws_def)
  then have c: "wr_u32 (ws ! 0) @ wr_u32 (ws ! 1) @ concat (map wr_u32 (drop 2 ws)) = settings_bytes (commit_record bank0 crc sz)"
    using arg_cong [OF split, of "\<lambda>xs. concat (map wr_u32 xs)"] by simp
  have "dv_mem D d4 = program_bytes (program_bytes (program_bytes (dv_mem D d1) (0xFF000 + 8) (concat (map wr_u32 (drop 2 ws))))
      (0xFF000 + 4) (wr_u32 (ws ! 1))) 0xFF000 (wr_u32 (ws ! 0))"
    unfolding g4(2) g3(2) g2(2) using l by (simp add: fl_write_words_program fl_write_word_def)
  also have "\<dots> = program_bytes (dv_mem D d1) 0xFF000 (settings_bytes (commit_record bank0 crc sz))"
    using l c by (subst three_part_program) (simp_all add: length_concat_wr)
  finally show "fmem D s' = program_bytes (fl_erase (fmem D s) 0xFF000) 0xFF000 (settings_bytes (commit_record bank0 crc sz))"
    using g1(2) by (simp add: s')
  show "good (st_dev s')" "media (st_dev s') = media (st_dev s)" "s' = s\<lparr>st_dev := st_dev s'\<rparr>"
    using g4 by (simp_all add: s')
qed

lemma commit_frame:
  assumes "good (st_dev s)" "b_chip b = NRF52840" "\<not> in_page 0xFF000 x"
  shows "fmem D (otah_settings_commit D b bank0 crc sz s) x = fmem D s x"
  using assms(3) by (simp add: commit_sound(4) [OF assms(1,2)] fl_erase_frame program_in_page_frame [of "0xFF000" x 0])

lemma commit_read:
  assumes "good (st_dev s)" "b_chip b = NRF52840"
  shows "fl_read D (otah_settings_commit D b bank0 crc sz s) 0xFF000 32 = settings_bytes (commit_record bank0 crc sz)"
proof -
  have "rd_bytes (program_bytes (fl_erase (fmem D s) 0xFF000) 0xFF000 (settings_bytes (commit_record bank0 crc sz))) 0xFF000
      (length (settings_bytes (commit_record bank0 crc sz))) = settings_bytes (commit_record bank0 crc sz)"
    by (rule nor.erase_then_program) (simp_all add: in_page_iff unat_of_nat_u32)
  then show ?thesis by (simp add: fl_read_def commit_sound(4) [OF assms])
qed

section \<open>Copying a staged image\<close>

definition qspi_selected :: "build \<Rightarrow> 'd mota_st \<Rightarrow> bool" where
  "qspi_selected b s \<longleftrightarrow> \<not> sd_source b s \<and> \<not> hybrid_active b s \<and> b_qspi_flash b \<and> g_qspi_source s"

lemma qspi_staged_read:
  assumes "qspi_selected b s" "good (st_dev s)" "unat a + unat n \<le> unat (g_qspi_total_size s)"
    "unat (g_qspi_total_size s) \<le> length (media (st_dev s))"
  shows "staged_read D b a n s = (Some (take (unat n) (drop (unat a) (media (st_dev s)))), s)"
proof -
  have "\<not> (a > g_qspi_total_size s \<or> n > g_qspi_total_size s - a)"
    using assms(3) in_range_u32_iff [of a n "g_qspi_total_size s"] by (simp add: in_range_u32_def)
  then show ?thesis
    using assms good_read [OF assms(2), of a "unat n"] by (simp add: staged_read_def qspi_selected_def)
qed

lemma qspi_view:
  assumes "qspi_selected b s" "good (st_dev s)" "unat addr + unat len \<le> unat (g_qspi_total_size s)"
    "unat (g_qspi_total_size s) \<le> length (media (st_dev s))" "length (media (st_dev s)) < 2 ^ 32"
  shows "staged_view D b s (flash_with 0 (media (st_dev s))) addr len"
  unfolding staged_view_def
proof (intro allI impI)
  fix a n :: u32 assume r: "unat addr \<le> unat a \<and> unat a + unat n \<le> unat addr + unat len"
  then have "rd_bytes (flash_with 0 (media (st_dev s))) (0 + of_nat (unat a)) (unat n) = take (unat n) (drop (unat a) (media (st_dev s)))"
    using assms by (intro rd_flash_with) simp_all
  then show "staged_read D b a n s = (Some (rd_bytes (flash_with 0 (media (st_dev s))) a (unat n)), s)"
    using qspi_staged_read [OF assms(1,2) _ assms(4), of a n] r assms(3) by simp
qed

lemma page_write_sound:
  assumes "good (st_dev s)" "length bs = 4096"
  obtains s' where "flash_page_write_verified D page (words_of_bytes bs) s = (True, s')" "good (st_dev s')"
    "media (st_dev s') = media (st_dev s)" "s' = s\<lparr>st_dev := st_dev s'\<rparr>" "rd_bytes (fmem D s') page 4096 = bs"
    "\<And>a. \<not> in_page page a \<Longrightarrow> fmem D s' a = fmem D s a"
proof -
  define d where "d = dv_write D (dv_erase D (st_dev s) page) page (words_of_bytes bs)"
  note e = good_erase [OF assms(1), of page] and w = good_write [of "dv_erase D (st_dev s) page" page "words_of_bytes bs"]
  have d: "good d" "media d = media (st_dev s)" "dv_mem D d = fl_write_words (fl_erase (fmem D s) page) page (words_of_bytes bs)"
    using e w by (simp_all add: d_def)
  have r: "rd_bytes (dv_mem D d) page 4096 = bs" unfolding d(3) using assms(2) by (rule host_fresh_page)
  have run: "flash_page_write_verified D page (words_of_bytes bs) s = (True, s\<lparr>st_dev := d\<rparr>)"
    using r assms(2) by (simp add: flash_page_write_verified_def flash_page_change_verified_def FLASH_PAGE_ATTEMPTS_def numeral_3_eq_3
        Let_def matches_bytes d_def [symmetric])
  show ?thesis using that [OF run] d r write_verified(2) [OF run assms(2)] by simp
qed

end

text \<open>The bytes a page copy lays down: the image, then \<open>0xFF\<close> up to the end of its last page.\<close>

definition padded_image :: "bytes \<Rightarrow> bytes" where
  "padded_image img = img @ replicate (4096 * ((length img + 4095) div 4096) - length img) 0xFF"

lemma length_padded [simp]: "length (padded_image img) = 4096 * ((length img + 4095) div 4096)"
proof -
  have "length img \<le> 4096 * ((length img + 4095) div 4096)" by linarith
  then show ?thesis by (simp add: padded_image_def)
qed

lemma padded_page:
  assumes "4096 * j < length img"
  shows "take 4096 (drop (4096 * j) (padded_image img)) =
    take 4096 (drop (4096 * j) img) @ replicate (4096 - length (take 4096 (drop (4096 * j) img))) 0xFF"
proof -
  define k where "k = 4096 * ((length img + 4095) div 4096) - length img"
  have p: "padded_image img = img @ replicate k 0xFF" by (simp add: padded_image_def k_def)
  show ?thesis
  proof (cases "4096 * j + 4096 \<le> length img")
    case False
    have "(length img + 4095) div 4096 = Suc j" using False assms by (intro div_nat_eqI) auto
    then have "4096 * j + 4096 = length img + k" using False assms unfolding k_def by simp
    then have "4096 - (length img - 4096 * j) = k" using assms by linarith
    then show ?thesis using False assms by (simp add: p)
  qed (simp add: p)
qed

lemma page_index:
  assumes "unat dest + 4096 * (j + 1) \<le> 2 ^ 32"
  shows "in_page (dest + of_nat j * 0x1000) a \<longleftrightarrow> 4096 * j \<le> unat (a - dest) \<and> unat (a - dest) < 4096 * (j + 1)"
    (is "?l \<longleftrightarrow> ?r")
proof -
  have nj: "unat (of_nat j * 0x1000 :: u32) = 4096 * j"
  proof -
    have "(of_nat j * 0x1000 :: u32) = of_nat (4096 * j)" by (simp add: mult.commute)
    moreover have "unat (of_nat (4096 * j) :: u32) = 4096 * j" using assms by (intro unat_of_nat_u32) simp
    ultimately show ?thesis by (simp only:)
  qed
  have sub: "a - (dest + of_nat j * 0x1000) = a - dest - of_nat j * 0x1000" by simp
  show ?thesis
  proof (cases "4096 * j \<le> unat (a - dest)")
    case True
    then have "unat (a - dest - of_nat j * 0x1000) = unat (a - dest) - 4096 * j"
      using nj by (subst unat_sub_le) (simp_all add: word_le_nat_alt)
    then show ?thesis using True by (auto simp: in_page_iff sub)
  next
    case False
    then have "unat (a - dest - of_nat j * 0x1000) = unat (a - dest) + 2 ^ 32 - 4096 * j"
      using nj by (simp add: unat_sub_if_size word_size)
    then show ?thesis using False assms by (auto simp: in_page_iff sub)
  qed
qed

context sound_device
begin

lemma copy_page_sound:
  assumes "qspi_selected b s" "good (st_dev s)" "unat (mm_payload_addr m) + unat (mm_image_size m) \<le> unat (g_qspi_total_size s)"
    "unat (g_qspi_total_size s) \<le> length (media (st_dev s))" "4096 * j < unat (mm_image_size m)" "unat dest + 4096 * (j + 1) \<le> 2 ^ 32"
  defines "img \<equiv> take (unat (mm_image_size m)) (drop (unat (mm_payload_addr m)) (media (st_dev s)))"
  obtains s' where "copy_pages D b m dest ((of_nat j * PAGE) # offs) s = copy_pages D b m dest offs s'"
    "good (st_dev s')" "media (st_dev s') = media (st_dev s)" "s' = s\<lparr>st_dev := st_dev s', g_cache := g_cache s'\<rparr>"
    "\<And>a. fmem D s' a = (if 4096 * j \<le> unat (a - dest) \<and> unat (a - dest) < 4096 * (j + 1)
        then padded_image img ! unat (a - dest) else fmem D s a)"
proof -
  define off :: u32 where "off = of_nat j * PAGE"
  define sz where "sz = unat (mm_image_size m)"
  have szu: "sz < 2 ^ 32" using unat_u32_lt [of "mm_image_size m"] by (simp add: sz_def)
  have off: "unat off = 4096 * j"
  proof -
    have "off = of_nat (4096 * j)" by (simp add: off_def mult.commute)
    moreover have "unat (of_nat (4096 * j) :: u32) = 4096 * j" using assms(5) szu by (intro unat_of_nat_u32) (simp add: sz_def)
    ultimately show ?thesis by (simp only:)
  qed
  define n where "n = (if mm_image_size m - off > PAGE then PAGE else mm_image_size m - off)"
  have rest: "unat (mm_image_size m - off) = sz - 4096 * j"
    using assms(5) off by (subst unat_sub_le) (simp_all add: word_le_nat_alt sz_def)
  have n: "unat n = min 4096 (sz - 4096 * j)" using rest by (simp add: n_def word_less_nat_alt)
  have lm: "length img = sz" using assms(3,4) by (simp add: img_def sz_def)
  have pay: "unat (mm_payload_addr m) + sz < 2 ^ 32"
    using assms(3) unat_u32_lt [of "g_qspi_total_size s"] by (simp add: sz_def)
  have addr: "unat (mm_payload_addr m + off) = unat (mm_payload_addr m) + 4096 * j"
    using pay assms(5) off by (subst unat_add_no_wrap) (simp_all add: sz_def)
  define s0 where "s0 = s\<lparr>g_cache := replicate 4096 0xFF\<rparr>"
  have s0: "qspi_selected b s0" "good (st_dev s0)" "g_qspi_total_size s0 = g_qspi_total_size s" "st_dev s0 = st_dev s"
    using assms(1,2) by (auto simp: s0_def qspi_selected_def sd_source_def hybrid_active_def split: if_splits)
  define bs where "bs = take 4096 (drop (4096 * j) img)"
  have bs: "bs = take (unat n) (drop (unat (mm_payload_addr m + off)) (media (st_dev s)))"
    unfolding addr by (simp add: bs_def img_def n sz_def [symmetric] drop_take add.commute)
  have rd: "staged_read D b (mm_payload_addr m + off) n s0 = (Some bs, s0)"
    using qspi_staged_read [OF s0(1,2), of "mm_payload_addr m + off" n] s0(3,4) addr n assms(3,4,5) unfolding bs sz_def by simp
  define pg where "pg = bs @ replicate (4096 - unat n) 0xFF"
  have lb: "length bs = unat n" using lm by (simp add: bs_def n)
  have pg: "pg = take 4096 (drop (4096 * j) (padded_image img))" "length pg = 4096"
    using padded_page [of j img] assms(5) lm lb n by (simp_all add: pg_def bs_def [symmetric] sz_def)
  define s1 where "s1 = s0\<lparr>g_cache := pg\<rparr>"
  obtain s2 where s2: "flash_page_write_verified D (dest + off) (words_of_bytes pg) s1 = (True, s2)" "good (st_dev s2)"
      "media (st_dev s2) = media (st_dev s1)" "s2 = s1\<lparr>st_dev := st_dev s2\<rparr>" "rd_bytes (fmem D s2) (dest + off) 4096 = pg"
      "\<And>a. \<not> in_page (dest + off) a \<Longrightarrow> fmem D s2 a = fmem D s1 a"
    using page_write_sound [of s1 pg "dest + off"] s0(2) pg(2) by (auto simp: s1_def)
  have run: "copy_pages D b m dest (off # offs) s = copy_pages D b m dest offs s2"
    by (simp add: n_def [symmetric] s0_def [symmetric] rd pg_def [symmetric] s1_def [symmetric] s2(1) Let_def)
  have mem: "fmem D s2 a = (if 4096 * j \<le> unat (a - dest) \<and> unat (a - dest) < 4096 * (j + 1)
        then padded_image img ! unat (a - dest) else fmem D s a)" for a
  proof (cases "in_page (dest + off) a")
    case True
    then have r: "4096 * j \<le> unat (a - dest)" "unat (a - dest) < 4096 * (j + 1)"
      using page_index [OF assms(6), of a] by (simp_all add: off_def)
    have "off \<le> a - dest" using r(1) off by (simp add: word_le_nat_alt)
    then have i: "unat (a - (dest + off)) = unat (a - dest) - 4096 * j" using unat_sub_le [of off "a - dest"] off by (simp add: diff_diff_eq)
    have "fmem D s2 a = pg ! unat (a - (dest + off))" using rd_bytes_page [OF True, of "fmem D s2"] s2(5) by simp
    also have "\<dots> = padded_image img ! unat (a - dest)" using r pg lm by (simp add: pg(1) i)
    finally show ?thesis using r by simp
  next
    case False
    then show ?thesis using s2(6) [OF False] page_index [OF assms(6), of a] by (auto simp: off_def s1_def s0_def)
  qed
  have st: "s2 = s\<lparr>st_dev := st_dev s2, g_cache := g_cache s2\<rparr>" 
  proof -
    have "g_cache s2 = pg" by (subst s2(4)) (simp add: s1_def)
    then show ?thesis by (subst s2(4)) (simp add: s1_def s0_def)
  qed
  show ?thesis using that [OF run [unfolded off_def] s2(2) _ st mem] s2(3) by (simp add: s1_def s0_def)
qed

lemma qspi_selected_upd [simp]:
  "qspi_selected b (s\<lparr>st_dev := d\<rparr>) = qspi_selected b s" "qspi_selected b (s\<lparr>g_cache := c\<rparr>) = qspi_selected b s"
  "qspi_selected b (s\<lparr>st_gpregret2 := x\<rparr>) = qspi_selected b s" "qspi_selected b (s\<lparr>g_cache_page := p\<rparr>) = qspi_selected b s"
  "qspi_selected b (s\<lparr>g_cache_dirty := y\<rparr>) = qspi_selected b s" "qspi_selected b (s\<lparr>g_qspi_total_size := x\<rparr>) = qspi_selected b s"
  by (simp_all add: qspi_selected_def sd_source_def hybrid_active_def)

lemma copy_pages_sound:
  assumes "qspi_selected b s" "good (st_dev s)" "unat (mm_payload_addr m) + unat (mm_image_size m) \<le> unat (g_qspi_total_size s)"
    "unat (g_qspi_total_size s) \<le> length (media (st_dev s))" "j \<le> N" "N = (unat (mm_image_size m) + 4095) div 4096"
    "unat dest + 4096 * N \<le> 2 ^ 32"
  shows "\<exists>s'. copy_pages D b m dest (map (\<lambda>k. of_nat k * PAGE) [j..<N]) s = (0, s') \<and> good (st_dev s') \<and>
    media (st_dev s') = media (st_dev s) \<and> s' = s\<lparr>st_dev := st_dev s', g_cache := g_cache s'\<rparr> \<and>
    (\<forall>a. fmem D s' a = (if 4096 * j \<le> unat (a - dest) \<and> unat (a - dest) < 4096 * N
       then padded_image (take (unat (mm_image_size m)) (drop (unat (mm_payload_addr m)) (media (st_dev s)))) ! unat (a - dest)
       else fmem D s a))"
  using assms
proof (induction "N - j" arbitrary: j s)
  case 0
  then show ?case by auto
next
  case (Suc k)
  then have j: "j < N" by simp
  have lt: "4096 * j < unat (mm_image_size m)" using j Suc.prems(6) by (auto simp: less_mult_imp_div_less div_add_self1 dest: less_le_trans)
  have wr: "unat dest + 4096 * (j + 1) \<le> 2 ^ 32" using j Suc.prems(7) by simp
  obtain s1 where s1: "copy_pages D b m dest ((of_nat j * PAGE) # map (\<lambda>k. of_nat k * PAGE) [Suc j..<N]) s =
        copy_pages D b m dest (map (\<lambda>k. of_nat k * PAGE) [Suc j..<N]) s1"
      "good (st_dev s1)" "media (st_dev s1) = media (st_dev s)" "s1 = s\<lparr>st_dev := st_dev s1, g_cache := g_cache s1\<rparr>"
      "\<And>a. fmem D s1 a = (if 4096 * j \<le> unat (a - dest) \<and> unat (a - dest) < 4096 * (j + 1)
        then padded_image (take (unat (mm_image_size m)) (drop (unat (mm_payload_addr m)) (media (st_dev s)))) ! unat (a - dest)
        else fmem D s a)"
    using copy_page_sound [OF Suc.prems(1-4) lt wr] by metis
  have q: "qspi_selected b s1" "g_qspi_total_size s1 = g_qspi_total_size s"
    using Suc.prems(1) by (subst s1(4), simp)+
  have k: "k = N - Suc j" using Suc.hyps(2) by simp
  obtain s2 where s2: "copy_pages D b m dest (map (\<lambda>k. of_nat k * PAGE) [Suc j..<N]) s1 = (0, s2)" "good (st_dev s2)"
      "media (st_dev s2) = media (st_dev s1)" "s2 = s1\<lparr>st_dev := st_dev s2, g_cache := g_cache s2\<rparr>"
      "\<And>a. fmem D s2 a = (if 4096 * Suc j \<le> unat (a - dest) \<and> unat (a - dest) < 4096 * N
       then padded_image (take (unat (mm_image_size m)) (drop (unat (mm_payload_addr m)) (media (st_dev s1)))) ! unat (a - dest)
       else fmem D s1 a)"
    using Suc.hyps(1) [OF k q(1) s1(2) _ _ _ Suc.prems(6,7)] q(2) s1(3) Suc.prems(3,4) j by auto
  have "map (\<lambda>k. of_nat k * PAGE) [j..<N] = (of_nat j * PAGE) # map (\<lambda>k. of_nat k * PAGE) [Suc j..<N]"
    using j by (simp add: upt_conv_Cons)
  moreover have "s2 = s\<lparr>st_dev := st_dev s2, g_cache := g_cache s2\<rparr>" by (subst s2(4), subst s1(4)) simp
  moreover have "fmem D s2 a = (if 4096 * j \<le> unat (a - dest) \<and> unat (a - dest) < 4096 * N
       then padded_image (take (unat (mm_image_size m)) (drop (unat (mm_payload_addr m)) (media (st_dev s)))) ! unat (a - dest)
       else fmem D s a)" for a
    unfolding s2(5) s1(3,5) using j by auto
  ultimately show ?case using s1 s2 by metis
qed

end

section \<open>A full image from the external chip\<close>

lemma list_program_props:
  assumes "off + length ws \<le> length bs"
  shows "length (list_program bs off ws) = length bs" "off + length ws \<le> k \<Longrightarrow> drop k (list_program bs off ws) = drop k bs"
  using assms by (simp_all add: list_program_def)

lemma app_base_cong:
  "(\<And>a. 0x3000 \<le> a \<Longrightarrow> a < 0x3010 \<Longrightarrow> fmem D s a = fmem D s' a) \<Longrightarrow> app_base D s = app_base D s'"
  unfolding app_base_def by (rule CODE_REGION_1_START_cong)

lemma apply_end_values: "unat (APP_APPLY_END b) \<le> 0xED000" "0xD4000 \<le> unat (APP_APPLY_END b)"
  by (simp_all add: APP_APPLY_END_def layout_simps)

lemma rd_bytes_padded:
  assumes "\<And>a. unat (a - base) < 4096 * ((length img + 4095) div 4096) \<Longrightarrow> m a = padded_image img ! unat (a - base)" "length img < 2 ^ 32"
  shows "rd_bytes m base (length img) = img"
proof (rule nth_equalityI)
  fix i assume "i < length (rd_bytes m base (length img))"
  then have i: "i < length img" by simp
  have u: "unat (base + of_nat i - base) = i" using i assms(2) by (simp add: unat_of_nat_u32)
  have "i < 4096 * ((length img + 4095) div 4096)" using i by linarith
  then have "m (base + of_nat i) = padded_image img ! i" using assms(1) [of "base + of_nat i"] u by simp
  then show "rd_bytes m base (length img) ! i = img ! i" using i by (simp add: padded_image_def nth_append)
qed simp

context sound_device
begin

lemma finish_update_sound:
  assumes "good (st_dev s)" "b_chip b = NRF52840" "unat (app_base D s) + unat (mm_image_size m) \<le> 0xED000"
    "fl_read D s (app_base D s) (unat (mm_image_size m)) = img" "sha256 img = mm_image_hash m" "0x3010 \<le> unat (app_base D s)"
  shows "\<exists>s'. finish_app_update D b m s = (True, s') \<and> st_gpregret2 s' = 0xB8 \<and> st_gpregret s' = st_gpregret s \<and>
    app_base D s' = app_base D s \<and> fl_read D s' (app_base D s) (unat (mm_image_size m)) = img \<and>
    fl_read D s' 0xFF000 32 = settings_bytes (commit_record BANK_VALID_APP (crc16_compute img None) (mm_image_size m))"
proof -
  have h: "full_image_hash_valid D b m (app_base D s) False s = (True, s)"
    using read_region_view [of False D b s "fmem D s" "app_base D s" "mm_image_size m" UINT32_MAX] assms(3-5)
    by (simp add: full_image_hash_valid_def region_hash_valid_def fl_read_def)
  define t where "t = otah_settings_commit D b BANK_VALID_APP (crc16_compute img None) (mm_image_size m) s"
  note cs = commit_sound [OF assms(1,2), of BANK_VALID_APP "crc16_compute img None" "mm_image_size m", folded t_def]
  have fr: "fmem D t a = fmem D s a" if "\<not> in_page 0xFF000 a" for a unfolding t_def using assms(1,2) that by (rule commit_frame)
  have "app_base D t = app_base D s"
    by (rule app_base_cong, rule fr) (simp add: in_page_aligned_iff word_le_nat_alt word_less_nat_alt)
  moreover have "fl_read D t (app_base D s) (unat (mm_image_size m)) = img"
  proof -
    have "rd_bytes (fmem D t) (app_base D s) (unat (mm_image_size m)) = rd_bytes (fmem D s) (app_base D s) (unat (mm_image_size m))"
    proof (rule rd_bytes_cong, rule fr)
      fix i assume "i < unat (mm_image_size m)"
      then have "unat (app_base D s + of_nat i) = unat (app_base D s) + i"
        using assms(3) unat_u32_lt [of "mm_image_size m"] by (subst unat_add_no_wrap) (simp_all add: unat_of_nat_u32)
      then show "\<not> in_page 0xFF000 (app_base D s + of_nat i)"
        using assms(3) \<open>i < unat (mm_image_size m)\<close> by (simp add: in_page_aligned_iff)
    qed
    then show ?thesis using assms(4) by (simp add: fl_read_def)
  qed
  moreover have "fl_read D t 0xFF000 32 = settings_bytes (commit_record BANK_VALID_APP (crc16_compute img None) (mm_image_size m))"
    unfolding t_def using assms(1,2) by (rule commit_read)
  moreover have "st_gpregret t = st_gpregret s" by (subst cs(3)) simp
  moreover have "app_base D (result2 0xB8 t) = app_base D t" by (simp add: app_base_def)
  moreover have "finish_app_update D b m s = (True, result2 0xB8 t)"
    by (simp add: finish_app_update_def h assms(4) t_def)
  ultimately show ?thesis by (auto simp: fl_read_def)
qed


lemma clear_approval_sound:
  assumes "qspi_selected b s" "good (st_dev s)" "unat (mm_approval_addr m) + 4 \<le> length (media (st_dev s))"
  shows "\<exists>d. clear_approval D b m s = (True, s\<lparr>st_dev := d\<rparr>) \<and> good d \<and> dv_mem D d = fmem D s \<and>
    media d = list_program (media (st_dev s)) (unat (mm_approval_addr m)) [0, 0, 0, 0]"
  using assms good_program [OF assms(2), of "mm_approval_addr m" "[0, 0, 0, 0]"]
    qspi_write_frame [of "st_dev s" "mm_approval_addr m" "[0, 0, 0, 0]"]
  by (auto simp: clear_approval_def qspi_selected_def split: prod.splits)

lemma full_external_sound:
  assumes sel: "qspi_selected b s" and g: "good (st_dev s)" "b_chip b = NRF52840" "app_window D s"
    and m: "mm_is_full m" "mm_codec_id m = CODEC_FULL" "mm_image_size m \<noteq> 0" "mm_payload_size m = mm_image_size m"
      "unat (app_base D s) + unat (mm_image_size m) \<le> unat (APP_APPLY_END b)"
    and r: "unat (mm_approval_addr m) + 4 \<le> unat (mm_payload_addr m)"
      "unat (mm_payload_addr m) + unat (mm_image_size m) \<le> unat (g_qspi_total_size s)"
      "unat (g_qspi_total_size s) \<le> length (media (st_dev s))"
    and h: "img = take (unat (mm_image_size m)) (drop (unat (mm_payload_addr m)) (media (st_dev s)))" "sha256 img = mm_image_hash m"
  shows "\<exists>s'. apply_full_external D b m s = (True, s') \<and> st_gpregret2 s' = 0xB8 \<and> st_gpregret s' = st_gpregret s \<and>
    app_base D s' = app_base D s \<and> fl_read D s' (app_base D s) (unat (mm_image_size m)) = img \<and>
    fl_read D s' 0xFF000 32 = settings_bytes (commit_record BANK_VALID_APP (crc16_compute img None) (mm_image_size m))"
proof -
  define base where "base = app_base D s"
  define sz where "sz = unat (mm_image_size m)"
  have w: "4096 dvd unat base" "0x4000 \<le> unat base" "unat base + sz \<le> 0xED000"
    using g(3) m(5) apply_end_values [of b] by (simp_all add: app_window_def base_def sz_def)
  have lm: "length img = sz" using r(2,3) by (simp add: h(1) sz_def)
  have small: "length (media (st_dev s)) < 2 ^ 32" using good_capacity [OF g(1)] by simp
  have guard: "\<not> mm_image_size m > APP_APPLY_END b - app_base D s"
    using m(5) by (simp add: word_less_nat_alt unat_sub_le word_le_nat_alt)
  have h1: "full_image_hash_valid D b m (mm_payload_addr m) True s = (True, s)"
  proof -
    have v: "staged_view D b s (flash_with 0 (media (st_dev s))) (mm_payload_addr m) (mm_image_size m)"
      using qspi_view [OF sel g(1) r(2,3) small] .
    have "rd_bytes (flash_with 0 (media (st_dev s))) (0 + of_nat (unat (mm_payload_addr m))) sz = img"
      unfolding h(1) sz_def using r(2,3) small by (intro rd_flash_with) simp_all
    then show ?thesis
      using read_region_view [of True D b s "flash_with 0 (media (st_dev s))" "mm_payload_addr m" "mm_image_size m" UINT32_MAX]
        v h(2) r(2) unat_u32_lt [of "g_qspi_total_size s"]
      by (simp add: full_image_hash_valid_def region_hash_valid_def sz_def)
  qed
  obtain d1 where d1: "clear_approval D b m s = (True, s\<lparr>st_dev := d1\<rparr>)" "good d1" "dv_mem D d1 = fmem D s"
      "media d1 = list_program (media (st_dev s)) (unat (mm_approval_addr m)) [0, 0, 0, 0]"
    using clear_approval_sound [OF sel g(1), of m] r by auto
  define s1 where "s1 = s\<lparr>st_dev := d1\<rparr>"
  define s2 where "s2 = otah_settings_commit D b BANK_INVALID_APP 0 0 s1"
  have g1: "good (st_dev s1)" using d1(2) by (simp add: s1_def)
  note c2 = commit_sound [OF g1 g(2), of BANK_INVALID_APP 0 0, folded s2_def]
  define s3 where "s3 = s2\<lparr>g_cache_page := 0, g_cache_dirty := False\<rparr>"
  have s3: "qspi_selected b s3" "good (st_dev s3)" "media (st_dev s3) = media d1" "g_qspi_total_size s3 = g_qspi_total_size s"
      "st_gpregret s3 = st_gpregret s"
    using c2(1,2) by (simp_all add: s3_def) ((subst c2(3))?, simp add: s1_def sel)+
  have f3: "fmem D s3 a = fmem D s a" if "\<not> in_page 0xFF000 a" for a
    using commit_frame [OF g1 g(2) that, of BANK_INVALID_APP 0 0] d1(3) by (simp add: s3_def s2_def s1_def)
  have b3: "app_base D s3 = base"
    unfolding base_def by (rule app_base_cong, rule f3) (simp add: in_page_aligned_iff word_le_nat_alt word_less_nat_alt)
  have md: "length (media d1) = length (media (st_dev s))" "drop (unat (mm_payload_addr m)) (media d1) = drop (unat (mm_payload_addr m)) (media (st_dev s))"
    unfolding d1(4) using r by (simp_all add: list_program_props)
  define N where "N = (sz + 4095) div 4096"
  have N: "4096 * N < sz + 4096" unfolding N_def by linarith
  obtain s4 where s4: "copy_pages D b m base (map (\<lambda>k. of_nat k * PAGE) [0..<N]) s3 = (0, s4)" "good (st_dev s4)"
      "s4 = s3\<lparr>st_dev := st_dev s4, g_cache := g_cache s4\<rparr>"
      "\<And>a. fmem D s4 a = (if unat (a - base) < 4096 * N then padded_image img ! unat (a - base) else fmem D s3 a)"
    using copy_pages_sound [OF s3(1,2), of m 0 N base] r(2,3) w(3) N md s3(3,4) h(1) by (auto simp: N_def sz_def)
  have b4: "app_base D s4 = base"
    unfolding b3 [symmetric]
  proof (rule app_base_cong)
    fix a :: u32 assume a: "0x3000 \<le> a" "a < 0x3010"
    then have "unat (a - base) = unat a + 2 ^ 32 - unat base"
      using w(2) by (simp add: unat_sub_if_size word_size word_less_nat_alt word_le_nat_alt)
    then have "\<not> unat (a - base) < 4096 * N" using w(3) N by simp
    then show "fmem D s4 a = fmem D s3 a" using s4(4) by simp
  qed
  have i4: "fl_read D s4 base sz = img"
    using rd_bytes_padded [of base img "fmem D s4"] s4(4) w(3) by (simp add: fl_read_def lm N_def)
  obtain s5 where s5: "finish_app_update D b m s4 = (True, s5)" "st_gpregret2 s5 = 0xB8" "st_gpregret s5 = st_gpregret s4"
      "app_base D s5 = base" "fl_read D s5 base sz = img"
      "fl_read D s5 0xFF000 32 = settings_bytes (commit_record BANK_VALID_APP (crc16_compute img None) (mm_image_size m))"
    using finish_update_sound [OF s4(2) g(2), of m img] b4 w i4 h(2) by (auto simp: sz_def)
  have "apply_full_external D b m s = (True, s5)"
    using m(1-4) guard h1 d1(1) s4(1) s5(1)
    by (simp add: apply_full_external_def Let_def s1_def [symmetric] s2_def [symmetric] s3_def [symmetric] b3
        copy_staged_full_image_def page_offsets_def sz_def [symmetric] N_def [symmetric])
  moreover have "st_gpregret s4 = st_gpregret s" by (subst s4(3)) (simp add: s3(5))
  ultimately show ?thesis using s5 by (simp add: base_def sz_def)
qed

lemma scan_qspi_sound:
  assumes "qspi_selected b s" "good (st_dev s)" "\<not> b_sd_card b"
    "mota_container b (flash_with 0 (media (st_dev s))) 0 (of_nat (length (media (st_dev s)))) m"
  shows "\<exists>d. scan_mota D b c s = (Some (1, m), s\<lparr>st_dev := d, g_qspi_total_size := mm_total m\<rparr>) \<and> good d \<and>
    dv_mem D d = fmem D s \<and> media d = media (st_dev s)"
proof -
  obtain d where d: "dv_qspi_init D (st_dev s) = (True, d)" "good d" "media d = media (st_dev s)" "dv_mem D d = fmem D s"
    using good_init [OF assms(2)] qspi_init_frame [of "st_dev s"] by (cases "dv_qspi_init D (st_dev s)") auto
  define cap :: u32 where "cap = of_nat (length (media d))"
  have cap: "dv_qspi_capacity D d = cap" "unat cap = length (media d)" "length (media d) < 2 ^ 32"
    using good_capacity [OF d(2)] by (simp_all add: cap_def unat_of_nat_u32)
  define t where "t = s\<lparr>st_dev := d, g_qspi_total_size := cap\<rparr>"
  have c: "mota_container b (flash_with 0 (media d)) 0 cap m" using assms(4) d(3) by (simp add: cap_def)
  have "staged_view D b t (flash_with 0 (media d)) 0 (cap - 0)"
    using qspi_view [of b t 0 cap] assms(1) d(2) cap by (simp add: t_def)
  then have p: "parse_mota_at D b 0 cap t = (Some m, t)" using parse_mota_iff [of 0 cap D b t "flash_with 0 (media d)" m] c by simp
  have "\<not> cap < MOTA_MIN_LEN" using container_span [OF c] by (simp add: word_less_nat_alt layout_simps)
  then have "scan_mota D b c s = (Some (1, m), t\<lparr>g_qspi_total_size := mm_total m\<rparr>)"
    using assms(1,3) d(1) cap(1) p by (simp add: scan_mota_def qspi_selected_def Let_def t_def)
  then show ?thesis using d by (auto simp: t_def)
qed

end

lemma container_geometry:
  assumes "mota_container b v 0 limit m"
  shows "unat (mm_approval_addr m) = 201" "205 \<le> unat (mm_payload_addr m)" "unat (mm_total m) \<le> unat limit"
    "unat (mm_payload_addr m) + unat (mm_payload_size m) \<le> unat (mm_total m)"
proof -
  define h where "h = header_of_bytes (rd_bytes v 0 205)"
  define count where "count = (unat (fh_payload_size h) + 2 ^ unat (fh_block_size_log2 h) - 1) div 2 ^ unat (fh_block_size_log2 h)"
  have c: "count \<le> 65535" "unat (fh_total h) = 205 + 4 * count + unat (fh_payload_size h) + 5" "unat (fh_total h) \<le> unat limit"
      "m = header_min 0 h (of_nat count)"
    using assms unfolding mota_container_def Let_def h_def [symmetric] count_def [symmetric] by simp_all
  have n: "unat (205 + of_nat count * 4 :: u32) = 205 + count * 4"
  proof -
    have "(205 + of_nat count * 4 :: u32) = of_nat (205 + count * 4)" by simp
    moreover have "unat (of_nat (205 + count * 4) :: u32) = 205 + count * 4" using c(1) by (intro unat_of_nat_u32) simp
    ultimately show ?thesis by (simp only:)
  qed
  show "unat (mm_approval_addr m) = 201" "205 \<le> unat (mm_payload_addr m)" "unat (mm_total m) \<le> unat limit"
    "unat (mm_payload_addr m) + unat (mm_payload_size m) \<le> unat (mm_total m)"
    using n c by (simp_all add: header_min_def layout_simps)
qed

text \<open>The application the settings vouch for starts exactly when its vectors are plausible and the reset handler lies in the image.\<close>

lemma committed_app_valid:
  assumes "rd_bytes mem 0xFF000 32 = settings_bytes (commit_record BANK_VALID_APP (crc16_compute img None) sz)" "b_chip b = NRF52840"
    "rd_bytes mem (CODE_REGION_1_START mem) (unat sz) = img" "sz \<noteq> 0"
    "unat (CODE_REGION_1_START mem) + unat sz \<le> 0xED000"
  shows "bootloader_app_is_valid b mem ram \<longleftrightarrow> app_vector_valid b mem ram \<and>
    rd_word mem (CODE_REGION_1_START mem + 4) AND NOT 1 < CODE_REGION_1_START mem + sz"
proof -
  define r where "r = commit_record BANK_VALID_APP (crc16_compute img None) sz"
  have get: "bootloader_util_settings_get b mem = r"
    using assms(1,2) by (simp add: bootloader_util_settings_get_def r_def)
  have f: "bs_bank_0 r = BANK_VALID_APP" "bs_bank_0_crc r = crc16_compute img None" "bs_bank_0_size r = sz" "bootloader_settings_integrity_valid r"
      "\<not> bootloader_settings_is_legacy r"
    by (simp_all add: r_def commit_record_def seal_integrity seal_not_legacy)
  have "\<not> sz > BOOTLOADER_REGION_START (b_chip b) - CODE_REGION_1_START mem"
    using assms(2,5) by (simp add: word_less_nat_alt unat_sub_le word_le_nat_alt)
  then show ?thesis using assms(3,4) by (auto simp: bootloader_app_is_valid_def Let_def get f not_le)
qed

text \<open>A container whose payload is a raw application image that fits between \<open>base\<close> and the end of the application region.\<close>

definition full_app_container :: "build \<Rightarrow> u32 \<Rightarrow> mota_min \<Rightarrow> bool" where
  "full_app_container b base m \<longleftrightarrow> mm_approved m \<and> mm_format_ver m = 2 \<and> mm_is_full m \<and>
     mm_flags m AND NOT (MFLAG_FULL OR MFLAG_SIGNED) = 0 \<and> mm_codec_id m = CODEC_FULL \<and> mm_image_size m \<noteq> 0 \<and>
     mm_payload_size m = mm_image_size m \<and> unat base + unat (mm_image_size m) \<le> unat (APP_APPLY_END b)"

definition qspi_app_build :: "build \<Rightarrow> bool" where
  "qspi_app_build b \<longleftrightarrow> b_chip b = NRF52840 \<and> b_qspi_flash b \<and> \<not> b_sd_card b \<and> \<not> b_rak_sd_store b \<and> \<not> b_sd_dual_store b \<and> \<not> b_rak_auto_store b"

context sound_device
begin

lemma external_install:
  assumes "good (st_dev s)" "qspi_app_build b" "app_window D s" "hh_container_total (g_hybrid s) = 0"
    "st_gpregret s = GPREGRET_OTA_APPLY" "st_gpregret2 s = GPREGRET2_OTA_STAGE_QSPI"
    "mota_container b (flash_with 0 (media (st_dev s))) 0 (of_nat (length (media (st_dev s)))) m" "full_app_container b (app_base D s) m"
    "img = take (unat (mm_image_size m)) (drop (unat (mm_payload_addr m)) (media (st_dev s)))" "sha256 img = mm_image_hash m"
  shows "\<exists>s'. ota_delta_check_and_apply D b inst dt s = (True, s') \<and> st_gpregret2 s' = 0xB8 \<and> st_gpregret s' = 0 \<and>
    app_base D s' = app_base D s \<and> fl_read D s' (app_base D s) (unat (mm_image_size m)) = img \<and>
    fl_read D s' 0xFF000 32 = settings_bytes (commit_record BANK_VALID_APP (crc16_compute img None) (mm_image_size m))"
proof -
  note bd = assms(2) [unfolded qspi_app_build_def] and mc = assms(8) [unfolded full_app_container_def]
  define s1 where "s1 = s\<lparr>st_gpregret := 0, st_gpregret2 := 0xB1, g_qspi_source := True\<rparr>"
  have sel: "qspi_selected b s1" using bd assms(4) by (simp add: qspi_selected_def s1_def sd_source_def hybrid_active_def)
  obtain d where d: "scan_mota D b (stage_ceiling_of b GPREGRET2_OTA_STAGE_QSPI) s1 = (Some (1, m), s1\<lparr>st_dev := d, g_qspi_total_size := mm_total m\<rparr>)"
      "good d" "dv_mem D d = fmem D s" "media d = media (st_dev s)"
    using scan_qspi_sound [OF sel, of m] assms(1,7) bd by (auto simp: s1_def)
  define s2 where "s2 = s1\<lparr>st_dev := d, g_qspi_total_size := mm_total m\<rparr>"
  note geo = container_geometry [OF assms(7)]
  have small: "length (media (st_dev s)) < 2 ^ 32" using good_capacity [OF assms(1)] by simp
  have ab: "app_base D s2 = app_base D s" using d(3) by (simp add: s2_def app_base_def)
  have sel2: "qspi_selected b s2" using sel by (simp add: s2_def)
  have g2: "good (st_dev s2)" "app_window D s2" using d(2) assms(3) ab by (simp_all add: s2_def app_window_def)
  obtain s3 where s3: "apply_full_external D b m s2 = (True, s3)" "st_gpregret2 s3 = 0xB8" "st_gpregret s3 = st_gpregret s2"
      "app_base D s3 = app_base D s" "fl_read D s3 (app_base D s) (unat (mm_image_size m)) = img"
      "fl_read D s3 0xFF000 32 = settings_bytes (commit_record BANK_VALID_APP (crc16_compute img None) (mm_image_size m))"
    using full_external_sound [OF sel2 g2(1) _ g2(2), of m img] bd mc geo assms(9,10) d(4) small unfolding ab
    by (auto simp: s2_def unat_of_nat_u32)
  have ext: "external_staged_source b s2" "\<not> sd_source b s2" "\<not> hybrid_active b s1" "\<not> sd_source b s1"
    using sel sel2 by (auto simp: external_staged_source_def qspi_selected_def)
  have "apply_app_container D b dt 1 m lim s2 = finish_apply D b True s3" for lim
    using mc ext s3(1) by (simp add: apply_app_container_def Let_def)
  then have "ota_delta_check_and_apply D b inst dt s = finish_apply D b True s3"
    using bd mc assms(5,6) d(1) ext
    by (simp add: ota_delta_check_and_apply_def apply_app_update_def select_source_def Let_def layout_simps s2_def [symmetric] s1_def [symmetric])
  moreover have "\<exists>s'. finish_apply D b True s3 = (True, s') \<and> fmem D s' = fmem D s3 \<and> st_gpregret s' = st_gpregret s3 \<and> st_gpregret2 s' = st_gpregret2 s3"
    using bd qspi_deinit_frame by (simp add: finish_apply_def Let_def)
  ultimately show ?thesis using s3 by (auto simp: app_base_def fl_read_def s2_def s1_def)
qed

end

text \<open>
  C4. On a device that works, an approved and authentic full image in the external chip is installed: the update
  succeeds whatever decoder is linked, the application region holds the payload byte for byte, the trigger is consumed, and the
  application starts at the next boot exactly when its vectors are plausible and its reset handler lies inside the image.
\<close>

theorem external_full_update_installs:
  assumes "sound_device D good media" "good (st_dev s)" "qspi_app_build b" "app_window D s" "hh_container_total (g_hybrid s) = 0"
    "st_gpregret s = GPREGRET_OTA_APPLY" "st_gpregret2 s = GPREGRET2_OTA_STAGE_QSPI"
    "mota_container b (flash_with 0 (media (st_dev s))) 0 (of_nat (length (media (st_dev s)))) m" "full_app_container b (app_base D s) m"
    "img = take (unat (mm_image_size m)) (drop (unat (mm_payload_addr m)) (media (st_dev s)))" "sha256 img = mm_image_hash m"
  shows "\<exists>s'. ota_delta_check_and_apply D b inst dt s = (True, s') \<and> st_gpregret2 s' = 0xB8 \<and> st_gpregret s' = 0 \<and>
    app_base D s' = app_base D s \<and> fl_read D s' (app_base D s) (unat (mm_image_size m)) = img \<and>
    (bootloader_app_is_valid b (fmem D s') ram \<longleftrightarrow> app_vector_valid b (fmem D s') ram \<and>
       rd_word (fmem D s') (app_base D s + 4) AND NOT 1 < app_base D s + mm_image_size m)"
proof -
  obtain s' where s': "ota_delta_check_and_apply D b inst dt s = (True, s')" "st_gpregret2 s' = 0xB8" "st_gpregret s' = 0"
      "app_base D s' = app_base D s" "fl_read D s' (app_base D s) (unat (mm_image_size m)) = img"
      "fl_read D s' 0xFF000 32 = settings_bytes (commit_record BANK_VALID_APP (crc16_compute img None) (mm_image_size m))"
    using sound_device.external_install [OF assms] by blast
  have sz: "mm_image_size m \<noteq> 0" "unat (app_base D s) + unat (mm_image_size m) \<le> 0xED000"
    using assms(9) apply_end_values(1) [of b] by (simp_all add: full_app_container_def)
  have "bootloader_app_is_valid b (fmem D s') ram \<longleftrightarrow> app_vector_valid b (fmem D s') ram \<and>
       rd_word (fmem D s') (app_base D s + 4) AND NOT 1 < app_base D s + mm_image_size m"
    using committed_app_valid [of "fmem D s'" img "mm_image_size m" b ram] s'(4,5,6) sz assms(3)
    by (simp add: app_base_def fl_read_def qspi_app_build_def)
  then show ?thesis using s' by blast
qed

section \<open>A device with a staged image\<close>

definition qspi_build :: build where
  "qspi_build = internal_build\<lparr>b_qspi_flash := True, b_internal_bootloader_update := False, b_ram_arena := False\<rparr>"

definition tiny_app :: bytes where
  "tiny_app = wr_u32 0x20001000 @ wr_u32 0x26005"

definition tiny_prefix :: bytes where
  "tiny_prefix = MAGIC @ wr_u32 222 @ [2, 1, 0] @ wr_u32 7 @ wr_u32 9 @ wr_u32 8 @ wr_u32 8 @ [10] @ replicate 4 0 @
     sha256 tiny_app @ [0] @ replicate 32 0x22 @ replicate 8 0x33 @ replicate 32 0 @ replicate 64 0 @ APRV"

definition tiny_mota :: bytes where
  "tiny_mota = tiny_prefix @ replicate 4 0 @ tiny_app @ TRAILER"

definition tiny_header :: mota_fixed_header where
  "tiny_header = sample_header\<lparr>fh_total := 222, fh_image_size := 8, fh_payload_size := 8, fh_image_hash := sha256 tiny_app\<rparr>"

definition qspi_host :: host where
  "qspi_host = \<lparr>h_flash = flash_with 0x3004 (wr_u32 SD_MAGIC_NUMBER @ wr_u32 0x26000), h_fault_page = 0, h_faults = 0, h_sd = [],
     h_qspi = tiny_mota\<rparr>"

definition qspi_st :: "host mota_st" where
  "qspi_st = (boot_st qspi_host)\<lparr>st_gpregret := GPREGRET_OTA_APPLY, st_gpregret2 := GPREGRET2_OTA_STAGE_QSPI\<rparr>"

lemma length_tiny: "length tiny_app = 8" "length tiny_prefix = 205" "length tiny_mota = 222"
  by (simp_all add: tiny_app_def tiny_prefix_def tiny_mota_def MAGIC_def APRV_def TRAILER_def)

lemma header_tiny: "header_of_bytes tiny_prefix = tiny_header"
  by (simp add: header_of_bytes_def tiny_prefix_def tiny_header_def sample_header_def MAGIC_def APRV_def wr_u32_def rd_u32_def nth_append)

lemma tiny_container: "mota_container qspi_build (flash_with 0 tiny_mota) 0 222 (header_min 0 tiny_header 1)"
proof -
  have "rd_bytes (flash_with 0 tiny_mota) 0 205 = tiny_prefix"
    using rd_flash_with_start [of 205 tiny_mota 0] by (simp add: length_tiny) (simp add: tiny_mota_def length_tiny)
  moreover have "rd_bytes (flash_with 0 tiny_mota) (of_nat 217) 5 = TRAILER"
    using rd_flash_with [of 217 5 tiny_mota 0] by (simp add: length_tiny) (simp add: tiny_mota_def length_tiny TRAILER_def)
  ultimately show ?thesis
    by (simp add: mota_container_def Let_def header_tiny) (simp add: tiny_header_def sample_header_def)
qed

lemma qspi_st_base: "app_base host_dev qspi_st = 0x26000"
proof -
  have "rd_word (flash_with 0x3004 (wr_u32 SD_MAGIC_NUMBER @ wr_u32 0x26000)) 0x3004 = SD_MAGIC_NUMBER"
    "rd_word (flash_with 0x3004 (wr_u32 SD_MAGIC_NUMBER @ wr_u32 0x26000)) 0x3008 = 0x26000"
    using rd_flash_with [of 0 4 "wr_u32 SD_MAGIC_NUMBER @ wr_u32 0x26000" "0x3004"]
      rd_flash_with [of 4 4 "wr_u32 SD_MAGIC_NUMBER @ wr_u32 0x26000" "0x3004"] by (simp_all add: rd_word_def)
  then show ?thesis
    by (simp add: app_base_def qspi_st_def boot_st_def host_dev_def qspi_host_def CODE_REGION_1_START_def is_sd_existed_def SD_SIZE_GET_def
        layout_simps)
qed

lemma qspi_st_ready:
  "h_faults (st_dev qspi_st) = 0 \<and> length (h_qspi (st_dev qspi_st)) < 2 ^ 32" "qspi_app_build qspi_build" "app_window host_dev qspi_st"
  "hh_container_total (g_hybrid qspi_st) = 0" "st_gpregret qspi_st = GPREGRET_OTA_APPLY" "st_gpregret2 qspi_st = GPREGRET2_OTA_STAGE_QSPI"
  "g_cache_page qspi_st = 0" "length (g_cache qspi_st) = 4096"
  by (simp_all add: qspi_st_base app_window_def)
     (simp_all add: qspi_st_def boot_st_def qspi_host_def length_tiny qspi_app_build_def qspi_build_def internal_build_def hybrid_of_bytes_def rd_u32_def)

lemma qspi_st_staged:
  "mota_container qspi_build (flash_with 0 (h_qspi (st_dev qspi_st))) 0 (of_nat (length (h_qspi (st_dev qspi_st)))) (header_min 0 tiny_header 1)"
  "full_app_container qspi_build (app_base host_dev qspi_st) (header_min 0 tiny_header 1)"
  "tiny_app = take (unat (mm_image_size (header_min 0 tiny_header 1))) (drop (unat (mm_payload_addr (header_min 0 tiny_header 1))) (h_qspi (st_dev qspi_st)))"
  "sha256 tiny_app = mm_image_hash (header_min 0 tiny_header 1)"
proof -
  have q: "h_qspi (st_dev qspi_st) = tiny_mota" by (simp add: qspi_st_def boot_st_def qspi_host_def)
  show "mota_container qspi_build (flash_with 0 (h_qspi (st_dev qspi_st))) 0 (of_nat (length (h_qspi (st_dev qspi_st)))) (header_min 0 tiny_header 1)"
    using tiny_container by (simp add: q length_tiny)
  show "full_app_container qspi_build (app_base host_dev qspi_st) (header_min 0 tiny_header 1)"
    by (simp add: full_app_container_def qspi_st_base header_min_def tiny_header_def sample_header_def layout_simps APP_APPLY_END_def
        qspi_build_def internal_build_def)
  show "tiny_app = take (unat (mm_image_size (header_min 0 tiny_header 1))) (drop (unat (mm_payload_addr (header_min 0 tiny_header 1))) (h_qspi (st_dev qspi_st)))"
    by (simp add: q header_min_def tiny_header_def layout_simps tiny_mota_def length_tiny)
  show "sha256 tiny_app = mm_image_hash (header_min 0 tiny_header 1)" by (simp add: header_min_def tiny_header_def)
qed

lemma tiny_app_starts:
  assumes "rd_bytes m 0x26000 8 = tiny_app" "CODE_REGION_1_START m = 0x26000"
  shows "app_vector_valid qspi_build m 256 \<and> rd_word m 0x26004 AND NOT 1 < 0x26008"
proof -
  have "rd_word m 0x26000 = 0x20001000" "rd_word m 0x26004 = 0x26005"
    using arg_cong [OF assms(1), of "\<lambda>x. rd_u32 (take 4 x)"] arg_cong [OF assms(1), of "\<lambda>x. rd_u32 (take 4 (drop 4 x))"]
    by (simp_all add: rd_word_def tiny_app_def take_rd_bytes drop_rd_bytes)
  then show ?thesis by (simp add: app_vector_valid_def assms(2) qspi_build_def internal_build_def)
qed

theorem external_full_update_installs_witness:
  "\<exists>s'. ota_delta_check_and_apply host_dev qspi_build (installed_extension qspi_build 0x10001 0x123 0x26000) (\<lambda>_. Dt_Done 0) qspi_st = (True, s') \<and>
     fl_read host_dev s' 0x26000 8 = tiny_app \<and> bootloader_app_is_valid qspi_build (fmem host_dev s') 256"
proof -
  obtain s' where "ota_delta_check_and_apply host_dev qspi_build (installed_extension qspi_build 0x10001 0x123 0x26000) (\<lambda>_. Dt_Done 0) qspi_st = (True, s')"
      "app_base host_dev s' = 0x26000" "fl_read host_dev s' 0x26000 8 = tiny_app"
      "bootloader_app_is_valid qspi_build (fmem host_dev s') 256 \<longleftrightarrow> app_vector_valid qspi_build (fmem host_dev s') 256 \<and>
         rd_word (fmem host_dev s') (0x26000 + 4) AND NOT 1 < 0x26000 + 8"
    using external_full_update_installs [OF host_sound.sound_device_axioms qspi_st_ready(1-6) qspi_st_staged,
        of "installed_extension qspi_build 0x10001 0x123 0x26000" "\<lambda>_. Dt_Done 0" 256]
    by (simp add: qspi_st_base) (auto simp: header_min_def tiny_header_def)
  then show ?thesis using tiny_app_starts [of "fmem host_dev s'"] by (simp add: fl_read_def app_base_def)
qed


theorem app_update_confined_witness:
  "\<exists>r s'. ota_delta_check_and_apply host_dev qspi_build (installed_extension qspi_build 0x10001 0x123 0x26000) (\<lambda>_. Dt_Done 0) qspi_st = (r, s') \<and>
     st_gpregret s' = 0 \<and> fmem host_dev s' 0xF4000 = 0xFF"
proof -
  obtain r s' where s': "ota_delta_check_and_apply host_dev qspi_build (installed_extension qspi_build 0x10001 0x123 0x26000) (\<lambda>_. Dt_Done 0) qspi_st = (r, s')"
    by fastforce
  have "b_chip qspi_build = NRF52840" by (simp add: qspi_build_def internal_build_def)
  from app_update_confined [OF host.mota_device_axioms this qspi_st_ready(3,7,8,4,5) s']
  have "st_gpregret s' = 0" "fmem host_dev s' 0xF4000 = fmem host_dev qspi_st 0xF4000"
    by (auto simp: in_page_aligned_iff)
  moreover have "fmem host_dev qspi_st 0xF4000 = 0xFF"
    by (simp add: qspi_st_def boot_st_def host_dev_def qspi_host_def flash_with_def)
  ultimately show ?thesis using s' by auto
qed

end
