(* ===== verification/Mota_Boot.thy ===== *)
theory Mota_Boot
  imports Mota_Safety
begin

text \<open>
  The bootloader update: whatever happens up to the call of the MBR, flash changes only in the staging area between
  \<open>0xE0000\<close> and \<open>0xED000\<close>, and the MBR is only called on an image that has passed every check.
\<close>

section \<open>Frames of the update's stages\<close>

abbreviation slot_frame :: "'d mota_dev \<Rightarrow> 'd mota_st \<Rightarrow> 'd mota_st \<Rightarrow> bool" where
  "slot_frame D s0 s \<equiv> confined D 0xE0000 0xED000 (fmem D s0) s"

definition approval_in_slot :: "build \<Rightarrow> mota_min \<Rightarrow> 'd mota_st \<Rightarrow> bool" where
  "approval_in_slot b m s \<longleftrightarrow> sd_source b s \<or> b_qspi_flash b \<and> g_qspi_source s \<or> mm_approval_addr m = 0xE20C9"

context mota_device
begin

lemma clear_approval_slot:
  assumes "clear_approval D b m s = (ok, s')" "slot_frame D s0 s" "approval_in_slot b m s"
  shows "slot_frame D s0 s'" "cache_step s s'" "ok \<Longrightarrow> g_cache_page s = 0 \<Longrightarrow> g_cache_page s' = 0"
proof -
  have "slot_frame D s0 s' \<and> cache_step s s'"
    using assms(3) by (intro clear_approval_confined [OF assms(1,2)]) (auto simp: approval_in_slot_def)
  then show "slot_frame D s0 s'" "cache_step s s'" by simp_all
  show "g_cache_page s' = 0" if "ok" "g_cache_page s = 0"
    using that assms(1) by (auto simp: clear_approval_def cache_flush_def Let_def split: if_splits prod.splits)
qed

lemma confined_upd [simp]:
  "confined D lo hi m (s\<lparr>st_gpregret := x\<rparr>) = confined D lo hi m s" "confined D lo hi m (s\<lparr>st_gpregret2 := x\<rparr>) = confined D lo hi m s"
  "confined D lo hi m (s\<lparr>st_ram := r\<rparr>) = confined D lo hi m s" "confined D lo hi m (s\<lparr>g_sd_auth := a\<rparr>) = confined D lo hi m s"
  "confined D lo hi m (s\<lparr>g_sd_auth_loaded := l\<rparr>) = confined D lo hi m s" "confined D lo hi m (s\<lparr>g_sd_source := l\<rparr>) = confined D lo hi m s"
  "confined D lo hi m (s\<lparr>g_sd_active := l\<rparr>) = confined D lo hi m s" "confined D lo hi m (s\<lparr>g_qspi_source := l\<rparr>) = confined D lo hi m s"
  by (simp_all add: confined_def cache_ok_def)

lemma confined_mem: "confined D lo hi m s \<Longrightarrow> \<not> (unat lo \<le> unat a \<and> unat a < unat hi) \<Longrightarrow> fmem D s a = m a"
  by (auto simp: confined_def)

text \<open>The two ways an update ends: before the MBR is called, or with the call of the MBR on a verified image.\<close>

definition stopped :: "'d mota_st \<Rightarrow> bool \<Rightarrow> 'd mota_st \<Rightarrow> bool" where
  "stopped s0 r s' \<longleftrightarrow> \<not> r \<and> st_gpregret2 s' < GPREGRET2_BL_MBR_HANDOFF \<and>
     (\<forall>a. \<not> (0xE0000 \<le> unat a \<and> unat a < 0xED000) \<longrightarrow> fmem D s' a = fmem D s0 a)"

definition handed_over :: "build \<Rightarrow> bootloader_update_extension \<Rightarrow> 'd mota_st \<Rightarrow> mota_min \<Rightarrow> u32 \<Rightarrow> bool \<Rightarrow> 'd mota_st \<Rightarrow> bool" where
  "handed_over b inst s0 m raw r s' \<longleftrightarrow> (\<exists>t. dv_mbr_copy D (st_dev t) raw = (r, st_dev s') \<and>
     st_gpregret2 s' = (if r then GPREGRET2_BL_MBR_HANDOFF else GPREGRET2_BL_MBR_RETURNED) \<and>
     (\<forall>a. \<not> (0xE0000 \<le> unat a \<and> unat a < 0xED000) \<longrightarrow> fmem D t a = fmem D s0 a) \<and>
     sha256 (fl_read D t raw (unat (mm_image_size m))) = mm_image_hash m \<and> boot_image_metadata_valid_at D b inst raw m t)"

lemma slot_stopped:
  assumes "fail_apply D b code s = (r, s')" "slot_frame D s0 s" "code < GPREGRET2_BL_MBR_HANDOFF"
  shows "stopped s0 r s'" "st_gpregret s' = st_gpregret s"
  using fail_apply_frame [OF assms(1)] assms(2,3) by (simp_all add: stopped_def confined_def)

lemma reject_stopped:
  assumes "boot_update_reject D b m code s = (r, s')" "slot_frame D s0 s" "approval_in_slot b m s" "code < GPREGRET2_BL_MBR_HANDOFF"
  shows "stopped s0 r s' \<and> st_gpregret s' = st_gpregret s"
proof -
  obtain t where f: "finish_apply D b False t = (r, s')" and t: "slot_frame D s0 t" "st_gpregret t = st_gpregret s"
      "st_gpregret2 t = code \<or> st_gpregret2 t = GPREGRET2_BL_APPROVAL"
  proof (cases "mm_approved m")
    case True
    obtain ok s1 where c: "clear_approval D b m (result2 code s) = (ok, s1)" by fastforce
    have a: "approval_in_slot b m (result2 code s)" using assms(3) by (auto simp: approval_in_slot_def sd_source_def split: if_splits)
    note k = clear_approval_slot(1,2) [OF c _ a, of s0]
    have "slot_frame D s0 s1" "st_gpregret s1 = st_gpregret s" "st_gpregret2 s1 = code"
      using k assms(2) cache_step_keeps(2,3) [of "result2 code s" s1] by simp_all
    then show ?thesis using that [of "if ok then s1 else result2 GPREGRET2_BL_APPROVAL s1"] assms(1) c True
      by (auto simp: boot_update_reject_def Let_def split: if_splits)
  next
    case False
    then show ?thesis using that [of "result2 code s"] assms(1,2) by (simp add: boot_update_reject_def)
  qed
  show ?thesis using finish_apply_frame [OF f] t assms(4) by (auto simp: stopped_def confined_def layout_simps)
qed

lemma metadata_cong:
  "fmem D t = fmem D s \<Longrightarrow> boot_image_metadata_valid_at D b inst raw m t = boot_image_metadata_valid_at D b inst raw m s"
  by (simp only: boot_image_metadata_valid_at_def fl_read_def app_base_def)

lemma install_outcome:
  assumes "boot_update_install D b inst m raw s = (r, s')" "slot_frame D s0 s" "g_cache_page s = 0" "approval_in_slot b m s"
    "raw = 0xE0000 \<or> raw = 0xE2000" "mm_image_size m = 0xA000"
  shows "(stopped s0 r s' \<or> handed_over b inst s0 m raw r s') \<and> st_gpregret s' = st_gpregret s"
proof -
  obtain ok1 s1 where c: "clear_approval D b m s = (ok1, s1)" by fastforce
  note k1 = clear_approval_slot [OF c assms(2,4)]
  have g1: "st_gpregret s1 = st_gpregret s" using cache_step_keeps(2) [OF k1(2)] .
  show ?thesis
  proof (cases ok1)
    case False
    then have "fail_apply D b GPREGRET2_BL_APPROVAL s1 = (r, s')" using assms(1) c by (simp add: boot_update_install_def)
    from slot_stopped [OF this k1(1)] g1 show ?thesis by (simp add: layout_simps)
  next
    case True
    obtain res s2 where cp: "copy_pages D b m raw (page_offsets (mm_image_size m)) s1 = (res, s2)" by fastforce
    have s2: "slot_frame D s0 s2 \<and> g_cache_page s2 = 0 \<and> st_gpregret s2 = st_gpregret s1"
    proof (rule copy_pages_confined [OF cp k1(1)])
      show "g_cache_page s1 = 0" using k1(3) True assms(3) by simp
      fix off assume "off \<in> set (page_offsets (mm_image_size m))"
      then show "4096 dvd unat (raw + off) \<and> unat (0xE0000 :: u32) \<le> unat (raw + off) \<and> unat (raw + off) + 4096 \<le> unat (0xED000 :: u32)"
        using page_offsets_in [of off "mm_image_size m" raw] assms(5,6) by auto
    qed
    obtain ok3 s3 where h: "full_image_hash_valid D b m raw False s2 = (ok3, s3)" by fastforce
    note ms = full_hash_step [OF h]
    have s3: "slot_frame D s0 s3" "st_gpregret s3 = st_gpregret s"
      using confined_media [OF ms] s2 media_step_keeps(5) [OF ms] g1 by simp_all
    show ?thesis
    proof (cases "res = 0 \<and> ok3 \<and> boot_image_metadata_valid_at D b inst raw m s3")
      case False
      then have "fail_apply D b GPREGRET2_BL_COPY s2 = (r, s') \<or> fail_apply D b GPREGRET2_BL_COPY s3 = (r, s') \<or>
          fail_apply D b GPREGRET2_BL_MANIFEST s3 = (r, s')"
        using assms(1) c True cp h by (auto simp: boot_update_install_def copy_staged_full_image_def split: if_splits)
      then show ?thesis using slot_stopped [of b _ s2 r s' s0] slot_stopped [of b _ s3 r s' s0] s2 s3 g1 by (auto simp: layout_simps)
    next
      case ok: True
      define t where "t = (if b_sd_bootloader_update b
                    then (if sd_source b s3
                          then let s = s3\<lparr>st_dev := dv_sd_deinit D (st_dev s3)\<rparr>
                               in if b_rak_sd_store b then s\<lparr>g_sd_active := False\<rparr> else s
                          else s3)
                    else if b_qspi_bootloader_update b
                    then s3\<lparr>st_dev := dv_qspi_deinit D (st_dev s3), g_qspi_source := False\<rparr>
                    else s3)"
      obtain d where d: "dv_mbr_copy D (st_dev t) raw = (r, d)"
          "s' = (if r then result2 GPREGRET2_BL_MBR_HANDOFF t\<lparr>st_dev := d\<rparr> else result2 GPREGRET2_BL_MBR_RETURNED t\<lparr>st_dev := d\<rparr>)"
        using assms(1) c True cp h ok unfolding boot_update_install_def copy_staged_full_image_def mbr_copy_bootloader_def
        by (auto simp: t_def [symmetric] Let_def split: prod.splits if_splits)
      have tm: "fmem D t = fmem D s3" "st_gpregret t = st_gpregret s3"
        using sd_deinit_frame qspi_deinit_frame by (auto simp: t_def Let_def)
      have "sha256 (fl_read D s2 raw (unat (mm_image_size m))) = mm_image_hash m"
        using region_hash_flash [of b raw "mm_image_size m" "mm_image_hash m" s2 s3] h ok assms(5,6) by (auto simp: full_image_hash_valid_def)
      then have "sha256 (fl_read D t raw (unat (mm_image_size m))) = mm_image_hash m"
        using tm media_step_keeps(1) [OF ms] by (simp add: fl_read_def)
      moreover have "boot_image_metadata_valid_at D b inst raw m t"
        using ok metadata_cong [OF tm(1)] by simp
      ultimately show ?thesis using d tm s3 by (auto simp: handed_over_def confined_def)
    qed
  qed
qed


lemma validate_outcome:
  assumes "boot_update_validate D b inst m s = (r, s')" "slot_frame D s0 s" "g_cache_page s = 0" "approval_in_slot b m s" "fmem D s = fmem D s0"
  shows "(stopped s0 r s' \<or> (\<exists>raw sv. (raw = 0xE0000 \<or> raw = 0xE2000) \<and> fmem D sv = fmem D s0 \<and> ota_delta_live_app_fits_below D b raw sv \<and>
      boot_update_policy_valid b m \<and> handed_over b inst s0 m raw r s')) \<and> st_gpregret s' = st_gpregret s"
proof -
  obtain ok1 s1 where v: "staged_vectors_valid D b (mm_payload_addr m) s = (ok1, s1)" by fastforce
  obtain ok2 s2 where h: "full_image_hash_valid D b m (mm_payload_addr m) True s1 = (ok2, s2)" by fastforce
  have m1: "media_step D s s1" using v by (auto simp: staged_vectors_valid_def Let_def split: prod.splits dest: staged_read_step)
  have m2: "media_step D s s2" using m1 full_hash_step [OF h] by (rule media_step_trans)
  have k: "slot_frame D s0 t" "g_cache_page t = 0" "approval_in_slot b m t" "st_gpregret t = st_gpregret s" "fmem D t = fmem D s0"
    if "media_step D s t" for t
    using confined_media [OF that assms(2)] media_step_keeps [OF that] assms(3-5) by (simp_all add: approval_in_slot_def)
  define raw where "raw = BOOT_UPDATE_RAW_START b s2"
  have raw: "raw = 0xE0000 \<or> raw = 0xE2000" by (simp add: raw_def BOOT_UPDATE_RAW_START_def layout_simps)
  consider (reject) code t where "boot_update_reject D b m code t = (r, s')" "t \<in> {s, s1, s2}" "code \<in> {0xC3, 0xC4, 0xC5, 0xC6}"
    | (go) "boot_update_install D b inst m raw s2 = (r, s')" "ota_delta_live_app_fits_below D b raw s2" "boot_update_policy_valid b m"
    using assms(1) v h unfolding boot_update_validate_def Let_def layout_simps raw_def
    by (simp split: if_splits)
  then show ?thesis
  proof cases
    case reject
    then have ms: "media_step D s t" using m1 m2 by auto
    have "code < GPREGRET2_BL_MBR_HANDOFF" using reject(3) by (auto simp: layout_simps)
    then show ?thesis using reject_stopped [OF reject(1) k(1) [OF ms] k(3) [OF ms]] k(4) [OF ms] by simp
  next
    case go
    have "mm_image_size m = 0xA000" using go(3) by (auto simp: boot_update_policy_valid_def layout_simps split: option.splits)
    from install_outcome [OF go(1) k(1-3) [OF m2] raw this] k [OF m2] go(2,3) raw show ?thesis by metis
  qed
qed


lemma scan_approval:
  assumes "scan_mota D b c s = (Some (a, m), s')" "\<not> sd_source b s" "\<not> (b_qspi_flash b \<and> g_qspi_source s)"
  shows "mm_approval_addr m = a + 201"
proof (cases "hybrid_active b s")
  case True
  have nb: "\<not> (b_sd_card b \<and> \<not> b_sd_dual_store b \<and> \<not> b_rak_sd_store b)" using assms(2) by (auto simp: sd_source_def split: if_splits)
  obtain s1 where "parse_mota_at D b (hh_flash_start (g_hybrid s)) (hh_flash_start (g_hybrid s) + hh_container_total (g_hybrid s)) s = (Some m, s1)"
      "a = hh_flash_start (g_hybrid s)"
    using assms True nb unfolding scan_mota_def Let_def by (auto split: if_splits prod.splits option.splits)
  then show ?thesis using parse_place(1) by simp
next
  case False
  have nb: "\<not> (b_sd_card b \<and> \<not> b_sd_dual_store b \<and> \<not> b_rak_sd_store b)" using assms(2) by (auto simp: sd_source_def split: if_splits)
  let ?k = "unat (((c - MOTA_MIN_LEN) AND NOT (PAGE - 1)) + PAGE) div 4096"
  have "c = 0xD4000 \<or> c = 0xED000 \<or> c = 0xE0000" and sp: "scan_mota_pages D b c ?k s = (Some (a, m), s')"
    using assms False nb unfolding scan_mota_def Let_def by (auto simp: layout_simps split: if_splits)
  then have "?k < 2 ^ 20" by (auto simp: layout_simps)
  from scan_pages_place [OF sp this] show ?thesis using parse_place(1) by blast
qed

lemma scan_bootloader_place:
  assumes "scan_bootloader_mota D b src s = (q, s')" "build_ok b"
  shows "fmem D s' = fmem D s" "g_cache_page s' = g_cache_page s" "st_gpregret s' = st_gpregret s"
    "confined D lo hi m0 s \<Longrightarrow> confined D lo hi m0 s'" "q = Some (a, m) \<Longrightarrow> approval_in_slot b m s'"
proof -
  have qf: "b_qspi_bootloader_update b \<Longrightarrow> b_qspi_flash b" "b_qspi_bootloader_update b \<Longrightarrow> \<not> b_internal_bootloader_update b"
    using assms(2) by (auto simp: build_ok_def split: if_splits)
  obtain pi si where pi: "scan_mota D b MOTA_NRF52_INTERNAL_BL_SLOT_END s = (pi, si)" by fastforce
  have run: "(if b_sd_bootloader_update b \<and> sd_source b s then scan_mota D b (APP_APPLY_END b) s
      else if b_qspi_bootloader_update b
      then (if src \<noteq> GPREGRET2_OTA_STAGE_QSPI then (None, s) else scan_mota D b (APP_APPLY_END b) (s\<lparr>g_qspi_source := True\<rparr>))
      else if b_internal_bootloader_update b
      then (if src \<noteq> GPREGRET2_OTA_STAGE_EXPANDED then (None, s)
            else case pi of Some (address, m) \<Rightarrow> (if address = MOTA_NRF52_INTERNAL_BL_SLOT_START then Some (address, m) else None, si)
               | None \<Rightarrow> (None, si))
      else (None, s)) = (q, s')"
    using assms(1) unfolding scan_bootloader_mota_def Let_def pi prod.case .
  consider (none) "q = None" "s' = s"
    | (sd) "sd_source b s" "scan_mota D b (APP_APPLY_END b) s = (q, s')"
    | (qspi) "b_qspi_bootloader_update b" "scan_mota D b (APP_APPLY_END b) (s\<lparr>g_qspi_source := True\<rparr>) = (q, s')"
    | (internal) p where "scan_mota D b 0xED000 s = (p, s')" "q = None \<or> q = p \<and> (\<exists>m. p = Some (0xE2000, m))"
  proof (cases "b_sd_bootloader_update b \<and> sd_source b s")
    case False
    show ?thesis
    proof (cases "b_qspi_bootloader_update b")
      case True
      then show ?thesis using none qspi run False by (cases "src = GPREGRET2_OTA_STAGE_QSPI") simp_all
    next
      case nq: False
      show ?thesis
      proof (cases "b_internal_bootloader_update b \<and> src = GPREGRET2_OTA_STAGE_EXPANDED")
        case True
        then have "si = s'" "q = None \<or> q = pi \<and> (\<exists>m. pi = Some (0xE2000, m))"
          using run False nq by (auto simp: layout_simps split: option.splits if_splits)
        then show ?thesis using internal pi by (simp add: layout_simps)
      qed (use none run False nq in \<open>simp split: if_splits\<close>)
    qed
  qed (use sd run in simp)
  then have *: "fmem D s' = fmem D s \<and> g_cache_page s' = g_cache_page s \<and> st_gpregret s' = st_gpregret s \<and>
    (confined D lo hi m0 s \<longrightarrow> confined D lo hi m0 s') \<and> (q = Some (a, m) \<longrightarrow> approval_in_slot b m s')"
  proof cases
    case sd
    note ms = scan_step [OF sd(2)]
    show ?thesis using sd(1) media_step_keeps [OF ms] confined_media [OF ms] by (auto simp: approval_in_slot_def)
  next
    case qspi
    note ms = scan_step [OF qspi(2)]
    show ?thesis using qspi(1) qf media_step_keeps [OF ms] confined_media [OF ms, of lo hi m0] by (auto simp: approval_in_slot_def)
  next
    case (internal p)
    note ms = scan_step [OF internal(1)]
    show ?thesis using internal media_step_keeps [OF ms] confined_media [OF ms, of lo hi m0] scan_approval [of b "0xED000" s "0xE2000" m s']
      by (auto simp: approval_in_slot_def)
  qed simp
  then show "fmem D s' = fmem D s" "g_cache_page s' = g_cache_page s" "st_gpregret s' = st_gpregret s"
    "confined D lo hi m0 s \<Longrightarrow> confined D lo hi m0 s'" "q = Some (a, m) \<Longrightarrow> approval_in_slot b m s'" by simp_all
qed

lemma boot_update_outcome:
  assumes "apply_bootloader_update D b inst s = (r, s')" "build_ok b" "slot_frame D s0 s" "g_cache_page s = 0" "fmem D s = fmem D s0"
  shows "(stopped s0 r s' \<or> (\<exists>m raw sv. (raw = 0xE0000 \<or> raw = 0xE2000) \<and> fmem D sv = fmem D s0 \<and> ota_delta_live_app_fits_below D b raw sv \<and>
      mm_approved m \<and> boot_update_policy_valid b m \<and> handed_over b inst s0 m raw r s')) \<and> st_gpregret s' = 0"
proof -
  define src where "src = st_gpregret2 s"
  define s1 where "s1 = (if b_sd_bootloader_update b \<and> (b_sd_dual_store b \<or> b_rak_sd_store b)
      then s\<lparr>st_gpregret := 0, st_gpregret2 := GPREGRET2_BL_GATE, g_sd_source := (src = GPREGRET2_OTA_STAGE_SD)\<rparr>
      else s\<lparr>st_gpregret := 0, st_gpregret2 := GPREGRET2_BL_GATE\<rparr>)"
  define taken where "taken = (b_sd_bootloader_update b \<and> sd_source b s1)"
  obtain ok2 s2 where t: "(if taken then sd_auth_take MOTA_SD_AUTH_PURPOSE_BOOTLOADER 3 s1 else (True, s1)) = (ok2, s2)" by fastforce
  have i1: "slot_frame D s0 s1" "g_cache_page s1 = 0" "fmem D s1 = fmem D s0" "st_gpregret s1 = 0"
    using assms(3-5) by (simp_all add: s1_def)
  have i2: "slot_frame D s0 s2" "g_cache_page s2 = 0" "fmem D s2 = fmem D s0" "st_gpregret s2 = 0"
    using t i1 by (auto simp: sd_auth_take_def retained_handoff_take_def Let_def split: if_splits)
  obtain q s3 where sc: "scan_bootloader_mota D b src s2 = (q, s3)" by fastforce
  note p3 = scan_bootloader_place [OF sc assms(2)]
  have i3: "slot_frame D s0 s3" "g_cache_page s3 = 0" "fmem D s3 = fmem D s0" "st_gpregret s3 = 0"
    using p3(1-3) p3(4) [of "0xE0000" "0xED000" "fmem D s0"] i2 by simp_all
  obtain ok4 s4 where h: "(if taken then sd_authorized_container_valid D b s3 else (True, s3)) = (ok4, s4)" by fastforce
  then have ms: "media_step D s3 s4" by (auto simp: sd_authorized_container_valid_def split: if_splits dest: region_hash_step)
  note k4 = media_step_keeps [OF ms] confined_media [OF ms i3(1)]
  have run: "apply_bootloader_update D b inst s =
     (if taken \<and> src \<noteq> GPREGRET2_OTA_STAGE_SD then fail_apply D b GPREGRET2_BL_CONTAINER s2
      else if \<not> ok2 then fail_apply D b GPREGRET2_BL_APPROVAL s2
      else case q of None \<Rightarrow> fail_apply D b GPREGRET2_BL_CONTAINER s3
         | Some (_, m) \<Rightarrow>
             if \<not> mm_approved m then fail_apply D b GPREGRET2_BL_CONTAINER s3
             else if \<not> ok4 then boot_update_reject D b m GPREGRET2_BL_APPROVAL s4 else boot_update_validate D b inst m s4)"
    unfolding apply_bootloader_update_def
    by (simp only: Let_def src_def [symmetric] s1_def [symmetric] taken_def [symmetric] t prod.case sc h)
  consider (fail) code t where "fail_apply D b code t = (r, s')" "t \<in> {s2, s3}" "code \<in> {0xC2, 0xC6}"
    | (reject) a m where "q = Some (a, m)" "boot_update_reject D b m GPREGRET2_BL_APPROVAL s4 = (r, s')"
    | (go) a m where "q = Some (a, m)" "mm_approved m" "boot_update_validate D b inst m s4 = (r, s')"
    using assms(1) unfolding run layout_simps by (cases q) (auto split: if_splits)
  then show ?thesis
  proof cases
    case fail
    then have "slot_frame D s0 t" "st_gpregret t = 0" "code < GPREGRET2_BL_MBR_HANDOFF" using i2 i3 by (auto simp: layout_simps)
    then show ?thesis using slot_stopped [OF fail(1)] by simp
  next
    case reject
    have "approval_in_slot b m s4" using p3(5) [OF reject(1)] k4 by (simp add: approval_in_slot_def)
    then show ?thesis using reject_stopped [OF reject(2)] k4 i3(4) by (simp add: layout_simps)
  next
    case go
    have "approval_in_slot b m s4" using p3(5) [OF go(1)] k4 by (simp add: approval_in_slot_def)
    from validate_outcome [OF go(3) k4(19) _ this] k4 i3 go(2) show ?thesis by metis
  qed
qed

end



end
