(* ===== verification/Uf2_Transfer.thy ===== *)
theory Uf2_Transfer
  imports Build_Config
begin

text \<open>
  The bookkeeping of a UF2 transfer (\<open>src/src/usb/uf2/uf2_transfer_state.h\<close>, \<open>uf2_app_flash.h\<close>,
  \<open>uf2_current_echo.h\<close>, and \<open>WriteState\<close> of \<open>uf2.h\<close>).  The bit masks are the byte arrays of the code; reading or
  writing one outside its bounds is the value \<open>None\<close>, so that staying inside is a theorem and not a convention.
\<close>

section \<open>Flash map of the UF2 volume\<close>

fun DFU_APP_DATA_RESERVED :: "chip \<Rightarrow> u32" where
  "DFU_APP_DATA_RESERVED NRF52840 = 10 * 4096"
| "DFU_APP_DATA_RESERVED _ = 7 * 4096"

definition USER_FLASH_START :: u32 where [layout_simps]: "USER_FLASH_START = MBR_SIZE"

definition USER_FLASH_END :: "chip \<Rightarrow> u32" where
  "USER_FLASH_END c = BOOTLOADER_REGION_START c - DFU_APP_DATA_RESERVED c"

definition BOOTLOADER_ADDR_START :: "chip \<Rightarrow> u32" where
  "BOOTLOADER_ADDR_START c = BOOTLOADER_REGION_START c"

definition BOOTLOADER_ADDR_END :: "chip \<Rightarrow> u32" where
  "BOOTLOADER_ADDR_END c = BOOTLOADER_MBR_PARAMS_PAGE_ADDRESS c"

definition BOOTLOADER_ADDR_NEW_RECEIVED :: "chip \<Rightarrow> u32" where
  "BOOTLOADER_ADDR_NEW_RECEIVED c = USER_FLASH_END c - DFU_BL_IMAGE_MAX_SIZE c"

text \<open>The UF2 volume exists on the USB chips only; the 512 KiB size is that of the nRF52833.\<close>

fun CFG_UF2_FLASH_SIZE :: "chip \<Rightarrow> u32" where
  "CFG_UF2_FLASH_SIZE NRF52840 = 0x100000"
| "CFG_UF2_FLASH_SIZE _ = 0x80000"

definition MAX_BLOCKS :: "chip \<Rightarrow> u32" where
  "MAX_BLOCKS c = CFG_UF2_FLASH_SIZE c div 256 + 100"

definition UF2_APP_PAGE_COUNT :: "chip \<Rightarrow> u32" where
  "UF2_APP_PAGE_COUNT c = (USER_FLASH_END c - USER_FLASH_START) div 4096"

definition UF2_FLASH_BLOCK_COUNT :: "chip \<Rightarrow> u32" where
  "UF2_FLASH_BLOCK_COUNT c = CFG_UF2_FLASH_SIZE c div 256"

lemma uf2_map_values [layout_simps]:
  "USER_FLASH_END NRF52840 = 0xEA000" "BOOTLOADER_ADDR_NEW_RECEIVED NRF52840 = 0xE0000"
  "MAX_BLOCKS NRF52840 = 4196" "UF2_APP_PAGE_COUNT NRF52840 = 233" "UF2_FLASH_BLOCK_COUNT NRF52840 = 4096"
  by (simp_all add: USER_FLASH_END_def BOOTLOADER_ADDR_NEW_RECEIVED_def MAX_BLOCKS_def UF2_APP_PAGE_COUNT_def
      UF2_FLASH_BLOCK_COUNT_def layout_simps)

section \<open>State of a transfer\<close>

definition UF2_UPDATE_KIND_NONE :: u8 where "UF2_UPDATE_KIND_NONE = 0"
definition UF2_UPDATE_KIND_APPLICATION :: u8 where "UF2_UPDATE_KIND_APPLICATION = 1"
definition UF2_UPDATE_KIND_BOOTLOADER :: u8 where "UF2_UPDATE_KIND_BOOTLOADER = 2"

record write_state =
  numBlocks :: u32
  numWritten :: u32
  bootloaderEraseOffset :: u32
  appMaximumWrittenEnd :: u32
  appStart :: u32
  appSize :: u32
  updateKind :: u8
  aborted :: bool
  has_uicr :: bool
  bootloaderStagingErased :: bool
  appSettingsInvalidated :: bool
  appValidated :: bool
  writtenMask :: bytes
  targetMask :: bytes
  appErasedMask :: bytes

definition uf2_transfer_reset :: "chip \<Rightarrow> write_state" where
  "uf2_transfer_reset c = \<lparr>numBlocks = 0, numWritten = 0, bootloaderEraseOffset = 0, appMaximumWrittenEnd = 0, appStart = 0,
     appSize = 0, updateKind = UF2_UPDATE_KIND_NONE, aborted = False, has_uicr = False, bootloaderStagingErased = False,
     appSettingsInvalidated = False, appValidated = False,
     writtenMask = replicate (unat (MAX_BLOCKS c) div 8 + 1) 0,
     targetMask = replicate ((unat (UF2_FLASH_BLOCK_COUNT c) + 7) div 8) 0,
     appErasedMask = replicate ((unat (UF2_APP_PAGE_COUNT c) + 7) div 8) 0\<rparr>"

datatype uf2_transfer_result = UF2_TRANSFER_ACCEPT | UF2_TRANSFER_DUPLICATE | UF2_TRANSFER_ABORTED

datatype uf2_application_target =
    UF2_APPLICATION_TARGET_SKIP | UF2_APPLICATION_TARGET_REQUIRE_MATCH
  | UF2_APPLICATION_TARGET_PROGRAM | UF2_APPLICATION_TARGET_ABORT

section \<open>Bit masks\<close>

text \<open>\<open>written_mask[pos] & mask\<close> and \<open>written_mask[pos] |= mask\<close> with \<open>pos = i / 8\<close> and \<open>mask = 1 << (i % 8)\<close>.\<close>

definition mask_test :: "bytes \<Rightarrow> u32 \<Rightarrow> bool option" where
  "mask_test m i =
     (let pos = unat (i div 8); mask = push_bit (unat (i mod 8)) (1 :: u8)
      in if pos < length m then Some (m ! pos AND mask \<noteq> 0) else None)"

definition mask_set :: "bytes \<Rightarrow> u32 \<Rightarrow> bytes option" where
  "mask_set m i =
     (let pos = unat (i div 8); mask = push_bit (unat (i mod 8)) (1 :: u8)
      in if pos < length m then Some (m[pos := m ! pos OR mask]) else None)"

section \<open>Transfer rules\<close>

definition uf2_application_target_classify :: "u32 \<Rightarrow> u32 \<Rightarrow> u32 \<Rightarrow> u32 \<Rightarrow> uf2_application_target" where
  "uf2_application_target_classify target_addr user_start app_start app_limit =
     (if target_addr < user_start then UF2_APPLICATION_TARGET_SKIP
      else if target_addr < app_start then UF2_APPLICATION_TARGET_REQUIRE_MATCH
      else if target_addr < app_limit then UF2_APPLICATION_TARGET_PROGRAM
      else UF2_APPLICATION_TARGET_ABORT)"

definition uf2_transfer_prepare ::
    "u32 \<Rightarrow> u32 \<Rightarrow> u8 \<Rightarrow> u32 \<Rightarrow> write_state \<Rightarrow> (uf2_transfer_result \<times> write_state) option" where
  "uf2_transfer_prepare incoming_num_blocks block_no incoming_kind max_blocks w =
     (if aborted w then Some (UF2_TRANSFER_ABORTED, w)
      else if incoming_num_blocks = 0 \<or> incoming_num_blocks > max_blocks \<or> block_no \<ge> incoming_num_blocks
      then Some (UF2_TRANSFER_ABORTED, w\<lparr>aborted := True\<rparr>)
      else if numBlocks w \<noteq> 0 \<and> numBlocks w \<noteq> incoming_num_blocks then Some (UF2_TRANSFER_ABORTED, w\<lparr>aborted := True\<rparr>)
      else let w = w\<lparr>numBlocks := incoming_num_blocks\<rparr>
      in if updateKind w \<noteq> 0 \<and> updateKind w \<noteq> incoming_kind then Some (UF2_TRANSFER_ABORTED, w\<lparr>aborted := True\<rparr>)
      else let w = w\<lparr>updateKind := incoming_kind\<rparr>
      in case mask_test (writtenMask w) block_no of
           None \<Rightarrow> None
         | Some True \<Rightarrow> Some (UF2_TRANSFER_DUPLICATE, w)
         | Some False \<Rightarrow> Some (UF2_TRANSFER_ACCEPT, w))"

definition uf2_transfer_commit :: "u32 \<Rightarrow> write_state \<Rightarrow> write_state option" where
  "uf2_transfer_commit block_no w =
     (case mask_test (writtenMask w) block_no of
        None \<Rightarrow> None
      | Some True \<Rightarrow> Some w
      | Some False \<Rightarrow> map_option (\<lambda>m. w\<lparr>writtenMask := m, numWritten := numWritten w + 1\<rparr>) (mask_set (writtenMask w) block_no))"

definition uf2_transfer_target_prepare :: "u32 \<Rightarrow> u32 \<Rightarrow> write_state \<Rightarrow> uf2_transfer_result \<times> write_state" where
  "uf2_transfer_target_prepare target_addr target_limit w =
     (if aborted w \<or> target_addr AND 255 \<noteq> 0 \<or> target_addr \<ge> target_limit
      then (UF2_TRANSFER_ABORTED, w\<lparr>aborted := True\<rparr>)
      else if mask_test (targetMask w) (target_addr div 256) \<noteq> Some False then (UF2_TRANSFER_ABORTED, w\<lparr>aborted := True\<rparr>)
      else (UF2_TRANSFER_ACCEPT, w))"

definition uf2_transfer_target_commit :: "u32 \<Rightarrow> write_state \<Rightarrow> write_state option" where
  "uf2_transfer_target_commit target_addr w =
     map_option (\<lambda>m. w\<lparr>targetMask := m\<rparr>) (mask_set (targetMask w) (target_addr div 256))"

text \<open>The loop over the blocks of a range; both ends are multiples of the block size and fit 32 bits.\<close>

definition uf2_transfer_target_range_written :: "bytes \<Rightarrow> u32 \<Rightarrow> u32 \<Rightarrow> bool" where
  "uf2_transfer_target_range_written target_mask start stop =
     (if start \<ge> stop \<or> start AND 255 \<noteq> 0 \<or> stop AND 255 \<noteq> 0 then False
      else list_all (\<lambda>i. mask_test target_mask (of_nat i) = Some True) [unat start div 256..<unat stop div 256])"

definition uf2_application_finalize :: "bytes \<Rightarrow> u32 \<Rightarrow> u32 \<Rightarrow> u32 \<Rightarrow> u32 \<Rightarrow> u32 \<Rightarrow> u32 \<Rightarrow> u32 option" where
  "uf2_application_finalize target_mask app_start app_limit maximum_written_end initial_sp reset_vector ram_end =
     (if app_start < 256 \<or> maximum_written_end > app_limit \<or> maximum_written_end \<le> app_start \<or>
         \<not> uf2_transfer_target_range_written target_mask app_start maximum_written_end then None
      else let reset_address = reset_vector AND NOT 1; size = maximum_written_end - app_start
      in if size < 8 \<or> initial_sp < 0x20000000 \<or> initial_sp > ram_end \<or> initial_sp AND 7 \<noteq> 0 \<or> reset_vector AND 1 = 0 \<or>
            reset_address < app_start \<or> reset_address \<ge> maximum_written_end then None
      else Some size)"

definition uf2_transfer_validate_duplicate :: "uf2_transfer_result \<Rightarrow> bool \<Rightarrow> write_state \<Rightarrow> uf2_transfer_result \<times> write_state" where
  "uf2_transfer_validate_duplicate result destination_matches w =
     (if result = UF2_TRANSFER_DUPLICATE \<and> \<not> destination_matches then (UF2_TRANSFER_ABORTED, w\<lparr>aborted := True\<rparr>)
      else (result, w))"

section \<open>Order of the flash actions of a block\<close>

datatype uf2_app_flash_action =
    UF2_APP_FLASH_INVALIDATE_SETTINGS | UF2_APP_FLASH_ERASE_PAGE | UF2_APP_FLASH_PROGRAM_BLOCK

definition uf2_app_flash_next_action :: "u32 \<Rightarrow> write_state \<Rightarrow> (uf2_app_flash_action \<times> write_state) option" where
  "uf2_app_flash_next_action page w =
     (if \<not> appSettingsInvalidated w then Some (UF2_APP_FLASH_INVALIDATE_SETTINGS, w\<lparr>appSettingsInvalidated := True\<rparr>)
      else case mask_test (appErasedMask w) page of
             None \<Rightarrow> None
           | Some False \<Rightarrow> map_option (\<lambda>m. (UF2_APP_FLASH_ERASE_PAGE, w\<lparr>appErasedMask := m\<rparr>)) (mask_set (appErasedMask w) page)
           | Some True \<Rightarrow> Some (UF2_APP_FLASH_PROGRAM_BLOCK, w))"

definition uf2_current_lba_is_synthetic :: "u32 \<Rightarrow> u32 \<Rightarrow> u32 \<Rightarrow> bool" where
  "uf2_current_lba_is_synthetic disk_lba current_first_lba current_sector_count =
     (if disk_lba < current_first_lba then False
      else disk_lba - current_first_lba < current_sector_count)"

section \<open>Masks as sets\<close>

text \<open>The index set a mask denotes; the two accesses refine membership and insertion.\<close>

definition mask_bits :: "bytes \<Rightarrow> nat set" where
  "mask_bits m = {i. i div 8 < length m \<and> bit (m ! (i div 8)) (i mod 8)}"

lemma unat_div_8 [simp]: "unat (i div 8 :: u32) = unat i div 8" "unat (i mod 8 :: u32) = unat i mod 8"
  by (simp_all add: unat_div unat_mod)

lemma mask_test_eq: "mask_test m i = (if unat i div 8 < length m then Some (unat i \<in> mask_bits m) else None)"
  by (simp add: mask_test_def Let_def mask_bits_def and_exp_eq_0_iff_not_bit)

lemma mask_set_eq:
  assumes "mask_set m i = Some m'"
  shows "length m' = length m" "mask_bits m' = insert (unat i) (mask_bits m)"
proof -
  have r: "unat i div 8 < length m" "m' = m[unat i div 8 := m ! (unat i div 8) OR push_bit (unat i mod 8) 1]"
    using assms by (auto simp: mask_set_def Let_def split: if_splits)
  show "length m' = length m" using r by simp
  have "j \<in> mask_bits m' \<longleftrightarrow> j = unat i \<or> j \<in> mask_bits m" for j
  proof (cases "j div 8 = unat i div 8")
    case True
    have "j = unat i \<longleftrightarrow> j mod 8 = unat i mod 8" using True by (metis div_mult_mod_eq)
    moreover have "j mod 8 < 8" by simp
    ultimately show ?thesis using r True by (auto simp: mask_bits_def bit_simps)
  next
    case False
    then show ?thesis using r by (auto simp: mask_bits_def)
  qed
  then show "mask_bits m' = insert (unat i) (mask_bits m)" by auto
qed

lemma mask_set_Some: "unat i div 8 < length m \<Longrightarrow> \<exists>m'. mask_set m i = Some m'"
  by (simp add: mask_set_def Let_def)

lemma mask_bits_zero [simp]: "mask_bits (replicate n 0) = {}"
  by (auto simp: mask_bits_def)

end
