(* ===== verification/Uf2_Write.thy ===== *)
theory Uf2_Write
  imports Uf2_Transfer Mota_Sources Image_Policy Boot_Control
begin

text \<open>
  Writing through the UF2 volume: the page cache of \<open>src/src/flash_nrf5x.c\<close> and the write path of
  \<open>src/src/usb/uf2/ghostfat.c\<close>.  The flash controller is the NOR flash of \<open>Nor_Flash\<close>; watchdog feeding is not modelled.
\<close>

section \<open>Page cache\<close>

record nvm =
  nv_mem :: flash
  fl_addr :: u32
  fl_buf :: bytes

definition FLASH_CACHE_INVALID_ADDR :: u32 where "FLASH_CACHE_INVALID_ADDR = 0xFFFFFFFF"

definition flash_nrf5x_discard :: "nvm \<Rightarrow> nvm" where
  "flash_nrf5x_discard n = n\<lparr>fl_addr := FLASH_CACHE_INVALID_ADDR\<rparr>"

definition flash_nrf5x_erase :: "u32 \<Rightarrow> u32 \<Rightarrow> nvm \<Rightarrow> nvm" where
  "flash_nrf5x_erase dst len n =
     (let page_addr = page_of dst; page_count = (len + (PAGE - 1)) div PAGE
      in n\<lparr>nv_mem := fold (\<lambda>i m. fl_erase m (page_addr + of_nat i * PAGE)) [0..<unat page_count] (nv_mem n)\<rparr>)"

definition flash_nrf5x_invalidate_app_settings :: "build \<Rightarrow> nvm \<Rightarrow> nvm" where
  "flash_nrf5x_invalidate_app_settings b n =
     n\<lparr>nv_mem := fl_write_word (nv_mem n) (BOOTLOADER_SETTINGS_ADDRESS (b_chip b)) 0\<rparr>"

definition flash_nrf5x_flush :: "bool \<Rightarrow> nvm \<Rightarrow> nvm" where
  "flash_nrf5x_flush need_erase n =
     (if fl_addr n = FLASH_CACHE_INVALID_ADDR then n
      else let m = nv_mem n;
               m = (if fl_buf n \<noteq> rd_bytes m (fl_addr n) 4096
                    then let m = (if need_erase then fl_erase m (fl_addr n) else m)
                         in fold (\<lambda>i m. fl_write_words m (fl_addr n + of_nat (256 * i)) (words_of_bytes (take 256 (drop (256 * i) (fl_buf n)))))
                              [0..<16] m
                    else m)
           in n\<lparr>nv_mem := m, fl_addr := FLASH_CACHE_INVALID_ADDR\<rparr>)"

function flash_nrf5x_write :: "u32 \<Rightarrow> bytes \<Rightarrow> bool \<Rightarrow> nvm \<Rightarrow> nvm" where
  "flash_nrf5x_write dst src need_erase n =
     (if src = [] then n
      else let page_addr = page_of dst;
               n = (if page_addr \<noteq> fl_addr n
                    then let n = flash_nrf5x_flush need_erase n
                         in n\<lparr>fl_addr := page_addr, fl_buf := rd_bytes (nv_mem n) page_addr 4096\<rparr>
                    else n);
               off = unat (dst - page_addr);
               bytes_to_end = 4096 - off;
               max_bytes = (if bytes_to_end < length src then bytes_to_end else length src)
           in flash_nrf5x_write (dst + of_nat max_bytes) (drop max_bytes src) need_erase
                (n\<lparr>fl_buf := take off (fl_buf n) @ take max_bytes src @ drop (off + max_bytes) (fl_buf n)\<rparr>))"
  by pat_completeness auto
termination
proof (relation "measure (\<lambda>(dst, src, need_erase, n). length src)", goal_cases)
  case (2 dst src need_erase n page_addr n' off bytes_to_end max_bytes)
  have "off < 4096" unfolding 2(4) 2(2) page_off(2) by simp
  then show ?case using 2(1) by (simp add: 2(5,6))
qed simp

declare flash_nrf5x_write.simps [simp del]

definition flash_nrf5x_write_erased :: "u32 \<Rightarrow> bytes \<Rightarrow> nvm \<Rightarrow> nvm" where
  "flash_nrf5x_write_erased dst src n = n\<lparr>nv_mem := fl_write_words (nv_mem n) dst (words_of_bytes src)\<rparr>"

section \<open>UF2 blocks\<close>

record uf2_block =
  magicStart0 :: u32
  magicStart1 :: u32
  bl_flags :: u32
  targetAddr :: u32
  payloadSize :: u32
  blockNo :: u32
  bl_numBlocks :: u32
  familyID :: u32
  bl_data :: bytes
  magicEnd :: u32

definition uf2_block_of_bytes :: "bytes \<Rightarrow> uf2_block" where
  "uf2_block_of_bytes d = \<lparr>magicStart0 = rd_u32 d, magicStart1 = rd_u32 (drop 4 d), bl_flags = rd_u32 (drop 8 d),
     targetAddr = rd_u32 (drop 12 d), payloadSize = rd_u32 (drop 16 d), blockNo = rd_u32 (drop 20 d),
     bl_numBlocks = rd_u32 (drop 24 d), familyID = rd_u32 (drop 28 d), bl_data = take 476 (drop 32 d),
     magicEnd = rd_u32 (drop 508 d)\<rparr>"

definition UF2_MAGIC_START0 :: u32 where "UF2_MAGIC_START0 = 0x0A324655"
definition UF2_MAGIC_START1 :: u32 where "UF2_MAGIC_START1 = 0x9E5D5157"
definition UF2_MAGIC_END :: u32 where "UF2_MAGIC_END = 0x0AB16F30"
definition UF2_FLAG_NOFLASH :: u32 where "UF2_FLAG_NOFLASH = 1"
definition UF2_FLAG_FAMILYID :: u32 where "UF2_FLAG_FAMILYID = 0x2000"
definition UF2_FIRMWARE_BYTES_PER_SECTOR :: u32 where "UF2_FIRMWARE_BYTES_PER_SECTOR = 256"
definition CFG_UF2_FAMILY_BOOT_ID :: u32 where "CFG_UF2_FAMILY_BOOT_ID = 0xD663823C"

fun CFG_UF2_FAMILY_APP_ID :: "chip \<Rightarrow> u32" where
  "CFG_UF2_FAMILY_APP_ID NRF52840 = 0xADA52840"
| "CFG_UF2_FAMILY_APP_ID _ = 0x621E937A"

definition is_uf2_block :: "uf2_block \<Rightarrow> bool" where
  "is_uf2_block bl \<longleftrightarrow> magicStart0 bl = UF2_MAGIC_START0 \<and> magicStart1 bl = UF2_MAGIC_START1 \<and> magicEnd bl = UF2_MAGIC_END \<and>
     bl_flags bl AND UF2_FLAG_FAMILYID \<noteq> 0 \<and> bl_flags bl AND UF2_FLAG_NOFLASH = 0 \<and>
     payloadSize bl = UF2_FIRMWARE_BYTES_PER_SECTOR \<and> targetAddr bl AND 0xFF = 0"

definition in_bootloader_space :: "chip \<Rightarrow> u32 \<Rightarrow> bool" where
  "in_bootloader_space c addr \<longleftrightarrow> BOOTLOADER_ADDR_START c \<le> addr \<and> addr < BOOTLOADER_ADDR_END c"

definition in_uicr_space :: "u32 \<Rightarrow> bool" where
  "in_uicr_space addr \<longleftrightarrow> addr = 0x10001000"

text \<open>Geometry of the virtual disk: one reserved sector, two FATs, the root directory, then the clusters.\<close>

definition CFG_UF2_NUM_BLOCKS :: u32 where "CFG_UF2_NUM_BLOCKS = 0x10109"
definition BPB_SECTORS_PER_FAT :: u32 where
  "BPB_SECTORS_PER_FAT = CFG_UF2_NUM_BLOCKS div 256 + (if CFG_UF2_NUM_BLOCKS mod 256 \<noteq> 0 then 1 else 0)"
definition FS_START_FAT0_SECTOR :: u32 where "FS_START_FAT0_SECTOR = 1"
definition FS_START_FAT1_SECTOR :: u32 where "FS_START_FAT1_SECTOR = FS_START_FAT0_SECTOR + BPB_SECTORS_PER_FAT"
definition FS_START_ROOTDIR_SECTOR :: u32 where "FS_START_ROOTDIR_SECTOR = FS_START_FAT1_SECTOR + BPB_SECTORS_PER_FAT"
definition FS_START_CLUSTERS_SECTOR :: u32 where "FS_START_CLUSTERS_SECTOR = FS_START_ROOTDIR_SECTOR + 64 div 16"
definition NUM_INFO_SECTORS :: u32 where "NUM_INFO_SECTORS = 2"
definition CURRENT_UF2_FIRST_LBA :: u32 where "CURRENT_UF2_FIRST_LBA = FS_START_CLUSTERS_SECTOR + NUM_INFO_SECTORS"

section \<open>Staging and application blocks\<close>

text \<open>The hash-bound trailer check of the applier, on this flash.\<close>

definition live_app_fits_below :: "build \<Rightarrow> u32 \<Rightarrow> flash \<Rightarrow> bool" where
  "live_app_fits_below b limit m = ota_delta_live_app_fits_below host_dev b limit (boot_st (host_blank\<lparr>h_flash := m\<rparr>))"

definition erase_bootloader_staging :: "build \<Rightarrow> u32 \<Rightarrow> write_state \<times> nvm \<Rightarrow> bool \<times> write_state \<times> nvm" where
  "erase_bootloader_staging b ram st =
     (let (w, n) = st
      in if bootloaderStagingErased w then (True, w, n)
      else if (b_internal_bootloader_update b \<or> b_sd_bootloader_update b \<or> b_qspi_bootloader_update b \<and> \<not> b_qspi_xiao_identity b) \<and>
              bootloaderEraseOffset w = 0 \<and> bootloader_app_is_valid b (nv_mem n) ram \<and>
              \<not> live_app_fits_below b MOTA_NRF52_BL_SCRATCH_START (nv_mem n)
      then (False, w\<lparr>aborted := True\<rparr>, n)
      else let page_addr = BOOTLOADER_ADDR_NEW_RECEIVED (b_chip b) + bootloaderEraseOffset w;
               n = flash_nrf5x_erase page_addr PAGE n;
               w = w\<lparr>bootloaderEraseOffset := bootloaderEraseOffset w + PAGE\<rparr>;
               w = w\<lparr>bootloaderStagingErased := (bootloaderEraseOffset w \<ge> DFU_BL_IMAGE_MAX_SIZE (b_chip b))\<rparr>
           in (False, w, n))"

definition prepare_app_block :: "build \<Rightarrow> uf2_block \<Rightarrow> write_state \<times> nvm \<Rightarrow> (bool \<times> write_state \<times> nvm) option" where
  "prepare_app_block b block st =
     (let (w, n) = st; page = (targetAddr block - USER_FLASH_START) div PAGE
      in case uf2_app_flash_next_action page w of
           None \<Rightarrow> None
         | Some (UF2_APP_FLASH_INVALIDATE_SETTINGS, w) \<Rightarrow>
             Some (False, w, flash_nrf5x_invalidate_app_settings b (flash_nrf5x_discard n))
         | Some (UF2_APP_FLASH_ERASE_PAGE, w) \<Rightarrow> Some (False, w, flash_nrf5x_erase (targetAddr block) PAGE n)
         | Some (UF2_APP_FLASH_PROGRAM_BLOCK, w) \<Rightarrow> Some (True, w, n))"

text \<open>How far a block got: retry later, refused, or stored.\<close>

datatype block_step = Busy | Refused | Stored

definition abort_block :: "write_state \<times> nvm \<Rightarrow> block_step \<times> write_state \<times> nvm" where
  "abort_block st = (let (w, n) = st in (Refused, w\<lparr>aborted := True\<rparr>, n))"

definition write_app_block :: "build \<Rightarrow> uf2_block \<Rightarrow> write_state \<times> nvm \<Rightarrow> (block_step \<times> write_state \<times> nvm) option" where
  "write_app_block b block st =
     (let (w, n) = st; c = b_chip b; app_start = CODE_REGION_1_START (nv_mem n);
          target_kind = uf2_application_target_classify (targetAddr block) USER_FLASH_START app_start (USER_FLASH_END c);
          (res, w) = (if targetAddr block < USER_FLASH_END c
                      then uf2_transfer_target_prepare (targetAddr block) (CFG_UF2_FLASH_SIZE c) w
                      else (UF2_TRANSFER_ACCEPT, w))
      in if res = UF2_TRANSFER_ABORTED then Some (Refused, w, n)
         else case target_kind of
           UF2_APPLICATION_TARGET_PROGRAM \<Rightarrow>
             (case prepare_app_block b block (w, n) of
                None \<Rightarrow> None
              | Some (False, w, n) \<Rightarrow> Some (Busy, w, n)
              | Some (True, w, n) \<Rightarrow>
                  Some (Stored, w, flash_nrf5x_write_erased (targetAddr block) (take (unat (payloadSize block)) (bl_data block)) n))
         | UF2_APPLICATION_TARGET_REQUIRE_MATCH \<Rightarrow>
             if rd_bytes (nv_mem n) (targetAddr block) (unat (payloadSize block)) \<noteq> take (unat (payloadSize block)) (bl_data block)
             then Some (abort_block (w, n)) else Some (Stored, w, n)
         | UF2_APPLICATION_TARGET_SKIP \<Rightarrow> Some (Stored, w, n)
         | UF2_APPLICATION_TARGET_ABORT \<Rightarrow> Some (abort_block (w, n)))"

definition write_boot_block :: "build \<Rightarrow> u32 \<Rightarrow> uf2_block \<Rightarrow> write_state \<times> nvm \<Rightarrow> block_step \<times> write_state \<times> nvm" where
  "write_boot_block b ram block st =
     (let (w, n) = st; c = b_chip b
      in if in_uicr_space (targetAddr block)
         then let uicr_boot_addr = rd_u32 (drop 0x14 (bl_data block)); uicr_mbr_param = rd_u32 (drop 0x18 (bl_data block))
              in if uicr_boot_addr \<noteq> BOOTLOADER_ADDR_START c \<or> uicr_mbr_param \<noteq> BOOTLOADER_MBR_PARAMS_PAGE_ADDRESS c
                 then abort_block (w, n) else (Stored, w\<lparr>has_uicr := True\<rparr>, n)
         else if in_bootloader_space c (targetAddr block)
         then let (ready, w, n) = erase_bootloader_staging b ram (w, n)
              in if \<not> ready then (Busy, w, n)
                 else let staging_addr = BOOTLOADER_ADDR_NEW_RECEIVED c + (targetAddr block - BOOTLOADER_ADDR_START c)
                      in (Stored, w, flash_nrf5x_write staging_addr (take (unat (payloadSize block)) (bl_data block)) False n)
         else if targetAddr block < USER_FLASH_START then (Stored, w, n)
         else abort_block (w, n))"

section \<open>Commit and completion\<close>

definition finish_boot_transfer :: "build \<Rightarrow> write_state \<times> nvm \<Rightarrow> write_state \<times> nvm" where
  "finish_boot_transfer b st =
     (let (w, n) = st; c = b_chip b; n = flash_nrf5x_flush False n;
          staged_image = rd_bytes (nv_mem n) (BOOTLOADER_ADDR_NEW_RECEIVED c) (unat (DFU_BL_IMAGE_MAX_SIZE c));
          start_packet = \<lparr>dfu_update_mode = DFU_UPDATE_BL, sd_image_size = 0, bl_image_size = DFU_BL_IMAGE_MAX_SIZE c, app_image_size = 0\<rparr>
      in if \<not> has_uicr w \<or> \<not> bootloaderStagingErased w \<or>
            dfu_image_policy_validate b (nv_mem n) staged_image start_packet \<noteq> NRF_SUCCESS
         then (w\<lparr>aborted := True\<rparr>, n) else (w, n))"

definition finish_app_transfer :: "build \<Rightarrow> u32 \<Rightarrow> u32 \<Rightarrow> write_state \<times> nvm \<Rightarrow> write_state \<times> nvm" where
  "finish_app_transfer b ram app_start st =
     (let (w, n) = st; n = flash_nrf5x_discard n;
          initial_sp = (if app_start < USER_FLASH_END (b_chip b) then rd_word (nv_mem n) app_start else 0);
          reset_vector = (if app_start < USER_FLASH_END (b_chip b) then rd_word (nv_mem n) (app_start + 4) else 0);
          ram_end = 0x20000000 + push_bit 10 ram
      in if \<not> appSettingsInvalidated w then (w\<lparr>aborted := True\<rparr>, n)
         else case uf2_application_finalize (targetMask w) app_start (USER_FLASH_END (b_chip b)) (appMaximumWrittenEnd w)
                     initial_sp reset_vector ram_end of
                None \<Rightarrow> (w\<lparr>aborted := True\<rparr>, n)
              | Some sz \<Rightarrow> (w\<lparr>appSize := sz, appStart := app_start, appValidated := True\<rparr>, n))"

definition commit_block :: "build \<Rightarrow> u32 \<Rightarrow> u8 \<Rightarrow> u32 \<Rightarrow> uf2_block \<Rightarrow> write_state \<times> nvm \<Rightarrow> (int \<times> write_state \<times> nvm) option" where
  "commit_block b ram update_kind app_start block st =
     (let (w, n) = st
      in case (if update_kind = UF2_UPDATE_KIND_APPLICATION
               then map_option (\<lambda>w.
                      if targetAddr block \<ge> app_start \<and> targetAddr block + UF2_FIRMWARE_BYTES_PER_SECTOR > appMaximumWrittenEnd w
                      then w\<lparr>appMaximumWrittenEnd := targetAddr block + UF2_FIRMWARE_BYTES_PER_SECTOR\<rparr> else w)
                    (uf2_transfer_target_commit (targetAddr block) w)
               else Some w) of
           None \<Rightarrow> None
         | Some w \<Rightarrow>
             case uf2_transfer_commit (blockNo block) w of
               None \<Rightarrow> None
             | Some w \<Rightarrow>
                 let (w, n) = (if numWritten w \<ge> numBlocks w
                               then if updateKind w = UF2_UPDATE_KIND_BOOTLOADER then finish_boot_transfer b (w, n)
                                    else finish_app_transfer b ram app_start (w, n)
                               else (w, n))
                 in Some (512, w, n))"

section \<open>One sector\<close>

definition block_kind :: "build \<Rightarrow> uf2_block \<Rightarrow> u8 option" where
  "block_kind b block =
     (if familyID block = board_id b \<or> familyID block = CFG_UF2_FAMILY_APP_ID (b_chip b) then Some UF2_UPDATE_KIND_APPLICATION
      else if familyID block = CFG_UF2_FAMILY_BOOT_ID then Some UF2_UPDATE_KIND_BOOTLOADER
      else None)"

definition destination_matches :: "build \<Rightarrow> u8 \<Rightarrow> uf2_block \<Rightarrow> flash \<Rightarrow> bool" where
  "destination_matches b update_kind block m =
     (let target_kind = uf2_application_target_classify (targetAddr block) USER_FLASH_START (CODE_REGION_1_START m) (USER_FLASH_END (b_chip b))
      in update_kind \<noteq> UF2_UPDATE_KIND_APPLICATION \<or>
         target_kind \<noteq> UF2_APPLICATION_TARGET_REQUIRE_MATCH \<and> target_kind \<noteq> UF2_APPLICATION_TARGET_PROGRAM \<or>
         rd_bytes m (targetAddr block) (unat (payloadSize block)) = take (unat (payloadSize block)) (bl_data block))"

definition write_block :: "build \<Rightarrow> u32 \<Rightarrow> u32 \<Rightarrow> u32 \<Rightarrow> bytes \<Rightarrow> write_state \<times> nvm \<Rightarrow> (int \<times> write_state \<times> nvm) option" where
  "write_block b ram current_uf2_sectors lba dat st =
     (let (w, n) = st; block = uf2_block_of_bytes dat
      in if aborted w then Some (-1, w, n)
      else if uf2_current_lba_is_synthetic lba CURRENT_UF2_FIRST_LBA current_uf2_sectors then Some (512, w, n)
      else if \<not> is_uf2_block block then Some (-1, w, n)
      else case block_kind b block of
        None \<Rightarrow> Some (-1, w, n)
      | Some update_kind \<Rightarrow>
          let app_start = CODE_REGION_1_START (nv_mem n)
          in case uf2_transfer_prepare (bl_numBlocks block) (blockNo block) update_kind (MAX_BLOCKS (b_chip b)) w of
               None \<Rightarrow> None
             | Some (UF2_TRANSFER_ABORTED, w) \<Rightarrow> Some (-1, w, n)
             | Some (UF2_TRANSFER_DUPLICATE, w) \<Rightarrow>
                 let (res, w) = uf2_transfer_validate_duplicate UF2_TRANSFER_DUPLICATE (destination_matches b update_kind block (nv_mem n)) w
                 in Some (if res = UF2_TRANSFER_ABORTED then -1 else 512, w, n)
             | Some (UF2_TRANSFER_ACCEPT, w) \<Rightarrow>
                 (case (if update_kind = UF2_UPDATE_KIND_APPLICATION then write_app_block b block (w, n)
                        else Some (write_boot_block b ram block (w, n))) of
                    None \<Rightarrow> None
                  | Some (Busy, w, n) \<Rightarrow> Some (0, w, n)
                  | Some (Refused, w, n) \<Rightarrow> Some (-1, w, n)
                  | Some (Stored, w, n) \<Rightarrow> commit_block b ram update_kind app_start block (w, n)))"

end
