(* ===== verification/Uf2_Safety.thy ===== *)
theory Uf2_Safety
  imports Uf2_Write
begin

text \<open>
  Results on the UF2 write path: every mask access stays in bounds, a transfer keeps what it has stored, fails closed, and leaves
  everything outside its region alone.
\<close>

section \<open>Mask accesses stay in bounds\<close>

definition uf2_wf :: "write_state \<Rightarrow> bool" where
  "uf2_wf w \<longleftrightarrow> length (writtenMask w) = 525 \<and> length (targetMask w) = 512 \<and> length (appErasedMask w) = 30"

lemma uf2_wf_reset [simp]: "uf2_wf (uf2_transfer_reset NRF52840)"
  by (simp add: uf2_wf_def uf2_transfer_reset_def layout_simps)

lemma unat_div_256: "unat (a div 256 :: u32) = unat a div 256"
  by (simp add: unat_div)

text \<open>What preparing a block decides and changes.\<close>

definition prepared :: "uf2_block \<Rightarrow> u8 \<Rightarrow> write_state \<Rightarrow> write_state" where
  "prepared block k w = w\<lparr>numBlocks := bl_numBlocks block, updateKind := k\<rparr>"

lemma prepare_cases:
  assumes "b_chip b = NRF52840" "uf2_wf w" "\<not> aborted w"
  obtains (abort) w' where "uf2_transfer_prepare (bl_numBlocks block) (blockNo block) k (MAX_BLOCKS (b_chip b)) w = Some (UF2_TRANSFER_ABORTED, w')"
      "w' = w\<lparr>aborted := True\<rparr> \<or> w' = w\<lparr>numBlocks := bl_numBlocks block, aborted := True\<rparr> \<and> (numBlocks w = 0 \<or> numBlocks w = bl_numBlocks block) \<and>
        unat (bl_numBlocks block) \<le> 4196"
    | (go) r where "uf2_transfer_prepare (bl_numBlocks block) (blockNo block) k (MAX_BLOCKS (b_chip b)) w = Some (r, prepared block k w)"
      "r = (if unat (blockNo block) \<in> mask_bits (writtenMask w) then UF2_TRANSFER_DUPLICATE else UF2_TRANSFER_ACCEPT)"
      "numBlocks w = 0 \<or> numBlocks w = bl_numBlocks block" "updateKind w = 0 \<or> updateKind w = k"
      "bl_numBlocks block \<noteq> 0" "unat (bl_numBlocks block) \<le> 4196" "unat (blockNo block) < unat (bl_numBlocks block)"
proof -
  consider (bad) "bl_numBlocks block = 0 \<or> bl_numBlocks block > MAX_BLOCKS (b_chip b) \<or> blockNo block \<ge> bl_numBlocks block \<or>
        numBlocks w \<noteq> 0 \<and> numBlocks w \<noteq> bl_numBlocks block"
    | (kind) "updateKind w \<noteq> 0 \<and> updateKind w \<noteq> k" "numBlocks w = 0 \<or> numBlocks w = bl_numBlocks block"
        "bl_numBlocks block \<noteq> 0" "bl_numBlocks block \<le> MAX_BLOCKS (b_chip b)" "blockNo block < bl_numBlocks block"
    | (ok) "updateKind w = 0 \<or> updateKind w = k" "numBlocks w = 0 \<or> numBlocks w = bl_numBlocks block"
        "bl_numBlocks block \<noteq> 0" "bl_numBlocks block \<le> MAX_BLOCKS (b_chip b)" "blockNo block < bl_numBlocks block"
    using not_le not_less by blast
  then show ?thesis
  proof cases
    case bad
    then show ?thesis using assms(3) by (intro abort [of "w\<lparr>aborted := True\<rparr>"]) (auto simp: uf2_transfer_prepare_def)
  next
    case kind
    then have "unat (bl_numBlocks block) \<le> 4196" using assms(1) by (simp add: word_le_nat_alt layout_simps)
    then show ?thesis using assms(3) kind
      by (intro abort [of "w\<lparr>numBlocks := bl_numBlocks block, aborted := True\<rparr>"]) (auto simp: uf2_transfer_prepare_def not_le not_less)
  next
    case ok
    have n: "unat (bl_numBlocks block) \<le> 4196" "unat (blockNo block) < unat (bl_numBlocks block)"
      using ok(4,5) assms(1) by (simp_all add: word_le_nat_alt word_less_nat_alt layout_simps)
    then have "unat (blockNo block) div 8 < length (writtenMask w)" using assms(2) by (simp add: uf2_wf_def)
    then have "uf2_transfer_prepare (bl_numBlocks block) (blockNo block) k (MAX_BLOCKS (b_chip b)) w =
        Some (if unat (blockNo block) \<in> mask_bits (writtenMask w) then UF2_TRANSFER_DUPLICATE else UF2_TRANSFER_ACCEPT, prepared block k w)"
      using ok assms(3) by (auto simp: uf2_transfer_prepare_def mask_test_eq prepared_def not_le not_less)
    from go [OF this refl ok(2,1,3) n] show ?thesis .
  qed
qed

lemma next_action_cases:
  assumes "uf2_wf w" "unat page < 240"
  obtains (invalidate) "\<not> appSettingsInvalidated w"
      "uf2_app_flash_next_action page w = Some (UF2_APP_FLASH_INVALIDATE_SETTINGS, w\<lparr>appSettingsInvalidated := True\<rparr>)"
    | (erase) m where "appSettingsInvalidated w" "unat page \<notin> mask_bits (appErasedMask w)"
      "uf2_app_flash_next_action page w = Some (UF2_APP_FLASH_ERASE_PAGE, w\<lparr>appErasedMask := m\<rparr>)"
      "length m = 30" "mask_bits m = insert (unat page) (mask_bits (appErasedMask w))"
    | (program) "appSettingsInvalidated w" "unat page \<in> mask_bits (appErasedMask w)"
      "uf2_app_flash_next_action page w = Some (UF2_APP_FLASH_PROGRAM_BLOCK, w)"
proof -
  have l: "unat page div 8 < length (appErasedMask w)" using assms by (simp add: uf2_wf_def)
  obtain m where m: "mask_set (appErasedMask w) page = Some m" using mask_set_Some [OF l] by blast
  note k = mask_set_eq [OF m]
  consider "\<not> appSettingsInvalidated w" | "appSettingsInvalidated w" "unat page \<notin> mask_bits (appErasedMask w)"
    | "appSettingsInvalidated w" "unat page \<in> mask_bits (appErasedMask w)" by blast
  then show ?thesis
  proof cases
    case 1
    then show ?thesis by (intro invalidate) (simp_all add: uf2_app_flash_next_action_def)
  next
    case 2
    then show ?thesis using l m k assms(1)
      by (intro erase [of m]) (simp_all add: uf2_app_flash_next_action_def mask_test_eq uf2_wf_def)
  next
    case 3
    then show ?thesis using l by (intro program) (simp_all add: uf2_app_flash_next_action_def mask_test_eq)
  qed
qed

section \<open>The outcomes of an application block\<close>

definition page_index :: "u32 \<Rightarrow> u32" where
  "page_index a = (a - USER_FLASH_START) div PAGE"

lemma page_index_unat: "0x1000 \<le> a \<Longrightarrow> unat (page_index a) = unat a div 4096 - 1"
  by (simp add: page_index_def layout_simps unat_div unat_sub_le word_le_nat_alt)

lemma write_app_block_accept:
  assumes "b_chip b = NRF52840" "uf2_wf w" "\<not> aborted w" "targetAddr block AND 255 = 0" "targetAddr block < 0xEA000"
    "unat (targetAddr block) div 256 \<notin> mask_bits (targetMask w)"
  shows "write_app_block b block (w, n) =
    (case uf2_application_target_classify (targetAddr block) 0x1000 (CODE_REGION_1_START (nv_mem n)) 0xEA000 of
       UF2_APPLICATION_TARGET_PROGRAM \<Rightarrow>
         (case prepare_app_block b block (w, n) of
            None \<Rightarrow> None
          | Some (False, w, n) \<Rightarrow> Some (Busy, w, n)
          | Some (True, w, n) \<Rightarrow>
              Some (Stored, w, flash_nrf5x_write_erased (targetAddr block) (take (unat (payloadSize block)) (bl_data block)) n))
     | UF2_APPLICATION_TARGET_REQUIRE_MATCH \<Rightarrow>
         if rd_bytes (nv_mem n) (targetAddr block) (unat (payloadSize block)) \<noteq> take (unat (payloadSize block)) (bl_data block)
         then Some (abort_block (w, n)) else Some (Stored, w, n)
     | UF2_APPLICATION_TARGET_SKIP \<Rightarrow> Some (Stored, w, n)
     | UF2_APPLICATION_TARGET_ABORT \<Rightarrow> Some (abort_block (w, n)))"
proof -
  have v: "USER_FLASH_END (b_chip b) = 0xEA000" "USER_FLASH_START = 0x1000" "CFG_UF2_FLASH_SIZE (b_chip b) = 0x100000"
    using assms(1) by (simp_all add: layout_simps)
  have "unat (targetAddr block) < 0xEA000" using assms(5) by (simp add: word_less_nat_alt)
  then have p: "uf2_transfer_target_prepare (targetAddr block) 0x100000 w = (UF2_TRANSFER_ACCEPT, w)"
    using assms by (simp add: uf2_transfer_target_prepare_def mask_test_eq unat_div_256 uf2_wf_def not_le word_less_nat_alt)
  show ?thesis using assms(5) unfolding write_app_block_def Let_def prod.case v p by simp
qed

text \<open>A new block of the application region: one step of invalidate, erase, program.\<close>

lemma app_block_program:
  assumes "b_chip b = NRF52840" "uf2_wf w" "\<not> aborted w" "targetAddr block AND 255 = 0" "targetAddr block < 0xEA000"
    "unat (targetAddr block) div 256 \<notin> mask_bits (targetMask w)"
    and A: "0x1000 \<le> CODE_REGION_1_START (nv_mem n)" "CODE_REGION_1_START (nv_mem n) \<le> targetAddr block"
  obtains (invalidate) "\<not> appSettingsInvalidated w" "write_app_block b block (w, n) =
         Some (Busy, w\<lparr>appSettingsInvalidated := True\<rparr>, flash_nrf5x_invalidate_app_settings b (flash_nrf5x_discard n))"
    | (erase) mm where "appSettingsInvalidated w" "unat (page_index (targetAddr block)) \<notin> mask_bits (appErasedMask w)"
         "write_app_block b block (w, n) = Some (Busy, w\<lparr>appErasedMask := mm\<rparr>, flash_nrf5x_erase (targetAddr block) PAGE n)"
         "length mm = 30" "mask_bits mm = insert (unat (page_index (targetAddr block))) (mask_bits (appErasedMask w))"
    | (program) "appSettingsInvalidated w" "unat (page_index (targetAddr block)) \<in> mask_bits (appErasedMask w)"
         "write_app_block b block (w, n) =
            Some (Stored, w, flash_nrf5x_write_erased (targetAddr block) (take (unat (payloadSize block)) (bl_data block)) n)"
proof -
  let ?t = "targetAddr block"
  have k: "uf2_application_target_classify ?t 0x1000 (CODE_REGION_1_START (nv_mem n)) 0xEA000 = UF2_APPLICATION_TARGET_PROGRAM"
    using A assms(5) by (auto simp: uf2_application_target_classify_def not_less word_less_nat_alt word_le_nat_alt)
  note run = write_app_block_accept [OF assms(1-6), of n, unfolded k uf2_application_target.case]
  have pi: "unat (page_index ?t) < 240"
    using A assms(5) by (subst page_index_unat) (auto simp: word_le_nat_alt word_less_nat_alt)
  note pb = prepare_app_block_def Let_def page_index_def [symmetric]
  show thesis
  proof (rule next_action_cases [OF assms(2) pi])
    assume h: "\<not> appSettingsInvalidated w"
      "uf2_app_flash_next_action (page_index ?t) w = Some (UF2_APP_FLASH_INVALIDATE_SETTINGS, w\<lparr>appSettingsInvalidated := True\<rparr>)"
    show thesis by (rule invalidate [OF h(1)]) (simp add: run pb h(2))
  next
    fix m assume h: "appSettingsInvalidated w" "unat (page_index ?t) \<notin> mask_bits (appErasedMask w)"
      "uf2_app_flash_next_action (page_index ?t) w = Some (UF2_APP_FLASH_ERASE_PAGE, w\<lparr>appErasedMask := m\<rparr>)"
      "length m = 30" "mask_bits m = insert (unat (page_index ?t)) (mask_bits (appErasedMask w))"
    show thesis by (rule erase [OF h(1,2) _ h(4,5)]) (simp add: run pb h(3))
  next
    assume h: "appSettingsInvalidated w" "unat (page_index ?t) \<in> mask_bits (appErasedMask w)"
      "uf2_app_flash_next_action (page_index ?t) w = Some (UF2_APP_FLASH_PROGRAM_BLOCK, w)"
    show thesis by (rule program [OF h(1,2)]) (simp add: run pb h(3))
  qed
qed

lemma app_block_cases:
  assumes "b_chip b = NRF52840" "uf2_wf w" "\<not> aborted w" "targetAddr block AND 255 = 0" "0x1000 \<le> CODE_REGION_1_START (nv_mem n)" "CODE_REGION_1_START (nv_mem n) \<le> 0xEA000"
  obtains (refused) "write_app_block b block (w, n) = Some (Refused, w\<lparr>aborted := True\<rparr>, n)"
    | (invalidate) "\<not> appSettingsInvalidated w" "write_app_block b block (w, n) =
         Some (Busy, w\<lparr>appSettingsInvalidated := True\<rparr>, flash_nrf5x_invalidate_app_settings b (flash_nrf5x_discard n))"
    | (erase) mm where "appSettingsInvalidated w" "unat (page_index (targetAddr block)) \<notin> mask_bits (appErasedMask w)"
         "CODE_REGION_1_START (nv_mem n) \<le> targetAddr block" "targetAddr block < 0xEA000"
         "write_app_block b block (w, n) = Some (Busy, w\<lparr>appErasedMask := mm\<rparr>, flash_nrf5x_erase (targetAddr block) PAGE n)"
         "length mm = 30" "mask_bits mm = insert (unat (page_index (targetAddr block))) (mask_bits (appErasedMask w))"
    | (program) "appSettingsInvalidated w" "unat (page_index (targetAddr block)) \<in> mask_bits (appErasedMask w)"
         "CODE_REGION_1_START (nv_mem n) \<le> targetAddr block" "targetAddr block < 0xEA000" "unat (targetAddr block) div 256 \<notin> mask_bits (targetMask w)"
         "write_app_block b block (w, n) =
            Some (Stored, w, flash_nrf5x_write_erased (targetAddr block) (take (unat (payloadSize block)) (bl_data block)) n)"
    | (keep) "targetAddr block < CODE_REGION_1_START (nv_mem n)" "targetAddr block < 0xEA000" "unat (targetAddr block) div 256 \<notin> mask_bits (targetMask w)"
         "write_app_block b block (w, n) = Some (Stored, w, n)"
proof -
  let ?A = "CODE_REGION_1_START (nv_mem n)" and ?t = "targetAddr block"
  consider (out) "\<not> ?t < 0xEA000" | (seen) "?t < 0xEA000" "unat ?t div 256 \<in> mask_bits (targetMask w)"
    | (below) "?t < 0xEA000" "unat ?t div 256 \<notin> mask_bits (targetMask w)" "?t < ?A"
    | (above) "?t < 0xEA000" "unat ?t div 256 \<notin> mask_bits (targetMask w)" "?A \<le> ?t" by fastforce
  then show thesis
  proof cases
    case out
    then have "\<not> ?t < USER_FLASH_END (b_chip b)" "uf2_application_target_classify ?t USER_FLASH_START ?A (USER_FLASH_END (b_chip b)) = UF2_APPLICATION_TARGET_ABORT"
      using assms(1,5,6) by (auto simp: uf2_application_target_classify_def not_less word_less_nat_alt word_le_nat_alt layout_simps)
    then show thesis by (intro refused) (simp add: write_app_block_def Let_def abort_block_def)
  next
    case seen
    then have "uf2_transfer_target_prepare ?t (CFG_UF2_FLASH_SIZE (b_chip b)) w = (UF2_TRANSFER_ABORTED, w\<lparr>aborted := True\<rparr>)"
      by (auto simp: uf2_transfer_target_prepare_def mask_test_eq unat_div_256)
    then show thesis using seen(1) assms(1) by (intro refused) (simp add: write_app_block_def Let_def layout_simps)
  next
    case below
    have "uf2_application_target_classify ?t 0x1000 ?A 0xEA000 \<in> {UF2_APPLICATION_TARGET_SKIP, UF2_APPLICATION_TARGET_REQUIRE_MATCH}"
      using below(3) by (simp add: uf2_application_target_classify_def)
    then have "write_app_block b block (w, n) = Some (Refused, w\<lparr>aborted := True\<rparr>, n) \<or> write_app_block b block (w, n) = Some (Stored, w, n)"
      unfolding write_app_block_accept [OF assms(1-4) below(1,2)] by (auto simp: abort_block_def)
    then show thesis using refused keep below by blast
  next
    case above
    show thesis
      by (rule app_block_program [OF assms(1-4) above(1,2) assms(5) above(3)]) (use invalidate erase program above in blast)+
  qed
qed

section \<open>Bytes, blocks and pages\<close>

lemma flash_ops:
  "flash_nrf5x_erase dst PAGE n = n\<lparr>nv_mem := fl_erase (nv_mem n) (page_of dst)\<rparr>"
  "length d = 256 \<Longrightarrow> flash_nrf5x_write_erased dst d n = n\<lparr>nv_mem := program_bytes (nv_mem n) dst d\<rparr>"
  "b_chip b = NRF52840 \<Longrightarrow> flash_nrf5x_invalidate_app_settings b (flash_nrf5x_discard n) =
     n\<lparr>fl_addr := FLASH_CACHE_INVALID_ADDR, nv_mem := program_bytes (nv_mem n) 0xFF000 [0, 0, 0, 0]\<rparr>"
proof -
  show "flash_nrf5x_erase dst PAGE n = n\<lparr>nv_mem := fl_erase (nv_mem n) (page_of dst)\<rparr>"
    by (simp add: flash_nrf5x_erase_def Let_def)
  show "length d = 256 \<Longrightarrow> flash_nrf5x_write_erased dst d n = n\<lparr>nv_mem := program_bytes (nv_mem n) dst d\<rparr>"
    by (simp add: flash_nrf5x_write_erased_def fl_write_words_program)
  show "b_chip b = NRF52840 \<Longrightarrow> flash_nrf5x_invalidate_app_settings b (flash_nrf5x_discard n) =
     n\<lparr>fl_addr := FLASH_CACHE_INVALID_ADDR, nv_mem := program_bytes (nv_mem n) 0xFF000 [0, 0, 0, 0]\<rparr>"
    by (simp add: flash_nrf5x_invalidate_app_settings_def flash_nrf5x_discard_def fl_write_word_def wr_u32_def)
qed

lemma in_page_of_iff: "in_page (page_of t) x \<longleftrightarrow> unat x div 4096 = unat t div 4096"
proof -
  obtain p where p: "unat (page_of t) = 4096 * p" using page_of_aligned(1) [of t] by (auto simp: dvd_def)
  have "in_page (page_of t) y \<longleftrightarrow> unat y div 4096 = p" for y
    using in_page_aligned_iff [OF page_of_aligned(1), of t y] p by (auto simp: div_nat_eqI)
  then show ?thesis using page_of_aligned(2) [of t] by auto
qed

lemma in_block_iff:
  assumes "256 dvd unat (t :: u32)"
  shows "unat (x - t) < 256 \<longleftrightarrow> unat x div 256 = unat t div 256" "unat x div 256 = unat t div 256 \<Longrightarrow> unat (x - t) = unat x mod 256"
proof -
  obtain k where k: "unat t = 256 * k" using assms by (auto simp: dvd_def)
  show *: "unat (x - t) = unat x mod 256" if "unat x div 256 = unat t div 256"
  proof -
    have "unat x = 256 * k + unat x mod 256" using that k by (metis div_mult_mod_eq mult.commute nonzero_mult_div_cancel_left zero_neq_numeral)
    then show ?thesis using k by (simp add: unat_sub_le word_le_nat_alt)
  qed
  show "unat (x - t) < 256 \<longleftrightarrow> unat x div 256 = unat t div 256"
  proof
    assume d: "unat (x - t) < 256"
    have "k < 2 ^ 24" using k unat_u32_lt [of t] by simp
    then have "unat t + unat (x - t) < 2 ^ 32" using k d by simp
    then have "unat x = unat t + unat (x - t)" using unat_add_no_wrap [of t "x - t"] by simp
    then show "unat x div 256 = unat t div 256" using d k by simp
  qed (use * in simp)
qed

lemma program_block:
  assumes "256 dvd unat (t :: u32)" "length d = 256"
  shows "program_bytes m t d x = (if unat x div 256 = unat t div 256 then m x AND d ! (unat x mod 256) else m x)"
  using in_block_iff [OF assms(1), of x] assms(2) by (simp add: program_bytes_def)

lemma rd_block:
  assumes "256 dvd unat (t :: u32)" "length d = 256" "\<And>x. unat x div 256 = unat t div 256 \<Longrightarrow> m x = d ! (unat x mod 256)"
  shows "rd_bytes m t 256 = d"
proof (rule nth_equalityI)
  fix i assume "i < length (rd_bytes m t 256)"
  then have i: "i < 256" by simp
  have u: "unat (t + of_nat i - t) = i" using i by (simp add: unat_of_nat_u32)
  then have b: "unat (t + of_nat i) div 256 = unat t div 256" using in_block_iff(1) [OF assms(1), of "t + of_nat i"] i by simp
  then have "unat (t + of_nat i) mod 256 = i" using in_block_iff(2) [OF assms(1) b] u by simp
  then show "rd_bytes m t 256 ! i = d ! i" using assms(3) [OF b] i by simp
qed (use assms in simp)

lemma block_page:
  assumes "unat x div 256 = unat y div 256" shows "unat x div 4096 = unat (y :: u32) div 4096"
proof -
  have "n div 4096 = n div 256 div 16" for n :: nat by (simp flip: div_mult2_eq)
  then show ?thesis using assms by simp
qed

lemma aligned256_iff: "(t :: u32) AND 255 = 0 \<longleftrightarrow> 256 dvd unat t"
  using and_mask_zero_iff [of t 8] by (simp add: mask_eq_exp_minus_1)

section \<open>Invariant of an application transfer\<close>

text \<open>
  \<open>m0\<close> is the flash at the start of the session, \<open>log\<close> the blocks stored so far.  Until the settings are invalidated nothing
  has changed; erased pages hold the stored blocks and \<open>0xFF\<close> elsewhere.
\<close>

definition app_inv :: "flash \<Rightarrow> write_state \<Rightarrow> flash \<Rightarrow> (u32 \<times> bytes) list \<Rightarrow> bool" where
  "app_inv m0 w m log \<longleftrightarrow>
     (let A = unat (CODE_REGION_1_START m0); T = mask_bits (targetMask w); E = mask_bits (appErasedMask w)
      in (\<not> appSettingsInvalidated w \<longrightarrow> m = m0 \<and> E = {} \<and> log = []) \<and>
         (appSettingsInvalidated w \<longrightarrow> (\<forall>i<4. m (0xFF000 + of_nat i) = 0)) \<and>
         (\<forall>x. \<not> (A \<le> unat x \<and> unat x < 0xEA000) \<and> \<not> in_page 0xFF000 x \<longrightarrow> m x = m0 x) \<and>
         (\<forall>(a, d) \<in> set log. A \<le> unat a \<and> unat a < 0xEA000 \<and> 256 dvd unat a \<and> length d = 256 \<and> unat a div 256 \<in> T \<and>
            unat a div 4096 - 1 \<in> E \<and> unat a + 256 \<le> unat (appMaximumWrittenEnd w) \<and>
            (\<forall>x. unat x div 256 = unat a div 256 \<longrightarrow> m x = d ! (unat x mod 256))) \<and>
         (\<forall>t \<in> T. A \<le> 256 * t \<longrightarrow> (\<exists>a d. unat a = 256 * t \<and> (a, d) \<in> set log)) \<and>
         (\<forall>x. A \<le> unat x \<and> unat x < 0xEA000 \<and> unat x div 4096 - 1 \<in> E \<and> unat x div 256 \<notin> T \<longrightarrow> m x = 0xFF))"

definition uf2_window :: "flash \<Rightarrow> bool" where
  "uf2_window m0 \<longleftrightarrow> 4096 dvd unat (CODE_REGION_1_START m0) \<and> 0x4000 \<le> unat (CODE_REGION_1_START m0) \<and> unat (CODE_REGION_1_START m0) < 0xEA000"

lemma settings_page_out: "in_page 0xFF000 x \<longleftrightarrow> 0xFF000 \<le> unat x \<and> unat x < 0x100000"
  by (simp add: in_page_aligned_iff)

lemma app_inv_base:
  assumes "app_inv m0 w m log" "uf2_window m0" shows "CODE_REGION_1_START m = CODE_REGION_1_START m0"
proof (rule CODE_REGION_1_START_cong)
  fix a :: u32 assume "0x3000 \<le> a" "a < 0x3010"
  then have "\<not> (unat (CODE_REGION_1_START m0) \<le> unat a \<and> unat a < 0xEA000)" "\<not> in_page 0xFF000 a"
    using assms(2) by (simp_all add: uf2_window_def settings_page_out word_le_nat_alt word_less_nat_alt)
  then show "m a = m0 a" using assms(1) by (auto simp: app_inv_def Let_def)
qed

lemma app_inv_cong:
  assumes "app_inv m0 w m log" "appSettingsInvalidated w' = appSettingsInvalidated w" "targetMask w' = targetMask w"
    "appErasedMask w' = appErasedMask w" "appMaximumWrittenEnd w' = appMaximumWrittenEnd w"
  shows "app_inv m0 w' m log"
  using assms unfolding app_inv_def by simp

lemma app_inv_invalidate:
  assumes "app_inv m0 w m log" "uf2_window m0" "\<not> appSettingsInvalidated w"
  shows "app_inv m0 (w\<lparr>appSettingsInvalidated := True\<rparr>) (program_bytes m 0xFF000 [0, 0, 0, 0]) log"
proof -
  have m: "m = m0" "log = []" "mask_bits (appErasedMask w) = {}" using assms(1,3) by (simp_all add: app_inv_def Let_def)
  have z: "program_bytes m 0xFF000 [0, 0, 0, 0] (0xFF000 + of_nat i) = 0" if "i < 4" for i
  proof -
    have "unat (0xFF000 + of_nat i - 0xFF000 :: u32) = i" using that by (simp add: unat_of_nat_u32)
    then show ?thesis using that by (auto simp: program_bytes_def less_Suc_eq numeral_eq_Suc)
  qed
  have o: "program_bytes m 0xFF000 [0, 0, 0, 0] x = m x" if "\<not> in_page 0xFF000 x" for x
    using that program_in_page_frame [of "0xFF000" x 0 "[0, 0, 0, 0]" "0xFF000" m] by simp
  have c: "\<forall>t \<in> mask_bits (targetMask w). \<not> unat (CODE_REGION_1_START m0) \<le> 256 * t"
    using assms(1) m by (auto simp: app_inv_def Let_def)
  show ?thesis unfolding app_inv_def Let_def using m z o c by auto
qed

lemma app_inv_erase:
  assumes inv: "app_inv m0 w m log" "uf2_window m0" and e: "appSettingsInvalidated w"
    "unat (page_index t) \<notin> mask_bits (appErasedMask w)" "unat (CODE_REGION_1_START m0) \<le> unat t" "unat t < 0xEA000"
    and w': "mask_bits (appErasedMask w') = insert (unat (page_index t)) (mask_bits (appErasedMask w))" "targetMask w' = targetMask w"
    "appMaximumWrittenEnd w' = appMaximumWrittenEnd w" "appSettingsInvalidated w'"
  shows "app_inv m0 w' (fl_erase m (page_of t)) log"
proof -
  define A where "A = unat (CODE_REGION_1_START m0)"
  have w: "4096 dvd A" "0x4000 \<le> A" "A < 0xEA000" using inv(2) by (simp_all add: uf2_window_def A_def)
  have p: "unat (page_index t) = unat t div 4096 - 1" using e(3) w(2) by (intro page_index_unat) (simp add: A_def word_le_nat_alt)
  have er: "fl_erase m (page_of t) x = (if unat x div 4096 = unat t div 4096 then 0xFF else m x)" for x
    by (simp add: fl_erase_def in_page_of_iff)
  have inapp: "A \<le> unat x \<and> unat x < 0xEA000" if "unat x div 4096 = unat t div 4096" for x :: u32
  proof -
    obtain k where k: "A = 4096 * k" using w(1) by (auto simp: dvd_def)
    define q where "q = unat t div 4096"
    have q: "4096 * q \<le> unat t" "unat t < 4096 * q + 4096" unfolding q_def by simp_all
    have x: "4096 * q \<le> unat x" "unat x < 4096 * q + 4096" unfolding q_def that [symmetric] by simp_all
    have "k \<le> q" "q < 234" using e(3,4) k q by (simp_all add: A_def)
    then show ?thesis using k x by simp
  qed
  have far: "unat x div 4096 \<noteq> unat t div 4096" if "unat x div 4096 - 1 \<in> mask_bits (appErasedMask w)" for x :: u32
    using that e(2) p by auto
  note i = inv(1) [unfolded app_inv_def Let_def A_def [symmetric]]
  show ?thesis
    unfolding app_inv_def Let_def A_def [symmetric] w'(1,2,3)
  proof (intro conjI)
    show "appSettingsInvalidated w' \<longrightarrow> (\<forall>i<4. fl_erase m (page_of t) (0xFF000 + of_nat i) = 0)"
    proof (intro allI impI)
      fix i :: nat assume i4: "i < 4"
      have "unat (0xFF000 + of_nat i :: u32) = 0xFF000 + i" using i4 by (subst unat_add_no_wrap) (simp_all add: unat_of_nat_u32)
      then have "unat (0xFF000 + of_nat i :: u32) div 4096 \<noteq> unat t div 4096" using inapp [of "0xFF000 + of_nat i"] i4 by auto
      then show "fl_erase m (page_of t) (0xFF000 + of_nat i) = 0" using i e(1) i4 by (simp add: er)
    qed
    show "\<forall>x. \<not> (A \<le> unat x \<and> unat x < 0xEA000) \<and> \<not> in_page 0xFF000 x \<longrightarrow> fl_erase m (page_of t) x = m0 x"
      using i inapp by (auto simp: er)
    show "\<forall>(a, d)\<in>set log. A \<le> unat a \<and> unat a < 0xEA000 \<and> 256 dvd unat a \<and> length d = 256 \<and> unat a div 256 \<in> mask_bits (targetMask w) \<and>
        unat a div 4096 - 1 \<in> insert (unat (page_index t)) (mask_bits (appErasedMask w)) \<and> unat a + 256 \<le> unat (appMaximumWrittenEnd w) \<and>
        (\<forall>x. unat x div 256 = unat a div 256 \<longrightarrow> fl_erase m (page_of t) x = d ! (unat x mod 256))"
    proof (intro ballI, clarify)
      fix a d assume ad: "(a, d) \<in> set log"
      then have l: "A \<le> unat a" "unat a < 0xEA000" "256 dvd unat a" "length d = 256" "unat a div 256 \<in> mask_bits (targetMask w)"
          "unat a div 4096 - 1 \<in> mask_bits (appErasedMask w)" "unat a + 256 \<le> unat (appMaximumWrittenEnd w)"
          "\<forall>x. unat x div 256 = unat a div 256 \<longrightarrow> m x = d ! (unat x mod 256)"
        using i by blast+
      have "fl_erase m (page_of t) x = d ! (unat x mod 256)" if x: "unat x div 256 = unat a div 256" for x
        using l(8) x far [OF l(6)] block_page [OF x] by (simp add: er)
      then show "A \<le> unat a \<and> unat a < 0xEA000 \<and> 256 dvd unat a \<and> length d = 256 \<and> unat a div 256 \<in> mask_bits (targetMask w) \<and>
        unat a div 4096 - 1 \<in> insert (unat (page_index t)) (mask_bits (appErasedMask w)) \<and> unat a + 256 \<le> unat (appMaximumWrittenEnd w) \<and>
        (\<forall>x. unat x div 256 = unat a div 256 \<longrightarrow> fl_erase m (page_of t) x = d ! (unat x mod 256))"
        using l by blast
    qed
    show "\<forall>t\<in>mask_bits (targetMask w). A \<le> 256 * t \<longrightarrow> (\<exists>a d. unat a = 256 * t \<and> (a, d) \<in> set log)" using i by blast
    show "\<forall>x. A \<le> unat x \<and> unat x < 0xEA000 \<and> unat x div 4096 - 1 \<in> insert (unat (page_index t)) (mask_bits (appErasedMask w)) \<and>
        unat x div 256 \<notin> mask_bits (targetMask w) \<longrightarrow> fl_erase m (page_of t) x = 0xFF"
    proof (intro allI impI, elim conjE)
      fix x :: u32 assume x: "A \<le> unat x" "unat x < 0xEA000" "unat x div 4096 - 1 \<in> insert (unat (page_index t)) (mask_bits (appErasedMask w))"
        "unat x div 256 \<notin> mask_bits (targetMask w)"
      have "unat x div 4096 \<ge> 1" "unat t div 4096 \<ge> 1" using x(1) w(2) e(3) by (auto simp: A_def)
      then show "fl_erase m (page_of t) x = 0xFF" using x i p by (auto simp: er)
    qed
  qed (use w'(4) in simp_all)
qed

lemma app_inv_program:
  assumes inv: "app_inv m0 w m log" "uf2_window m0" and e: "appSettingsInvalidated w"
    "unat (page_index t) \<in> mask_bits (appErasedMask w)" "unat (CODE_REGION_1_START m0) \<le> unat t" "unat t < 0xEA000"
    "unat t div 256 \<notin> mask_bits (targetMask w)" "256 dvd unat t" "length d = 256"
    and w': "mask_bits (targetMask w') = insert (unat t div 256) (mask_bits (targetMask w))" "appErasedMask w' = appErasedMask w"
    "appSettingsInvalidated w'" "unat t + 256 \<le> unat (appMaximumWrittenEnd w')" "unat (appMaximumWrittenEnd w) \<le> unat (appMaximumWrittenEnd w')"
  shows "app_inv m0 w' (program_bytes m t d) (log @ [(t, d)])"
proof -
  define A where "A = unat (CODE_REGION_1_START m0)"
  have w: "0x4000 \<le> A" using inv(2) by (simp add: uf2_window_def A_def)
  have p: "unat (page_index t) = unat t div 4096 - 1" using e(3) w by (intro page_index_unat) (simp add: A_def word_le_nat_alt)
  note i = inv(1) [unfolded app_inv_def Let_def A_def [symmetric]]
  note pb = program_block [OF e(6,7)]
  have blk: "A \<le> unat x \<and> unat x < 0xEA000 \<and> m x = 0xFF" if "unat x div 256 = unat t div 256" for x
  proof -
    obtain k where k: "unat t = 256 * k" using e(6) by (auto simp: dvd_def)
    then have q: "unat t div 256 = k" by simp
    have "256 * k \<le> unat x" "unat x < 256 * k + 256" using that unfolding q by (auto simp: div_le_mono dest: sym)
    moreover have "k < 3744" using e(4) k by simp
    ultimately have r: "A \<le> unat x" "unat x < 0xEA000" using e(3) k by (simp_all add: A_def)
    moreover have "unat x div 4096 - 1 \<in> mask_bits (appErasedMask w)" using e(2) p block_page [OF that] by simp
    moreover have "unat x div 256 \<notin> mask_bits (targetMask w)" using e(5) that by simp
    ultimately show ?thesis using i by blast
  qed
  have old: "program_bytes m t d x = m x" if "unat x div 256 \<in> mask_bits (targetMask w)" for x using that e(5) by (auto simp: pb)
  show ?thesis
    unfolding app_inv_def Let_def A_def [symmetric] w'(1,2)
  proof (intro conjI)
    show "appSettingsInvalidated w' \<longrightarrow> (\<forall>i<4. program_bytes m t d (0xFF000 + of_nat i) = 0)"
    proof (intro impI allI)
      fix i :: nat assume i4: "i < 4"
      have "unat (0xFF000 + of_nat i :: u32) = 0xFF000 + i" using i4 by (subst unat_add_no_wrap) (simp_all add: unat_of_nat_u32)
      then have "unat (0xFF000 + of_nat i :: u32) div 256 \<noteq> unat t div 256" using blk [of "0xFF000 + of_nat i"] i4 by auto
      then show "program_bytes m t d (0xFF000 + of_nat i) = 0" using i e(1) i4 by (simp add: pb)
    qed
    show "\<forall>x. \<not> (A \<le> unat x \<and> unat x < 0xEA000) \<and> \<not> in_page 0xFF000 x \<longrightarrow> program_bytes m t d x = m0 x"
      using i blk by (auto simp: pb)
    show "\<forall>(a, d')\<in>set (log @ [(t, d)]). A \<le> unat a \<and> unat a < 0xEA000 \<and> 256 dvd unat a \<and> length d' = 256 \<and>
        unat a div 256 \<in> insert (unat t div 256) (mask_bits (targetMask w)) \<and> unat a div 4096 - 1 \<in> mask_bits (appErasedMask w) \<and>
        unat a + 256 \<le> unat (appMaximumWrittenEnd w') \<and> (\<forall>x. unat x div 256 = unat a div 256 \<longrightarrow> program_bytes m t d x = d' ! (unat x mod 256))"
    proof (intro ballI, clarify)
      fix a d' assume "(a, d') \<in> set (log @ [(t, d)])"
      then consider (old) "(a, d') \<in> set log" | (new) "a = t" "d' = d" by auto
      then show "A \<le> unat a \<and> unat a < 0xEA000 \<and> 256 dvd unat a \<and> length d' = 256 \<and>
        unat a div 256 \<in> insert (unat t div 256) (mask_bits (targetMask w)) \<and> unat a div 4096 - 1 \<in> mask_bits (appErasedMask w) \<and>
        unat a + 256 \<le> unat (appMaximumWrittenEnd w') \<and> (\<forall>x. unat x div 256 = unat a div 256 \<longrightarrow> program_bytes m t d x = d' ! (unat x mod 256))"
      proof cases
        case old
        then have l: "A \<le> unat a" "unat a < 0xEA000" "256 dvd unat a" "length d' = 256" "unat a div 256 \<in> mask_bits (targetMask w)"
            "unat a div 4096 - 1 \<in> mask_bits (appErasedMask w)" "unat a + 256 \<le> unat (appMaximumWrittenEnd w)"
            "\<forall>x. unat x div 256 = unat a div 256 \<longrightarrow> m x = d' ! (unat x mod 256)"
          using i by blast+
        then show ?thesis using \<open>\<And>x. unat x div 256 \<in> mask_bits (targetMask w) \<Longrightarrow> program_bytes m t d x = m x\<close> w'(5) by simp
      next
        case new
        then show ?thesis using e p w'(4) blk by (auto simp: A_def pb)
      qed
    qed
    show "\<forall>k\<in>insert (unat t div 256) (mask_bits (targetMask w)). A \<le> 256 * k \<longrightarrow> (\<exists>a d'. unat a = 256 * k \<and> (a, d') \<in> set (log @ [(t, d)]))"
    proof (intro ballI impI)
      fix k assume k: "k \<in> insert (unat t div 256) (mask_bits (targetMask w))" "A \<le> 256 * k"
      show "\<exists>a d'. unat a = 256 * k \<and> (a, d') \<in> set (log @ [(t, d)])"
      proof (cases "k = unat t div 256")
        case True
        then have "unat t = 256 * k" using e(6) by (auto simp: dvd_def)
        then show ?thesis by (intro exI [of _ t] exI [of _ d]) simp
      next
        case False
        then have "k \<in> mask_bits (targetMask w)" using k(1) by simp
        then obtain a d' where "unat a = 256 * k" "(a, d') \<in> set log" using i k(2) by blast
        then show ?thesis by (intro exI [of _ a] exI [of _ d']) simp
      qed
    qed
    show "\<forall>x. A \<le> unat x \<and> unat x < 0xEA000 \<and> unat x div 4096 - 1 \<in> mask_bits (appErasedMask w) \<and>
        unat x div 256 \<notin> insert (unat t div 256) (mask_bits (targetMask w)) \<longrightarrow> program_bytes m t d x = 0xFF"
      using i by (auto simp: pb)
  qed (use w'(3) in simp_all)
qed

text \<open>A block below the application is only marked.\<close>

lemma app_inv_keep:
  assumes inv: "app_inv m0 w m log"
    and w': "mask_bits (targetMask w') = insert (unat t div 256) (mask_bits (targetMask w))" "appErasedMask w' = appErasedMask w"
    "appSettingsInvalidated w' = appSettingsInvalidated w" "unat (appMaximumWrittenEnd w) \<le> unat (appMaximumWrittenEnd w')"
    and t: "unat t < unat (CODE_REGION_1_START m0)" "256 dvd unat t"
  shows "app_inv m0 w' m log"
proof -
  have k: "256 * (unat t div 256) = unat t" using t(2) by simp
  have e: "e + 256 \<le> unat (appMaximumWrittenEnd w')" if "e + 256 \<le> unat (appMaximumWrittenEnd w)" for e using that w'(4) by linarith
  note i = inv [unfolded app_inv_def Let_def]
  show ?thesis
    unfolding app_inv_def Let_def w'(1,2,3)
  proof (intro conjI)
    show "\<forall>(a, d)\<in>set log. unat (CODE_REGION_1_START m0) \<le> unat a \<and> unat a < 0xEA000 \<and> 256 dvd unat a \<and> length d = 256 \<and>
        unat a div 256 \<in> insert (unat t div 256) (mask_bits (targetMask w)) \<and> unat a div 4096 - 1 \<in> mask_bits (appErasedMask w) \<and>
        unat a + 256 \<le> unat (appMaximumWrittenEnd w') \<and> (\<forall>x. unat x div 256 = unat a div 256 \<longrightarrow> m x = d ! (unat x mod 256))"
      using i e by blast
    show "\<forall>k\<in>insert (unat t div 256) (mask_bits (targetMask w)). unat (CODE_REGION_1_START m0) \<le> 256 * k \<longrightarrow>
        (\<exists>a d. unat a = 256 * k \<and> (a, d) \<in> set log)"
    proof (intro ballI impI)
      fix j assume j: "j \<in> insert (unat t div 256) (mask_bits (targetMask w))" "unat (CODE_REGION_1_START m0) \<le> 256 * j"
      have "j \<noteq> unat t div 256" using j(2) k t(1) by auto
      then show "\<exists>a d. unat a = 256 * j \<and> (a, d) \<in> set log" using j i by blast
    qed
  qed (use i in blast)+
qed

end
