(* ===== verification/Uf2_Run.thy ===== *)
theory Uf2_Run
  imports Uf2_Safety
begin

text \<open>
  Whole UF2 sessions: the invariant of the write path under any sequence of sectors, for application and for bootloader
  transfers, and what a complete transfer leaves in flash.
\<close>

section \<open>Staging a bootloader\<close>

definition staging_byte :: "u32 \<Rightarrow> bool" where
  "staging_byte x \<longleftrightarrow> 0xE0000 \<le> unat x \<and> unat x < 0xEA000"

definition cache_ok :: "nvm \<Rightarrow> bool" where
  "cache_ok n \<longleftrightarrow> fl_addr n = FLASH_CACHE_INVALID_ADDR \<or>
     staging_byte (fl_addr n) \<and> 4096 dvd unat (fl_addr n) \<and> length (fl_buf n) = 4096"

definition boot_inv :: "flash \<Rightarrow> nvm \<Rightarrow> bool" where
  "boot_inv m0 n \<longleftrightarrow> (\<forall>x. \<not> staging_byte x \<longrightarrow> nv_mem n x = m0 x) \<and> cache_ok n"

lemma staging_page:
  assumes "staging_byte p" "4096 dvd unat p" "in_page p x" shows "staging_byte x"
proof -
  obtain k where k: "unat p = 4096 * k" using assms(2) by (auto simp: dvd_def)
  then have "k < 0xEA" "0xE0 \<le> k" using assms(1) by (auto simp: staging_byte_def)
  then show ?thesis using assms(3) k unfolding in_page_aligned_iff [OF assms(2)] staging_byte_def by simp
qed

lemma page_of_staging: "staging_byte a \<Longrightarrow> staging_byte (page_of a)"
proof -
  assume a: "staging_byte a"
  obtain k where k: "unat (page_of a) = 4096 * k" using page_of_aligned(1) [of a] by (auto simp: dvd_def)
  have "unat (page_of a) \<le> unat a" "unat a < unat (page_of a) + 4096"
    using page_of_aligned(2) [of a] by (simp_all add: in_page_aligned_iff [OF page_of_aligned(1)])
  then have "k < 0xEA" "0xE0 \<le> k" using a k by (auto simp: staging_byte_def)
  then show ?thesis using k by (simp add: staging_byte_def)
qed

lemma fold_at:
  "(\<And>i m. i \<in> set is \<Longrightarrow> f i m x = m x) \<Longrightarrow> fold f is m x = (m x :: 'b)" for f :: "'a \<Rightarrow> ('c \<Rightarrow> 'b) \<Rightarrow> 'c \<Rightarrow> 'b"
  by (induction "is" arbitrary: m) simp_all

lemma flush_page_frame:
  assumes "\<not> in_page p x" "length buf = 4096"
  shows "fold (\<lambda>i m. fl_write_words m (p + of_nat (256 * i)) (words_of_bytes (take 256 (drop (256 * i) buf)))) [0..<16] m x = m x"
proof (rule fold_at)
  fix i m assume "i \<in> set [0..<16 :: nat]"
  then have i: "256 * i + 256 \<le> 4096" by simp
  have l: "length (take 256 (drop (256 * i) buf)) = 256" using i assms(2) by simp
  then have "fl_write_words m (p + of_nat (256 * i)) (words_of_bytes (take 256 (drop (256 * i) buf))) =
      program_bytes m (p + of_nat (256 * i)) (take 256 (drop (256 * i) buf))"
    by (simp add: fl_write_words_program)
  then show "fl_write_words m (p + of_nat (256 * i)) (words_of_bytes (take 256 (drop (256 * i) buf))) x = m x"
    using program_in_page_frame [OF assms(1), of "256 * i" "take 256 (drop (256 * i) buf)"] i l by simp
qed

lemma flush_boot:
  assumes "boot_inv m0 n" shows "boot_inv m0 (flash_nrf5x_flush False n)" "fl_addr (flash_nrf5x_flush False n) = FLASH_CACHE_INVALID_ADDR"
proof -
  show a: "fl_addr (flash_nrf5x_flush False n) = FLASH_CACHE_INVALID_ADDR" by (simp add: flash_nrf5x_flush_def Let_def)
  have "nv_mem (flash_nrf5x_flush False n) x = m0 x" if x: "\<not> staging_byte x" for x
  proof (cases "fl_addr n = FLASH_CACHE_INVALID_ADDR")
    case True
    then show ?thesis using assms x by (simp add: flash_nrf5x_flush_def boot_inv_def)
  next
    case False
    then have c: "staging_byte (fl_addr n)" "4096 dvd unat (fl_addr n)" "length (fl_buf n) = 4096"
      using assms by (simp_all add: boot_inv_def cache_ok_def)
    then have "\<not> in_page (fl_addr n) x" using x staging_page by blast
    then show ?thesis using flush_page_frame [OF _ c(3)] assms x by (simp add: flash_nrf5x_flush_def Let_def boot_inv_def)
  qed
  then show "boot_inv m0 (flash_nrf5x_flush False n)" using a by (simp add: boot_inv_def cache_ok_def)
qed

text \<open>A staged block lies in one page of the cache.\<close>

lemma block_offset: "256 dvd n \<Longrightarrow> n mod 4096 \<le> (3840 :: nat)"
proof -
  assume "256 dvd n"
  then obtain k where k: "n = 256 * k" by (auto simp: dvd_def)
  have "256 * k mod 4096 = 256 * (k mod 16)" using mult_mod_right [of 256 k 16] by simp
  moreover have "k mod 16 \<le> 15" using mod_less_divisor [of 16 k] by linarith
  ultimately show ?thesis using k by simp
qed

lemma stage_block_eq:
  assumes "256 dvd unat a" "length d = 256"
  shows "flash_nrf5x_write a d False n =
    (let n = (if page_of a \<noteq> fl_addr n
              then let n = flash_nrf5x_flush False n in n\<lparr>fl_addr := page_of a, fl_buf := rd_bytes (nv_mem n) (page_of a) 4096\<rparr>
              else n);
         off = unat a mod 4096
     in n\<lparr>fl_buf := take off (fl_buf n) @ d @ drop (off + 256) (fl_buf n)\<rparr>)"
proof -
  note off = block_offset [OF assms(1)]
  have nil: "flash_nrf5x_write b [] False q = q" for b q by (simp add: flash_nrf5x_write.simps)
  show ?thesis
    using off assms(2) by (subst flash_nrf5x_write.simps) (auto simp: Let_def page_off(2) nil)
qed

lemma stage_block_inv:
  assumes "boot_inv m0 n" "staging_byte a" "256 dvd unat a" "length d = 256"
  shows "boot_inv m0 (flash_nrf5x_write a d False n)"
proof -
  define n1 where "n1 = (if page_of a \<noteq> fl_addr n
              then let n = flash_nrf5x_flush False n in n\<lparr>fl_addr := page_of a, fl_buf := rd_bytes (nv_mem n) (page_of a) 4096\<rparr>
              else n)"
  have p: "staging_byte (page_of a)" "4096 dvd unat (page_of a)" using assms(2) by (simp_all add: page_of_staging page_of_aligned)
  have ni: "page_of a \<noteq> FLASH_CACHE_INVALID_ADDR" using p(1) by (auto simp: staging_byte_def FLASH_CACHE_INVALID_ADDR_def)
  have n1: "boot_inv m0 n1" "fl_addr n1 = page_of a"
    using flush_boot(1) [OF assms(1)] assms(1) p by (auto simp: n1_def Let_def boot_inv_def cache_ok_def)
  then have l: "length (fl_buf n1) = 4096" using ni by (simp add: boot_inv_def cache_ok_def)
  have "flash_nrf5x_write a d False n =
      n1\<lparr>fl_buf := take (unat a mod 4096) (fl_buf n1) @ d @ drop (unat a mod 4096 + 256) (fl_buf n1)\<rparr>"
    unfolding stage_block_eq [OF assms(3,4)] n1_def Let_def ..
  then show ?thesis using n1 l block_offset [OF assms(3)] assms(4) p by (simp add: boot_inv_def cache_ok_def)
qed

lemma stage_erase_inv:
  assumes "boot_inv m0 n" "staging_byte a" shows "boot_inv m0 (flash_nrf5x_erase a PAGE n)"
proof -
  have "\<not> in_page (page_of a) x" if "\<not> staging_byte x" for x
    using that staging_page [OF page_of_staging [OF assms(2)] page_of_aligned(1)] by blast
  then show ?thesis using assms(1) by (simp add: flash_ops(1) boot_inv_def cache_ok_def fl_erase_def)
qed

section \<open>Invariant of a session\<close>

text \<open>The number of stored blocks is the number of marked ones, so a complete transfer accepts no further block.\<close>

definition count_inv :: "write_state \<Rightarrow> bool" where
  "count_inv w \<longleftrightarrow> mask_bits (writtenMask w) \<subseteq> {..<unat (numBlocks w)} \<and> unat (numWritten w) = card (mask_bits (writtenMask w)) \<and>
     unat (numBlocks w) \<le> 4196 \<and> (updateKind w = 0 \<longrightarrow> mask_bits (writtenMask w) = {})"

definition complete :: "write_state \<Rightarrow> bool" where
  "complete w \<longleftrightarrow> numBlocks w \<noteq> 0 \<and> numWritten w \<ge> numBlocks w"

definition finalized :: "u32 \<Rightarrow> flash \<Rightarrow> write_state \<Rightarrow> flash \<Rightarrow> bool" where
  "finalized ram m0 w m \<longleftrightarrow> appStart w = CODE_REGION_1_START m0 \<and> appSettingsInvalidated w \<and>
     uf2_application_finalize (targetMask w) (appStart w) 0xEA000 (appMaximumWrittenEnd w) (rd_word m (appStart w))
       (rd_word m (appStart w + 4)) (0x20000000 + push_bit 10 ram) = Some (appSize w)"

definition staged_valid :: "build \<Rightarrow> write_state \<Rightarrow> nvm \<Rightarrow> bool" where
  "staged_valid b w n \<longleftrightarrow> has_uicr w \<and> bootloaderStagingErased w \<and> fl_addr n = FLASH_CACHE_INVALID_ADDR \<and>
     dfu_image_policy_validate b (nv_mem n) (rd_bytes (nv_mem n) 0xE0000 0xA000)
       \<lparr>dfu_update_mode = DFU_UPDATE_BL, sd_image_size = 0, bl_image_size = 0xA000, app_image_size = 0\<rparr> = NRF_SUCCESS"

definition uf2_inv :: "build \<Rightarrow> u32 \<Rightarrow> flash \<Rightarrow> write_state \<Rightarrow> nvm \<Rightarrow> (u32 \<times> bytes) list \<Rightarrow> bool" where
  "uf2_inv b ram m0 w n log \<longleftrightarrow> uf2_wf w \<and> count_inv w \<and> (updateKind w = 0 \<or> updateKind w = 1 \<or> updateKind w = 2) \<and>
     (bootloaderStagingErased w \<or> unat (bootloaderEraseOffset w) < 0xA000 \<and> 4096 dvd unat (bootloaderEraseOffset w)) \<and>
     (updateKind w \<noteq> 1 \<longrightarrow> \<not> appSettingsInvalidated w \<and> \<not> appValidated w \<and> log = []) \<and>
     (if updateKind w = 2 then boot_inv m0 n else app_inv m0 w (nv_mem n) log \<and> fl_addr n = FLASH_CACHE_INVALID_ADDR) \<and>
     (appValidated w \<longrightarrow> complete w \<and> finalized ram m0 w (nv_mem n)) \<and>
     (complete w \<and> \<not> aborted w \<longrightarrow> (if updateKind w = 2 then staged_valid b w n else appValidated w))"

lemma count_inv_not_complete:
  assumes "count_inv w" "unat i < unat (numBlocks w)" "unat i \<notin> mask_bits (writtenMask w)" shows "\<not> complete w"
proof -
  have "mask_bits (writtenMask w) \<subset> {..<unat (numBlocks w)}" using assms by (auto simp: count_inv_def)
  then have "card (mask_bits (writtenMask w)) < unat (numBlocks w)" using psubset_card_mono [of "{..<unat (numBlocks w)}"] by simp
  then show ?thesis using assms(1) by (simp add: complete_def count_inv_def word_le_nat_alt)
qed

lemma count_inv_empty: "count_inv w \<Longrightarrow> mask_bits (writtenMask w) = {} \<Longrightarrow> numWritten w = 0"
  by (simp add: count_inv_def unat_eq_zero)

text \<open>Fields the invariants do not depend on.\<close>

lemma app_inv_frame [simp]:
  "app_inv m0 (w\<lparr>aborted := a\<rparr>) m log = app_inv m0 w m log" "app_inv m0 (w\<lparr>numBlocks := k\<rparr>) m log = app_inv m0 w m log"
  "app_inv m0 (w\<lparr>updateKind := u\<rparr>) m log = app_inv m0 w m log" "app_inv m0 (w\<lparr>numWritten := k\<rparr>) m log = app_inv m0 w m log"
  "app_inv m0 (w\<lparr>writtenMask := M\<rparr>) m log = app_inv m0 w m log" "app_inv m0 (w\<lparr>appSize := k\<rparr>) m log = app_inv m0 w m log"
  "app_inv m0 (w\<lparr>appStart := k\<rparr>) m log = app_inv m0 w m log" "app_inv m0 (w\<lparr>appValidated := a\<rparr>) m log = app_inv m0 w m log"
  by (simp_all add: app_inv_def)

lemma inv_parts_aborted [simp]:
  "uf2_wf (w\<lparr>aborted := a\<rparr>) = uf2_wf w" "count_inv (w\<lparr>aborted := a\<rparr>) = count_inv w"
  "complete (w\<lparr>aborted := a\<rparr>) = complete w" "finalized ram m0 (w\<lparr>aborted := a\<rparr>) m = finalized ram m0 w m"
  "staged_valid b (w\<lparr>aborted := a\<rparr>) n = staged_valid b w n"
  by (simp_all add: uf2_wf_def count_inv_def complete_def finalized_def staged_valid_def)

lemma uf2_inv_abort: "uf2_inv b ram m0 w n log \<Longrightarrow> uf2_inv b ram m0 (w\<lparr>aborted := True\<rparr>) n log"
  by (simp add: uf2_inv_def)

lemma uf2_inv_numBlocks:
  assumes "uf2_inv b ram m0 w n log" "numBlocks w = 0 \<or> numBlocks w = k" "unat k \<le> 4196"
  shows "uf2_inv b ram m0 (w\<lparr>numBlocks := k, aborted := True\<rparr>) n log"
proof (cases "numBlocks w = k")
  case True
  then have "w\<lparr>numBlocks := k\<rparr> = w" by simp
  then show ?thesis using uf2_inv_abort [OF assms(1)] by metis
next
  case False
  then have z: "numBlocks w = 0" using assms(2) by blast
  then have b: "mask_bits (writtenMask w) = {}" using assms(1) by (auto simp: uf2_inv_def count_inv_def)
  have "count_inv (w\<lparr>numBlocks := k\<rparr>)" using assms(1,3) b by (simp add: uf2_inv_def count_inv_def)
  moreover have "\<not> appValidated w" using assms(1) z by (auto simp: uf2_inv_def complete_def)
  ultimately show ?thesis using assms(1) by (simp add: uf2_inv_def) (simp add: uf2_wf_def)
qed

lemma uf2_invD:
  assumes "uf2_inv b ram m0 w n log"
  shows "uf2_wf w" "count_inv w" "updateKind w = 0 \<or> updateKind w = 1 \<or> updateKind w = 2"
    "bootloaderStagingErased w \<or> unat (bootloaderEraseOffset w) < 0xA000 \<and> 4096 dvd unat (bootloaderEraseOffset w)"
    "updateKind w \<noteq> 1 \<Longrightarrow> \<not> appSettingsInvalidated w \<and> \<not> appValidated w \<and> log = []"
    "updateKind w = 2 \<Longrightarrow> boot_inv m0 n" "updateKind w \<noteq> 2 \<Longrightarrow> app_inv m0 w (nv_mem n) log"
    "updateKind w \<noteq> 2 \<Longrightarrow> fl_addr n = FLASH_CACHE_INVALID_ADDR" "appValidated w \<Longrightarrow> complete w" "appValidated w \<Longrightarrow> finalized ram m0 w (nv_mem n)"
    "complete w \<Longrightarrow> \<not> aborted w \<Longrightarrow> updateKind w = 2 \<Longrightarrow> staged_valid b w n"
    "complete w \<Longrightarrow> \<not> aborted w \<Longrightarrow> updateKind w \<noteq> 2 \<Longrightarrow> appValidated w"
  using assms unfolding uf2_inv_def by (simp_all split: if_splits)

text \<open>An incomplete or refused transfer of a known kind.\<close>

lemma uf2_inv_incomplete:
  assumes "\<not> complete w \<or> aborted w" "uf2_wf w" "count_inv w" "\<not> appValidated w"
    "bootloaderStagingErased w \<or> unat (bootloaderEraseOffset w) < 0xA000 \<and> 4096 dvd unat (bootloaderEraseOffset w)"
    "updateKind w = 1 \<and> app_inv m0 w (nv_mem n) log \<and> fl_addr n = FLASH_CACHE_INVALID_ADDR \<or>
     updateKind w = 2 \<and> boot_inv m0 n \<and> \<not> appSettingsInvalidated w \<and> log = []"
  shows "uf2_inv b ram m0 w n log"
  using assms unfolding uf2_inv_def by auto

lemma uf2_inv_base:
  assumes "uf2_inv b ram m0 w n log" "uf2_window m0" shows "CODE_REGION_1_START (nv_mem n) = CODE_REGION_1_START m0"
proof (cases "updateKind w = 2")
  case True
  show ?thesis using uf2_invD(6) [OF assms(1) True]
    by (intro CODE_REGION_1_START_cong) (simp add: boot_inv_def staging_byte_def word_le_nat_alt word_less_nat_alt)
next
  case False
  show ?thesis by (rule app_inv_base [OF uf2_invD(7) [OF assms(1) False] assms(2)])
qed

lemma uf2_inv_prepared:
  assumes "uf2_inv b ram m0 w n log" "numBlocks w = 0 \<or> numBlocks w = bl_numBlocks block" "updateKind w = 0 \<or> updateKind w = k"
    "bl_numBlocks block \<noteq> 0" "unat (bl_numBlocks block) \<le> 4196" "k = 1 \<or> k = 2"
  shows "uf2_inv b ram m0 (prepared block k w) n log"
proof (cases "numBlocks w = bl_numBlocks block \<and> updateKind w = k")
  case True
  then have "prepared block k w = w" by (simp add: prepared_def)
  then show ?thesis using assms(1) by simp
next
  case False
  note d = uf2_invD [OF assms(1)]
  have fresh: "numBlocks w = 0 \<or> updateKind w = 0" using False assms(2,3) by blast
  have bits: "mask_bits (writtenMask w) = {}" using fresh d(2) by (auto simp: count_inv_def)
  have z: "numWritten w = 0" by (rule count_inv_empty [OF d(2) bits])
  have nv: "\<not> appValidated w"
  proof
    assume "appValidated w"
    from d(9) [OF this] d(5) have "numBlocks w \<noteq> 0" "updateKind w \<noteq> 0" using \<open>appValidated w\<close> by (auto simp: complete_def)
    then show False using fresh by blast
  qed
  have boot: "boot_inv m0 n \<and> \<not> appSettingsInvalidated w \<and> log = []" if "k = 2"
  proof (cases "updateKind w = 2")
    case True
    then show ?thesis using d(5,6) by simp
  next
    case F: False
    then have "updateKind w = 0" using assms(3) that by simp
    then have "app_inv m0 w (nv_mem n) log" "\<not> appSettingsInvalidated w \<and> log = []" "fl_addr n = FLASH_CACHE_INVALID_ADDR" using d(5,7,8) by auto
    then show ?thesis by (simp add: app_inv_def Let_def boot_inv_def cache_ok_def)
  qed
  have app: "app_inv m0 w (nv_mem n) log \<and> fl_addr n = FLASH_CACHE_INVALID_ADDR" if "k = 1"
    using that assms(3) d(7,8) by auto
  show ?thesis
  proof (rule uf2_inv_incomplete)
    show "\<not> complete (prepared block k w) \<or> aborted (prepared block k w)" using z assms(4) by (simp add: complete_def prepared_def word_le_nat_alt unat_eq_zero)
    show "count_inv (prepared block k w)" using bits z assms(5) by (simp add: count_inv_def prepared_def)
  qed (use d(1,4) nv boot app assms(6) in \<open>auto simp: prepared_def uf2_wf_def\<close>)
qed

section \<open>Committing a block\<close>

lemma transfer_commit_eq:
  assumes "uf2_wf w" "unat i < 4200" "unat i \<notin> mask_bits (writtenMask w)"
  obtains M where "uf2_transfer_commit i w = Some (w\<lparr>writtenMask := M, numWritten := numWritten w + 1\<rparr>)" "length M = 525"
    "mask_bits M = insert (unat i) (mask_bits (writtenMask w))"
proof -
  have l: "unat i div 8 < length (writtenMask w)" using assms(1,2) by (simp add: uf2_wf_def)
  obtain M where M: "mask_set (writtenMask w) i = Some M" using mask_set_Some [OF l] by blast
  show thesis using that [of M] mask_set_eq [OF M] M l assms(1,3) by (simp add: uf2_transfer_commit_def mask_test_eq uf2_wf_def)
qed

lemma target_commit_eq:
  assumes "uf2_wf w" "unat t < 0x100000"
  obtains M where "uf2_transfer_target_commit t w = Some (w\<lparr>targetMask := M\<rparr>)" "length M = 512"
    "mask_bits M = insert (unat t div 256) (mask_bits (targetMask w))"
proof -
  have l: "unat (t div 256) div 8 < length (targetMask w)" using assms by (simp add: uf2_wf_def unat_div_256)
  obtain M where M: "mask_set (targetMask w) (t div 256) = Some M" using mask_set_Some [OF l] by blast
  show thesis using that [of M] mask_set_eq [OF M] M assms(1) by (simp add: uf2_transfer_target_commit_def uf2_wf_def unat_div_256)
qed

lemma count_inv_commit:
  assumes "count_inv w" "updateKind w \<noteq> 0" "unat i < unat (numBlocks w)" "unat i \<notin> mask_bits (writtenMask w)"
    "mask_bits M = insert (unat i) (mask_bits (writtenMask w))"
  shows "count_inv (w\<lparr>writtenMask := M, numWritten := numWritten w + 1\<rparr>)"
proof -
  have s: "mask_bits (writtenMask w) \<subseteq> {..<unat (numBlocks w)}" and c: "unat (numWritten w) = card (mask_bits (writtenMask w))"
    and le: "unat (numBlocks w) \<le> 4196"
    using assms(1) by (simp_all add: count_inv_def)
  have f: "finite (mask_bits (writtenMask w))" using s finite_subset by blast
  have "card (mask_bits (writtenMask w)) \<le> 4196" using card_mono [OF _ s] le by simp
  then have "unat (numWritten w + 1) = unat (numWritten w) + 1" using c by (subst unat_add_no_wrap) simp_all
  then show ?thesis using assms(2-5) s c le f by (simp add: count_inv_def)
qed

lemma finish_app_inv:
  assumes w: "uf2_wf w" "count_inv w" "updateKind w = 1" "\<not> appValidated w"
    "bootloaderStagingErased w \<or> unat (bootloaderEraseOffset w) < 0xA000 \<and> 4096 dvd unat (bootloaderEraseOffset w)"
    and n: "app_inv m0 w (nv_mem n) log" "fl_addr n = FLASH_CACHE_INVALID_ADDR"
    and c: "b_chip b = NRF52840" "uf2_window m0" and cm: "complete w"
  obtains w' n' where "finish_app_transfer b ram (CODE_REGION_1_START m0) (w, n) = (w', n')" "targetMask w' = targetMask w"
    "uf2_inv b ram m0 w' n' log"
proof -
  let ?A = "CODE_REGION_1_START m0"
  have A: "?A < 0xEA000" using c(2) by (simp add: uf2_window_def word_less_nat_alt)
  have dn: "flash_nrf5x_discard n = n" using n(2) by (simp add: flash_nrf5x_discard_def)
  define r where "r = uf2_application_finalize (targetMask w) ?A 0xEA000 (appMaximumWrittenEnd w) (rd_word (nv_mem n) ?A)
    (rd_word (nv_mem n) (?A + 4)) (0x20000000 + push_bit 10 ram)"
  have f: "finish_app_transfer b ram ?A (w, n) =
     (if \<not> appSettingsInvalidated w then (w\<lparr>aborted := True\<rparr>, n)
      else case r of None \<Rightarrow> (w\<lparr>aborted := True\<rparr>, n)
           | Some sz \<Rightarrow> (w\<lparr>appSize := sz, appStart := ?A, appValidated := True\<rparr>, n))"
    using A c(1) by (simp add: finish_app_transfer_def Let_def dn layout_simps r_def split: option.split)
  have bad: "uf2_inv b ram m0 (w\<lparr>aborted := True\<rparr>) n log"
    by (rule uf2_inv_incomplete) (use w n in simp_all)
  show thesis
  proof (cases "appSettingsInvalidated w \<and> r \<noteq> None")
    case False
    then have "finish_app_transfer b ram ?A (w, n) = (w\<lparr>aborted := True\<rparr>, n)" by (auto simp: f)
    then show thesis using that bad by simp
  next
    case True
    then obtain sz where sz: "r = Some sz" by blast
    let ?w = "w\<lparr>appSize := sz, appStart := ?A, appValidated := True\<rparr>"
    have "finalized ram m0 ?w (nv_mem n)" using True sz by (simp add: finalized_def r_def)
    moreover have "complete ?w = complete w" "uf2_wf ?w = uf2_wf w" "count_inv ?w = count_inv w"
      by (simp_all add: complete_def uf2_wf_def count_inv_def)
    ultimately have "uf2_inv b ram m0 ?w n log" using w n cm by (simp add: uf2_inv_def)
    moreover have "finish_app_transfer b ram ?A (w, n) = (?w, n)" using True sz by (simp add: f)
    ultimately show thesis using that by simp
  qed
qed

lemma finish_boot_inv:
  assumes w: "uf2_wf w" "count_inv w" "updateKind w = 2" "\<not> appValidated w" "\<not> appSettingsInvalidated w"
    "bootloaderStagingErased w \<or> unat (bootloaderEraseOffset w) < 0xA000 \<and> 4096 dvd unat (bootloaderEraseOffset w)"
    and n: "boot_inv m0 n" and c: "b_chip b = NRF52840"
  obtains w' n' where "finish_boot_transfer b (w, n) = (w', n')" "targetMask w' = targetMask w" "uf2_inv b ram m0 w' n' []"
proof -
  let ?n = "flash_nrf5x_flush False n"
  note fl = flush_boot [OF n]
  have f: "finish_boot_transfer b (w, n) = (if staged_valid b w ?n then w else w\<lparr>aborted := True\<rparr>, ?n)"
    using c fl(2) by (simp add: finish_boot_transfer_def staged_valid_def Let_def layout_simps)
  show thesis
  proof (cases "staged_valid b w ?n")
    case True
    then have "uf2_inv b ram m0 w ?n []" using w fl by (simp add: uf2_inv_def)
    then show thesis using that f True by simp
  next
    case False
    then have "uf2_inv b ram m0 (w\<lparr>aborted := True\<rparr>) ?n []" using w fl by (intro uf2_inv_incomplete) simp_all
    then show thesis using that f False by simp
  qed
qed

lemmas uf2_kinds = UF2_UPDATE_KIND_NONE_def UF2_UPDATE_KIND_APPLICATION_def UF2_UPDATE_KIND_BOOTLOADER_def

text \<open>The progress of a transfer after its target masks are up to date.\<close>

lemma commit_tail:
  assumes w: "uf2_wf w" "count_inv w" "\<not> appValidated w" "numBlocks w \<noteq> 0"
    "bootloaderStagingErased w \<or> unat (bootloaderEraseOffset w) < 0xA000 \<and> 4096 dvd unat (bootloaderEraseOffset w)"
    and k: "updateKind w = 1 \<and> app_inv m0 w (nv_mem n) log \<and> fl_addr n = FLASH_CACHE_INVALID_ADDR \<or>
      updateKind w = 2 \<and> boot_inv m0 n \<and> \<not> appSettingsInvalidated w \<and> log = []"
    and i: "unat i < unat (numBlocks w)" "unat i \<notin> mask_bits (writtenMask w)"
    and c: "b_chip b = NRF52840" "uf2_window m0"
  obtains w1 w' n' where "uf2_transfer_commit i w = Some w1"
    "(if numWritten w1 \<ge> numBlocks w1 then if updateKind w1 = 2 then finish_boot_transfer b (w1, n)
       else finish_app_transfer b ram (CODE_REGION_1_START m0) (w1, n) else (w1, n)) = (w', n')"
    "targetMask w' = targetMask w" "uf2_inv b ram m0 w' n' log"
proof -
  have i4: "unat i < 4200" using i(1) w(2) by (simp add: count_inv_def)
  obtain M where M: "uf2_transfer_commit i w = Some (w\<lparr>writtenMask := M, numWritten := numWritten w + 1\<rparr>)" "length M = 525"
    "mask_bits M = insert (unat i) (mask_bits (writtenMask w))" by (rule transfer_commit_eq [OF w(1) i4 i(2)])
  define w1 where "w1 = w\<lparr>writtenMask := M, numWritten := numWritten w + 1\<rparr>"
  have kz: "updateKind w \<noteq> 0" using k by auto
  have w1: "uf2_wf w1" "count_inv w1" "\<not> appValidated w1" "numBlocks w1 = numBlocks w" "updateKind w1 = updateKind w"
    "bootloaderStagingErased w1 \<or> unat (bootloaderEraseOffset w1) < 0xA000 \<and> 4096 dvd unat (bootloaderEraseOffset w1)"
    "targetMask w1 = targetMask w" "appSettingsInvalidated w1 = appSettingsInvalidated w"
    "app_inv m0 w1 (nv_mem n) log = app_inv m0 w (nv_mem n) log"
    using w M(2) count_inv_commit [OF w(2) kz i M(3)] by (simp_all add: w1_def uf2_wf_def)
  show thesis
  proof (cases "numWritten w1 \<ge> numBlocks w1")
    case False
    have "uf2_inv b ram m0 w1 n log" using False w1 k by (intro uf2_inv_incomplete) (auto simp: complete_def)
    then show thesis using that [OF M(1) [folded w1_def]] False w1(7) by simp
  next
    case True
    then have cm: "complete w1" using w(4) w1(4) by (simp add: complete_def)
    from k show thesis
    proof
      assume k1: "updateKind w = 1 \<and> app_inv m0 w (nv_mem n) log \<and> fl_addr n = FLASH_CACHE_INVALID_ADDR"
      have h: "updateKind w1 = 1" "app_inv m0 w1 (nv_mem n) log" "fl_addr n = FLASH_CACHE_INVALID_ADDR" using k1 w1 by simp_all
      obtain w' n' where f: "finish_app_transfer b ram (CODE_REGION_1_START m0) (w1, n) = (w', n')" "targetMask w' = targetMask w1"
        "uf2_inv b ram m0 w' n' log" by (rule finish_app_inv [OF w1(1,2) h(1) w1(3,6) h(2,3) c cm, of ram])
      show thesis using that [OF M(1) [folded w1_def]] f True cm h(1) w1(7) by simp
    next
      assume k2: "updateKind w = 2 \<and> boot_inv m0 n \<and> \<not> appSettingsInvalidated w \<and> log = []"
      have h: "updateKind w1 = 2" "\<not> appSettingsInvalidated w1" "boot_inv m0 n" "log = []" using k2 w1 by simp_all
      obtain w' n' where f: "finish_boot_transfer b (w1, n) = (w', n')" "targetMask w' = targetMask w1" "uf2_inv b ram m0 w' n' []"
        by (rule finish_boot_inv [OF w1(1,2) h(1) w1(3) h(2) w1(6) h(3) c(1), of ram])
      show thesis using that [OF M(1) [folded w1_def]] f True h w1(7) by simp
    qed
  qed
qed

lemma commit_app_inv:
  assumes w: "uf2_wf w" "count_inv w" "\<not> appValidated w" "numBlocks w \<noteq> 0" "updateKind w = 1"
    "bootloaderStagingErased w \<or> unat (bootloaderEraseOffset w) < 0xA000 \<and> 4096 dvd unat (bootloaderEraseOffset w)"
    and i: "unat (blockNo block) < unat (numBlocks w)" "unat (blockNo block) \<notin> mask_bits (writtenMask w)"
    and c: "b_chip b = NRF52840" "uf2_window m0" and t: "unat (targetAddr block) < 0xEA000"
    and n: "fl_addr n = FLASH_CACHE_INVALID_ADDR"
    and app: "\<And>w'. mask_bits (targetMask w') = insert (unat (targetAddr block) div 256) (mask_bits (targetMask w)) \<Longrightarrow>
      appErasedMask w' = appErasedMask w \<Longrightarrow> appSettingsInvalidated w' = appSettingsInvalidated w \<Longrightarrow>
      unat (appMaximumWrittenEnd w) \<le> unat (appMaximumWrittenEnd w') \<Longrightarrow>
      (CODE_REGION_1_START m0 \<le> targetAddr block \<Longrightarrow> unat (targetAddr block) + 256 \<le> unat (appMaximumWrittenEnd w')) \<Longrightarrow>
      app_inv m0 w' (nv_mem n) log"
  obtains w' n' where "commit_block b ram 1 (CODE_REGION_1_START m0) block (w, n) = Some (512, w', n')"
    "mask_bits (targetMask w') = insert (unat (targetAddr block) div 256) (mask_bits (targetMask w))" "uf2_inv b ram m0 w' n' log"
proof -
  let ?t = "targetAddr block" and ?A = "CODE_REGION_1_START m0"
  have t1: "unat ?t < 0x100000" using t by simp
  obtain M where M: "uf2_transfer_target_commit ?t w = Some (w\<lparr>targetMask := M\<rparr>)" "length M = 512"
    "mask_bits M = insert (unat ?t div 256) (mask_bits (targetMask w))" by (rule target_commit_eq [OF w(1) t1])
  define w1 where "w1 = (if ?t \<ge> ?A \<and> ?t + UF2_FIRMWARE_BYTES_PER_SECTOR > appMaximumWrittenEnd w
     then w\<lparr>targetMask := M, appMaximumWrittenEnd := ?t + UF2_FIRMWARE_BYTES_PER_SECTOR\<rparr> else w\<lparr>targetMask := M\<rparr>)"
  have end_eq: "unat (?t + 256) = unat ?t + 256" using t by (subst unat_add_no_wrap) simp_all
  have a: "app_inv m0 w1 (nv_mem n) log"
    using end_eq M(3) by (intro app) (auto simp: w1_def UF2_FIRMWARE_BYTES_PER_SECTOR_def word_less_nat_alt word_le_nat_alt)
  have w1: "uf2_wf w1" "count_inv w1" "\<not> appValidated w1" "numBlocks w1 \<noteq> 0" "updateKind w1 = 1" "targetMask w1 = M" "numBlocks w1 = numBlocks w"
     "bootloaderStagingErased w1 \<or> unat (bootloaderEraseOffset w1) < 0xA000 \<and> 4096 dvd unat (bootloaderEraseOffset w1)"
     "writtenMask w1 = writtenMask w"
    using w M(2) by (auto simp: w1_def uf2_wf_def count_inv_def)
  have i1: "unat (blockNo block) < unat (numBlocks w1)" "unat (blockNo block) \<notin> mask_bits (writtenMask w1)" using i w1 by simp_all
  have k1: "updateKind w1 = 1 \<and> app_inv m0 w1 (nv_mem n) log \<and> fl_addr n = FLASH_CACHE_INVALID_ADDR \<or>
      updateKind w1 = 2 \<and> boot_inv m0 n \<and> \<not> appSettingsInvalidated w1 \<and> log = []" using a w1(5) n by simp
  obtain w2 w' n' where r: "uf2_transfer_commit (blockNo block) w1 = Some w2"
    "(if numWritten w2 \<ge> numBlocks w2 then if updateKind w2 = 2 then finish_boot_transfer b (w2, n)
       else finish_app_transfer b ram ?A (w2, n) else (w2, n)) = (w', n')"
    "targetMask w' = targetMask w1" "uf2_inv b ram m0 w' n' log"
    by (rule commit_tail [OF w1(1,2,3,4,8) k1 i1 c, of ram])
  have "commit_block b ram 1 ?A block (w, n) = Some (512, w', n')"
    unfolding commit_block_def Let_def prod.case M(1) uf2_kinds
    using r(1,2) by (simp add: w1_def split: if_splits)
  then show thesis using that r(3,4) w1(6) M(3) by simp
qed

section \<open>One sector keeps the invariant\<close>

text \<open>The log records the stored application blocks: those whose target bit the sector set.\<close>

definition uf2_log :: "flash \<Rightarrow> uf2_block \<Rightarrow> write_state \<Rightarrow> write_state \<Rightarrow> (u32 \<times> bytes) list \<Rightarrow> (u32 \<times> bytes) list" where
  "uf2_log m0 block w w' log =
     (if targetMask w' \<noteq> targetMask w \<and> CODE_REGION_1_START m0 \<le> targetAddr block
      then log @ [(targetAddr block, take 256 (bl_data block))] else log)"

lemma uf2_log_same [simp]: "targetMask w' = targetMask w \<Longrightarrow> uf2_log m0 block w w' log = log"
  by (simp add: uf2_log_def)

definition fresh_block :: "build \<Rightarrow> u32 \<Rightarrow> flash \<Rightarrow> uf2_block \<Rightarrow> write_state \<Rightarrow> nvm \<Rightarrow> (u32 \<times> bytes) list \<Rightarrow> bool" where
  "fresh_block b ram m0 block w n log \<longleftrightarrow> uf2_inv b ram m0 w n log \<and> \<not> aborted w \<and> numBlocks w \<noteq> 0 \<and>
     unat (blockNo block) < unat (numBlocks w) \<and> unat (blockNo block) \<notin> mask_bits (writtenMask w) \<and>
     targetAddr block AND 255 = 0 \<and> payloadSize block = 256 \<and> length (bl_data block) = 476"

lemma fresh_blockD:
  assumes "fresh_block b ram m0 block w n log"
  shows "uf2_inv b ram m0 w n log" "\<not> aborted w" "numBlocks w \<noteq> 0" "unat (blockNo block) < unat (numBlocks w)"
    "unat (blockNo block) \<notin> mask_bits (writtenMask w)" "256 dvd unat (targetAddr block)"
    "take (unat (payloadSize block)) (bl_data block) = take 256 (bl_data block)" "length (take 256 (bl_data block)) = 256"
    "\<not> complete w" "\<not> appValidated w" "targetAddr block AND 255 = 0"
proof -
  show "uf2_inv b ram m0 w n log" "\<not> aborted w" "numBlocks w \<noteq> 0" "unat (blockNo block) < unat (numBlocks w)"
    "unat (blockNo block) \<notin> mask_bits (writtenMask w)" "256 dvd unat (targetAddr block)"
    "take (unat (payloadSize block)) (bl_data block) = take 256 (bl_data block)" "length (take 256 (bl_data block)) = 256" "targetAddr block AND 255 = 0"
    using assms by (simp_all add: fresh_block_def aligned256_iff)
  show nc: "\<not> complete w" using assms by (intro count_inv_not_complete [of w "blockNo block"]) (auto simp: fresh_block_def intro: uf2_invD(2))
  show "\<not> appValidated w" using assms uf2_invD(9) nc by (auto simp: fresh_block_def)
qed

text \<open>What follows the store of a block.\<close>

definition after_store :: "build \<Rightarrow> u32 \<Rightarrow> u8 \<Rightarrow> u32 \<Rightarrow> uf2_block \<Rightarrow> block_step \<times> write_state \<times> nvm \<Rightarrow> (int \<times> write_state \<times> nvm) option" where
  "after_store b ram k A block r =
     (case r of (Busy, w, n) \<Rightarrow> Some (0, w, n) | (Refused, w, n) \<Rightarrow> Some (-1, w, n)
      | (Stored, w, n) \<Rightarrow> commit_block b ram k A block (w, n))"

lemma after_store_simps [simp]:
  "after_store b ram k A block (Busy, w, n) = Some (0, w, n)" "after_store b ram k A block (Refused, w, n) = Some (-1, w, n)"
  "after_store b ram k A block (Stored, w, n) = commit_block b ram k A block (w, n)"
  by (simp_all add: after_store_def)

lemma app_branch_inv:
  assumes f: "fresh_block b ram m0 block w n log" "updateKind w = 1" and c: "b_chip b = NRF52840" "uf2_window m0"
  shows "\<exists>s r w' n'. write_app_block b block (w, n) = Some s \<and> after_store b ram 1 (CODE_REGION_1_START m0) block s = Some (r, w', n') \<and>
    uf2_inv b ram m0 w' n' (uf2_log m0 block w w' log)"
proof -
  let ?A = "CODE_REGION_1_START m0" and ?t = "targetAddr block" and ?d = "take 256 (bl_data block)"
  note d = fresh_blockD [OF f(1)] note v = uf2_invD [OF d(1)]
  have A: "CODE_REGION_1_START (nv_mem n) = ?A" by (rule uf2_inv_base [OF d(1) c(2)])
  have Ab: "0x1000 \<le> CODE_REGION_1_START (nv_mem n)" "CODE_REGION_1_START (nv_mem n) \<le> 0xEA000"
    using c(2) by (simp_all add: A uf2_window_def word_le_nat_alt)
  have ai: "app_inv m0 w (nv_mem n) log" and fl: "fl_addr n = FLASH_CACHE_INVALID_ADDR" using v(7,8) f(2) by simp_all
  note pre = v(1,2) d(10,3) f(2) v(4) d(4,5) c
  show ?thesis
  proof (rule app_block_cases [OF c(1) v(1) d(2) d(11) Ab], goal_cases)
    case 1
    then show ?thesis using uf2_inv_abort [OF d(1)] by simp
  next
    case 2
    let ?w = "w\<lparr>appSettingsInvalidated := True\<rparr>" and ?n = "n\<lparr>fl_addr := FLASH_CACHE_INVALID_ADDR, nv_mem := program_bytes (nv_mem n) 0xFF000 [0, 0, 0, 0]\<rparr>"
    have "uf2_inv b ram m0 ?w ?n log"
      by (rule uf2_inv_incomplete) (use d(9,10) v(1,2,4) f(2) app_inv_invalidate [OF ai c(2) 2(1)] in
        \<open>simp_all add: complete_def uf2_wf_def count_inv_def\<close>)
    then show ?thesis using 2(2) flash_ops(3) [OF c(1), of n] by simp
  next
    case (3 mm)
    let ?w = "w\<lparr>appErasedMask := mm\<rparr>" and ?n = "n\<lparr>nv_mem := fl_erase (nv_mem n) (page_of ?t)\<rparr>"
    have "app_inv m0 ?w (nv_mem ?n) log" unfolding nvm.simps
      by (simp, rule app_inv_erase [OF ai c(2) 3(1,2)]) (use 3 in \<open>simp_all add: A word_le_nat_alt word_less_nat_alt\<close>)
    then have "uf2_inv b ram m0 ?w ?n log"
      by (intro uf2_inv_incomplete) (use d(9,10) v(1,2,4) f(2) fl 3(6) in \<open>simp_all add: complete_def uf2_wf_def count_inv_def\<close>)
    then show ?thesis using 3(5) by (simp add: flash_ops(1))
  next
    case 4
    let ?n = "n\<lparr>nv_mem := program_bytes (nv_mem n) ?t ?d\<rparr>"
    have t: "unat ?t < 0xEA000" "unat ?A \<le> unat ?t" using 4(3,4) by (simp_all add: A word_le_nat_alt word_less_nat_alt)
    have fl': "fl_addr ?n = FLASH_CACHE_INVALID_ADDR" using fl by simp
    obtain w' n' where r: "commit_block b ram 1 ?A block (w, ?n) = Some (512, w', n')"
      "mask_bits (targetMask w') = insert (unat ?t div 256) (mask_bits (targetMask w))" "uf2_inv b ram m0 w' n' (log @ [(?t, ?d)])"
    proof (rule commit_app_inv [OF pre t(1) fl'])
      fix w' :: write_state
      assume h: "mask_bits (targetMask w') = insert (unat ?t div 256) (mask_bits (targetMask w))" "appErasedMask w' = appErasedMask w"
        "appSettingsInvalidated w' = appSettingsInvalidated w" "unat (appMaximumWrittenEnd w) \<le> unat (appMaximumWrittenEnd w')"
        "?A \<le> ?t \<Longrightarrow> unat ?t + 256 \<le> unat (appMaximumWrittenEnd w')"
      have "?A \<le> ?t" using t(2) by (simp add: word_le_nat_alt)
      then show "app_inv m0 w' (nv_mem ?n) (log @ [(?t, ?d)])"
        using app_inv_program [OF ai c(2) 4(1,2) t(2,1) 4(5) d(6,8) h(1,2) _ _ h(4)] h(3,5) 4(1) by simp
    qed
    have "targetMask w' \<noteq> targetMask w" using r(2) 4(5) by auto
    then have "uf2_log m0 block w w' log = log @ [(?t, ?d)]" using t(2) by (simp add: uf2_log_def word_le_nat_alt)
    then show ?thesis using 4(6) r(1,3) flash_ops(2) [OF d(8), of ?t n] by (simp add: d(7))
  next
    case 5
    have t: "unat ?t < 0xEA000" "unat ?t < unat ?A" using 5(1,2) by (simp_all add: A word_less_nat_alt)
    obtain w' n' where r: "commit_block b ram 1 ?A block (w, n) = Some (512, w', n')"
      "mask_bits (targetMask w') = insert (unat ?t div 256) (mask_bits (targetMask w))" "uf2_inv b ram m0 w' n' log"
    proof (rule commit_app_inv [OF pre t(1) fl])
      fix w' :: write_state
      assume h: "mask_bits (targetMask w') = insert (unat ?t div 256) (mask_bits (targetMask w))" "appErasedMask w' = appErasedMask w"
        "appSettingsInvalidated w' = appSettingsInvalidated w" "unat (appMaximumWrittenEnd w) \<le> unat (appMaximumWrittenEnd w')"
      show "app_inv m0 w' (nv_mem n) log" by (rule app_inv_keep [OF ai h t(2) d(6)])
    qed
    have "uf2_log m0 block w w' log = log" using t(2) by (simp add: uf2_log_def word_le_nat_alt)
    then show ?thesis using 5(4) r by simp
  qed
qed

lemma commit_boot_inv:
  assumes w: "uf2_wf w" "count_inv w" "\<not> appValidated w" "numBlocks w \<noteq> 0"
    "bootloaderStagingErased w \<or> unat (bootloaderEraseOffset w) < 0xA000 \<and> 4096 dvd unat (bootloaderEraseOffset w)"
    and i: "unat (blockNo block) < unat (numBlocks w)" "unat (blockNo block) \<notin> mask_bits (writtenMask w)"
    and c: "b_chip b = NRF52840" "uf2_window m0" and k: "updateKind w = 2" "boot_inv m0 n" "\<not> appSettingsInvalidated w"
  shows "\<exists>w' n'. commit_block b ram 2 A block (w, n) = Some (512, w', n') \<and> targetMask w' = targetMask w \<and> uf2_inv b ram m0 w' n' []"
proof -
  have k': "updateKind w = 1 \<and> app_inv m0 w (nv_mem n) [] \<and> fl_addr n = FLASH_CACHE_INVALID_ADDR \<or>
      updateKind w = 2 \<and> boot_inv m0 n \<and> \<not> appSettingsInvalidated w \<and> ([] :: (u32 \<times> bytes) list) = []" using k by simp
  obtain w1 w' n' where r: "uf2_transfer_commit (blockNo block) w = Some w1"
    "(if numWritten w1 \<ge> numBlocks w1 then if updateKind w1 = 2 then finish_boot_transfer b (w1, n)
       else finish_app_transfer b ram (CODE_REGION_1_START m0) (w1, n) else (w1, n)) = (w', n')"
    "targetMask w' = targetMask w" "uf2_inv b ram m0 w' n' []"
    by (rule commit_tail [OF w k' i c, of ram])
  have "updateKind w1 = 2" using r(1) k(1) by (auto simp: uf2_transfer_commit_def split: option.splits bool.splits)
  then have "commit_block b ram 2 A block (w, n) = Some (512, w', n')" using r(1,2) by (auto simp: commit_block_def uf2_kinds Let_def split: if_splits)
  then show ?thesis using r(3,4) by blast
qed

lemma staging_target:
  assumes "in_bootloader_space NRF52840 t" "256 dvd unat t"
  shows "staging_byte (0xE0000 + (t - 0xF4000))" "256 dvd unat (0xE0000 + (t - 0xF4000))"
proof -
  have t: "0xF4000 \<le> unat t" "unat t < 0xFE000"
    using assms(1) by (simp_all add: in_bootloader_space_def BOOTLOADER_ADDR_START_def BOOTLOADER_ADDR_END_def layout_simps word_le_nat_alt word_less_nat_alt)
  have "0xE0000 + (t - 0xF4000) = t - 0x14000" by simp
  moreover have "unat (t - 0x14000) = unat t - 0x14000" using t by (simp add: unat_sub_le word_le_nat_alt)
  ultimately have e: "unat (0xE0000 + (t - 0xF4000)) = unat t - 0x14000" by simp
  show "staging_byte (0xE0000 + (t - 0xF4000))" unfolding staging_byte_def e using t by linarith
  show "256 dvd unat (0xE0000 + (t - 0xF4000))" unfolding e using assms(2) by (intro dvd_diff_nat) simp_all
qed

lemma staging_erase_cases:
  assumes "b_chip b = NRF52840"
  obtains (ready) "bootloaderStagingErased w" "erase_bootloader_staging b ram (w, n) = (True, w, n)"
    | (refused) "erase_bootloader_staging b ram (w, n) = (False, w\<lparr>aborted := True\<rparr>, n)"
    | (erase) "\<not> bootloaderStagingErased w" "erase_bootloader_staging b ram (w, n) =
        (False, w\<lparr>bootloaderEraseOffset := bootloaderEraseOffset w + 0x1000, bootloaderStagingErased := (bootloaderEraseOffset w + 0x1000 \<ge> 0xA000)\<rparr>,
         flash_nrf5x_erase (0xE0000 + bootloaderEraseOffset w) PAGE n)"
proof -
  define stop where "stop \<longleftrightarrow> (b_internal_bootloader_update b \<or> b_sd_bootloader_update b \<or> b_qspi_bootloader_update b \<and> \<not> b_qspi_xiao_identity b) \<and>
    bootloaderEraseOffset w = 0 \<and> bootloader_app_is_valid b (nv_mem n) ram \<and> \<not> live_app_fits_below b MOTA_NRF52_BL_SCRATCH_START (nv_mem n)"
  have e: "erase_bootloader_staging b ram (w, n) = (if bootloaderStagingErased w then (True, w, n)
      else if stop then (False, w\<lparr>aborted := True\<rparr>, n)
      else (False, w\<lparr>bootloaderEraseOffset := bootloaderEraseOffset w + 0x1000, bootloaderStagingErased := (bootloaderEraseOffset w + 0x1000 \<ge> 0xA000)\<rparr>,
         flash_nrf5x_erase (0xE0000 + bootloaderEraseOffset w) PAGE n))"
    unfolding erase_bootloader_staging_def Let_def prod.case stop_def [symmetric] by (simp add: assms layout_simps)
  show thesis
    by (cases "bootloaderStagingErased w"; cases stop) (use that in \<open>simp_all add: e\<close>)
qed

lemma erase_offset_step:
  assumes "unat (o1 :: u32) < 0xA000" "4096 dvd unat o1"
  shows "staging_byte (0xE0000 + o1)" "o1 + 0x1000 \<ge> 0xA000 \<or> unat (o1 + 0x1000) < 0xA000 \<and> 4096 dvd unat (o1 + 0x1000)"
proof -
  have "unat (0xE0000 + o1) = 0xE0000 + unat o1" using assms(1) by (subst unat_add_no_wrap) simp_all
  then show "staging_byte (0xE0000 + o1)" using assms(1) by (simp add: staging_byte_def)
  have "unat (o1 + 0x1000) = unat o1 + 0x1000" using assms(1) by (subst unat_add_no_wrap) simp_all
  then show "o1 + 0x1000 \<ge> 0xA000 \<or> unat (o1 + 0x1000) < 0xA000 \<and> 4096 dvd unat (o1 + 0x1000)"
    using assms(2) by (auto simp: word_le_nat_alt)
qed

lemma boot_branch_inv:
  assumes f: "fresh_block b ram m0 block w n log" "updateKind w = 2" and c: "b_chip b = NRF52840" "uf2_window m0"
  shows "\<exists>r w' n'. after_store b ram 2 A block (write_boot_block b ram block (w, n)) = Some (r, w', n') \<and>
    targetMask w' = targetMask w \<and> uf2_inv b ram m0 w' n' log"
proof -
  let ?t = "targetAddr block" and ?d = "take 256 (bl_data block)"
  note d = fresh_blockD [OF f(1)] note v = uf2_invD [OF d(1)]
  have k: "boot_inv m0 n" "\<not> appSettingsInvalidated w" "log = []" using v(5,6) f(2) by simp_all
  have ok: "\<exists>r w' n'. commit_block b ram 2 A block (w\<lparr>has_uicr := u\<rparr>, n1) = Some (r, w', n') \<and> targetMask w' = targetMask w \<and> uf2_inv b ram m0 w' n' log"
    if n1: "boot_inv m0 n1" for n1 u
    using commit_boot_inv [of "w\<lparr>has_uicr := u\<rparr>" block b m0 n1 ram A] v(1,2,4) d(3,4,5,10) c f(2) k n1 by (simp add: uf2_wf_def count_inv_def) blast
  have same: "w = w\<lparr>has_uicr := has_uicr w\<rparr>" by simp
  consider (uicr) "in_uicr_space ?t" | (boot) "\<not> in_uicr_space ?t" "in_bootloader_space NRF52840 ?t"
    | (other) "\<not> in_uicr_space ?t" "\<not> in_bootloader_space NRF52840 ?t" by blast
  then show ?thesis
  proof cases
    case uicr
    then show ?thesis using ok [OF k(1), of True] uf2_inv_abort [OF d(1)] by (simp add: write_boot_block_def Let_def abort_block_def)
  next
    case boot
    note sp = staging_target [OF boot(2) d(6)]
    have wb: "write_boot_block b ram block (w, n) = (case erase_bootloader_staging b ram (w, n) of (ready, w, n) \<Rightarrow>
        if \<not> ready then (Busy, w, n) else (Stored, w, flash_nrf5x_write (0xE0000 + (?t - 0xF4000)) ?d False n))"
      using boot c(1) by (cases "erase_bootloader_staging b ram (w, n)") (simp add: write_boot_block_def Let_def d(7) layout_simps BOOTLOADER_ADDR_START_def)
    show ?thesis
    proof (rule staging_erase_cases [OF c(1), of w ram n], goal_cases)
      case 1
      then show ?thesis using ok [OF stage_block_inv [OF k(1) sp d(8)], of "has_uicr w"] by (simp add: wb)
    next
      case 2
      then show ?thesis using uf2_inv_abort [OF d(1)] by (simp add: wb)
    next
      case 3
      have "unat (bootloaderEraseOffset w) < 0xA000" "4096 dvd unat (bootloaderEraseOffset w)" using v(4) 3(1) by simp_all
      note eo = erase_offset_step [OF this]
      have "uf2_inv b ram m0 (w\<lparr>bootloaderEraseOffset := bootloaderEraseOffset w + 0x1000,
          bootloaderStagingErased := (bootloaderEraseOffset w + 0x1000 \<ge> 0xA000)\<rparr>) (flash_nrf5x_erase (0xE0000 + bootloaderEraseOffset w) PAGE n) log"
        by (rule uf2_inv_incomplete) (use d(9,10) v(1,2) f(2) k stage_erase_inv [OF k(1) eo(1)] eo(2) in
          \<open>simp_all add: complete_def uf2_wf_def count_inv_def\<close>)
      then show ?thesis using 3(2) by (simp add: wb)
    qed
  next
    case other
    then show ?thesis using ok [OF k(1), of "has_uicr w"] uf2_inv_abort [OF d(1)] c(1)
      by (simp add: write_boot_block_def Let_def abort_block_def)
  qed
qed

lemma block_kind_cases: "block_kind b block = Some k \<Longrightarrow> k = 1 \<or> k = 2"
  by (auto simp: block_kind_def uf2_kinds split: if_splits)

text \<open>What happens to a UF2 block of a known family.\<close>

definition dispatch :: "build \<Rightarrow> u32 \<Rightarrow> u8 \<Rightarrow> uf2_block \<Rightarrow> write_state \<times> nvm \<Rightarrow> (int \<times> write_state \<times> nvm) option" where
  "dispatch b ram k block st = (case st of (w, n) \<Rightarrow>
     case uf2_transfer_prepare (bl_numBlocks block) (blockNo block) k (MAX_BLOCKS (b_chip b)) w of
       None \<Rightarrow> None
     | Some (UF2_TRANSFER_ABORTED, w) \<Rightarrow> Some (-1, w, n)
     | Some (UF2_TRANSFER_DUPLICATE, w) \<Rightarrow>
         let (res, w) = uf2_transfer_validate_duplicate UF2_TRANSFER_DUPLICATE (destination_matches b k block (nv_mem n)) w
         in Some (if res = UF2_TRANSFER_ABORTED then -1 else 512, w, n)
     | Some (UF2_TRANSFER_ACCEPT, w) \<Rightarrow>
         case (if k = UF2_UPDATE_KIND_APPLICATION then write_app_block b block (w, n)
                else Some (write_boot_block b ram block (w, n))) of
            None \<Rightarrow> None | Some s \<Rightarrow> after_store b ram k (CODE_REGION_1_START (nv_mem n)) block s)"

lemma write_block_dispatch:
  assumes "\<not> aborted w" "\<not> uf2_current_lba_is_synthetic lba CURRENT_UF2_FIRST_LBA secs" "is_uf2_block (uf2_block_of_bytes dat)"
    "block_kind b (uf2_block_of_bytes dat) = Some k"
  shows "write_block b ram secs lba dat (w, n) = dispatch b ram k (uf2_block_of_bytes dat) (w, n)"
  unfolding write_block_def dispatch_def Let_def prod.case after_store_def
  using assms by (simp split: option.split prod.split uf2_transfer_result.split block_step.split)

lemma write_block_inv:
  assumes inv: "uf2_inv b ram m0 w n log" and c: "b_chip b = NRF52840" "uf2_window m0" and l: "length dat = 512"
  shows "\<exists>r w' n'. write_block b ram secs lba dat (w, n) = Some (r, w', n') \<and>
    uf2_inv b ram m0 w' n' (uf2_log m0 (uf2_block_of_bytes dat) w w' log)"
proof -
  define block where "block = uf2_block_of_bytes dat"
  let ?A = "CODE_REGION_1_START m0"
  have A: "CODE_REGION_1_START (nv_mem n) = ?A" by (rule uf2_inv_base [OF inv c(2)])
  have stay: "\<exists>r' w' n'. Some (r, w, n) = Some (r', w', n') \<and> uf2_inv b ram m0 w' n' (uf2_log m0 block w w' log)" for r
    using inv by simp
  show ?thesis
  proof (cases "aborted w \<or> uf2_current_lba_is_synthetic lba CURRENT_UF2_FIRST_LBA secs \<or> \<not> is_uf2_block block \<or> block_kind b block = None")
    case True
    then show ?thesis using inv unfolding write_block_def Let_def prod.case block_def [symmetric]
      by (cases "block_kind b block") auto
  next
    case False
    then obtain k where k: "block_kind b block = Some k" by blast
    have na: "\<not> aborted w" and bl: "is_uf2_block block" using False by simp_all
    have blk: "targetAddr block AND 255 = 0" "payloadSize block = 256" "length (bl_data block) = 476"
      using bl l by (simp_all add: is_uf2_block_def UF2_FIRMWARE_BYTES_PER_SECTOR_def block_def uf2_block_of_bytes_def)
    have wb: "write_block b ram secs lba dat (w, n) = dispatch b ram k block (w, n)"
      unfolding block_def by (rule write_block_dispatch) (use False k in \<open>simp_all add: block_def\<close>)
    show ?thesis unfolding wb dispatch_def prod.case A block_def [symmetric]
    proof (rule prepare_cases [OF c(1) uf2_invD(1) [OF inv] na, of block k], goal_cases)
      case (1 w')
      have t: "targetMask w' = targetMask w" using 1(2) by auto
      have "uf2_inv b ram m0 w' n log" using 1(2) uf2_inv_abort [OF inv] uf2_inv_numBlocks [OF inv] by blast
      then show ?case using 1(1) t by simp
    next
      case (2 r)
      let ?w = "prepared block k w"
      have pi: "uf2_inv b ram m0 ?w n log" by (rule uf2_inv_prepared [OF inv 2(3-6) block_kind_cases [OF k]])
      have t: "targetMask ?w = targetMask w" "writtenMask ?w = writtenMask w" by (simp_all add: prepared_def)
      show ?case
      proof (cases "unat (blockNo block) \<in> mask_bits (writtenMask w)")
        case True
        then show ?thesis using 2(1,2) pi uf2_inv_abort [OF pi] t by (simp add: uf2_transfer_validate_duplicate_def)
      next
        case new: False
        have f: "fresh_block b ram m0 block ?w n log"
          using pi blk new 2(5,7) na by (simp add: fresh_block_def t) (simp add: prepared_def)
        have lg: "uf2_log m0 block ?w w' log = uf2_log m0 block w w' log" for w' by (simp add: uf2_log_def t)
        have kk: "updateKind ?w = k" by (simp add: prepared_def)
        from block_kind_cases [OF k] show ?thesis
        proof
          assume k1: "k = 1"
          then show ?thesis using 2(1,2) new app_branch_inv [OF f _ c] kk unfolding lg by (auto simp: uf2_kinds)
        next
          assume "k = 2"
          then show ?thesis using 2(1,2) new boot_branch_inv [OF f _ c, of ?A] kk t by (fastforce simp: uf2_kinds)
        qed
      qed
    qed
  qed
qed

section \<open>Sessions\<close>

text \<open>
  A write session from its reset: \<open>m0\<close> is the flash at the reset, any host may write any sectors in any order, and \<open>log\<close>
  lists the application blocks stored so far.
\<close>

inductive uf2_run :: "build \<Rightarrow> u32 \<Rightarrow> flash \<Rightarrow> write_state \<Rightarrow> nvm \<Rightarrow> (u32 \<times> bytes) list \<Rightarrow> bool"
  for b :: build and ram :: u32 and m0 :: flash where
  start: "uf2_run b ram m0 (uf2_transfer_reset (b_chip b)) \<lparr>nv_mem = m0, fl_addr = FLASH_CACHE_INVALID_ADDR, fl_buf = buf\<rparr> []"
| sector: "uf2_run b ram m0 w n log \<Longrightarrow> length dat = 512 \<Longrightarrow> write_block b ram secs lba dat (w, n) = Some (r, w', n') \<Longrightarrow>
    uf2_run b ram m0 w' n' (uf2_log m0 (uf2_block_of_bytes dat) w w' log)"

lemma uf2_inv_start:
  "b_chip b = NRF52840 \<Longrightarrow> uf2_inv b ram m0 (uf2_transfer_reset (b_chip b)) \<lparr>nv_mem = m0, fl_addr = FLASH_CACHE_INVALID_ADDR, fl_buf = buf\<rparr> []"
  by (simp add: uf2_inv_def) (simp add: uf2_transfer_reset_def count_inv_def complete_def app_inv_def uf2_kinds layout_simps)

lemma uf2_run_inv:
  assumes "uf2_run b ram m0 w n log" "b_chip b = NRF52840" "uf2_window m0" shows "uf2_inv b ram m0 w n log"
  using assms
proof (induction rule: uf2_run.induct)
  case (start buf)
  then show ?case by (intro uf2_inv_start)
next
  case (sector w n log dat secs lba r w' n')
  have "uf2_inv b ram m0 w n log" by (rule sector.IH [OF sector.prems])
  from write_block_inv [OF this sector.prems sector.hyps(2), of secs lba] show ?case using sector.hyps(3) by auto
qed

lemma write_block_result:
  "write_block b ram secs lba dat (w, n) = Some (r, w', n') \<Longrightarrow> r = -1 \<or> r = 0 \<or> r = 512"
  by (auto simp: write_block_def commit_block_def Let_def split: if_splits option.splits prod.splits uf2_transfer_result.splits block_step.splits)

text \<open>
  C16. The write path never leaves its tables.  Whatever sectors the host writes, processing one more 512-byte sector
  performs no access outside the three bit masks (such an access is the value \<open>None\<close> of the model), answers with
  -1, 0 or 512, and keeps the block count at most the announced number of blocks, which stays within the limit of 4196.
\<close>

theorem uf2_write_in_bounds:
  assumes "uf2_run b ram m0 w n log" "b_chip b = NRF52840" "uf2_window m0" "length dat = 512"
  shows "\<exists>r w' n'. write_block b ram secs lba dat (w, n) = Some (r, w', n') \<and> r \<in> {-1, 0, 512} \<and>
    unat (numWritten w') \<le> unat (numBlocks w') \<and> unat (numBlocks w') \<le> 4196"
proof -
  obtain r w' n' where r: "write_block b ram secs lba dat (w, n) = Some (r, w', n')"
    "uf2_inv b ram m0 w' n' (uf2_log m0 (uf2_block_of_bytes dat) w w' log)"
    using write_block_inv [OF uf2_run_inv [OF assms(1-3)] assms(2-4), of secs lba] by blast
  have c: "mask_bits (writtenMask w') \<subseteq> {..<unat (numBlocks w')}" "unat (numWritten w') = card (mask_bits (writtenMask w'))" "unat (numBlocks w') \<le> 4196"
    using uf2_invD(2) [OF r(2)] by (simp_all add: count_inv_def)
  have "card (mask_bits (writtenMask w')) \<le> unat (numBlocks w')" using card_mono [OF _ c(1)] by simp
  then show ?thesis using r(1) c write_block_result [OF r(1)] by auto
qed

section \<open>Failing closed\<close>

lemma settings_word_zero:
  assumes "b_chip b = NRF52840" "\<forall>i<4. m (0xFF000 + of_nat i) = 0"
  shows "bs_bank_0 (bootloader_util_settings_get b m) = 0"
proof -
  have "m 0xFF000 = 0" "m 0xFF001 = 0" using assms(2) [rule_format, of 0] assms(2) [rule_format, of 1] by simp_all
  moreover have "rd_bytes m 0xFF000 32 ! 0 = m 0xFF000" "rd_bytes m 0xFF000 32 ! 1 = m 0xFF001" by simp_all
  ultimately have "rd_u16 (rd_bytes m 0xFF000 32) = 0" by (simp add: rd_u16_def)
  then show ?thesis using assms(1) by (simp add: bootloader_util_settings_get_def settings_of_bytes_def layout_simps)
qed

lemma app_invalid_bank_0: "bs_bank_0 (bootloader_util_settings_get b m) = 0 \<Longrightarrow> \<not> bootloader_app_is_valid b m ram"
  by (simp add: bootloader_app_is_valid_def Let_def)

lemma inv_log_read:
  assumes "uf2_inv b ram m0 w n log" "(a, d) \<in> set log" shows "rd_bytes (nv_mem n) a 256 = d"
proof -
  note v = uf2_invD [OF assms(1)]
  have "log \<noteq> []" using assms(2) by auto
  then have "updateKind w \<noteq> 2" using v(5) by auto
  then have "\<forall>(a, d) \<in> set log. 256 dvd unat a \<and> length d = 256 \<and> (\<forall>x. unat x div 256 = unat a div 256 \<longrightarrow> nv_mem n x = d ! (unat x mod 256))"
    using v(7) by (auto simp: app_inv_def Let_def)
  then show ?thesis using assms(2) by (intro rd_block) auto
qed


end
