(* ===== verification/Uf2_Install.thy ===== *)
theory Uf2_Install
  imports Uf2_Run
begin

text \<open>
  Sending an application: the sectors of a UF2 file, the retries of the USB stack while a sector is busy, and the proof that an
  image sent in order is stored and accepted.
\<close>

section \<open>The sectors of a file\<close>

definition uf2_sector :: "u32 \<Rightarrow> u32 \<Rightarrow> u32 \<Rightarrow> u32 \<Rightarrow> bytes \<Rightarrow> bytes" where
  "uf2_sector family addr no num payload =
     wr_u32 UF2_MAGIC_START0 @ wr_u32 UF2_MAGIC_START1 @ wr_u32 UF2_FLAG_FAMILYID @ wr_u32 addr @ wr_u32 UF2_FIRMWARE_BYTES_PER_SECTOR @
     wr_u32 no @ wr_u32 num @ wr_u32 family @ payload @ replicate (476 - length payload) 0 @ wr_u32 UF2_MAGIC_END"

lemma uf2_sector_length: "length payload \<le> 476 \<Longrightarrow> length (uf2_sector f a i k payload) = 512"
  by (simp add: uf2_sector_def)

lemma uf2_sector_block:
  assumes "length payload \<le> 476"
  shows "uf2_block_of_bytes (uf2_sector f a i k payload) =
    \<lparr>magicStart0 = UF2_MAGIC_START0, magicStart1 = UF2_MAGIC_START1, bl_flags = UF2_FLAG_FAMILYID, targetAddr = a,
     payloadSize = UF2_FIRMWARE_BYTES_PER_SECTOR, blockNo = i, bl_numBlocks = k, familyID = f,
     bl_data = payload @ replicate (476 - length payload) 0, magicEnd = UF2_MAGIC_END\<rparr>"
  using assms by (simp add: uf2_block_of_bytes_def uf2_sector_def)

text \<open>TinyUSB calls the write callback again with the same sector while it answers 0 (busy).\<close>

fun write_retry :: "nat \<Rightarrow> build \<Rightarrow> u32 \<Rightarrow> u32 \<Rightarrow> u32 \<Rightarrow> bytes \<Rightarrow> write_state \<times> nvm \<Rightarrow> (int \<times> write_state \<times> nvm) option" where
  "write_retry 0 b ram secs lba dat st = write_block b ram secs lba dat st"
| "write_retry (Suc tries) b ram secs lba dat st =
     (case write_block b ram secs lba dat st of
        Some (r, st') \<Rightarrow> if r = 0 then write_retry tries b ram secs lba dat st' else Some (r, st')
      | None \<Rightarrow> None)"

fun write_sectors :: "build \<Rightarrow> u32 \<Rightarrow> u32 \<Rightarrow> (u32 \<times> bytes) list \<Rightarrow> write_state \<times> nvm \<Rightarrow> (write_state \<times> nvm) option" where
  "write_sectors b ram secs [] st = Some st"
| "write_sectors b ram secs ((lba, dat) # xs) st =
     (case write_retry 2 b ram secs lba dat st of
        Some (r, st') \<Rightarrow> if r = 512 then write_sectors b ram secs xs st' else None
      | None \<Rightarrow> None)"

lemma write_sectors_append:
  "write_sectors b ram secs (xs @ ys) st = (case write_sectors b ram secs xs st of Some st' \<Rightarrow> write_sectors b ram secs ys st' | None \<Rightarrow> None)"
  by (induction b ram secs xs st rule: write_sectors.induct) (auto split: option.splits)

definition img_block :: "bytes \<Rightarrow> nat \<Rightarrow> bytes" where
  "img_block img j = take 256 (drop (256 * j) img)"

definition img_vectors_ok :: "u32 \<Rightarrow> u32 \<Rightarrow> bytes \<Rightarrow> bool" where
  "img_vectors_ok ram A img \<longleftrightarrow> (let sp = rd_u32 img; reset = rd_u32 (drop 4 img)
     in 0x20000000 \<le> sp \<and> sp \<le> 0x20000000 + push_bit 10 ram \<and> sp AND 7 = 0 \<and> reset AND 1 \<noteq> 0 \<and>
        A \<le> reset AND NOT 1 \<and> unat (reset AND NOT 1) < unat A + length img)"

section \<open>Progress\<close>

definition sent :: "build \<Rightarrow> u32 \<Rightarrow> flash \<Rightarrow> nat \<Rightarrow> nat \<Rightarrow> bytes \<Rightarrow> nat \<Rightarrow> write_state \<Rightarrow> nvm \<Rightarrow> bool" where
  "sent b ram m0 p k img i w n \<longleftrightarrow> (let A = CODE_REGION_1_START m0
     in uf2_inv b ram m0 w n (map (\<lambda>j. (A + of_nat (256 * j), img_block img j)) [0..<i]) \<and> \<not> aborted w \<and>
        (numBlocks w = 0 \<or> numBlocks w = of_nat (p + k)) \<and> (updateKind w = 0 \<or> updateKind w = 1) \<and>
        mask_bits (writtenMask w) = {..<p + i} \<and> mask_bits (targetMask w) = {unat A div 256 - p..<unat A div 256 + i} \<and>
        unat (appMaximumWrittenEnd w) = (if i = 0 then 0 else unat A + 256 * i))"

lemma sentD:
  assumes "sent b ram m0 p k img i w n"
  shows "uf2_inv b ram m0 w n (map (\<lambda>j. (CODE_REGION_1_START m0 + of_nat (256 * j), img_block img j)) [0..<i])" "\<not> aborted w"
    "numBlocks w = 0 \<or> numBlocks w = of_nat (p + k)" "updateKind w = 0 \<or> updateKind w = 1" "mask_bits (writtenMask w) = {..<p + i}"
    "mask_bits (targetMask w) = {unat (CODE_REGION_1_START m0) div 256 - p..<unat (CODE_REGION_1_START m0) div 256 + i}"
    "unat (appMaximumWrittenEnd w) = (if i = 0 then 0 else unat (CODE_REGION_1_START m0) + 256 * i)"
  using assms unfolding sent_def Let_def by blast+

definition sendable :: "build \<Rightarrow> flash \<Rightarrow> u32 \<Rightarrow> nat \<Rightarrow> nat \<Rightarrow> bytes \<Rightarrow> bool" where
  "sendable b m0 fam p k img \<longleftrightarrow> b_chip b = NRF52840 \<and> uf2_window m0 \<and> (fam = board_id b \<or> fam = CFG_UF2_FAMILY_APP_ID (b_chip b)) \<and>
     length img = 256 * k \<and> 0 < k \<and> unat (CODE_REGION_1_START m0) + 256 * k \<le> 0xEA000 \<and>
     0x1000 + 256 * p \<le> unat (CODE_REGION_1_START m0)"

definition app_sector :: "flash \<Rightarrow> u32 \<Rightarrow> nat \<Rightarrow> nat \<Rightarrow> bytes \<Rightarrow> nat \<Rightarrow> bytes" where
  "app_sector m0 fam p k img i = uf2_sector fam (CODE_REGION_1_START m0 + of_nat (256 * i)) (of_nat (p + i)) (of_nat (p + k)) (img_block img i)"

definition app_block :: "flash \<Rightarrow> u32 \<Rightarrow> nat \<Rightarrow> nat \<Rightarrow> bytes \<Rightarrow> nat \<Rightarrow> uf2_block" where
  "app_block m0 fam p k img i = uf2_block_of_bytes (app_sector m0 fam p k img i)"

lemma app_block_facts:
  assumes "sendable b m0 fam p k img" "i < k"
  shows "length (app_sector m0 fam p k img i) = 512" "targetAddr (app_block m0 fam p k img i) = CODE_REGION_1_START m0 + of_nat (256 * i)"
    "unat (targetAddr (app_block m0 fam p k img i)) = unat (CODE_REGION_1_START m0) + 256 * i" "payloadSize (app_block m0 fam p k img i) = 256"
    "unat (blockNo (app_block m0 fam p k img i)) = p + i" "bl_numBlocks (app_block m0 fam p k img i) = of_nat (p + k)" "unat (of_nat (p + k) :: u32) = p + k"
    "take 256 (bl_data (app_block m0 fam p k img i)) = img_block img i" "length (img_block img i) = 256" "length (bl_data (app_block m0 fam p k img i)) = 476"
    "is_uf2_block (app_block m0 fam p k img i)" "block_kind b (app_block m0 fam p k img i) = Some 1" "p + k \<le> 3728"
    "targetAddr (app_block m0 fam p k img i) AND 255 = 0" "256 dvd unat (CODE_REGION_1_START m0)"
proof -
  let ?A = "CODE_REGION_1_START m0"
  have s: "length img = 256 * k" "unat ?A + 256 * k \<le> 0xEA000" "0x1000 + 256 * p \<le> unat ?A" "fam = board_id b \<or> fam = CFG_UF2_FAMILY_APP_ID (b_chip b)"
    using assms(1) unfolding sendable_def by blast+
  show k: "p + k \<le> 3728" using s(2,3) by simp
  have "256 * i + 256 \<le> length img" using assms(2) s(1) by simp
  then show l: "length (img_block img i) = 256" by (simp add: img_block_def)
  note sb = uf2_sector_block [of "img_block img i" fam "?A + of_nat (256 * i)" "of_nat (p + i)" "of_nat (p + k)", unfolded l, simplified]
  show "length (app_sector m0 fam p k img i) = 512" using l by (simp add: app_sector_def uf2_sector_length)
  have un: "unat (of_nat (256 * i) :: u32) = 256 * i" using assms(2) k by (intro unat_of_nat_u32) simp
  then have ta: "unat (?A + of_nat (256 * i)) = unat ?A + 256 * i" using assms(2) s(2) by (subst unat_add_no_wrap) simp_all
  have dv: "4096 dvd unat ?A" using assms(1) by (simp add: sendable_def uf2_window_def)
  show d: "256 dvd unat ?A" by (rule dvd_trans [OF _ dv]) simp
  then have al: "(?A + of_nat (256 * i)) AND 255 = 0" unfolding aligned256_iff ta by simp
  note ab = app_block_def app_sector_def sb
  show "targetAddr (app_block m0 fam p k img i) = ?A + of_nat (256 * i)" "payloadSize (app_block m0 fam p k img i) = 256"
    "bl_numBlocks (app_block m0 fam p k img i) = of_nat (p + k)" "take 256 (bl_data (app_block m0 fam p k img i)) = img_block img i"
    "length (bl_data (app_block m0 fam p k img i)) = 476"
    using l by (simp_all add: ab UF2_FIRMWARE_BYTES_PER_SECTOR_def)
  show "unat (targetAddr (app_block m0 fam p k img i)) = unat ?A + 256 * i" using ta by (simp add: ab)
  show "targetAddr (app_block m0 fam p k img i) AND 255 = 0" using al by (simp add: ab)
  have "unat (of_nat (p + i) :: u32) = p + i" using assms(2) k by (intro unat_of_nat_u32) simp
  then show "unat (blockNo (app_block m0 fam p k img i)) = p + i" by (simp add: ab)
  show "unat (of_nat (p + k) :: u32) = p + k" using k by (intro unat_of_nat_u32) simp
  show "is_uf2_block (app_block m0 fam p k img i)" using al
    by (simp add: ab is_uf2_block_def UF2_FLAG_FAMILYID_def UF2_FLAG_NOFLASH_def)
  show "block_kind b (app_block m0 fam p k img i) = Some 1" using s(4) by (auto simp: ab block_kind_def uf2_kinds)
qed

lemma prepare_accept:
  assumes "\<not> aborted w" "bl_numBlocks block \<noteq> 0" "\<not> bl_numBlocks block > mb" "\<not> blockNo block \<ge> bl_numBlocks block"
    "numBlocks w = 0 \<or> numBlocks w = bl_numBlocks block" "updateKind w = 0 \<or> updateKind w = k" "mask_test (writtenMask w) (blockNo block) = Some False"
  shows "uf2_transfer_prepare (bl_numBlocks block) (blockNo block) k mb w = Some (UF2_TRANSFER_ACCEPT, prepared block k w)"
proof -
  have "\<not> (numBlocks w \<noteq> 0 \<and> numBlocks w \<noteq> bl_numBlocks block)" "\<not> (updateKind w \<noteq> 0 \<and> updateKind w \<noteq> k)"
    "\<not> (bl_numBlocks block = 0 \<or> bl_numBlocks block > mb \<or> blockNo block \<ge> bl_numBlocks block)" using assms by blast+
  then show ?thesis using assms(1,7) unfolding uf2_transfer_prepare_def Let_def by (simp add: prepared_def)
qed

lemma fresh_call:
  assumes inv: "uf2_inv b ram m0 w n log" "\<not> aborted w" "b_chip b = NRF52840" "uf2_window m0"
    and bl: "bl = uf2_block_of_bytes dat" "is_uf2_block bl" "block_kind b bl = Some 1" "unat (bl_numBlocks bl) \<le> 3728"
      "unat (blockNo bl) < unat (bl_numBlocks bl)" "unat (blockNo bl) \<notin> mask_bits (writtenMask w)"
    and w: "numBlocks w = 0 \<or> numBlocks w = bl_numBlocks bl" "updateKind w = 0 \<or> updateKind w = 1"
    and lba: "\<not> uf2_current_lba_is_synthetic lba CURRENT_UF2_FIRST_LBA secs"
  shows "write_block b ram secs lba dat (w, n) =
    (case write_app_block b bl (prepared bl 1 w, n) of None \<Rightarrow> None | Some s \<Rightarrow> after_store b ram 1 (CODE_REGION_1_START m0) bl s)"
proof -
  have A: "CODE_REGION_1_START (nv_mem n) = CODE_REGION_1_START m0" by (rule uf2_inv_base [OF inv(1,4)])
  have nb: "bl_numBlocks bl \<noteq> 0" "\<not> bl_numBlocks bl > MAX_BLOCKS NRF52840" "\<not> blockNo bl \<ge> bl_numBlocks bl"
    using bl(4,5) by (auto simp: word_less_nat_alt word_le_nat_alt layout_simps)
  have l: "unat (blockNo bl) div 8 < length (writtenMask w)" using uf2_invD(1) [OF inv(1)] bl(4,5) by (simp add: uf2_wf_def)
  have "uf2_transfer_prepare (bl_numBlocks bl) (blockNo bl) 1 (MAX_BLOCKS (b_chip b)) w = Some (UF2_TRANSFER_ACCEPT, prepared bl 1 w)"
    by (rule prepare_accept) (use nb inv(2,3) w bl(6) l in \<open>simp_all add: mask_test_eq\<close>)
  then have "dispatch b ram 1 bl (w, n) = (case write_app_block b bl (prepared bl 1 w, n) of None \<Rightarrow> None
     | Some s \<Rightarrow> after_store b ram 1 (CODE_REGION_1_START m0) bl s)" by (simp add: dispatch_def uf2_kinds A split: option.split)
  then show ?thesis using write_block_dispatch [OF inv(2) lba, of dat b 1 ram n] bl(1-3) by simp
qed

lemma send_call:
  assumes sd: "sendable b m0 fam p k img" "i < k" and st: "sent b ram m0 p k img i w n"
    and lba: "\<not> uf2_current_lba_is_synthetic lba CURRENT_UF2_FIRST_LBA secs"
  shows "write_block b ram secs lba (app_sector m0 fam p k img i) (w, n) =
    (case write_app_block b (app_block m0 fam p k img i) (prepared (app_block m0 fam p k img i) 1 w, n) of None \<Rightarrow> None
     | Some s \<Rightarrow> after_store b ram 1 (CODE_REGION_1_START m0) (app_block m0 fam p k img i) s)"
proof -
  note f = app_block_facts [OF sd] note d = sentD [OF st]
  have c: "b_chip b = NRF52840" "uf2_window m0" using sd(1) by (simp_all add: sendable_def)
  show ?thesis by (rule fresh_call [OF d(1,2) c app_block_def f(11,12) _ _ _ _ d(4) lba]) (use f(5,6,7,13) d(3,5) sd(2) in simp_all)
qed

text \<open>The invariant and the log of the next state, whatever the answer.\<close>

lemma send_inv:
  assumes sd: "sendable b m0 fam p k img" "i < k" and st: "sent b ram m0 p k img i w n"
    and r: "write_block b ram secs lba (app_sector m0 fam p k img i) (w, n) = Some (r, w', n')"
  shows "targetMask w' = targetMask w \<Longrightarrow> uf2_inv b ram m0 w' n' (map (\<lambda>j. (CODE_REGION_1_START m0 + of_nat (256 * j), img_block img j)) [0..<i])"
    "targetMask w' \<noteq> targetMask w \<Longrightarrow> uf2_inv b ram m0 w' n' (map (\<lambda>j. (CODE_REGION_1_START m0 + of_nat (256 * j), img_block img j)) [0..<Suc i])"
proof -
  note f = app_block_facts [OF sd] note d = sentD [OF st]
  have c: "b_chip b = NRF52840" "uf2_window m0" using sd(1) by (simp_all add: sendable_def)
  have "CODE_REGION_1_START m0 \<le> targetAddr (app_block m0 fam p k img i)" using f(3) by (simp add: word_le_nat_alt)
  then show "targetMask w' = targetMask w \<Longrightarrow> uf2_inv b ram m0 w' n' (map (\<lambda>j. (CODE_REGION_1_START m0 + of_nat (256 * j), img_block img j)) [0..<i])"
    "targetMask w' \<noteq> targetMask w \<Longrightarrow> uf2_inv b ram m0 w' n' (map (\<lambda>j. (CODE_REGION_1_START m0 + of_nat (256 * j), img_block img j)) [0..<Suc i])"
    using write_block_inv [OF d(1) c f(1), of secs lba] r f(2,8)
    by (auto simp: app_block_def [symmetric] uf2_log_def)
qed

lemma sent_busy:
  assumes "sendable b m0 fam p k img" "i < k" "sent b ram m0 p k img i w n"
    and "write_block b ram secs lba (app_sector m0 fam p k img i) (w, n) = Some (r, w', n')"
    and "w' = prepared (app_block m0 fam p k img i) 1 w\<lparr>appSettingsInvalidated := x, appErasedMask := m\<rparr>"
  shows "sent b ram m0 p k img i w' n'"
  using send_inv(1) [OF assms(1-4)] sentD [OF assms(3)] app_block_facts(6) [OF assms(1,2)]
  unfolding sent_def Let_def by (simp add: assms(5) prepared_def)

definition send_page :: "flash \<Rightarrow> nat \<Rightarrow> nat" where
  "send_page m0 i = (unat (CODE_REGION_1_START m0) + 256 * i) div 4096 - 1"

lemma send_cases:
  assumes sd: "sendable b m0 fam p k img" "i < k" and st: "sent b ram m0 p k img i w n"
    and lba: "\<not> uf2_current_lba_is_synthetic lba CURRENT_UF2_FIRST_LBA secs"
  obtains (invalidate) w' n' where "\<not> appSettingsInvalidated w" "write_block b ram secs lba (app_sector m0 fam p k img i) (w, n) = Some (0, w', n')"
      "sent b ram m0 p k img i w' n'" "appSettingsInvalidated w'"
    | (erase) w' n' where "appSettingsInvalidated w" "write_block b ram secs lba (app_sector m0 fam p k img i) (w, n) = Some (0, w', n')"
      "sent b ram m0 p k img i w' n'" "appSettingsInvalidated w'" "send_page m0 i \<in> mask_bits (appErasedMask w')"
      "send_page m0 i \<notin> mask_bits (appErasedMask w)"
    | (program) "appSettingsInvalidated w" "send_page m0 i \<in> mask_bits (appErasedMask w)"
      "write_block b ram secs lba (app_sector m0 fam p k img i) (w, n) = commit_block b ram 1 (CODE_REGION_1_START m0) (app_block m0 fam p k img i)
         (prepared (app_block m0 fam p k img i) 1 w, n\<lparr>nv_mem := program_bytes (nv_mem n) (targetAddr (app_block m0 fam p k img i)) (img_block img i)\<rparr>)"
proof -
  let ?bl = "app_block m0 fam p k img i" and ?A = "CODE_REGION_1_START m0"
  let ?P = "prepared ?bl 1 w"
  note f = app_block_facts [OF sd] note d = sentD [OF st] note call = send_call [OF sd st lba]
  have c: "b_chip b = NRF52840" "uf2_window m0" "unat ?A + 256 * k \<le> 0xEA000" using sd(1) by (simp_all add: sendable_def)
  have A: "CODE_REGION_1_START (nv_mem n) = ?A" by (rule uf2_inv_base [OF d(1) c(2)])
  have bounds: "targetAddr ?bl < 0xEA000" "0x1000 \<le> CODE_REGION_1_START (nv_mem n)" "CODE_REGION_1_START (nv_mem n) \<le> targetAddr ?bl"
    using f(3) c(2,3) sd(2) by (simp_all add: A word_less_nat_alt word_le_nat_alt uf2_window_def)
  have tb: "unat (targetAddr ?bl) div 256 = unat ?A div 256 + i" using f(3,15) by simp
  then have nt: "unat (targetAddr ?bl) div 256 \<notin> mask_bits (targetMask ?P)" using d(6) by (simp add: prepared_def)
  have wf: "uf2_wf ?P" "\<not> aborted ?P" using uf2_invD(1) [OF d(1)] d(2) by (simp_all add: prepared_def uf2_wf_def)
  have pg: "unat (page_index (targetAddr ?bl)) = send_page m0 i"
    using bounds(2,3) f(3) by (subst page_index_unat) (auto simp: send_page_def A)
  show thesis
  proof (rule app_block_program [OF c(1) wf f(14) bounds(1) nt bounds(2,3)], goal_cases)
    case 1
    let ?w = "?P\<lparr>appSettingsInvalidated := True\<rparr>" and ?n = "flash_nrf5x_invalidate_app_settings b (flash_nrf5x_discard n)"
    have r: "write_block b ram secs lba (app_sector m0 fam p k img i) (w, n) = Some (0, ?w, ?n)" using 1(2) by (simp add: call)
    have "sent b ram m0 p k img i ?w ?n" by (rule sent_busy [OF sd st r, where x = True and m = "appErasedMask w"]) (simp add: prepared_def)
    then show ?thesis using invalidate r 1(1) by (simp add: prepared_def)
  next
    case (2 mm)
    let ?w = "?P\<lparr>appErasedMask := mm\<rparr>" and ?n = "flash_nrf5x_erase (targetAddr ?bl) PAGE n"
    have r: "write_block b ram secs lba (app_sector m0 fam p k img i) (w, n) = Some (0, ?w, ?n)" using 2(3) by (simp add: call)
    have "sent b ram m0 p k img i ?w ?n" by (rule sent_busy [OF sd st r, where x = "appSettingsInvalidated w" and m = mm]) (simp add: prepared_def)
    then show ?thesis using erase r 2(1,2,5) pg by (simp add: prepared_def)
  next
    case 3
    have "write_block b ram secs lba (app_sector m0 fam p k img i) (w, n) = commit_block b ram 1 ?A ?bl
         (?P, n\<lparr>nv_mem := program_bytes (nv_mem n) (targetAddr ?bl) (img_block img i)\<rparr>)"
      using 3(3) flash_ops(2) [OF f(9), of "targetAddr ?bl" n] by (simp add: call f(4,8))
    then show ?thesis using program 3(1,2) pg by (simp add: prepared_def)
  qed
qed

text \<open>The record after the last of the mask updates.\<close>

lemma commit_send:
  assumes w: "uf2_wf w" "unat i < 4200" "unat i \<notin> mask_bits (writtenMask w)" "updateKind w = 1" "blockNo block = i"
    and t: "unat (targetAddr block) < 0xEA000" "A \<le> targetAddr block" "unat (appMaximumWrittenEnd w) \<le> unat (targetAddr block)"
  obtains M M' where "commit_block b ram 1 A block (w, n) = (let w2 = w\<lparr>targetMask := M, appMaximumWrittenEnd := targetAddr block + 256,
        writtenMask := M', numWritten := numWritten w + 1\<rparr>
      in Some (512, if numWritten w2 \<ge> numBlocks w2 then finish_app_transfer b ram A (w2, n) else (w2, n)))"
    "length M = 512" "mask_bits M = insert (unat (targetAddr block) div 256) (mask_bits (targetMask w))"
    "mask_bits M' = insert (unat i) (mask_bits (writtenMask w))"
proof -
  have t1: "unat (targetAddr block) < 0x100000" using t(1) by simp
  obtain M where M: "uf2_transfer_target_commit (targetAddr block) w = Some (w\<lparr>targetMask := M\<rparr>)" "length M = 512"
    "mask_bits M = insert (unat (targetAddr block) div 256) (mask_bits (targetMask w))" by (rule target_commit_eq [OF w(1) t1])
  let ?w1 = "w\<lparr>targetMask := M, appMaximumWrittenEnd := targetAddr block + 256\<rparr>"
  have w1: "uf2_wf ?w1" "unat i \<notin> mask_bits (writtenMask ?w1)" using w(1,3) M(2) by (simp_all add: uf2_wf_def)
  obtain M' where M': "uf2_transfer_commit i ?w1 = Some (?w1\<lparr>writtenMask := M', numWritten := numWritten ?w1 + 1\<rparr>)"
    "mask_bits M' = insert (unat i) (mask_bits (writtenMask ?w1))" by (rule transfer_commit_eq [OF w1(1) w(2) w1(2)])
  have "unat (targetAddr block + 256) = unat (targetAddr block) + 256" using t(1) by (subst unat_add_no_wrap) simp_all
  then have "targetAddr block + 256 > appMaximumWrittenEnd w" using t(3) by (simp add: word_less_nat_alt)
  then show thesis using that [of M' M] M M' w(4,5) t(2)
    by (simp add: commit_block_def uf2_kinds UF2_FIRMWARE_BYTES_PER_SECTOR_def Let_def cong: if_cong)
qed

lemma range_written:
  assumes "\<And>j. a div 256 \<le> j \<Longrightarrow> j < e div 256 \<Longrightarrow> j \<in> mask_bits M" "unat x = a" "unat y = e" "256 dvd a" "256 dvd e" "a < e" "e \<le> 0x100000" "length M = 512"
  shows "uf2_transfer_target_range_written M x y"
proof -
  have "mask_test M (of_nat j) = Some True" if "a div 256 \<le> j" "j < e div 256" for j
  proof -
    have "e div 256 \<le> 4096" using assms(7) by simp
    then have "j < 4096" using that(2) by simp
    moreover from this have "unat (of_nat j :: u32) = j" by (simp add: unat_of_nat_u32)
    ultimately show ?thesis using assms(1) [OF that] assms(8) by (simp add: mask_test_eq)
  qed
  then show ?thesis using assms(2-6)
    by (simp add: uf2_transfer_target_range_written_def word_le_nat_alt aligned256_iff list_all_iff)
qed

lemma finalize_accepts:
  assumes "img_vectors_ok ram A img" "length img = 256 * k" "0 < k" "unat A + 256 * k \<le> 0xEA000" "0x4000 \<le> unat A" "256 dvd unat A"
    "{unat A div 256..<unat A div 256 + k} \<subseteq> mask_bits M" "length M = 512" "unat e = unat A + 256 * k"
    "sp = rd_u32 img" "reset = rd_u32 (drop 4 img)"
  shows "uf2_application_finalize M A 0xEA000 e sp reset (0x20000000 + push_bit 10 ram) \<noteq> None"
proof -
  have "uf2_transfer_target_range_written M A e"
    by (rule range_written [OF _ refl refl]) (use assms(3,4,6,7,8,9) in \<open>auto simp: div_plus_div_distrib_dvd_left\<close>)
  moreover have "unat (e - A) = 256 * k" using assms(9) by (simp add: unat_sub_le word_le_nat_alt)
  moreover have "\<not> (e - A < 8)" using calculation(2) assms(3) by (simp add: word_less_nat_alt)
  ultimately show ?thesis
    using assms(1,2,3,4,5,9,10,11) unfolding uf2_application_finalize_def img_vectors_ok_def Let_def
    by (auto simp: word_less_nat_alt word_le_nat_alt)
qed

lemma finish_send:
  assumes "b_chip b = NRF52840" "A < 0xEA000" "fl_addr n = FLASH_CACHE_INVALID_ADDR" "appSettingsInvalidated w"
    "uf2_application_finalize (targetMask w) A 0xEA000 (appMaximumWrittenEnd w) (rd_word (nv_mem n) A) (rd_word (nv_mem n) (A + 4))
       (0x20000000 + push_bit 10 ram) \<noteq> None"
  shows "\<exists>sz. finish_app_transfer b ram A (w, n) = (w\<lparr>appSize := sz, appStart := A, appValidated := True\<rparr>, n)"
proof -
  have "flash_nrf5x_discard n = n" using assms(3) by (simp add: flash_nrf5x_discard_def)
  then show ?thesis using assms by (auto simp: finish_app_transfer_def Let_def layout_simps)
qed

lemma img_words:
  assumes "rd_bytes m A 256 = img_block img 0" "256 \<le> length img"
  shows "rd_word m A = rd_u32 img" "rd_word m (A + 4) = rd_u32 (drop 4 img)"
proof -
  have "rd_bytes m A 4 = take 4 (img_block img 0)" using take_rd_bytes [of 4 256 m A] assms(1) by simp
  then show "rd_word m A = rd_u32 img" by (simp add: rd_word_def img_block_def)
  have "rd_bytes m (A + 4) 4 = take 4 (drop 4 (rd_bytes m A 256))" by (simp add: drop_rd_bytes take_rd_bytes)
  then show "rd_word m (A + 4) = rd_u32 (drop 4 img)" by (simp add: rd_word_def assms(1) img_block_def drop_take)
qed

lemma send_program:
  assumes sd: "sendable b m0 fam p k img" "i < k" "img_vectors_ok ram (CODE_REGION_1_START m0) img" and st: "sent b ram m0 p k img i w n"
    and lba: "\<not> uf2_current_lba_is_synthetic lba CURRENT_UF2_FIRST_LBA secs"
    and e: "appSettingsInvalidated w" "send_page m0 i \<in> mask_bits (appErasedMask w)"
  shows "\<exists>w' n'. write_block b ram secs lba (app_sector m0 fam p k img i) (w, n) = Some (512, w', n') \<and> sent b ram m0 p k img (Suc i) w' n'"
proof -
  let ?bl = "app_block m0 fam p k img i" and ?A = "CODE_REGION_1_START m0"
  let ?P = "prepared ?bl 1 w" and ?n = "n\<lparr>nv_mem := program_bytes (nv_mem n) (targetAddr ?bl) (img_block img i)\<rparr>"
  note f = app_block_facts [OF sd(1,2)] note d = sentD [OF st]
  have c: "b_chip b = NRF52840" "uf2_window m0" "unat ?A + 256 * k \<le> 0xEA000" "length img = 256 * k" "0 < k"
    using sd(1) by (simp_all add: sendable_def)
  have call: "write_block b ram secs lba (app_sector m0 fam p k img i) (w, n) = commit_block b ram 1 ?A ?bl (?P, ?n)"
    by (rule send_cases [OF sd(1,2) st lba]) (use e in simp_all)
  have P: "uf2_wf ?P" "unat (blockNo ?bl) < 4200" "unat (blockNo ?bl) \<notin> mask_bits (writtenMask ?P)" "updateKind ?P = 1" "blockNo ?bl = blockNo ?bl"
    using uf2_invD(1) [OF d(1)] d(5) f(5,13) sd(2) by (simp_all add: prepared_def uf2_wf_def)
  have t: "unat (targetAddr ?bl) < 0xEA000" "?A \<le> targetAddr ?bl" "unat (appMaximumWrittenEnd ?P) \<le> unat (targetAddr ?bl)"
    using f(3) c(3) sd(2) d(7) by (auto simp: prepared_def word_le_nat_alt)
  obtain M M' where cb: "commit_block b ram 1 ?A ?bl (?P, ?n) = (let w2 = ?P\<lparr>targetMask := M, appMaximumWrittenEnd := targetAddr ?bl + 256,
        writtenMask := M', numWritten := numWritten ?P + 1\<rparr>
      in Some (512, if numWritten w2 \<ge> numBlocks w2 then finish_app_transfer b ram ?A (w2, ?n) else (w2, ?n)))"
    and M: "length M = 512" "mask_bits M = insert (unat (targetAddr ?bl) div 256) (mask_bits (targetMask ?P))"
    "mask_bits M' = insert (unat (blockNo ?bl)) (mask_bits (writtenMask ?P))" by (rule commit_send [OF P t])
  define w2 where "w2 = ?P\<lparr>targetMask := M, appMaximumWrittenEnd := targetAddr ?bl + 256, writtenMask := M', numWritten := numWritten ?P + 1\<rparr>"
  have tb: "unat (targetAddr ?bl) div 256 = unat ?A div 256 + i" using f(3,15) by simp
  have M2: "mask_bits M = {unat ?A div 256 - p..<unat ?A div 256 + Suc i}" "mask_bits M' = {..<p + Suc i}"
    using M(2,3) d(5,6) f(5) tb by (auto simp: prepared_def)
  have e2: "unat (targetAddr ?bl + 256) = unat ?A + 256 * Suc i" using t(1) f(3) by (subst unat_add_no_wrap) simp_all
  have w2: "targetMask w2 = M" "writtenMask w2 = M'" "numBlocks w2 = of_nat (p + k)" "updateKind w2 = 1" "\<not> aborted w2"
    "unat (appMaximumWrittenEnd w2) = unat ?A + 256 * Suc i" "appSettingsInvalidated w2" "appMaximumWrittenEnd w2 = targetAddr ?bl + 256"
    "numWritten w2 = numWritten w + 1"
    using f(6) e2 e(1) d(2) by (simp_all add: w2_def prepared_def)
  have nw: "unat (numWritten w2) = p + Suc i"
  proof -
    have "unat (numWritten w) = p + i" using uf2_invD(2) [OF d(1)] d(5) by (simp add: count_inv_def)
    then show ?thesis using w2(9) sd(2) f(13) by (simp add: unat_add_no_wrap)
  qed
  have neq: "M \<noteq> targetMask w" using M2(1) d(6) by auto
  have fin: "sent b ram m0 p k img (Suc i) w' n'"
    if r: "write_block b ram secs lba (app_sector m0 fam p k img i) (w, n) = Some (512, w', n')"
      and w': "targetMask w' = M" "writtenMask w' = M'" "numBlocks w' = of_nat (p + k)" "updateKind w' = 1" "\<not> aborted w'"
        "appMaximumWrittenEnd w' = targetAddr ?bl + 256" for w' n'
    using send_inv(2) [OF sd(1,2) st r] w' M2 neq e2 unfolding sent_def Let_def by simp
  show ?thesis
  proof (cases "Suc i = k")
    case False
    then have "\<not> numWritten w2 \<ge> numBlocks w2" using nw w2(3) f(7) sd(2) by (simp add: word_le_nat_alt)
    then have "write_block b ram secs lba (app_sector m0 fam p k img i) (w, n) = Some (512, w2, ?n)"
      by (simp add: call cb w2_def [symmetric])
    then show ?thesis using fin w2 by blast
  next
    case True
    then have full: "numWritten w2 \<ge> numBlocks w2" using nw w2(3) f(7) by (simp add: word_le_nat_alt)
    obtain w' n' where r: "finish_app_transfer b ram ?A (w2, ?n) = (w', n')" by fastforce
    have wb: "write_block b ram secs lba (app_sector m0 fam p k img i) (w, n) = Some (512, w', n')"
      using full r by (simp add: call cb w2_def [symmetric])
    have tm: "targetMask w' = M" "nv_mem n' = nv_mem ?n"
      using r w2(1) by (auto simp: finish_app_transfer_def flash_nrf5x_discard_def Let_def split: if_splits option.splits)
    have fa: "fl_addr n = FLASH_CACHE_INVALID_ADDR" using uf2_invD(8) [OF d(1)] d(4) by auto
    have inv: "uf2_inv b ram m0 w' n' (map (\<lambda>j. (?A + of_nat (256 * j), img_block img j)) [0..<Suc i])"
      by (rule send_inv(2) [OF sd(1,2) st wb]) (use tm neq in simp)
    have fin_ok: "uf2_application_finalize M ?A 0xEA000 (targetAddr ?bl + 256) (rd_word (nv_mem ?n) ?A) (rd_word (nv_mem ?n) (?A + 4))
       (0x20000000 + push_bit 10 ram) \<noteq> None"
    proof (rule finalize_accepts [OF sd(3) c(4,5,3)])
      have "(?A, img_block img 0) \<in> set (map (\<lambda>j. (?A + of_nat (256 * j), img_block img j)) [0..<Suc i])"
        by (auto intro!: image_eqI [of _ _ 0])
      then have "rd_bytes (nv_mem n') ?A 256 = img_block img 0" by (rule inv_log_read [OF inv])
      then have "rd_bytes (nv_mem ?n) ?A 256 = img_block img 0" using tm(2) by simp
      from img_words [OF this] show "rd_word (nv_mem ?n) ?A = rd_u32 img" "rd_word (nv_mem ?n) (?A + 4) = rd_u32 (drop 4 img)"
        using c(4,5) by simp_all
    qed (use c(2) f(15) M(1) M2(1) e2 True in \<open>simp_all add: uf2_window_def\<close>)
    obtain sz where "finish_app_transfer b ram ?A (w2, ?n) = (w2\<lparr>appSize := sz, appStart := ?A, appValidated := True\<rparr>, ?n)"
      using finish_send [OF c(1) _ _ w2(7), of ?A ?n ram] fin_ok fa w2(1,8) c(2) by (auto simp: uf2_window_def word_less_nat_alt)
    then have "w' = w2\<lparr>appSize := sz, appStart := ?A, appValidated := True\<rparr>" using r by simp
    then show ?thesis using fin [OF wb] wb w2 by simp
  qed
qed

section \<open>The whole image\<close>

text \<open>At most one call invalidates the settings and one erases the page: three calls store a block.\<close>

lemma send_retry:
  assumes sd: "sendable b m0 fam p k img" "i < k" "img_vectors_ok ram (CODE_REGION_1_START m0) img" and st: "sent b ram m0 p k img i w n"
    and lba: "\<not> uf2_current_lba_is_synthetic lba CURRENT_UF2_FIRST_LBA secs"
  shows "\<exists>w' n'. write_retry 2 b ram secs lba (app_sector m0 fam p k img i) (w, n) = Some (512, w', n') \<and> sent b ram m0 p k img (Suc i) w' n'"
proof -
  let ?d = "app_sector m0 fam p k img i"
  have one: "\<exists>w' n'. write_retry t b ram secs lba ?d (w, n) = Some (512, w', n') \<and> sent b ram m0 p k img (Suc i) w' n'"
    if "sent b ram m0 p k img i w n" "appSettingsInvalidated w" "send_page m0 i \<in> mask_bits (appErasedMask w)" for w n t
    using send_program [OF sd that(1) lba that(2,3)] by (cases t) auto
  have two: "\<exists>w' n'. write_retry (Suc t) b ram secs lba ?d (w, n) = Some (512, w', n') \<and> sent b ram m0 p k img (Suc i) w' n'"
    if "sent b ram m0 p k img i w n" "appSettingsInvalidated w" for w n t
  proof (cases "send_page m0 i \<in> mask_bits (appErasedMask w)")
    case True
    then show ?thesis using one [OF that] by blast
  next
    case False
    show ?thesis
    proof (rule send_cases [OF sd(1,2) that(1) lba], goal_cases)
      case 1
      then show ?thesis using that(2) by blast
    next
      case (2 w' n')
      then show ?thesis using one [OF 2(3-5), of t] by simp
    next
      case 3
      then show ?thesis using False by blast
    qed
  qed
  have "\<exists>w' n'. write_retry (Suc (Suc 0)) b ram secs lba ?d (w, n) = Some (512, w', n') \<and> sent b ram m0 p k img (Suc i) w' n'"
  proof (cases "appSettingsInvalidated w")
    case True
    then show ?thesis using two [OF st] by blast
  next
    case False
    show ?thesis
    proof (rule send_cases [OF sd(1,2) st lba], goal_cases)
      case (1 w' n')
      obtain w'' n'' where "write_retry (Suc 0) b ram secs lba ?d (w', n') = Some (512, w'', n'')" "sent b ram m0 p k img (Suc i) w'' n''"
        using two [OF 1(3,4), of 0] by blast
      then show ?thesis using 1(2) by (subst write_retry.simps(2)) simp
    qed (use False in blast)+
  qed
  then show ?thesis by (simp only: numeral_2_eq_2)
qed

lemma send_prefix:
  assumes sd: "sendable b m0 fam p k img" "img_vectors_ok ram (CODE_REGION_1_START m0) img"
    and lba: "\<forall>j<k. \<not> uf2_current_lba_is_synthetic (lba j) CURRENT_UF2_FIRST_LBA secs" and st: "sent b ram m0 p k img 0 w n"
  shows "j \<le> k \<Longrightarrow> \<exists>w' n'. write_sectors b ram secs (map (\<lambda>i. (lba i, app_sector m0 fam p k img i)) [0..<j]) (w, n) = Some (w', n') \<and> sent b ram m0 p k img j w' n'"
proof (induction j)
  case 0
  then show ?case using st by simp
next
  case (Suc j)
  then obtain w' n' where "write_sectors b ram secs (map (\<lambda>i. (lba i, app_sector m0 fam p k img i)) [0..<j]) (w, n) = Some (w', n')" "sent b ram m0 p k img j w' n'"
    by auto
  moreover obtain w'' n'' where "write_retry 2 b ram secs (lba j) (app_sector m0 fam p k img j) (w', n') = Some (512, w'', n'')" "sent b ram m0 p k img (Suc j) w'' n''"
    using send_retry [OF sd(1) _ sd(2) calculation(2), of "lba j" secs] lba Suc.prems by auto
  ultimately show ?case by (simp add: write_sectors_append)
qed

lemma read_blocks:
  assumes "\<And>j. j < k \<Longrightarrow> rd_bytes m (A + of_nat (256 * j)) 256 = img_block img j" "length img = 256 * k"
  shows "rd_bytes m A (256 * k) = img"
proof -
  have "j \<le> k \<Longrightarrow> rd_bytes m A (256 * j) = take (256 * j) img" for j
  proof (induction j)
    case (Suc j)
    have "rd_bytes m A (256 * Suc j) = rd_bytes m A (256 * j) @ rd_bytes m (A + of_nat (256 * j)) 256"
      using rd_bytes_append [of m A "256 * j" 256] by (simp add: add.commute)
    also have "\<dots> = take (256 * j) img @ take 256 (drop (256 * j) img)" using Suc assms(1) [of j] by (simp add: img_block_def)
    also have "\<dots> = take (256 * Suc j) img" using take_add [of "256 * j" 256 img] by (simp add: add.commute)
    finally show ?case .
  qed simp
  then show ?thesis using assms(2) by simp
qed

text \<open>Blocks below the application, as a dump of the whole region has them: they must match what is there and change nothing.\<close>

definition file_base :: "flash \<Rightarrow> nat \<Rightarrow> u32" where
  "file_base m0 p = CODE_REGION_1_START m0 - of_nat (256 * p)"

definition sd_sector :: "flash \<Rightarrow> u32 \<Rightarrow> nat \<Rightarrow> nat \<Rightarrow> nat \<Rightarrow> bytes" where
  "sd_sector m0 fam p k j =
     uf2_sector fam (file_base m0 p + of_nat (256 * j)) (of_nat j) (of_nat (p + k)) (rd_bytes m0 (file_base m0 p + of_nat (256 * j)) 256)"

definition sent_sd :: "build \<Rightarrow> u32 \<Rightarrow> flash \<Rightarrow> nat \<Rightarrow> nat \<Rightarrow> nat \<Rightarrow> write_state \<Rightarrow> nvm \<Rightarrow> bool" where
  "sent_sd b ram m0 p k j w n \<longleftrightarrow> uf2_inv b ram m0 w n [] \<and> \<not> aborted w \<and> (numBlocks w = 0 \<or> numBlocks w = of_nat (p + k)) \<and>
     (updateKind w = 0 \<or> updateKind w = 1) \<and> mask_bits (writtenMask w) = {..<j} \<and>
     mask_bits (targetMask w) = {unat (CODE_REGION_1_START m0) div 256 - p..<unat (CODE_REGION_1_START m0) div 256 - p + j} \<and>
     appMaximumWrittenEnd w = 0 \<and> nv_mem n = m0"

lemma page_blocks:
  assumes "4096 dvd (a :: nat)" obtains q where "a = 256 * q"
proof -
  have "(256 :: nat) dvd a" by (rule dvd_trans [OF _ assms]) simp
  then show thesis using that by blast
qed

lemma sd_block_facts:
  assumes sd: "sendable b m0 fam p k img" "j < p" and bl: "bl = uf2_block_of_bytes (sd_sector m0 fam p k j)"
  shows "is_uf2_block bl" "block_kind b bl = Some 1" "bl_numBlocks bl = of_nat (p + k)" "unat (bl_numBlocks bl) = p + k" "p + k \<le> 3728"
    "unat (blockNo bl) = j" "unat (targetAddr bl) = unat (CODE_REGION_1_START m0) - 256 * (p - j)" "payloadSize bl = 256"
    "take 256 (bl_data bl) = rd_bytes m0 (targetAddr bl) 256" "targetAddr bl AND 255 = 0" "length (sd_sector m0 fam p k j) = 512"
    "unat (targetAddr bl) div 256 = unat (CODE_REGION_1_START m0) div 256 - p + j"
proof -
  let ?A = "CODE_REGION_1_START m0"
  have s: "unat ?A + 256 * k \<le> 0xEA000" "0x1000 + 256 * p \<le> unat ?A" "fam = board_id b \<or> fam = CFG_UF2_FAMILY_APP_ID (b_chip b)"
    and dv: "4096 dvd unat ?A" using sd(1) unfolding sendable_def uf2_window_def by blast+
  show pk: "p + k \<le> 3728" using s by simp
  note sb = uf2_sector_block [of "rd_bytes m0 (file_base m0 p + of_nat (256 * j)) 256" fam "file_base m0 p + of_nat (256 * j)" "of_nat j" "of_nat (p + k)", simplified]
  note ab = bl sd_sector_def sb
  have u: "unat (of_nat (256 * p) :: u32) = 256 * p" "unat (of_nat (256 * j) :: u32) = 256 * j" using pk sd(2) by (intro unat_of_nat_u32; simp)+
  have fb: "unat (file_base m0 p) = unat ?A - 256 * p"
    unfolding file_base_def using u(1) s(2) by (subst unat_sub_le) (simp_all only: word_le_nat_alt)
  then have ta: "unat (file_base m0 p + of_nat (256 * j)) = unat ?A - 256 * (p - j)"
    using u(2) s sd(2) unat_u32_lt [of ?A] by (subst unat_add_no_wrap) (simp_all add: diff_mult_distrib2)
  obtain q where q: "unat ?A = 256 * q" using dv by (rule page_blocks)
  then have pq: "p \<le> q" using s(2) by simp
  have ta': "unat (file_base m0 p + of_nat (256 * j)) = 256 * (q - p + j)" using ta q pq sd(2) by (simp add: diff_mult_distrib2)
  have al: "(file_base m0 p + of_nat (256 * j)) AND 255 = 0" unfolding aligned256_iff ta' by simp
  show "is_uf2_block bl" using al by (simp add: ab is_uf2_block_def UF2_FLAG_FAMILYID_def UF2_FLAG_NOFLASH_def)
  show "block_kind b bl = Some 1" using s(3) by (auto simp: ab block_kind_def uf2_kinds)
  show nb: "bl_numBlocks bl = of_nat (p + k)" by (simp add: ab)
  show "unat (bl_numBlocks bl) = p + k" unfolding nb using pk by (intro unat_of_nat_u32) simp
  show "unat (blockNo bl) = j" using pk sd(2) by (simp add: ab unat_of_nat_u32)
  show "unat (targetAddr bl) = unat ?A - 256 * (p - j)" using ta by (simp add: ab)
  show "payloadSize bl = 256" "take 256 (bl_data bl) = rd_bytes m0 (targetAddr bl) 256" by (simp_all add: ab UF2_FIRMWARE_BYTES_PER_SECTOR_def)
  show "targetAddr bl AND 255 = 0" using al by (simp add: ab)
  show "length (sd_sector m0 fam p k j) = 512" by (simp add: sd_sector_def uf2_sector_length)
  show "unat (targetAddr bl) div 256 = unat ?A div 256 - p + j" using ta' q by (simp add: ab)
qed

lemma sd_step:
  assumes sd: "sendable b m0 fam p k img" "j < p" and st: "sent_sd b ram m0 p k j w n"
    and lba: "\<not> uf2_current_lba_is_synthetic lba CURRENT_UF2_FIRST_LBA secs"
  shows "\<exists>w'. write_block b ram secs lba (sd_sector m0 fam p k j) (w, n) = Some (512, w', n) \<and> sent_sd b ram m0 p k (Suc j) w' n"
proof -
  let ?A = "CODE_REGION_1_START m0"
  define bl where "bl = uf2_block_of_bytes (sd_sector m0 fam p k j)"
  note f = sd_block_facts [OF sd bl_def]
  have c: "b_chip b = NRF52840" "uf2_window m0" "0 < k" "unat ?A + 256 * k \<le> 0xEA000" "0x1000 + 256 * p \<le> unat ?A" using sd(1) by (simp_all add: sendable_def)
  have d: "uf2_inv b ram m0 w n []" "\<not> aborted w" "numBlocks w = 0 \<or> numBlocks w = of_nat (p + k)" "updateKind w = 0 \<or> updateKind w = 1"
    "mask_bits (writtenMask w) = {..<j}" "mask_bits (targetMask w) = {unat ?A div 256 - p..<unat ?A div 256 - p + j}" "appMaximumWrittenEnd w = 0" "nv_mem n = m0"
    using st unfolding sent_sd_def by blast+
  let ?P = "prepared bl 1 w"
  have P: "uf2_wf ?P" "\<not> aborted ?P" using uf2_invD(1) [OF d(1)] d(2) by (simp_all add: prepared_def uf2_wf_def)
  have ta: "targetAddr bl < ?A" "targetAddr bl < 0xEA000" "0x1000 \<le> targetAddr bl"
    using f(7) sd(2) c(4,5) by (simp_all add: word_less_nat_alt word_le_nat_alt)
  have fresh: "unat (targetAddr bl) div 256 \<notin> mask_bits (targetMask ?P)" using d(6) f(12) by (simp add: prepared_def)
  have cl: "uf2_application_target_classify (targetAddr bl) 0x1000 ?A 0xEA000 = UF2_APPLICATION_TARGET_REQUIRE_MATCH"
    using ta by (simp add: uf2_application_target_classify_def)
  have "write_app_block b bl (?P, n) = Some (Stored, ?P, n)"
    unfolding write_app_block_accept [OF c(1) P f(10) ta(2) fresh] using cl f(8,9) d(8) by simp
  then have call: "write_block b ram secs lba (sd_sector m0 fam p k j) (w, n) = commit_block b ram 1 ?A bl (?P, n)"
    using fresh_call [OF d(1,2) c(1,2) bl_def f(1,2) _ _ _ _ d(4) lba] f(3,4,5,6) d(3,5) sd(2) by simp
  have lim: "unat (targetAddr bl) < 0x100000" using ta(2) by (simp add: word_less_nat_alt)
  obtain M where M: "uf2_transfer_target_commit (targetAddr bl) ?P = Some (?P\<lparr>targetMask := M\<rparr>)" "length M = 512"
    "mask_bits M = insert (unat (targetAddr bl) div 256) (mask_bits (targetMask ?P))"
    by (rule target_commit_eq [OF P(1) lim])
  let ?w1 = "?P\<lparr>targetMask := M\<rparr>"
  have w1: "uf2_wf ?w1" "unat (blockNo bl) < 4200" "unat (blockNo bl) \<notin> mask_bits (writtenMask ?w1)"
    using P(1) M(2) f(5,6) d(5) sd(2) by (simp_all add: uf2_wf_def prepared_def)
  obtain M' where M': "uf2_transfer_commit (blockNo bl) ?w1 = Some (?w1\<lparr>writtenMask := M', numWritten := numWritten ?w1 + 1\<rparr>)"
    "mask_bits M' = insert (unat (blockNo bl)) (mask_bits (writtenMask ?w1))" by (rule transfer_commit_eq [OF w1])
  let ?w2 = "?w1\<lparr>writtenMask := M', numWritten := numWritten ?w1 + 1\<rparr>"
  have "unat (numWritten w) = j" using uf2_invD(2) [OF d(1)] d(5) by (simp add: count_inv_def)
  then have "unat (numWritten w + 1) = Suc j" using sd(2) f(5) by (subst unat_add_no_wrap) simp_all
  then have more: "\<not> numWritten ?w2 \<ge> numBlocks ?w2" using f(4) sd(2) c(3) by (simp add: prepared_def word_le_nat_alt)
  have nle: "\<not> ?A \<le> targetAddr bl" using ta(1) by simp
  have r: "write_block b ram secs lba (sd_sector m0 fam p k j) (w, n) = Some (512, ?w2, n)"
    unfolding call commit_block_def using M(1) M'(1) more nle by (simp add: uf2_kinds Let_def del: not_le)
  have nlog: "uf2_log m0 bl w ?w2 [] = []" using ta(1) by (simp add: uf2_log_def not_le)
  have "uf2_inv b ram m0 ?w2 n []" using write_block_inv [OF d(1) c(1,2) f(11), of secs lba] r nlog by (simp add: bl_def)
  then have "sent_sd b ram m0 p k (Suc j) ?w2 n" unfolding sent_sd_def
    using d f(3,6,12) M(3) M'(2) by (auto simp: prepared_def)
  then show ?thesis using r by blast
qed

lemma sd_prefix:
  assumes sd: "sendable b m0 fam p k img" and lba: "\<forall>j<p + k. \<not> uf2_current_lba_is_synthetic (lba j) CURRENT_UF2_FIRST_LBA secs"
    and st: "sent_sd b ram m0 p k 0 w n"
  shows "j \<le> p \<Longrightarrow> \<exists>w'. write_sectors b ram secs (map (\<lambda>i. (lba i, sd_sector m0 fam p k i)) [0..<j]) (w, n) = Some (w', n) \<and> sent_sd b ram m0 p k j w' n"
proof (induction j)
  case 0
  then show ?case using st by simp
next
  case (Suc j)
  then obtain w' where w': "write_sectors b ram secs (map (\<lambda>i. (lba i, sd_sector m0 fam p k i)) [0..<j]) (w, n) = Some (w', n)" "sent_sd b ram m0 p k j w' n" by auto
  obtain w'' where w'': "write_block b ram secs (lba j) (sd_sector m0 fam p k j) (w', n) = Some (512, w'', n)" "sent_sd b ram m0 p k (Suc j) w'' n"
    using sd_step [OF sd _ w'(2), of "lba j" secs] lba Suc.prems by auto
  then have "write_retry 2 b ram secs (lba j) (sd_sector m0 fam p k j) (w', n) = Some (512, w'', n)" by (simp add: numeral_2_eq_2)
  then show ?case using w'(1) w''(2) by (simp add: write_sectors_append)
qed

text \<open>A whole file: \<open>p\<close> blocks below the application, then its \<open>k\<close> blocks.\<close>

definition file_sector :: "flash \<Rightarrow> u32 \<Rightarrow> nat \<Rightarrow> nat \<Rightarrow> bytes \<Rightarrow> nat \<Rightarrow> bytes" where
  "file_sector m0 fam p k img j = (if j < p then sd_sector m0 fam p k j else app_sector m0 fam p k img (j - p))"

lemma send_file:
  assumes sd: "sendable b m0 fam p k img" "img_vectors_ok ram (CODE_REGION_1_START m0) img"
    and lba: "\<forall>j<p + k. \<not> uf2_current_lba_is_synthetic (lba j) CURRENT_UF2_FIRST_LBA secs"
  shows "\<exists>w n. write_sectors b ram secs (map (\<lambda>i. (lba i, file_sector m0 fam p k img i)) [0..<p + k])
      (uf2_transfer_reset (b_chip b), \<lparr>nv_mem = m0, fl_addr = FLASH_CACHE_INVALID_ADDR, fl_buf = buf\<rparr>) = Some (w, n) \<and> sent b ram m0 p k img k w n"
proof -
  let ?n = "\<lparr>nv_mem = m0, fl_addr = FLASH_CACHE_INVALID_ADDR, fl_buf = buf\<rparr>" and ?A = "CODE_REGION_1_START m0"
  have c: "b_chip b = NRF52840" "0x1000 + 256 * p \<le> unat ?A" using sd(1) by (simp_all add: sendable_def)
  have "sent_sd b ram m0 p k 0 (uf2_transfer_reset (b_chip b)) ?n" unfolding sent_sd_def using uf2_inv_start [OF c(1), of ram m0 buf]
    by (simp add: c) (simp add: uf2_transfer_reset_def uf2_kinds layout_simps)
  from sd_prefix [OF sd(1) lba this order_refl] obtain w where
    w: "write_sectors b ram secs (map (\<lambda>i. (lba i, sd_sector m0 fam p k i)) [0..<p]) (uf2_transfer_reset (b_chip b), ?n) = Some (w, ?n)"
      "sent_sd b ram m0 p k p w ?n" by blast
  have "p \<le> unat ?A div 256" using c(2) by simp
  then have st: "sent b ram m0 p k img 0 w ?n" using w(2) unfolding sent_def sent_sd_def Let_def by auto
  have lba': "\<forall>j<k. \<not> uf2_current_lba_is_synthetic (lba (p + j)) CURRENT_UF2_FIRST_LBA secs" using lba by simp
  from send_prefix [OF sd lba' st order_refl] obtain w' n' where
    w': "write_sectors b ram secs (map (\<lambda>i. (lba (p + i), app_sector m0 fam p k img i)) [0..<k]) (w, ?n) = Some (w', n')" "sent b ram m0 p k img k w' n'" by blast
  have "map (\<lambda>i. (lba i, file_sector m0 fam p k img i)) [0..<p + k] =
      map (\<lambda>i. (lba i, sd_sector m0 fam p k i)) [0..<p] @ map (\<lambda>i. (lba (p + i), app_sector m0 fam p k img i)) [0..<k]"
    by (rule nth_equalityI) (auto simp: file_sector_def nth_append)
  then show ?thesis using w(1) w' by (simp add: write_sectors_append)
qed

lemma sent_all:
  assumes sd: "sendable b m0 fam p k img" and st: "sent b ram m0 p k img k w n"
  shows "appValidated w" "appStart w = CODE_REGION_1_START m0" "unat (appSize w) = length img"
    "rd_bytes (nv_mem n) (CODE_REGION_1_START m0) (length img) = img" "finalized ram m0 w (nv_mem n)"
proof -
  let ?A = "CODE_REGION_1_START m0"
  note d = sentD [OF st] note v = uf2_invD [OF d(1)]
  have c: "0 < k" "length img = 256 * k" "unat ?A + 256 * k \<le> 0xEA000" "0x1000 + 256 * p \<le> unat ?A" using sd by (simp_all add: sendable_def)
  have kk: "unat (of_nat (p + k) :: u32) = p + k" using c(3,4) by (intro unat_of_nat_u32) simp
  have z: "numBlocks w \<noteq> 0"
  proof
    assume "numBlocks w = 0"
    then have "mask_bits (writtenMask w) = {}" using v(2) by (auto simp: count_inv_def)
    moreover have "0 \<in> mask_bits (writtenMask w)" unfolding d(5) using c(1) by simp
    ultimately show False by simp
  qed
  have "unat (numWritten w) = p + k" using v(2) d(5) by (simp add: count_inv_def)
  then have "complete w" using z d(3) kk by (auto simp: complete_def word_le_nat_alt)
  then show val: "appValidated w" using v(12) d(2,4) by auto
  then show fin: "finalized ram m0 w (nv_mem n)" by (rule v(10))
  then show s: "appStart w = ?A" by (simp add: finalized_def)
  have "appSize w = appMaximumWrittenEnd w - ?A"
    using fin s by (auto simp: finalized_def uf2_application_finalize_def Let_def split: if_splits)
  then show "unat (appSize w) = length img" using d(7) c by (simp add: unat_sub_le word_le_nat_alt)
  have "rd_bytes (nv_mem n) (?A + of_nat (256 * j)) 256 = img_block img j" if "j < k" for j
    by (rule inv_log_read [OF d(1)]) (use that in auto)
  then have "rd_bytes (nv_mem n) ?A (256 * k) = img" by (intro read_blocks [OF _ c(2)])
  then show "rd_bytes (nv_mem n) ?A (length img) = img" using c(2) by simp
qed

text \<open>
  C11. A complete UF2 file installs its image.  The host writes the sectors of a file in order, to any addresses of the disk outside
  CURRENT.UF2, and repeats a sector while the answer is "busy".  The file has \<open>p\<close> blocks below the application that
  agree with the flash, possibly none, and then the blocks of an application image.  Every sector is taken after at most
  two repetitions, and after the last one the transfer is validated: the flash from the application start holds the image byte for
  byte, and the recorded start and size are those of the image.  The image must fill whole blocks, fit below the application
  limit, and have a plausible stack pointer and reset vector.
\<close>

theorem uf2_image_installs:
  assumes "sendable b m0 fam p k img" "img_vectors_ok ram (CODE_REGION_1_START m0) img"
    and "\<forall>j<p + k. \<not> uf2_current_lba_is_synthetic (lba j) CURRENT_UF2_FIRST_LBA secs"
  shows "\<exists>w n. write_sectors b ram secs (map (\<lambda>i. (lba i, file_sector m0 fam p k img i)) [0..<p + k])
      (uf2_transfer_reset (b_chip b), \<lparr>nv_mem = m0, fl_addr = FLASH_CACHE_INVALID_ADDR, fl_buf = buf\<rparr>) = Some (w, n) \<and>
    appValidated w \<and> \<not> aborted w \<and> appStart w = CODE_REGION_1_START m0 \<and> unat (appSize w) = length img \<and>
    rd_bytes (nv_mem n) (CODE_REGION_1_START m0) (length img) = img"
proof -
  obtain w n where r: "write_sectors b ram secs (map (\<lambda>i. (lba i, file_sector m0 fam p k img i)) [0..<p + k])
      (uf2_transfer_reset (b_chip b), \<lparr>nv_mem = m0, fl_addr = FLASH_CACHE_INVALID_ADDR, fl_buf = buf\<rparr>) = Some (w, n)" "sent b ram m0 p k img k w n"
    using send_file [OF assms] by blast
  then show ?thesis using sent_all [OF assms(1) r(2)] sentD(2) [OF r(2)] by blast
qed

section \<open>A sample session\<close>

lemma write_retry_run:
  assumes "uf2_run b ram m0 w n log" "length dat = 512" "write_retry t b ram secs lba dat (w, n) = Some (r, w', n')"
  shows "\<exists>log'. uf2_run b ram m0 w' n' log'"
  using assms
proof (induction t arbitrary: w n log)
  case 0
  then show ?case using uf2_run.sector by (metis write_retry.simps(1))
next
  case (Suc t)
  obtain r1 w1 n1 where 1: "write_block b ram secs lba dat (w, n) = Some (r1, w1, n1)" using Suc.prems(3) by (auto split: option.splits)
  have run: "\<exists>log1. uf2_run b ram m0 w1 n1 log1" using uf2_run.sector [OF Suc.prems(1,2) 1] by blast
  show ?case
  proof (cases "r1 = 0")
    case True
    then show ?thesis using run Suc.IH Suc.prems 1 by auto
  next
    case False
    then show ?thesis using run Suc.prems 1 by simp
  qed
qed

lemma write_sectors_run:
  assumes "uf2_run b ram m0 w n log" "\<forall>(lba, dat) \<in> set xs. length dat = 512" "write_sectors b ram secs xs (w, n) = Some (w', n')"
  shows "\<exists>log'. uf2_run b ram m0 w' n' log'"
  using assms
proof (induction xs arbitrary: w n log)
  case (Cons x xs)
  obtain lba dat where x: "x = (lba, dat)" by fastforce
  from Cons.prems(3) obtain w1 n1 where "write_retry 2 b ram secs lba dat (w, n) = Some (512, w1, n1)" "write_sectors b ram secs xs (w1, n1) = Some (w', n')"
    by (auto simp: x split: option.splits if_splits)
  moreover have "length dat = 512" using Cons.prems(2) x by simp
  moreover from write_retry_run [OF Cons.prems(1) this] calculation(1) obtain log1 where "uf2_run b ram m0 w1 n1 log1" by blast
  ultimately show ?case using Cons.IH Cons.prems(2) by auto
qed auto

text \<open>A device with a SoftDevice of \<open>0x26000\<close> bytes and no application, and a file of one block.\<close>

definition uf2_sample_flash :: flash where
  "uf2_sample_flash = (\<lambda>_. 0xFF)(0x3004 := 0xDB, 0x3005 := 0xE5, 0x3006 := 0xB1, 0x3007 := 0x51,
     0x3008 := 0, 0x3009 := 0x60, 0x300A := 2, 0x300B := 0)"

definition uf2_sample_image :: bytes where
  "uf2_sample_image = wr_u32 0x20001000 @ wr_u32 0x26009 @ replicate 248 0"

lemma uf2_sample_base: "CODE_REGION_1_START uf2_sample_flash = 0x26000"
  by (simp add: CODE_REGION_1_START_def is_sd_existed_def SD_SIZE_GET_def rd_word_def rd_bytes_def rd_u32_def uf2_sample_flash_def
      layout_simps upt_conv_Cons)

lemma uf2_sample_window: "uf2_window uf2_sample_flash"
  by (simp add: uf2_window_def uf2_sample_base)

lemma uf2_sample_sendable: "sendable internal_build uf2_sample_flash 0xADA52840 0 1 uf2_sample_image"
  by (simp add: sendable_def uf2_sample_window uf2_sample_base uf2_sample_image_def internal_build_def)

lemma uf2_sample_vectors: "img_vectors_ok 256 0x26000 uf2_sample_image"
  by (simp add: img_vectors_ok_def uf2_sample_image_def)

lemma uf2_sample_lba: "\<forall>j<0 + (1::nat). \<not> uf2_current_lba_is_synthetic 0 CURRENT_UF2_FIRST_LBA 0"
  by (simp add: uf2_current_lba_is_synthetic_def)

theorem uf2_image_installs_witness:
  "\<exists>w n. write_sectors internal_build 256 0 [(0, file_sector uf2_sample_flash 0xADA52840 0 1 uf2_sample_image 0)]
      (uf2_transfer_reset NRF52840, \<lparr>nv_mem = uf2_sample_flash, fl_addr = FLASH_CACHE_INVALID_ADDR, fl_buf = []\<rparr>) = Some (w, n) \<and>
    appValidated w \<and> unat (appSize w) = 256 \<and> rd_bytes (nv_mem n) 0x26000 256 = uf2_sample_image"
  using uf2_image_installs [OF uf2_sample_sendable uf2_sample_vectors [folded uf2_sample_base] uf2_sample_lba, of "[]"]
  by (auto simp: uf2_sample_base internal_build_def uf2_sample_image_def)

lemma uf2_sample_run:
  obtains w n log where "uf2_run internal_build 256 uf2_sample_flash w n log" "nv_mem n \<noteq> uf2_sample_flash" "updateKind w \<noteq> 2" "appValidated w"
proof -
  let ?xs = "map (\<lambda>i. (0 :: u32, file_sector uf2_sample_flash 0xADA52840 0 1 uf2_sample_image i)) [0..<0 + 1]"
  let ?st = "(uf2_transfer_reset (b_chip internal_build), \<lparr>nv_mem = uf2_sample_flash, fl_addr = FLASH_CACHE_INVALID_ADDR, fl_buf = []\<rparr>)"
  obtain w n where r: "write_sectors internal_build 256 0 ?xs ?st = Some (w, n)" "sent internal_build 256 uf2_sample_flash 0 1 uf2_sample_image 1 w n"
    using send_file [OF uf2_sample_sendable uf2_sample_vectors [folded uf2_sample_base] uf2_sample_lba] by blast
  note a = sent_all [OF uf2_sample_sendable r(2)]
  have len: "\<forall>(lba, dat) \<in> set ?xs. length dat = 512" using app_block_facts(1) [OF uf2_sample_sendable, of 0] by (simp add: file_sector_def)
  obtain log where "uf2_run internal_build 256 uf2_sample_flash w n log" using write_sectors_run [OF uf2_run.start len r(1)] by blast
  moreover have "nv_mem n \<noteq> uf2_sample_flash"
  proof
    assume "nv_mem n = uf2_sample_flash"
    moreover have "nv_mem n 0x26000 = uf2_sample_image ! 0"
      using arg_cong [OF a(4), of "\<lambda>xs. xs ! 0"] by (simp add: uf2_sample_base uf2_sample_image_def)
    ultimately show False by (simp add: uf2_sample_flash_def uf2_sample_image_def wr_u32_def)
  qed
  moreover have "updateKind w \<noteq> 2" using sentD(4) [OF r(2)] by auto
  ultimately show thesis using that a(1) by blast
qed

theorem uf2_write_in_bounds_witness:
  "\<exists>w n log r w' n'. uf2_run internal_build 256 uf2_sample_flash w n log \<and> appValidated w \<and>
     write_block internal_build 256 0 7 (replicate 512 0) (w, n) = Some (r, w', n') \<and> unat (numWritten w') \<le> unat (numBlocks w')"
proof -
  obtain w n log where r: "uf2_run internal_build 256 uf2_sample_flash w n log" "appValidated w" by (rule uf2_sample_run)
  have l: "length (replicate 512 (0 :: u8)) = 512" "b_chip internal_build = NRF52840" by (simp_all add: internal_build_def)
  show ?thesis using uf2_write_in_bounds [OF r(1) l(2) uf2_sample_window l(1), of 0 7] r by blast
qed


end
