(* ===== verification/Uf2_Session.thy ===== *)
theory Uf2_Session
  imports Uf2_Install
begin

text \<open>
  The mass-storage session around the UF2 volume (\<open>src/src/usb/msc_uf2.c\<close>): completion of a validated application after an idle
  interval, an eject or a disconnect, the activation of a staged bootloader, and the boundaries between sessions.  TinyUSB, which
  calls the handlers, is the environment; times are readings of the 24-bit RTC counter passed to the handlers.  LED patterns,
  debug output and watchdog feeding are not modelled.
\<close>

section \<open>State\<close>

record msc_session =
  wr_state :: write_state
  first_write :: bool
  app_completion_pending :: bool
  app_completion_after_eject :: bool
  app_msc_command_active :: bool
  exit_after_eject :: bool
  app_completion_last_activity :: u32
  app_completion_timer :: "u32 option"   \<comment> \<open>ticks the single-shot timer was started with\<close>
  ms_nvm :: nvm
  ms_ctl :: boot_ctl                     \<comment> \<open>flash is that of \<open>ms_nvm\<close>\<close>

text \<open>\<open>APP_TIMER_TICKS(1000)\<close> at 32768 Hz, and \<open>APP_TIMER_MIN_TIMEOUT_TICKS\<close>.\<close>

definition UF2_APP_COMPLETION_IDLE_MS :: nat where "UF2_APP_COMPLETION_IDLE_MS = 1000"

definition UF2_APP_COMPLETION_IDLE_TICKS :: u32 where
  "UF2_APP_COMPLETION_IDLE_TICKS = of_nat ((UF2_APP_COMPLETION_IDLE_MS * 32768 + 500) div 1000)"

definition APP_TIMER_MIN_TIMEOUT_TICKS :: u32 where "APP_TIMER_MIN_TIMEOUT_TICKS = 5"

definition app_timer_cnt_diff_compute :: "u32 \<Rightarrow> u32 \<Rightarrow> u32" where
  "app_timer_cnt_diff_compute ticks_to ticks_from = (ticks_to - ticks_from) AND 0x00FFFFFF"

text \<open>A report to the boot control: it works on the same flash.\<close>

definition update_process ::
    "build \<Rightarrow> (bool \<Rightarrow> nrf_error) \<Rightarrow> dfu_update_status \<Rightarrow> msc_session \<Rightarrow> nrf_error + msc_session" where
  "update_process b tc u s =
     (case bootloader_dfu_update_process b tc u (ms_ctl s\<lparr>bc_flash := nv_mem (ms_nvm s)\<rparr>) of
        Inl e \<Rightarrow> Inl e
      | Inr c \<Rightarrow> Inr (s\<lparr>ms_ctl := c, ms_nvm := (ms_nvm s)\<lparr>nv_mem := bc_flash c\<rparr>\<rparr>))"

definition status_report :: "dfu_status_code \<Rightarrow> dfu_update_status" where
  "status_report code = \<lparr>us_code = code, us_app_crc = 0, us_sd_size = 0, us_bl_size = 0, us_app_size = 0, us_sd_image_start = 0,
     us_restart_into_bootloader = False\<rparr>"

section \<open>Completing an application\<close>

lemma crc_chunk_bound:
  assumes "offset < (sz :: u32)" "chunk = (if sz - offset > PAGE then PAGE else sz - offset)"
  shows "0 < unat chunk" "unat (offset + chunk) = unat offset + unat chunk" "unat offset + unat chunk \<le> unat sz"
proof -
  have d: "unat (sz - offset) = unat sz - unat offset" using assms(1) by (simp add: unat_sub_le word_less_nat_alt word_le_nat_alt)
  have c: "unat chunk \<le> unat (sz - offset)" "0 < unat chunk"
    using assms d by (auto simp: word_less_nat_alt word_le_nat_alt split: if_splits)
  show "0 < unat chunk" by (rule c(2))
  show le: "unat offset + unat chunk \<le> unat sz" using c(1) d assms(1) by (simp add: word_less_nat_alt)
  then show "unat (offset + chunk) = unat offset + unat chunk" using unat_u32_lt [of sz] by (intro unat_add_no_wrap) simp
qed

text \<open>The CRC of the image, page by page.\<close>

function app_crc_loop :: "flash \<Rightarrow> u32 \<Rightarrow> u32 \<Rightarrow> u32 \<Rightarrow> u16 \<Rightarrow> u16" where
  "app_crc_loop m start sz offset app_crc =
     (if offset < sz
      then let remaining = sz - offset; chunk = (if remaining > PAGE then PAGE else remaining)
           in app_crc_loop m start sz (offset + chunk)
                (crc16_compute (rd_bytes m (start + offset) (unat chunk)) (if offset = 0 then None else Some app_crc))
      else app_crc)"
  by pat_completeness auto

termination
  by (relation "measure (\<lambda>(m, start, sz, offset, app_crc). unat sz - unat offset)") (simp, use crc_chunk_bound in fastforce)

declare app_crc_loop.simps [simp del]

definition complete_app_update :: "build \<Rightarrow> (bool \<Rightarrow> nrf_error) \<Rightarrow> msc_session \<Rightarrow> nrf_error + msc_session" where
  "complete_app_update b tc s =
     (let w = wr_state s
      in if \<not> appValidated w \<or> appSize w = 0 then Inr (s\<lparr>wr_state := w\<lparr>aborted := True\<rparr>\<rparr>)
         else let app_crc = app_crc_loop (nv_mem (ms_nvm s)) (appStart w) (appSize w) 0 0
              in update_process b tc ((status_report DFU_UPDATE_APP_COMPLETE)\<lparr>us_app_crc := app_crc, us_app_size := appSize w\<rparr>) s)"

definition take_pending_app_completion :: "msc_session \<Rightarrow> bool \<times> msc_session" where
  "take_pending_app_completion s =
     (app_completion_pending s \<and> \<not> aborted (wr_state s), s\<lparr>app_completion_pending := False, app_completion_after_eject := False\<rparr>)"

definition complete_if_pending :: "build \<Rightarrow> (bool \<Rightarrow> nrf_error) \<Rightarrow> msc_session \<Rightarrow> nrf_error + msc_session" where
  "complete_if_pending b tc s =
     (let (can_complete, s) = take_pending_app_completion s
      in if can_complete then complete_app_update b tc s else Inr s)"

definition app_completion_timer_handler :: "build \<Rightarrow> (bool \<Rightarrow> nrf_error) \<Rightarrow> u32 \<Rightarrow> msc_session \<Rightarrow> nrf_error + msc_session" where
  "app_completion_timer_handler b tc now s =
     (if \<not> app_completion_pending s then Inr s
      else if app_msc_command_active s
      then Inr (s\<lparr>app_completion_last_activity := now, app_completion_timer := Some UF2_APP_COMPLETION_IDLE_TICKS\<rparr>)
      else let idle_ticks = app_timer_cnt_diff_compute now (app_completion_last_activity s)
           in if idle_ticks + APP_TIMER_MIN_TIMEOUT_TICKS < UF2_APP_COMPLETION_IDLE_TICKS
              then Inr (s\<lparr>app_completion_timer := Some (UF2_APP_COMPLETION_IDLE_TICKS - idle_ticks)\<rparr>)
              else complete_if_pending b tc s)"

definition defer_app_completion :: "u32 \<Rightarrow> msc_session \<Rightarrow> msc_session" where
  "defer_app_completion now s =
     (let s = s\<lparr>app_completion_last_activity := now\<rparr>
      in if app_completion_pending s then s
         else s\<lparr>app_completion_pending := True, app_completion_timer := Some UF2_APP_COMPLETION_IDLE_TICKS\<rparr>)"

section \<open>Boundaries of a session\<close>

text \<open>\<open>_exit_after_eject\<close> exists in the builds with \<open>UF2_EXIT_ON_EJECT\<close> only; elsewhere it is never set.\<close>

definition uf2_write_session_reset :: "build \<Rightarrow> msc_session \<Rightarrow> msc_session" where
  "uf2_write_session_reset b s =
     (let s = (if updateKind (wr_state s) = UF2_UPDATE_KIND_BOOTLOADER then s\<lparr>ms_nvm := flash_nrf5x_discard (ms_nvm s)\<rparr> else s)
      in s\<lparr>wr_state := uf2_transfer_reset (b_chip b), first_write := True, app_completion_pending := False,
           app_completion_after_eject := False, app_msc_command_active := False, exit_after_eject := False\<rparr>)"

definition uf2_write_session_init :: "build \<Rightarrow> msc_session \<Rightarrow> msc_session" where
  "uf2_write_session_init b s = uf2_write_session_reset b (s\<lparr>app_completion_timer := None\<rparr>)"

definition uf2_write_session_close :: "build \<Rightarrow> (bool \<Rightarrow> nrf_error) \<Rightarrow> msc_session \<Rightarrow> nrf_error + msc_session" where
  "uf2_write_session_close b tc s =
     (case complete_if_pending b tc s of Inl e \<Rightarrow> Inl e | Inr s \<Rightarrow> Inr (uf2_write_session_reset b s))"

definition tud_mount_cb :: "build \<Rightarrow> msc_session \<Rightarrow> msc_session" where
  "tud_mount_cb b s = (let s = uf2_write_session_reset b s in s\<lparr>ms_ctl := bootloader_mark_usb_mounted (ms_ctl s)\<rparr>)"

definition tud_umount_cb :: "build \<Rightarrow> (bool \<Rightarrow> nrf_error) \<Rightarrow> msc_session \<Rightarrow> nrf_error + msc_session" where
  "tud_umount_cb b tc s = uf2_write_session_close b tc s"

section \<open>Commands\<close>

definition finish_msc_command :: "u32 \<Rightarrow> msc_session \<Rightarrow> msc_session" where
  "finish_msc_command now s =
     (let s = s\<lparr>app_msc_command_active := False, app_completion_after_eject := False, exit_after_eject := False\<rparr>
      in if app_completion_pending s then s\<lparr>app_completion_last_activity := now\<rparr> else s)"

definition tud_msc_command_begin_cb :: "u32 \<Rightarrow> msc_session \<Rightarrow> msc_session" where
  "tud_msc_command_begin_cb now s =
     (let s = s\<lparr>app_msc_command_active := True\<rparr>
      in if app_completion_pending s then s\<lparr>app_completion_last_activity := now\<rparr> else s)"

definition tud_msc_command_complete_cb :: "u32 \<Rightarrow> msc_session \<Rightarrow> msc_session" where
  "tud_msc_command_complete_cb now s = finish_msc_command now s"

definition tud_msc_reset_cb :: "u32 \<Rightarrow> msc_session \<Rightarrow> msc_session" where
  "tud_msc_reset_cb now s = finish_msc_command now s"

definition SCSI_CMD_START_STOP_UNIT :: u8 where "SCSI_CMD_START_STOP_UNIT = 0x1B"
definition SCSI_CMD_PREVENT_ALLOW_MEDIUM_REMOVAL :: u8 where "SCSI_CMD_PREVENT_ALLOW_MEDIUM_REMOVAL = 0x1E"

definition tud_msc_scsi_cb :: "u8 \<Rightarrow> int" where
  "tud_msc_scsi_cb cmd =
     (if cmd = SCSI_CMD_PREVENT_ALLOW_MEDIUM_REMOVAL then 0 else if cmd = 0x35 then 0 else -1)"

definition tud_msc_capacity_cb :: "u32 \<times> u16" where
  "tud_msc_capacity_cb = (CFG_UF2_NUM_BLOCKS, 512)"

text \<open>
  The sectors of one WRITE10 chunk, each of 512 bytes.  The answer is the number of bytes taken, or -1; \<open>None\<close> is an access
  outside a bit mask.
\<close>

fun write10_loop :: "build \<Rightarrow> u32 \<Rightarrow> u32 \<Rightarrow> u32 \<Rightarrow> bytes list \<Rightarrow> int \<Rightarrow> msc_session \<Rightarrow> (int \<times> msc_session) option" where
  "write10_loop b ram secs lba [] count s = Some (count, s)"
| "write10_loop b ram secs lba (dat # buffer) count s =
     (case write_block b ram secs lba dat (wr_state s, ms_nvm s) of
        None \<Rightarrow> None
      | Some (written, w, n) \<Rightarrow>
          let s = s\<lparr>wr_state := w, ms_nvm := n\<rparr>
          in if aborted w then Some (-1, s)
             else if written > 0
             then write10_loop b ram secs (lba + 1) buffer (count + 512) (s\<lparr>ms_ctl := bootloader_dfu_activity_mark (ms_ctl s)\<rparr>)
             else if written = 0 then Some (count, s)
             else write10_loop b ram secs (lba + 1) buffer (count + 512) s)"

definition tud_msc_write10_cb :: "build \<Rightarrow> u32 \<Rightarrow> u32 \<Rightarrow> u32 \<Rightarrow> u32 \<Rightarrow> bytes list \<Rightarrow> msc_session \<Rightarrow> (int \<times> msc_session) option" where
  "tud_msc_write10_cb b ram secs lba offset buffer s =
     (if offset \<noteq> 0 then Some (-1, s) else write10_loop b ram secs lba buffer 0 s)"

text \<open>How a handler ends: the loop goes on, the MBR took over with its copy command, an error check traps, or an overrun.\<close>

datatype msc_result = Running msc_session | Copy_BL u32 u32 msc_session | Trapped nrf_error | Overrun

definition running :: "nrf_error + msc_session \<Rightarrow> msc_result" where
  "running r = (case r of Inl e \<Rightarrow> Trapped e | Inr s \<Rightarrow> Running s)"

text \<open>\<open>mbr_returns\<close> says that the MBR refused the copy; on success the call does not return.\<close>

definition tud_msc_write10_complete_cb :: "build \<Rightarrow> (bool \<Rightarrow> nrf_error) \<Rightarrow> bool \<Rightarrow> u32 \<Rightarrow> msc_session \<Rightarrow> msc_result" where
  "tud_msc_write10_complete_cb b tc mbr_returns now s =
     (let w = wr_state s; c = b_chip b
      in if aborted w
         then running (update_process b tc (status_report DFU_RESET) (s\<lparr>app_completion_pending := False, app_completion_after_eject := False\<rparr>))
         else if numBlocks w = 0 then Running s
         else let s = s\<lparr>first_write := False\<rparr>
         in if numWritten w < numBlocks w then Running s
         else if updateKind w = UF2_UPDATE_KIND_BOOTLOADER
         then let m = nv_mem (ms_nvm s); new_bootloader = BOOTLOADER_ADDR_NEW_RECEIVED c; sz = DFU_BL_IMAGE_MAX_SIZE c
              in if rd_bytes m new_bootloader (unat sz) \<noteq> rd_bytes m (BOOTLOADER_ADDR_START c) (unat sz) \<and> \<not> mbr_returns
                 then Copy_BL new_bootloader (sz div 4) s
                 else running (update_process b tc (status_report DFU_RESET) s)
         else Running (defer_app_completion now s))"

definition tud_msc_scsi_complete_cb :: "build \<Rightarrow> (bool \<Rightarrow> nrf_error) \<Rightarrow> u8 \<Rightarrow> msc_session \<Rightarrow> nrf_error + msc_session" where
  "tud_msc_scsi_complete_cb b tc cmd s =
     (if cmd = 0x35 then Inr s
      else case (if app_completion_after_eject s \<and> cmd = SCSI_CMD_START_STOP_UNIT then complete_if_pending b tc s else Inr s) of
             Inl e \<Rightarrow> Inl e
           | Inr s \<Rightarrow>
               if exit_after_eject s \<and> cmd = SCSI_CMD_START_STOP_UNIT
               then update_process b tc (status_report DFU_RESET) (uf2_write_session_reset b s)
               else Inr s)"

definition tud_msc_start_stop_cb :: "build \<Rightarrow> bool \<Rightarrow> bool \<Rightarrow> bool \<Rightarrow> msc_session \<Rightarrow> msc_session" where
  "tud_msc_start_stop_cb b exit_on_eject start load_eject s =
     (if load_eject \<and> \<not> start
      then if app_completion_pending s then s\<lparr>app_completion_after_eject := True\<rparr>
           else if exit_on_eject then s\<lparr>exit_after_eject := True\<rparr>
           else uf2_write_session_reset b s
      else s)"

section \<open>Events\<close>

datatype msc_event =
    Write10 u32 u32 "bytes list" | Write10_Complete bool u32 | Timer u32 | Command_Begin u32 | Command_Complete u32
  | Bus_Reset u32 | Scsi_Complete u8 | Start_Stop bool bool | Mount | Unmount

fun msc_step :: "build \<Rightarrow> (bool \<Rightarrow> nrf_error) \<Rightarrow> u32 \<Rightarrow> u32 \<Rightarrow> bool \<Rightarrow> msc_event \<Rightarrow> msc_session \<Rightarrow> msc_result" where
  "msc_step b tc ram secs xe (Write10 lba offset buffer) s =
     (case tud_msc_write10_cb b ram secs lba offset buffer s of None \<Rightarrow> Overrun | Some (_, s) \<Rightarrow> Running s)"
| "msc_step b tc ram secs xe (Write10_Complete mbr now) s = tud_msc_write10_complete_cb b tc mbr now s"
| "msc_step b tc ram secs xe (Timer now) s = running (app_completion_timer_handler b tc now (s\<lparr>app_completion_timer := None\<rparr>))"
| "msc_step b tc ram secs xe (Command_Begin now) s = Running (tud_msc_command_begin_cb now s)"
| "msc_step b tc ram secs xe (Command_Complete now) s = Running (tud_msc_command_complete_cb now s)"
| "msc_step b tc ram secs xe (Bus_Reset now) s = Running (tud_msc_reset_cb now s)"
| "msc_step b tc ram secs xe (Scsi_Complete cmd) s = running (tud_msc_scsi_complete_cb b tc cmd s)"
| "msc_step b tc ram secs xe (Start_Stop start load_eject) s = Running (tud_msc_start_stop_cb b xe start load_eject s)"
| "msc_step b tc ram secs xe Mount s = Running (tud_mount_cb b s)"
| "msc_step b tc ram secs xe Unmount s = running (tud_umount_cb b tc s)"

section \<open>The checksum loop\<close>

lemma crc16_append: "crc16_compute (xs @ ys) None = crc16_compute ys (Some (crc16_compute xs None))"
  by (simp add: crc16_compute_def)

lemma app_crc_loop_prefix:
  assumes "unat offset \<le> unat sz" "0 < unat sz" "0 < unat offset \<Longrightarrow> crc = crc16_compute (rd_bytes m start (unat offset)) None"
  shows "app_crc_loop m start sz offset crc = crc16_compute (rd_bytes m start (unat sz)) None"
  using assms
proof (induction m start sz offset crc rule: app_crc_loop.induct)
  case (1 m start sz offset crc)
  show ?case
  proof (cases "offset < sz")
    case False
    moreover have "offset \<le> sz" using "1.prems"(1) by (simp add: word_le_nat_alt)
    ultimately have "offset = sz" by order
    then show ?thesis using "1.prems"(2,3) by (subst app_crc_loop.simps) simp
  next
    case True
    define chunk where "chunk = (if sz - offset > PAGE then PAGE else sz - offset)"
    note c = crc_chunk_bound [OF True chunk_def]
    let ?crc = "crc16_compute (rd_bytes m (start + offset) (unat chunk)) (if offset = 0 then None else Some crc)"
    have "?crc = crc16_compute (rd_bytes m start (unat (offset + chunk))) None"
    proof (cases "offset = 0")
      case False
      then have "crc = crc16_compute (rd_bytes m start (unat offset)) None" using "1.prems"(3) by (simp add: unat_gt_0)
      then show ?thesis using False rd_bytes_append [of m start "unat offset" "unat chunk"] by (simp add: c(2) crc16_append)
    qed simp
    then show ?thesis
      using "1.IH" [OF True refl chunk_def] c True "1.prems"(2) by (subst app_crc_loop.simps) (simp add: chunk_def [symmetric] Let_def)
  qed
qed

lemma app_crc_loop_eq: "sz \<noteq> 0 \<Longrightarrow> app_crc_loop m start sz 0 crc = crc16_compute (rd_bytes m start (unat sz)) None"
  by (rule app_crc_loop_prefix) (simp_all add: unat_gt_0)

section \<open>A complete transfer is frozen\<close>

lemma complete_bits:
  assumes "complete w" "count_inv w" shows "mask_bits (writtenMask w) = {..<unat (numBlocks w)}"
proof (rule card_subset_eq)
  show s: "mask_bits (writtenMask w) \<subseteq> {..<unat (numBlocks w)}" using assms(2) by (simp add: count_inv_def)
  have "card (mask_bits (writtenMask w)) \<le> unat (numBlocks w)" using card_mono [OF _ s] by simp
  then show "card (mask_bits (writtenMask w)) = card {..<unat (numBlocks w)}" using assms by (simp add: count_inv_def complete_def word_le_nat_alt)
qed simp

lemma write_block_frozen:
  assumes "complete w" "count_inv w" "uf2_wf w" "b_chip b = NRF52840" "updateKind w = 1 \<or> updateKind w = 2"
  shows "\<exists>r w'. write_block b ram secs lba dat (w, n) = Some (r, w', n) \<and> (w' = w \<or> w' = w\<lparr>aborted := True\<rparr>)"
proof (cases "aborted w \<or> uf2_current_lba_is_synthetic lba CURRENT_UF2_FIRST_LBA secs \<or> \<not> is_uf2_block (uf2_block_of_bytes dat) \<or>
    block_kind b (uf2_block_of_bytes dat) = None")
  case True
  then show ?thesis unfolding write_block_def Let_def prod.case by (cases "block_kind b (uf2_block_of_bytes dat)") auto
next
  case False
  define block where "block = uf2_block_of_bytes dat"
  obtain k where k: "block_kind b block = Some k" using False by (auto simp: block_def)
  have na: "\<not> aborted w" using False by simp
  have wb: "write_block b ram secs lba dat (w, n) = dispatch b ram k block (w, n)"
    unfolding block_def by (rule write_block_dispatch) (use False k in \<open>simp_all add: block_def\<close>)
  have nz: "numBlocks w \<noteq> 0" using assms(1) by (simp add: complete_def)
  show ?thesis unfolding wb dispatch_def prod.case
  proof (rule prepare_cases [OF assms(4,3) na, of block k], goal_cases)
    case (1 w')
    have "w' = w\<lparr>aborted := True\<rparr>" using 1(2) nz by (cases w) auto
    then show ?case using 1(1) by simp
  next
    case (2 r)
    have e: "numBlocks w = bl_numBlocks block" "updateKind w = k" using 2(3,4) nz assms(5) by auto
    then have "prepared block k w = w" by (simp add: prepared_def)
    moreover have "r = UF2_TRANSFER_DUPLICATE" using 2(2,7) e complete_bits [OF assms(1,2)] by simp
    ultimately show ?case using 2(1) by (simp add: uf2_transfer_validate_duplicate_def)
  qed
qed

section \<open>Invariant of the session\<close>

definition app_record :: "write_state \<Rightarrow> flash \<Rightarrow> bootloader_settings" where
  "app_record w m = bootloader_settings_seal (settings_zero\<lparr>bs_bank_0_crc := crc16_compute (rd_bytes m (appStart w) (unat (appSize w))) None,
     bs_bank_0_size := appSize w, bs_bank_0 := BANK_VALID_APP, bs_bank_1 := BANK_INVALID_APP\<rparr>)"

text \<open>After completion the settings page holds the record of the image, and the transfer is frozen.\<close>

definition sess_done :: "build \<Rightarrow> u32 \<Rightarrow> flash \<Rightarrow> write_state \<Rightarrow> nvm \<Rightarrow> bool" where
  "sess_done b ram m0 w n \<longleftrightarrow> appValidated w \<and> complete w \<and> count_inv w \<and> uf2_wf w \<and> updateKind w = 1 \<and> fl_addr n = FLASH_CACHE_INVALID_ADDR \<and>
     finalized ram m0 w (nv_mem n) \<and> bootloader_util_settings_get b (nv_mem n) = app_record w (nv_mem n) \<and>
     (\<forall>x. \<not> (unat (CODE_REGION_1_START m0) \<le> unat x \<and> unat x < 0xEA000) \<and> \<not> in_page 0xFF000 x \<longrightarrow> nv_mem n x = m0 x)"

definition sess_inv :: "build \<Rightarrow> u32 \<Rightarrow> flash \<Rightarrow> msc_session \<Rightarrow> bool" where
  "sess_inv b ram m0 s \<longleftrightarrow> \<not> bc_is_ota (ms_ctl s) \<and>
     ((\<exists>log. uf2_inv b ram m0 (wr_state s) (ms_nvm s) log) \<or> sess_done b ram m0 (wr_state s) (ms_nvm s))"

lemma sess_invE:
  assumes "sess_inv b ram m0 s"
  obtains (live) log where "\<not> bc_is_ota (ms_ctl s)" "uf2_inv b ram m0 (wr_state s) (ms_nvm s) log"
    | (done_) "\<not> bc_is_ota (ms_ctl s)" "sess_done b ram m0 (wr_state s) (ms_nvm s)"
  using assms unfolding sess_inv_def by blast

lemma sess_invI:
  "\<not> bc_is_ota (ms_ctl s) \<Longrightarrow> uf2_inv b ram m0 (wr_state s) (ms_nvm s) log \<Longrightarrow> sess_inv b ram m0 s"
  "\<not> bc_is_ota (ms_ctl s) \<Longrightarrow> sess_done b ram m0 (wr_state s) (ms_nvm s) \<Longrightarrow> sess_inv b ram m0 s"
  unfolding sess_inv_def by blast+

lemma sess_inv_cong:
  assumes "sess_inv b ram m0 s" "wr_state s' = wr_state s" "ms_nvm s' = ms_nvm s" "bc_is_ota (ms_ctl s') = bc_is_ota (ms_ctl s)"
  shows "sess_inv b ram m0 s'"
  using assms by (simp add: sess_inv_def)

lemma sess_done_abort: "sess_done b ram m0 w n \<Longrightarrow> sess_done b ram m0 (w\<lparr>aborted := True\<rparr>) n"
  by (simp add: sess_done_def app_record_def)

lemma sess_inv_abort:
  assumes "sess_inv b ram m0 s" shows "sess_inv b ram m0 (s\<lparr>wr_state := (wr_state s)\<lparr>aborted := True\<rparr>\<rparr>)"
  using assms
proof (cases rule: sess_invE)
  case (live log)
  then show ?thesis using uf2_inv_abort [OF live(2)] by (intro sess_invI(1)) simp_all
next
  case done_
  then show ?thesis using sess_done_abort [OF done_(2)] by (intro sess_invI(2)) simp_all
qed

lemma sess_write_block:
  assumes inv: "sess_inv b ram m0 s" and c: "b_chip b = NRF52840" "uf2_window m0" and l: "length dat = 512"
  shows "\<exists>r w n. write_block b ram secs lba dat (wr_state s, ms_nvm s) = Some (r, w, n) \<and> sess_inv b ram m0 (s\<lparr>wr_state := w, ms_nvm := n\<rparr>)"
  using inv
proof (cases rule: sess_invE)
  case (live log)
  obtain r w n where "write_block b ram secs lba dat (wr_state s, ms_nvm s) = Some (r, w, n)"
    "uf2_inv b ram m0 w n (uf2_log m0 (uf2_block_of_bytes dat) (wr_state s) w log)"
    using write_block_inv [OF live(2) c l, of secs lba] by blast
  then show ?thesis using live(1) by (auto intro!: sess_invI(1))
next
  case done_
  then obtain r w where "write_block b ram secs lba dat (wr_state s, ms_nvm s) = Some (r, w, ms_nvm s)"
    "w = wr_state s \<or> w = (wr_state s)\<lparr>aborted := True\<rparr>"
    using write_block_frozen [of "wr_state s" b ram secs lba dat "ms_nvm s"] c(1) by (auto simp: sess_done_def)
  then show ?thesis using inv sess_inv_abort [OF inv] by auto
qed

lemma sess_write10:
  assumes "sess_inv b ram m0 s" "b_chip b = NRF52840" "uf2_window m0" "\<forall>dat \<in> set buffer. length dat = 512"
  shows "\<exists>r s'. write10_loop b ram secs lba buffer count s = Some (r, s') \<and> sess_inv b ram m0 s'"
  using assms
proof (induction buffer arbitrary: lba count s)
  case (Cons dat buffer)
  obtain r w n where r: "write_block b ram secs lba dat (wr_state s, ms_nvm s) = Some (r, w, n)" "sess_inv b ram m0 (s\<lparr>wr_state := w, ms_nvm := n\<rparr>)"
    using sess_write_block [OF Cons.prems(1-3)] Cons.prems(4) by fastforce
  have a: "sess_inv b ram m0 (s\<lparr>wr_state := w, ms_nvm := n, ms_ctl := bootloader_dfu_activity_mark (ms_ctl s)\<rparr>)"
    by (rule sess_inv_cong [OF r(2)]) (simp_all add: bootloader_dfu_activity_mark_def)
  show ?case using Cons.IH [OF a] Cons.IH [OF r(2)] Cons.prems(2-4) r by (simp add: Let_def)
qed simp

section \<open>Completion\<close>

lemma finalizedD:
  assumes "finalized ram m0 w m" "uf2_window m0"
  shows "appStart w = CODE_REGION_1_START m0" "unat (appStart w) + unat (appSize w) \<le> 0xEA000" "8 \<le> unat (appSize w)"
    "unat (appMaximumWrittenEnd w) = unat (appStart w) + unat (appSize w)"
    "rd_word m (appStart w) \<ge> 0x20000000" "rd_word m (appStart w) \<le> 0x20000000 + push_bit 10 ram" "rd_word m (appStart w) AND 7 = 0"
    "rd_word m (appStart w + 4) AND 1 \<noteq> 0" "appStart w \<le> rd_word m (appStart w + 4) AND NOT 1"
    "unat (rd_word m (appStart w + 4) AND NOT 1) < unat (appStart w) + unat (appSize w)"
proof -
  have f: "uf2_application_finalize (targetMask w) (appStart w) 0xEA000 (appMaximumWrittenEnd w) (rd_word m (appStart w))
       (rd_word m (appStart w + 4)) (0x20000000 + push_bit 10 ram) = Some (appSize w)" and st: "appStart w = CODE_REGION_1_START m0"
    using assms(1) unfolding finalized_def by blast+
  note g = f [unfolded uf2_application_finalize_def Let_def]
  have sz: "appSize w = appMaximumWrittenEnd w - appStart w" "appMaximumWrittenEnd w \<le> 0xEA000" "appStart w < appMaximumWrittenEnd w" "8 \<le> appSize w"
    and v: "rd_word m (appStart w) \<ge> 0x20000000" "rd_word m (appStart w) \<le> 0x20000000 + push_bit 10 ram" "rd_word m (appStart w) AND 7 = 0"
    "rd_word m (appStart w + 4) AND 1 \<noteq> 0" "appStart w \<le> rd_word m (appStart w + 4) AND NOT 1"
    "rd_word m (appStart w + 4) AND NOT 1 < appMaximumWrittenEnd w"
    using g by (auto split: if_splits)
  show "appStart w = CODE_REGION_1_START m0" by (rule st)
  show e: "unat (appMaximumWrittenEnd w) = unat (appStart w) + unat (appSize w)"
    using sz(1,3) by (simp add: unat_sub_le word_le_nat_alt word_less_nat_alt)
  show "unat (appStart w) + unat (appSize w) \<le> 0xEA000" "8 \<le> unat (appSize w)" using e sz(2,4) by (simp_all add: word_le_nat_alt)
  show "unat (rd_word m (appStart w + 4) AND NOT 1) < unat (appStart w) + unat (appSize w)" using v(6) e by (simp add: word_less_nat_alt)
  show "rd_word m (appStart w) \<ge> 0x20000000" "rd_word m (appStart w) \<le> 0x20000000 + push_bit 10 ram" "rd_word m (appStart w) AND 7 = 0"
    "rd_word m (appStart w + 4) AND 1 \<noteq> 0" "appStart w \<le> rd_word m (appStart w + 4) AND NOT 1" by (rule v)+
qed

lemma rd_bytes_below:
  assumes "\<And>x. unat x < e \<Longrightarrow> m' x = m x" "unat a + k \<le> e" "e \<le> 0xFF000" shows "rd_bytes m' a k = rd_bytes m a k"
proof (rule rd_bytes_cong)
  fix i assume "i < k"
  then have "unat (a + of_nat i) = unat a + i" using assms(2,3) by (subst unat_add_no_wrap) (simp_all add: unat_of_nat_u32)
  then show "m' (a + of_nat i) = m (a + of_nat i)" using assms(2) \<open>i < k\<close> by (intro assms(1)) simp
qed

lemma finalized_cong:
  assumes "finalized ram m0 w m" "uf2_window m0" "\<And>x. unat x < 0xEA000 \<Longrightarrow> m' x = m x"
  shows "finalized ram m0 w m'" "app_record w m' = app_record w m"
proof -
  note d = finalizedD [OF assms(1,2)]
  have eq: "rd_bytes m' a k = rd_bytes m a k" if "unat a + k \<le> 0xEA000" for a k
    using rd_bytes_below [OF assms(3) that] by simp
  have "unat (appStart w + 4) = unat (appStart w) + 4" using d(2) by (subst unat_add_no_wrap) simp_all
  then have "rd_bytes m' (appStart w) 4 = rd_bytes m (appStart w) 4" "rd_bytes m' (appStart w + 4) 4 = rd_bytes m (appStart w + 4) 4"
    "rd_bytes m' (appStart w) (unat (appSize w)) = rd_bytes m (appStart w) (unat (appSize w))"
    using d(2,3) by (simp_all add: eq)
  then show "finalized ram m0 w m'" "app_record w m' = app_record w m"
    using assms(1) by (auto simp: finalized_def app_record_def rd_word_def)
qed

lemma app_record_fields [simp]:
  "bs_bank_0 (app_record w m) = BANK_VALID_APP" "bs_bank_0_size (app_record w m) = appSize w"
  "bs_bank_0_crc (app_record w m) = crc16_compute (rd_bytes m (appStart w) (unat (appSize w))) None"
  "bootloader_settings_integrity_valid (app_record w m)" "\<not> bootloader_settings_is_legacy (app_record w m)"
  by (simp_all add: app_record_def seal_integrity seal_not_legacy)

lemma done_app_valid:
  assumes f: "finalized ram m0 w m" "uf2_window m0" "CODE_REGION_1_START m = CODE_REGION_1_START m0" "b_chip b = NRF52840"
    and r: "bootloader_util_settings_get b m = app_record w m"
  shows "bootloader_app_is_valid b m ram"
proof -
  note d = finalizedD [OF f(1,2)]
  have A: "CODE_REGION_1_START m = appStart w" using d(1) f(3) by simp
  have sp: "rd_word m (appStart w) \<noteq> UINT32_MAX" using d(7) by auto
  have rs: "rd_word m (appStart w + 4) \<noteq> UINT32_MAX" using d(2,10) by auto
  have lt: "rd_word m (appStart w + 4) AND NOT 1 < 0xF4000" "appSize w \<le> 0xF4000 - appStart w" "appStart w \<le> 0xF4000"
    using d(2,10) by (simp_all add: word_less_nat_alt word_le_nat_alt unat_sub_le)
  have e: "unat (appStart w + appSize w) = unat (appStart w) + unat (appSize w)" using d(2) by (intro unat_add_no_wrap) simp
  have cov: "rd_word m (appStart w + 4) AND NOT 1 < appStart w + appSize w" using d(10) e by (simp add: word_less_nat_alt)
  have nz: "appSize w \<noteq> 0" using d(3) by auto
  have v: "app_vector_valid b m ram"
    unfolding app_vector_valid_def Let_def A using d(5-9) sp rs lt(1) f(4) by (simp add: layout_simps)
  show ?thesis
    unfolding bootloader_app_is_valid_def Let_def A r using v nz cov lt(2) f(4) by (simp add: layout_simps not_le not_less)
qed

text \<open>Saving the settings changes the settings page only.\<close>

lemma save_frame:
  assumes "b_chip b = NRF52840" "\<not> in_page 0xFF000 x" shows "exec_cmds (settings_save_cmds b t) m x = m x"
proof -
  have "settings_save_cmds b t = take 9 (settings_save_cmds b t)" by (simp add: settings_save_cmds_def Let_def)
  then show ?thesis using save_cmds_frame [of b x 9 t m] assms by (simp add: layout_simps)
qed

lemma not_settings: "unat x < 0xFF000 \<Longrightarrow> \<not> in_page 0xFF000 x"
  by (simp add: settings_page_out)

lemma base_cong:
  assumes "uf2_window m0" "\<forall>x. \<not> (unat (CODE_REGION_1_START m0) \<le> unat x \<and> unat x < 0xEA000) \<and> \<not> in_page 0xFF000 x \<longrightarrow> m x = m0 x"
  shows "CODE_REGION_1_START m = CODE_REGION_1_START m0"
proof (rule CODE_REGION_1_START_cong)
  fix a :: u32 assume "0x3000 \<le> a" "a < 0x3010"
  then have "\<not> (unat (CODE_REGION_1_START m0) \<le> unat a \<and> unat a < 0xEA000)" "\<not> in_page 0xFF000 a"
    using assms(1) by (simp_all add: uf2_window_def settings_page_out word_le_nat_alt word_less_nat_alt)
  then show "m a = m0 a" using assms(2) by blast
qed

lemma complete_app_update_done:
  assumes inv: "sess_inv b ram m0 s" "appValidated (wr_state s)" and c: "b_chip b = NRF52840" "uf2_window m0"
  obtains s' where "complete_app_update b tc s = Inr s'" "wr_state s' = wr_state s" "sess_done b ram m0 (wr_state s') (ms_nvm s')" "\<not> bc_is_ota (ms_ctl s')"
    "m_update_status (ms_ctl s') = BOOTLOADER_COMPLETE" "\<forall>x. \<not> in_page 0xFF000 x \<longrightarrow> nv_mem (ms_nvm s') x = nv_mem (ms_nvm s) x"
proof -
  let ?w = "wr_state s" and ?m = "nv_mem (ms_nvm s)"
  have no: "\<not> bc_is_ota (ms_ctl s)" using inv(1) by (simp add: sess_inv_def)
  have w: "complete ?w" "count_inv ?w" "uf2_wf ?w" "updateKind ?w = 1" "fl_addr (ms_nvm s) = FLASH_CACHE_INVALID_ADDR" "finalized ram m0 ?w ?m"
    "\<forall>x. \<not> (unat (CODE_REGION_1_START m0) \<le> unat x \<and> unat x < 0xEA000) \<and> \<not> in_page 0xFF000 x \<longrightarrow> ?m x = m0 x"
  proof -
    have "complete ?w \<and> count_inv ?w \<and> uf2_wf ?w \<and> updateKind ?w = 1 \<and> fl_addr (ms_nvm s) = FLASH_CACHE_INVALID_ADDR \<and> finalized ram m0 ?w ?m \<and>
      (\<forall>x. \<not> (unat (CODE_REGION_1_START m0) \<le> unat x \<and> unat x < 0xEA000) \<and> \<not> in_page 0xFF000 x \<longrightarrow> ?m x = m0 x)"
      using inv(1)
    proof (cases rule: sess_invE)
      case (live log)
      note v = uf2_invD [OF live(2)]
      have k: "updateKind ?w = 1" using v(5) inv(2) by blast
      then have "app_inv m0 ?w ?m log" using v(7) by simp
      then have "\<forall>x. \<not> (unat (CODE_REGION_1_START m0) \<le> unat x \<and> unat x < 0xEA000) \<and> \<not> in_page 0xFF000 x \<longrightarrow> ?m x = m0 x"
        unfolding app_inv_def Let_def by blast
      then show ?thesis using v(1,2,8,9,10) inv(2) k by simp
    qed (simp add: sess_done_def)
    then show "complete ?w" "count_inv ?w" "uf2_wf ?w" "updateKind ?w = 1" "fl_addr (ms_nvm s) = FLASH_CACHE_INVALID_ADDR" "finalized ram m0 ?w ?m"
    "\<forall>x. \<not> (unat (CODE_REGION_1_START m0) \<le> unat x \<and> unat x < 0xEA000) \<and> \<not> in_page 0xFF000 x \<longrightarrow> ?m x = m0 x" by blast+
  qed
  have nz: "appSize ?w \<noteq> 0" using finalizedD(3) [OF w(6) c(2)] by auto
  define m' where "m' = exec_cmds (settings_save_cmds b (app_record ?w ?m)) ?m"
  have fr: "m' x = ?m x" if "\<not> in_page 0xFF000 x" for x using save_frame [OF c(1) that] by (simp add: m'_def)
  have low: "m' x = ?m x" if "unat x < 0xEA000" for x using that by (intro fr not_settings) simp
  note f = finalized_cong [OF w(6) c(2) low]
  have set: "bootloader_util_settings_get b m' = app_record ?w m'" using full_save(1) [of b "app_record ?w ?m" ?m] f(2) by (simp add: m'_def)
  have rec: "bootloader_settings_seal (settings_zero\<lparr>bs_bank_0_crc := crc16_compute (rd_bytes ?m (appStart ?w) (unat (appSize ?w))) None,
      bs_bank_0_size := appSize ?w, bs_bank_0 := BANK_VALID_APP, bs_bank_1 := BANK_INVALID_APP\<rparr>) = app_record ?w ?m"
    by (simp add: app_record_def)
  obtain c' where c': "bootloader_dfu_update_process b tc ((status_report DFU_UPDATE_APP_COMPLETE)
      \<lparr>us_app_crc := crc16_compute (rd_bytes ?m (appStart ?w) (unat (appSize ?w))) None, us_app_size := appSize ?w\<rparr>) (ms_ctl s\<lparr>bc_flash := ?m\<rparr>) = Inr c'"
    "bc_flash c' = m'" "\<not> bc_is_ota c'" "m_update_status c' = BOOTLOADER_COMPLETE"
    using no by (simp add: status_report_def bootloader_settings_save_def Let_def pstorage_callback_handler_def m'_def rec)
  let ?s = "s\<lparr>ms_ctl := c', ms_nvm := (ms_nvm s)\<lparr>nv_mem := m'\<rparr>\<rparr>"
  have "complete_app_update b tc s = Inr ?s"
    using inv(2) nz c' by (simp add: complete_app_update_def Let_def update_process_def app_crc_loop_eq)
  moreover have "sess_done b ram m0 (wr_state ?s) (ms_nvm ?s)"
    unfolding sess_done_def using inv(2) w f set fr by simp
  ultimately show thesis using that [of ?s] c'(3,4) fr by simp
qed

end
