(* ===== verification/Uf2_Complete.thy ===== *)
theory Uf2_Complete
  imports Uf2_Session
begin

text \<open>
  Results on the mass-storage session: every event keeps its invariant, an application becomes startable only through a complete
  validated transfer, the MBR is only given a validated bootloader, and a file that is copied and left alone boots.
\<close>

section \<open>Every event keeps the invariant\<close>

definition event_ok :: "msc_event \<Rightarrow> bool" where
  "event_ok e \<longleftrightarrow> (case e of Write10 lba offset buffer \<Rightarrow> list_all (\<lambda>dat. length dat = 512) buffer | _ \<Rightarrow> True)"

text \<open>The flash at the last boundary of a session.\<close>

definition epoch :: "build \<Rightarrow> flash \<Rightarrow> msc_session \<Rightarrow> flash" where
  "epoch b m0 s = (if wr_state s = uf2_transfer_reset (b_chip b) then nv_mem (ms_nvm s) else m0)"

lemma reset_state [simp]:
  "\<not> appValidated (uf2_transfer_reset c)" "\<not> appSettingsInvalidated (uf2_transfer_reset c)" "updateKind (uf2_transfer_reset c) = 0"
  by (simp_all add: uf2_transfer_reset_def uf2_kinds)

lemma sess_fresh:
  assumes "b_chip b = NRF52840" "wr_state s = uf2_transfer_reset (b_chip b)" "fl_addr (ms_nvm s) = FLASH_CACHE_INVALID_ADDR" "\<not> bc_is_ota (ms_ctl s)"
  shows "sess_inv b ram (nv_mem (ms_nvm s)) s"
proof (rule sess_invI(1) [OF assms(4)])
  have "ms_nvm s = \<lparr>nv_mem = nv_mem (ms_nvm s), fl_addr = FLASH_CACHE_INVALID_ADDR, fl_buf = fl_buf (ms_nvm s)\<rparr>" using assms(3) by simp
  then show "uf2_inv b ram (nv_mem (ms_nvm s)) (wr_state s) (ms_nvm s) []"
    using uf2_inv_start [OF assms(1), of ram "nv_mem (ms_nvm s)" "fl_buf (ms_nvm s)"] assms(2) by simp
qed

lemma sess_base:
  assumes "sess_inv b ram m0 s" "uf2_window m0" shows "CODE_REGION_1_START (nv_mem (ms_nvm s)) = CODE_REGION_1_START m0"
  using assms(1)
proof (cases rule: sess_invE)
  case (live log)
  show ?thesis by (rule uf2_inv_base [OF live(2) assms(2)])
next
  case done_
  show ?thesis by (rule base_cong [OF assms(2)]) (use done_(2) in \<open>simp add: sess_done_def\<close>)
qed

lemma sess_epoch:
  assumes "sess_inv b ram m0 s" "uf2_window m0" "b_chip b = NRF52840"
  shows "sess_inv b ram (epoch b m0 s) s" "uf2_window (epoch b m0 s)" "epoch b m0 s = m0"
proof -
  show e: "epoch b m0 s = m0"
  proof (cases "wr_state s = uf2_transfer_reset (b_chip b)")
    case True
    have "nv_mem (ms_nvm s) = m0" using assms(1)
    proof (cases rule: sess_invE)
      case (live log)
      have "app_inv m0 (wr_state s) (nv_mem (ms_nvm s)) log" using uf2_invD(7) [OF live(2)] True by simp
      then show ?thesis using True by (simp add: app_inv_def Let_def)
    next
      case done_
      then show ?thesis using True by (simp add: sess_done_def)
    qed
    then show ?thesis using True by (simp add: epoch_def)
  qed (simp add: epoch_def)
  show "sess_inv b ram (epoch b m0 s) s" "uf2_window (epoch b m0 s)" using assms by (simp_all add: e)
qed

lemma window_cong: "CODE_REGION_1_START m = CODE_REGION_1_START m0 \<Longrightarrow> uf2_window m = uf2_window m0"
  by (simp add: uf2_window_def)

lemma session_reset_inv:
  assumes "sess_inv b ram m0 s" "uf2_window m0" "b_chip b = NRF52840"
  defines "s' \<equiv> uf2_write_session_reset b s"
  shows "nv_mem (ms_nvm s') = nv_mem (ms_nvm s)" "sess_inv b ram (nv_mem (ms_nvm s)) s'" "uf2_window (nv_mem (ms_nvm s))"
    "wr_state s' = uf2_transfer_reset (b_chip b)"
proof -
  show m: "nv_mem (ms_nvm s') = nv_mem (ms_nvm s)" and w: "wr_state s' = uf2_transfer_reset (b_chip b)"
    by (simp_all add: s'_def uf2_write_session_reset_def Let_def flash_nrf5x_discard_def)
  have "fl_addr (ms_nvm s) = FLASH_CACHE_INVALID_ADDR" if "updateKind (wr_state s) \<noteq> 2"
    using assms(1)
  proof (cases rule: sess_invE)
    case (live log)
    show ?thesis by (rule uf2_invD(8) [OF live(2) that])
  qed (simp add: sess_done_def)
  then have "fl_addr (ms_nvm s') = FLASH_CACHE_INVALID_ADDR"
    by (simp add: s'_def uf2_write_session_reset_def Let_def flash_nrf5x_discard_def uf2_kinds)
  moreover have "\<not> bc_is_ota (ms_ctl s')" using assms(1) by (simp add: s'_def uf2_write_session_reset_def Let_def sess_inv_def)
  ultimately show "sess_inv b ram (nv_mem (ms_nvm s)) s'" using sess_fresh [OF assms(3) w] m by simp
  show "uf2_window (nv_mem (ms_nvm s))" using window_cong [OF sess_base [OF assms(1,2)]] assms(2) by simp
qed

lemma reset_report:
  "update_process b tc (status_report DFU_RESET) s =
     Inr (s\<lparr>ms_ctl := (ms_ctl s)\<lparr>bc_flash := nv_mem (ms_nvm s), m_update_status := BOOTLOADER_SYS_RESET\<rparr>\<rparr>)"
  by (simp add: update_process_def status_report_def)

lemma complete_if_pending_inv:
  assumes "sess_inv b ram m0 s" "uf2_window m0" "b_chip b = NRF52840"
  obtains s' where "complete_if_pending b tc s = Inr s'" "sess_inv b ram m0 s'"
proof -
  let ?s = "s\<lparr>app_completion_pending := False, app_completion_after_eject := False\<rparr>"
  have i: "sess_inv b ram m0 ?s" by (rule sess_inv_cong [OF assms(1)]) simp_all
  show thesis
  proof (cases "app_completion_pending s \<and> \<not> aborted (wr_state s)")
    case False
    then have "complete_if_pending b tc s = Inr ?s" by (auto simp: complete_if_pending_def take_pending_app_completion_def Let_def)
    then show thesis using that i by blast
  next
    case True
    then have e: "complete_if_pending b tc s = complete_app_update b tc ?s"
      by (simp add: complete_if_pending_def take_pending_app_completion_def Let_def)
    show thesis
    proof (cases "appValidated (wr_state s)")
      case False
      then show thesis using that sess_inv_abort [OF i] by (simp add: e complete_app_update_def Let_def)
    next
      case val: True
      then have v: "appValidated (wr_state ?s)" by simp
      show thesis
        by (rule complete_app_update_done [OF i v assms(3,2), of tc]) (use that sess_invI(2) in \<open>auto simp: e\<close>)
    qed
  qed
qed

text \<open>What the MBR is asked to copy.\<close>

definition copy_bl_ok :: "build \<Rightarrow> flash \<Rightarrow> u32 \<Rightarrow> u32 \<Rightarrow> msc_session \<Rightarrow> bool" where
  "copy_bl_ok b m0 src len s \<longleftrightarrow> (let m = nv_mem (ms_nvm s)
     in src = 0xE0000 \<and> 4 * unat len = 0xA000 \<and> has_uicr (wr_state s) \<and>
        dfu_image_policy_validate b m (rd_bytes m 0xE0000 0xA000)
          \<lparr>dfu_update_mode = DFU_UPDATE_BL, sd_image_size = 0, bl_image_size = 0xA000, app_image_size = 0\<rparr> = NRF_SUCCESS \<and>
        (\<forall>x. \<not> staging_byte x \<longrightarrow> m x = m0 x))"

definition step_ok :: "build \<Rightarrow> u32 \<Rightarrow> flash \<Rightarrow> msc_result \<Rightarrow> bool" where
  "step_ok b ram m0 r = (case r of
       Running s' \<Rightarrow> sess_inv b ram (epoch b m0 s') s' \<and> uf2_window (epoch b m0 s')
     | Copy_BL src len s' \<Rightarrow> copy_bl_ok b m0 src len s'
     | Trapped e \<Rightarrow> False
     | Overrun \<Rightarrow> False)"

lemma step_ok_same:
  assumes "sess_inv b ram m0 s" "uf2_window m0" "b_chip b = NRF52840" "wr_state s' = wr_state s" "ms_nvm s' = ms_nvm s"
    "bc_is_ota (ms_ctl s') = bc_is_ota (ms_ctl s)"
  shows "step_ok b ram m0 (Running s')"
  using sess_epoch [OF sess_inv_cong [OF assms(1,4,5,6)] assms(2,3)] by (simp add: step_ok_def)

lemma step_ok_inv: "sess_inv b ram m0 s' \<Longrightarrow> uf2_window m0 \<Longrightarrow> b_chip b = NRF52840 \<Longrightarrow> step_ok b ram m0 (Running s')"
  by (rule step_ok_same) simp_all

lemma step_ok_boundary:
  assumes "sess_inv b ram m0 s" "uf2_window m0" "b_chip b = NRF52840"
    and "wr_state s' = wr_state (uf2_write_session_reset b s)" "ms_nvm s' = ms_nvm (uf2_write_session_reset b s)"
    "bc_is_ota (ms_ctl s') = bc_is_ota (ms_ctl (uf2_write_session_reset b s))"
  shows "step_ok b ram m0 (Running s')"
proof -
  note r = session_reset_inv [OF assms(1-3)]
  have e: "epoch b m0 s' = nv_mem (ms_nvm s)" using r(1,4) assms(4,5) by (simp add: epoch_def)
  have "sess_inv b ram (nv_mem (ms_nvm s)) s'" by (rule sess_inv_cong [OF r(2) assms(4-6)])
  then show ?thesis using r(3) e by (simp add: step_ok_def)
qed

lemma write10_complete_ok:
  assumes i: "sess_inv b ram m0 s" and w: "uf2_window m0" "b_chip b = NRF52840"
  shows "step_ok b ram m0 (tud_msc_write10_complete_cb b tc mbr now s)"
proof -
  let ?w = "wr_state s" and ?s = "s\<lparr>first_write := False\<rparr>"
  consider (abort) "aborted ?w" | (idle) "\<not> aborted ?w" "\<not> complete ?w"
    | (boot) "\<not> aborted ?w" "complete ?w" "updateKind ?w = 2" | (app) "\<not> aborted ?w" "complete ?w" "updateKind ?w \<noteq> 2" by blast
  then show ?thesis
  proof cases
    case abort
    then show ?thesis by (simp add: tud_msc_write10_complete_cb_def Let_def reset_report running_def step_ok_same [OF i w])
  next
    case idle
    then show ?thesis
      by (auto simp: tud_msc_write10_complete_cb_def Let_def complete_def not_le intro: step_ok_same [OF i w])
  next
    case app
    then have "tud_msc_write10_complete_cb b tc mbr now s = Running (defer_app_completion now ?s)"
      by (auto simp: tud_msc_write10_complete_cb_def Let_def complete_def uf2_kinds)
    then show ?thesis by (auto simp: defer_app_completion_def Let_def intro: step_ok_same [OF i w])
  next
    case boot
    have u: "\<exists>log. uf2_inv b ram m0 ?w (ms_nvm s) log" using i boot(3) by (auto simp: sess_inv_def sess_done_def)
    then obtain log where u: "uf2_inv b ram m0 ?w (ms_nvm s) log" by blast
    have sv: "staged_valid b ?w (ms_nvm s)" by (rule uf2_invD(11) [OF u boot(2,1,3)])
    have fr: "boot_inv m0 (ms_nvm s)" by (rule uf2_invD(6) [OF u boot(3)])
    have c: "copy_bl_ok b m0 0xE0000 0x2800 ?s" using sv fr by (simp add: copy_bl_ok_def Let_def staged_valid_def boot_inv_def)
    have "tud_msc_write10_complete_cb b tc mbr now s = Copy_BL 0xE0000 0x2800 ?s \<or>
        tud_msc_write10_complete_cb b tc mbr now s = running (update_process b tc (status_report DFU_RESET) ?s)"
      using boot w(2) by (auto simp: tud_msc_write10_complete_cb_def Let_def complete_def uf2_kinds layout_simps)
    then show ?thesis
    proof
      assume "tud_msc_write10_complete_cb b tc mbr now s = Copy_BL 0xE0000 0x2800 ?s"
      then show ?thesis using c by (simp add: step_ok_def)
    next
      assume "tud_msc_write10_complete_cb b tc mbr now s = running (update_process b tc (status_report DFU_RESET) ?s)"
      then show ?thesis by (simp add: reset_report running_def step_ok_same [OF i w])
    qed
  qed
qed

lemma msc_step_ok:
  assumes i: "sess_inv b ram m0 s" and w: "uf2_window m0" "b_chip b = NRF52840" and e: "event_ok ev"
  shows "step_ok b ram m0 (msc_step b tc ram secs xe ev s)"
proof (cases ev)
  case (Write10 lba offset buffer)
  have "\<forall>dat \<in> set buffer. length dat = 512" using e Write10 by (simp add: event_ok_def list_all_iff)
  from sess_write10 [OF i w(2,1) this, of secs lba 0] show ?thesis
    using step_ok_inv [OF _ w] i by (auto simp: Write10 tud_msc_write10_cb_def)
next
  case (Write10_Complete mbr now)
  then show ?thesis using write10_complete_ok [OF i w] by simp
next
  case (Timer now)
  let ?s = "s\<lparr>app_completion_timer := None\<rparr>"
  have i': "sess_inv b ram m0 ?s" by (rule sess_inv_cong [OF i]) simp_all
  obtain s' where s': "complete_if_pending b tc ?s = Inr s'" "sess_inv b ram m0 s'" by (rule complete_if_pending_inv [OF i' w])
  have "app_completion_timer_handler b tc now ?s = Inr s' \<or> (\<exists>s2. app_completion_timer_handler b tc now ?s = Inr s2 \<and>
      wr_state s2 = wr_state s \<and> ms_nvm s2 = ms_nvm s \<and> bc_is_ota (ms_ctl s2) = bc_is_ota (ms_ctl s))"
    using s'(1) by (simp add: app_completion_timer_handler_def Let_def)
  then show ?thesis using step_ok_inv [OF s'(2) w] step_ok_same [OF i w] by (auto simp: Timer running_def)
next
  case (Scsi_Complete cmd)
  obtain s1 where s1: "complete_if_pending b tc s = Inr s1" "sess_inv b ram m0 s1" by (rule complete_if_pending_inv [OF i w])
  have ex: "step_ok b ram m0 (running (if exit_after_eject t \<and> cmd = SCSI_CMD_START_STOP_UNIT
      then update_process b tc (status_report DFU_RESET) (uf2_write_session_reset b t) else Inr t))" if t: "sess_inv b ram m0 t" for t
    using step_ok_inv [OF t w] step_ok_boundary [OF t w] by (simp add: reset_report running_def)
  show ?thesis
  proof (cases "cmd = 0x35")
    case True
    then show ?thesis using step_ok_inv [OF i w] by (simp add: Scsi_Complete tud_msc_scsi_complete_cb_def running_def)
  next
    case False
    then show ?thesis using ex [OF i] ex [OF s1(2)] s1(1) by (auto simp: Scsi_Complete tud_msc_scsi_complete_cb_def)
  qed
next
  case (Start_Stop start load_eject)
  then show ?thesis using step_ok_same [OF i w] step_ok_boundary [OF i w] by (simp add: tud_msc_start_stop_cb_def)
next
  case Mount
  then show ?thesis using step_ok_boundary [OF i w] by (simp add: tud_mount_cb_def Let_def bootloader_mark_usb_mounted_def)
next
  case Unmount
  obtain s1 where s1: "complete_if_pending b tc s = Inr s1" "sess_inv b ram m0 s1" by (rule complete_if_pending_inv [OF i w])
  then show ?thesis using step_ok_boundary [OF s1(2) w]
    by (simp add: Unmount tud_umount_cb_def uf2_write_session_close_def running_def)
qed (simp_all add: step_ok_same [OF i w] tud_msc_command_begin_cb_def tud_msc_command_complete_cb_def tud_msc_reset_cb_def finish_msc_command_def Let_def)

section \<open>Sessions\<close>

text \<open>Any sequence of events; \<open>m0\<close> is the flash at the last session boundary.\<close>

inductive msc_run :: "build \<Rightarrow> (bool \<Rightarrow> nrf_error) \<Rightarrow> u32 \<Rightarrow> u32 \<Rightarrow> bool \<Rightarrow> flash \<Rightarrow> msc_session \<Rightarrow> bool"
  for b :: build and tc :: "bool \<Rightarrow> nrf_error" and ram :: u32 and secs :: u32 and xe :: bool where
  start: "\<not> bc_is_ota (ms_ctl s) \<Longrightarrow> fl_addr (ms_nvm s) = FLASH_CACHE_INVALID_ADDR \<Longrightarrow> updateKind (wr_state s) = UF2_UPDATE_KIND_NONE \<Longrightarrow>
    uf2_window (nv_mem (ms_nvm s)) \<Longrightarrow> msc_run b tc ram secs xe (nv_mem (ms_nvm s)) (uf2_write_session_init b s)"
| event: "msc_run b tc ram secs xe m0 s \<Longrightarrow> event_ok ev \<Longrightarrow> msc_step b tc ram secs xe ev s = Running s' \<Longrightarrow>
    msc_run b tc ram secs xe (epoch b m0 s') s'"

lemma msc_run_inv:
  assumes "msc_run b tc ram secs xe m0 s" "b_chip b = NRF52840" shows "sess_inv b ram m0 s \<and> uf2_window m0"
  using assms
proof (induction rule: msc_run.induct)
  case (start s)
  let ?s = "uf2_write_session_init b s"
  have m: "ms_nvm ?s = ms_nvm s" "wr_state ?s = uf2_transfer_reset (b_chip b)" "ms_ctl ?s = ms_ctl s"
    using start by (simp_all add: uf2_write_session_init_def uf2_write_session_reset_def Let_def uf2_kinds)
  then show ?case using sess_fresh [OF start.prems m(2)] start by simp
next
  case (event m0 s ev s')
  then show ?case using msc_step_ok [of b ram m0 s ev tc secs xe] by (simp add: step_ok_def)
qed




section \<open>Copying a file\<close>

lemma idle_ticks_value [simp]: "UF2_APP_COMPLETION_IDLE_TICKS = 32768"
  by (simp add: UF2_APP_COMPLETION_IDLE_TICKS_def UF2_APP_COMPLETION_IDLE_MS_def)

lemma completion_events:
  assumes sd: "sendable b m0 fam p k img" and st: "sent b ram m0 p k img k (wr_state s) (ms_nvm s)"
    and s: "\<not> bc_is_ota (ms_ctl s)" "\<not> app_completion_pending s" and t: "32763 \<le> app_timer_cnt_diff_compute t1 t0"
  shows "\<exists>s1 s2 s3. msc_step b tc ram secs xe (Write10_Complete mbr t) s = Running s1 \<and>
    msc_step b tc ram secs xe (Command_Complete t0) s1 = Running s2 \<and> msc_step b tc ram secs xe (Timer t1) s2 = Running s3 \<and>
    m_update_status (ms_ctl s3) = BOOTLOADER_COMPLETE \<and> bootloader_app_is_valid b (nv_mem (ms_nvm s3)) ram \<and>
    rd_bytes (nv_mem (ms_nvm s3)) (CODE_REGION_1_START m0) (length img) = img \<and>
    wr_state s1 = wr_state s \<and> wr_state s2 = wr_state s \<and> wr_state s3 = wr_state s"
proof -
  let ?w = "wr_state s" and ?n = "ms_nvm s"
  have c: "b_chip b = NRF52840" "uf2_window m0" "unat (CODE_REGION_1_START m0) + length img \<le> 0xEA000" using sd by (simp_all add: sendable_def)
  note d = sentD [OF st] note a = sent_all [OF sd st] note v = uf2_invD [OF d(1)]
  have k: "updateKind ?w = 1" using v(5) a(1) by blast
  have cm: "complete ?w" by (rule v(9) [OF a(1)])
  let ?s1 = "defer_app_completion t (s\<lparr>first_write := False\<rparr>)"
  have 1: "msc_step b tc ram secs xe (Write10_Complete mbr t) s = Running ?s1"
    using d(2) cm k by (auto simp: tud_msc_write10_complete_cb_def Let_def complete_def uf2_kinds)
  let ?s2 = "finish_msc_command t0 ?s1"
  let ?s2' = "?s2\<lparr>app_completion_timer := None, app_completion_pending := False, app_completion_after_eject := False\<rparr>"
  have "app_timer_cnt_diff_compute t1 t0 \<le> 0x00FFFFFF" unfolding app_timer_cnt_diff_compute_def by (rule word_and_le1)
  then have "unat (app_timer_cnt_diff_compute t1 t0 + 5) = unat (app_timer_cnt_diff_compute t1 t0) + 5"
    by (subst unat_add_no_wrap) (simp_all add: word_le_nat_alt)
  then have idle: "\<not> app_timer_cnt_diff_compute t1 t0 + 5 < 32768" using t by (simp add: word_less_nat_alt word_le_nat_alt)
  have s2: "app_completion_pending ?s2" "\<not> app_msc_command_active ?s2" "app_completion_last_activity ?s2 = t0" "wr_state ?s2 = ?w" "ms_nvm ?s2 = ?n" "ms_ctl ?s2 = ms_ctl s"
    using s(2) by (simp_all add: defer_app_completion_def finish_msc_command_def Let_def)
  have 2: "msc_step b tc ram secs xe (Timer t1) ?s2 = running (complete_app_update b tc ?s2')"
    using s2 idle d(2)
    by (simp add: app_completion_timer_handler_def Let_def complete_if_pending_def take_pending_app_completion_def APP_TIMER_MIN_TIMEOUT_TICKS_def)
  have i: "sess_inv b ram m0 ?s2'" using s2 s(1) d(1) by (intro sess_invI(1)) simp_all
  have av: "appValidated (wr_state ?s2')" using s2(4) a(1) by simp
  obtain s3 where s3: "complete_app_update b tc ?s2' = Inr s3" "wr_state s3 = wr_state ?s2'" "sess_done b ram m0 (wr_state s3) (ms_nvm s3)"
    "\<not> bc_is_ota (ms_ctl s3)" "m_update_status (ms_ctl s3) = BOOTLOADER_COMPLETE" "\<forall>x. \<not> in_page 0xFF000 x \<longrightarrow> nv_mem (ms_nvm s3) x = nv_mem (ms_nvm ?s2') x"
    by (rule complete_app_update_done [OF i av c(1,2), of tc])
  have b3: "CODE_REGION_1_START (nv_mem (ms_nvm s3)) = CODE_REGION_1_START m0" by (rule sess_base [OF sess_invI(2) [OF s3(4,3)] c(2)])
  have f: "finalized ram m0 (wr_state s3) (nv_mem (ms_nvm s3))" "bootloader_util_settings_get b (nv_mem (ms_nvm s3)) = app_record (wr_state s3) (nv_mem (ms_nvm s3))"
    using s3(3) unfolding sess_done_def by blast+
  have ok: "bootloader_app_is_valid b (nv_mem (ms_nvm s3)) ram" by (rule done_app_valid [OF f(1) c(2) b3 c(1) f(2)])
  have "rd_bytes (nv_mem (ms_nvm s3)) (CODE_REGION_1_START m0) (length img) = rd_bytes (nv_mem ?n) (CODE_REGION_1_START m0) (length img)"
    using s3(6) s2(5) by (intro rd_bytes_below [OF _ c(3)]) (simp_all add: not_settings)
  moreover have "wr_state ?s1 = ?w" by (simp add: defer_app_completion_def Let_def)
  ultimately show ?thesis using 1 2 s3(1,2,5) ok a(4) s2(4) by (auto simp: running_def tud_msc_command_complete_cb_def)
qed


section \<open>A sample session\<close>

text \<open>Sectors written one by one are events of a session.\<close>

lemma write_block_event:
  assumes "msc_run b tc ram secs xe m0 s" "b_chip b = NRF52840" "length dat = 512"
    "write_block b ram secs lba dat (wr_state s, ms_nvm s) = Some (r, w, n)"
  shows "\<exists>s'. msc_run b tc ram secs xe m0 s' \<and> wr_state s' = w \<and> ms_nvm s' = n \<and> app_completion_pending s' = app_completion_pending s"
proof -
  have i: "sess_inv b ram m0 s" "uf2_window m0" using msc_run_inv [OF assms(1,2)] by simp_all
  have "\<exists>c s'. write10_loop b ram secs lba [dat] 0 s = Some (c, s') \<and> wr_state s' = w \<and> ms_nvm s' = n \<and> app_completion_pending s' = app_completion_pending s"
    using assms(4) by (cases "aborted w"; cases "0 < r"; cases "r = 0") (simp_all add: Let_def)
  then obtain c s' where s': "write10_loop b ram secs lba [dat] 0 s = Some (c, s')"
    "wr_state s' = w" "ms_nvm s' = n" "app_completion_pending s' = app_completion_pending s" by blast
  have st: "msc_step b tc ram secs xe (Write10 lba 0 [dat]) s = Running s'" using s'(1) by (simp add: tud_msc_write10_cb_def)
  have ok: "event_ok (Write10 lba 0 [dat])" using assms(3) by (simp add: event_ok_def)
  have "sess_inv b ram m0 s'" using sess_write10 [OF i(1) assms(2) i(2), of "[dat]" secs lba 0] s'(1) assms(3) by simp
  then have "epoch b m0 s' = m0" by (rule sess_epoch(3) [OF _ i(2) assms(2)])
  then have "msc_run b tc ram secs xe m0 s'" using msc_run.event [OF assms(1) ok st] by simp
  then show ?thesis using s' by blast
qed

lemma write_retry_event:
  assumes "msc_run b tc ram secs xe m0 s" "b_chip b = NRF52840" "length dat = 512"
    "write_retry t b ram secs lba dat (wr_state s, ms_nvm s) = Some (r, w, n)"
  shows "\<exists>s'. msc_run b tc ram secs xe m0 s' \<and> wr_state s' = w \<and> ms_nvm s' = n \<and> app_completion_pending s' = app_completion_pending s"
  using assms
proof (induction t arbitrary: s)
  case 0
  then show ?case using write_block_event by simp
next
  case (Suc t)
  obtain r1 w1 n1 where 1: "write_block b ram secs lba dat (wr_state s, ms_nvm s) = Some (r1, w1, n1)" using Suc.prems(4) by (auto split: option.splits)
  obtain s1 where s1: "msc_run b tc ram secs xe m0 s1" "wr_state s1 = w1" "ms_nvm s1 = n1" "app_completion_pending s1 = app_completion_pending s"
    using write_block_event [OF Suc.prems(1-3) 1] by blast
  show ?case
  proof (cases "r1 = 0")
    case True
    then show ?thesis using Suc.IH [OF s1(1)] Suc.prems 1 s1 by auto
  next
    case False
    then show ?thesis using s1 Suc.prems(4) 1 by auto
  qed
qed

lemma write_sectors_event:
  assumes "msc_run b tc ram secs xe m0 s" "b_chip b = NRF52840" "\<forall>(lba, dat) \<in> set xs. length dat = 512"
    "write_sectors b ram secs xs (wr_state s, ms_nvm s) = Some (w, n)"
  shows "\<exists>s'. msc_run b tc ram secs xe m0 s' \<and> wr_state s' = w \<and> ms_nvm s' = n \<and> app_completion_pending s' = app_completion_pending s"
  using assms
proof (induction xs arbitrary: s)
  case (Cons x xs)
  obtain lba dat where x: "x = (lba, dat)" by fastforce
  from Cons.prems(4) obtain w1 n1 where 1: "write_retry 2 b ram secs lba dat (wr_state s, ms_nvm s) = Some (512, w1, n1)"
      "write_sectors b ram secs xs (w1, n1) = Some (w, n)"
    by (auto simp: x split: option.splits if_splits)
  have l: "length dat = 512" using Cons.prems(3) x by simp
  obtain s1 where "msc_run b tc ram secs xe m0 s1" "wr_state s1 = w1" "ms_nvm s1 = n1" "app_completion_pending s1 = app_completion_pending s"
    using write_retry_event [OF Cons.prems(1,2) l 1(1)] by blast
  then show ?case using Cons.IH [of s1] Cons.prems(2,3) 1(2) by auto
qed auto

definition sample_session :: msc_session where
  "sample_session = \<lparr>wr_state = uf2_transfer_reset NRF52840, first_write = True, app_completion_pending = False, app_completion_after_eject = False,
     app_msc_command_active = False, exit_after_eject = False, app_completion_last_activity = 0, app_completion_timer = None,
     ms_nvm = \<lparr>nv_mem = uf2_sample_flash, fl_addr = FLASH_CACHE_INVALID_ADDR, fl_buf = []\<rparr>, ms_ctl = idle_ctl\<lparr>bc_is_ota := False\<rparr>\<rparr>"

lemma sample_session_run: "msc_run internal_build (\<lambda>_. NRF_SUCCESS) 256 0 False uf2_sample_flash sample_session"
proof -
  have "uf2_write_session_init internal_build sample_session = sample_session"
    by (simp add: uf2_write_session_init_def uf2_write_session_reset_def Let_def sample_session_def uf2_kinds internal_build_def)
  then show ?thesis using msc_run.start [of sample_session internal_build "\<lambda>_. NRF_SUCCESS" 256 0 False] uf2_sample_window
    by (simp add: sample_session_def uf2_kinds)
qed

lemma sample_chip: "b_chip internal_build = NRF52840"
  by (simp add: internal_build_def)

lemma sample_idle: "32763 \<le> app_timer_cnt_diff_compute 40000 1000"
  by (simp add: app_timer_cnt_diff_compute_def)

lemma sample_image_length: "length uf2_sample_image = 256"
  by (simp add: uf2_sample_image_def)


text \<open>The same session up to the last write, as events; the completed state is reached by three more.\<close>

lemma sample_session_complete:
  obtains s where "msc_run internal_build (\<lambda>_. NRF_SUCCESS) 256 0 False uf2_sample_flash s" "appValidated (wr_state s)" "\<not> app_completion_pending s"
    "sent internal_build 256 uf2_sample_flash 0 1 uf2_sample_image 1 (wr_state s) (ms_nvm s)"
proof -
  let ?xs = "map (\<lambda>i. (0 :: u32, file_sector uf2_sample_flash 0xADA52840 0 1 uf2_sample_image i)) [0..<0 + 1]"
  have st: "(wr_state sample_session, ms_nvm sample_session) = (uf2_transfer_reset (b_chip internal_build), \<lparr>nv_mem = uf2_sample_flash, fl_addr = FLASH_CACHE_INVALID_ADDR, fl_buf = []\<rparr>)"
    by (simp add: sample_session_def sample_chip)
  obtain w n where r: "write_sectors internal_build 256 0 ?xs (wr_state sample_session, ms_nvm sample_session) = Some (w, n)" "sent internal_build 256 uf2_sample_flash 0 1 uf2_sample_image 1 w n"
    unfolding st using send_file [OF uf2_sample_sendable uf2_sample_vectors [folded uf2_sample_base] uf2_sample_lba] by blast
  have len: "\<forall>(lba, dat) \<in> set ?xs. length dat = 512" using app_block_facts(1) [OF uf2_sample_sendable, of 0] by (simp add: file_sector_def)
  obtain s' where s': "msc_run internal_build (\<lambda>_. NRF_SUCCESS) 256 0 False uf2_sample_flash s'" "wr_state s' = w" "ms_nvm s' = n"
    "app_completion_pending s' = app_completion_pending sample_session"
    using write_sectors_event [OF sample_session_run sample_chip len r(1)] by blast
  then show thesis using that [of s'] sent_all(1) [OF uf2_sample_sendable r(2)] r(2) by (simp add: sample_session_def)
qed




end
