(* ===== verification/Uf2_Read.thy ===== *)
theory Uf2_Read
  imports Uf2_Install
begin

text \<open>
  The read side of the UF2 volume (\<open>src/src/usb/uf2/ghostfat.c\<close>, \<open>compile_date.h\<close>): the synthesised FAT16 file system with its
  information files and \<open>CURRENT.UF2\<close>, a view of the flash region that applications occupy.  A FAT16 reader stands for the
  host: it follows directory entries and cluster chains, and its results are what the volume means.
\<close>

section \<open>Build constants\<close>

text \<open>
  What the build fixes: the compact layout of the update-capable builds, the volume label, the two texts, and the compiler's
  \<open>__DATE__\<close> (\<open>Mmm dd yyyy\<close>) and \<open>__TIME__\<close> (\<open>hh:mm:ss\<close>).
\<close>

record volume =
  v_compact :: bool
  v_label :: bytes
  v_info :: bytes
  v_index :: bytes
  v_date :: string
  v_time :: string

definition digit :: "char \<Rightarrow> u32" where "digit ch = of_char ch - 48"

definition YEAR_INT :: "string \<Rightarrow> u32" where
  "YEAR_INT d = ((digit (d ! 7) * 10 + digit (d ! 8)) * 10 + digit (d ! 9)) * 10 + digit (d ! 10)"

definition MONTH_INT :: "string \<Rightarrow> u32" where
  "MONTH_INT d =
     (if d ! 2 = CHR ''n'' \<and> d ! 1 = CHR ''a'' then 1
      else if d ! 2 = CHR ''b'' then 2
      else if d ! 2 = CHR ''r'' \<and> d ! 1 = CHR ''a'' then 3
      else if d ! 2 = CHR ''r'' then 4
      else if d ! 2 = CHR ''y'' then 5
      else if d ! 2 = CHR ''n'' then 6
      else if d ! 2 = CHR ''l'' then 7
      else if d ! 2 = CHR ''g'' then 8
      else if d ! 2 = CHR ''p'' then 9
      else if d ! 2 = CHR ''t'' then 10
      else if d ! 2 = CHR ''v'' then 11
      else 12)"

definition DAY_INT :: "string \<Rightarrow> u32" where
  "DAY_INT d = (if d ! 4 = CHR '' '' then 0 else digit (d ! 4)) * 10 + digit (d ! 5)"

definition time_digit :: "char \<Rightarrow> u32" where
  "time_digit ch = (if ch = CHR ''?'' then 0 else digit ch)"

definition HOUR_INT :: "string \<Rightarrow> u32" where
  "HOUR_INT t = time_digit (t ! 0) * 10 + time_digit (t ! 1)"

definition MINUTE_INT :: "string \<Rightarrow> u32" where
  "MINUTE_INT t = time_digit (t ! 3) * 10 + time_digit (t ! 4)"

definition SECONDS_INT :: "string \<Rightarrow> u32" where
  "SECONDS_INT t = time_digit (t ! 6) * 10 + time_digit (t ! 7)"

definition DOSDATE :: "string \<Rightarrow> u32" where
  "DOSDATE d = push_bit 9 (YEAR_INT d - 1980) OR push_bit 5 (MONTH_INT d) OR DAY_INT d"

definition DOSTIME :: "string \<Rightarrow> u32" where
  "DOSTIME t = push_bit 11 (HOUR_INT t) OR push_bit 5 (MINUTE_INT t) OR SECONDS_INT t"

section \<open>On-disk structures\<close>

record FAT_BootBlock =
  JumpInstruction :: bytes
  OEMInfo :: bytes
  SectorSize :: u16
  SectorsPerCluster :: u8
  ReservedSectors :: u16
  FATCopies :: u8
  RootDirectoryEntries :: u16
  TotalSectors16 :: u16
  MediaDescriptor :: u8
  SectorsPerFAT :: u16
  SectorsPerTrack :: u16
  Heads :: u16
  HiddenSectors :: u32
  TotalSectors32 :: u32
  PhysicalDriveNum :: u8
  BB_Reserved :: u8
  ExtendedBootSig :: u8
  VolumeSerialNumber :: u32
  VolumeLabel :: bytes
  FilesystemIdentifier :: bytes

definition boot_block_bytes :: "FAT_BootBlock \<Rightarrow> bytes" where
  "boot_block_bytes h = JumpInstruction h @ OEMInfo h @ wr_u16 (SectorSize h) @ [SectorsPerCluster h] @ wr_u16 (ReservedSectors h) @
     [FATCopies h] @ wr_u16 (RootDirectoryEntries h) @ wr_u16 (TotalSectors16 h) @ [MediaDescriptor h] @ wr_u16 (SectorsPerFAT h) @
     wr_u16 (SectorsPerTrack h) @ wr_u16 (Heads h) @ wr_u32 (HiddenSectors h) @ wr_u32 (TotalSectors32 h) @ [PhysicalDriveNum h] @
     [BB_Reserved h] @ [ExtendedBootSig h] @ wr_u32 (VolumeSerialNumber h) @ VolumeLabel h @ FilesystemIdentifier h"

record DirEntry =
  de_name :: bytes    \<comment> \<open>\<open>name[8]\<close> and \<open>ext[3]\<close>\<close>
  de_attrs :: u8
  de_reserved :: u8
  createTimeFine :: u8
  createTime :: u16
  createDate :: u16
  lastAccessDate :: u16
  highStartCluster :: u16
  updateTime :: u16
  updateDate :: u16
  startCluster :: u16
  de_size :: u32

definition dir_entry_bytes :: "DirEntry \<Rightarrow> bytes" where
  "dir_entry_bytes d = de_name d @ [de_attrs d] @ [de_reserved d] @ [createTimeFine d] @ wr_u16 (createTime d) @ wr_u16 (createDate d) @
     wr_u16 (lastAccessDate d) @ wr_u16 (highStartCluster d) @ wr_u16 (updateTime d) @ wr_u16 (updateDate d) @ wr_u16 (startCluster d) @
     wr_u32 (de_size d)"

definition ascii :: "string \<Rightarrow> bytes" where "ascii s = map of_char s"

definition DirEntry_zero :: DirEntry where
  "DirEntry_zero = \<lparr>de_name = replicate 11 0, de_attrs = 0, de_reserved = 0, createTimeFine = 0, createTime = 0, createDate = 0,
     lastAccessDate = 0, highStartCluster = 0, updateTime = 0, updateDate = 0, startCluster = 0, de_size = 0\<rparr>"

text \<open>The label is initialised from a string of at most eleven characters; the rest of the array is zero.\<close>

definition BootBlock :: "volume \<Rightarrow> FAT_BootBlock" where
  "BootBlock v = \<lparr>JumpInstruction = [0xeb, 0x3c, 0x90], OEMInfo = ascii ''UF2 UF2 '', SectorSize = 512, SectorsPerCluster = 1,
     ReservedSectors = 1, FATCopies = 2, RootDirectoryEntries = 64,
     TotalSectors16 = (if CFG_UF2_NUM_BLOCKS > 0xFFFF then 0 else ucast CFG_UF2_NUM_BLOCKS), MediaDescriptor = 0xF8,
     SectorsPerFAT = ucast BPB_SECTORS_PER_FAT, SectorsPerTrack = 1, Heads = 1, HiddenSectors = 0,
     TotalSectors32 = (if CFG_UF2_NUM_BLOCKS > 0xFFFF then CFG_UF2_NUM_BLOCKS else 0), PhysicalDriveNum = 0x80, BB_Reserved = 0,
     ExtendedBootSig = 0x29, VolumeSerialNumber = 0x00420042, VolumeLabel = take 11 (v_label v) @ replicate (11 - length (v_label v)) 0,
     FilesystemIdentifier = ascii ''FAT16   ''\<rparr>"

definition NUM_FILES :: nat where "NUM_FILES = 3"

definition TRUE_USER_FLASH_SIZE :: "chip \<Rightarrow> u32" where
  "TRUE_USER_FLASH_SIZE c = USER_FLASH_END c - USER_FLASH_START"

definition UF2_SECTORS :: "chip \<Rightarrow> u32" where
  "UF2_SECTORS c = TRUE_USER_FLASH_SIZE c div UF2_FIRMWARE_BYTES_PER_SECTOR +
     (if TRUE_USER_FLASH_SIZE c mod UF2_FIRMWARE_BYTES_PER_SECTOR \<noteq> 0 then 1 else 0)"

definition UF2_SIZE :: "chip \<Rightarrow> u32" where "UF2_SIZE c = UF2_SECTORS c * 512"

definition UF2_FIRST_SECTOR :: u32 where "UF2_FIRST_SECTOR = NUM_INFO_SECTORS + 2"

section \<open>The extent of CURRENT.UF2\<close>

definition uf2_init :: "build \<Rightarrow> flash \<Rightarrow> u32" where
  "uf2_init b m =
     (let c = b_chip b; app_start = CODE_REGION_1_START m; app_size = bs_bank_0_size (bootloader_util_settings_get b m)
      in if app_start - USER_FLASH_START < TRUE_USER_FLASH_SIZE c \<and> app_size - 1 < USER_FLASH_END c - app_start
         then (app_start - USER_FLASH_START + app_size + UF2_FIRMWARE_BYTES_PER_SECTOR - 1) div UF2_FIRMWARE_BYTES_PER_SECTOR
         else UF2_SECTORS c)"

section \<open>Reading a sector\<close>

fun padded_memcpy :: "bytes \<Rightarrow> nat \<Rightarrow> bytes" where
  "padded_memcpy src 0 = []"
| "padded_memcpy [] (Suc n) = 32 # padded_memcpy [] n"
| "padded_memcpy (x # src) (Suc n) = (if x \<noteq> 0 then x # padded_memcpy src n else 32 # padded_memcpy (x # src) n)"

definition memcpy_at :: "nat \<Rightarrow> bytes \<Rightarrow> bytes \<Rightarrow> bytes" where
  "memcpy_at off src dst = take off dst @ src @ drop (off + length src) dst"

text \<open>The files of the volume: their directory names and, for the texts, their contents.\<close>

definition info :: "volume \<Rightarrow> (bytes \<times> bytes option) list" where
  "info v = [(ascii ''INFO_UF2TXT'', Some (v_info v)), (ascii ''INDEX   HTM'', Some (v_index v)), (ascii ''CURRENT UF2'', None)]"

definition time_fine :: "volume \<Rightarrow> u8" where
  "time_fine v = ucast (SECONDS_INT (v_time v) mod 2 * 100)"

definition compactFiles :: "volume \<Rightarrow> build \<Rightarrow> DirEntry list" where
  "compactFiles v b =
     [DirEntry_zero\<lparr>de_name := ascii ''INFO_UF2TXT'', startCluster := 2, de_size := of_nat (length (v_info v))\<rparr>,
      DirEntry_zero\<lparr>de_name := ascii ''INDEX   HTM'', startCluster := 3, de_size := of_nat (length (v_index v))\<rparr>,
      DirEntry_zero\<lparr>de_name := ascii ''CURRENT UF2'', createTimeFine := time_fine v, createTime := ucast (DOSTIME (v_time v)),
        createDate := ucast (DOSDATE (v_date v)), lastAccessDate := ucast (DOSDATE (v_date v)), updateTime := ucast (DOSTIME (v_time v)),
        updateDate := ucast (DOSDATE (v_date v)), startCluster := ucast UF2_FIRST_SECTOR, de_size := UF2_SIZE (b_chip b)\<rparr>]"

definition full_entry :: "volume \<Rightarrow> u32 \<Rightarrow> nat \<Rightarrow> DirEntry" where
  "full_entry v current_uf2_sectors i =
     (let (name, content) = info v ! i; cl = of_nat (i + 2) :: u16
      in DirEntry_zero\<lparr>de_name := padded_memcpy name 11, createTimeFine := time_fine v, createTime := ucast (DOSTIME (v_time v)),
           createDate := ucast (DOSDATE (v_date v)), lastAccessDate := ucast (DOSDATE (v_date v)), highStartCluster := drop_bit 16 cl,
           updateTime := ucast (DOSTIME (v_time v)), updateDate := ucast (DOSDATE (v_date v)), startCluster := cl AND 0xFFFF,
           de_size := (case content of Some t \<Rightarrow> of_nat (length t) | None \<Rightarrow> current_uf2_sectors * 512)\<rparr>)"

definition root_dir_entries :: "volume \<Rightarrow> build \<Rightarrow> u32 \<Rightarrow> nat \<Rightarrow> DirEntry list" where
  "root_dir_entries v b current_uf2_sectors sectionIdx =
     (if sectionIdx = 0 then [DirEntry_zero\<lparr>de_name := padded_memcpy (VolumeLabel (BootBlock v)) 11, de_attrs := 0x28\<rparr>] else []) @
     (if v_compact v
      then if sectionIdx = 0
           then let d = compactFiles v b in d[NUM_FILES - 1 := (d ! (NUM_FILES - 1))\<lparr>de_size := current_uf2_sectors * 512\<rparr>] else []
      else map (full_entry v current_uf2_sectors) [16 * sectionIdx..<NUM_FILES])"

text \<open>One FAT sector: the chain of \<open>CURRENT.UF2\<close> over the reserved entries and those of the one-sector files.\<close>

definition fat_sector :: "u32 \<Rightarrow> u32 \<Rightarrow> bytes" where
  "fat_sector current_uf2_sectors sectionIdx =
     (let data = replicate 512 0;
          data = (if sectionIdx = 0
                  then memcpy_at 1 (replicate (unat ((NUM_INFO_SECTORS + 3) * 2) - 1) 0xFF) (memcpy_at 0 [0xF8] data) else data);
          current_last_sector = UF2_FIRST_SECTOR + current_uf2_sectors - 1
      in concat (map (\<lambda>i. let v = sectionIdx * 256 + of_nat i
                           in if v - UF2_FIRST_SECTOR < current_uf2_sectors
                              then wr_u16 (if v = current_last_sector then 0xFFFF else ucast (v + 1))
                              else take 2 (drop (2 * i) data)) [0..<256]))"

definition current_block :: "build \<Rightarrow> flash \<Rightarrow> u32 \<Rightarrow> u32 \<Rightarrow> bytes" where
  "current_block b m current_uf2_sectors sectionIdx =
     (let addr = USER_FLASH_START + sectionIdx * UF2_FIRMWARE_BYTES_PER_SECTOR
      in if sectionIdx < current_uf2_sectors
         then wr_u32 UF2_MAGIC_START0 @ wr_u32 UF2_MAGIC_START1 @ wr_u32 UF2_FLAG_FAMILYID @ wr_u32 addr @
              wr_u32 UF2_FIRMWARE_BYTES_PER_SECTOR @ wr_u32 sectionIdx @ wr_u32 current_uf2_sectors @ wr_u32 (board_id b) @
              memcpy_at 0 (rd_bytes m addr (unat UF2_FIRMWARE_BYTES_PER_SECTOR)) (replicate 476 0) @ wr_u32 UF2_MAGIC_END
         else replicate 512 0)"

definition read_block :: "volume \<Rightarrow> build \<Rightarrow> flash \<Rightarrow> u32 \<Rightarrow> u32 \<Rightarrow> bytes" where
  "read_block v b m current_uf2_sectors block_no =
     (let data = replicate 512 0
      in if block_no = 0 then memcpy_at 510 [0x55, 0xAA] (memcpy_at 0 (boot_block_bytes (BootBlock v)) data)
      else if block_no < FS_START_ROOTDIR_SECTOR
      then let sectionIdx = block_no - FS_START_FAT0_SECTOR
           in fat_sector current_uf2_sectors
                (if sectionIdx \<ge> BPB_SECTORS_PER_FAT then sectionIdx - BPB_SECTORS_PER_FAT else sectionIdx)
      else if block_no < FS_START_CLUSTERS_SECTOR
      then memcpy_at 0 (concat (map dir_entry_bytes
             (root_dir_entries v b current_uf2_sectors (unat (block_no - FS_START_ROOTDIR_SECTOR))))) data
      else if block_no < CFG_UF2_NUM_BLOCKS
      then let sectionIdx = block_no - FS_START_CLUSTERS_SECTOR
           in if sectionIdx = 0 then memcpy_at 0 (v_info v) data
              else if sectionIdx = 1 then memcpy_at 0 (v_index v) data
              else current_block b m current_uf2_sectors (sectionIdx - NUM_INFO_SECTORS)
      else data)"

text \<open>
  A READ10 chunk.  The loop counts bytes in 32 bits up to the buffer size; \<open>None\<close> is a loop that does not end, which the test for
  whole sectors rules out.
\<close>

partial_function (option) read10_loop :: "volume \<Rightarrow> build \<Rightarrow> flash \<Rightarrow> u32 \<Rightarrow> u32 \<Rightarrow> u32 \<Rightarrow> u32 \<Rightarrow> (u32 \<times> bytes) option" where
  "read10_loop v b m secs bufsize count lba =
     (if count < bufsize
      then Option.bind (read10_loop v b m secs bufsize (count + 512) (lba + 1)) (\<lambda>(n, rest). Some (n, read_block v b m secs lba @ rest))
      else Some (count, []))"

declare read10_loop.simps [code]

definition tud_msc_read10_cb :: "volume \<Rightarrow> build \<Rightarrow> flash \<Rightarrow> u32 \<Rightarrow> u32 \<Rightarrow> u32 \<Rightarrow> u32 \<Rightarrow> (int \<times> bytes) option" where
  "tud_msc_read10_cb v b m secs lba offset bufsize =
     (if \<not> (offset = 0 \<and> bufsize mod 512 = 0) then Some (-1, [])
      else map_option (\<lambda>(count, data). (sint count, data)) (read10_loop v b m secs bufsize 0 lba))"

section \<open>A FAT16 reader\<close>

text \<open>
  What a host does with the sectors: entry of a cluster in the first FAT, the chain that starts at a cluster (\<open>None\<close> when it runs
  into a free or reserved entry, or never ends), the first directory entry of a name that is not the volume label, and the file.
\<close>

definition fat_entry :: "(u32 \<Rightarrow> bytes) \<Rightarrow> nat \<Rightarrow> nat" where
  "fat_entry rd c = unat (rd_u16 (drop (2 * (c mod 256)) (rd (1 + of_nat (c div 256)))))"

partial_function (option) fat_chain :: "(u32 \<Rightarrow> bytes) \<Rightarrow> nat \<Rightarrow> nat list option" where
  "fat_chain rd c =
     (let e = fat_entry rd c
      in if 0xFFF8 \<le> e then Some [c]
         else if e < 2 then None
         else Option.bind (fat_chain rd e) (\<lambda>cs. Some (c # cs)))"

declare fat_chain.simps [code]

definition dir_slots :: "(u32 \<Rightarrow> bytes) \<Rightarrow> bytes list" where
  "dir_slots rd = concat (map (\<lambda>s. map (\<lambda>j. take 32 (drop (32 * j) (rd (517 + of_nat s)))) [0..<16]) [0..<4])"

definition dir_lookup :: "(u32 \<Rightarrow> bytes) \<Rightarrow> bytes \<Rightarrow> bytes option" where
  "dir_lookup rd name = List.find (\<lambda>d. take 11 d = name \<and> d ! 11 AND 8 = 0) (dir_slots rd)"

definition read_file :: "(u32 \<Rightarrow> bytes) \<Rightarrow> bytes \<Rightarrow> bytes option" where
  "read_file rd name =
     Option.bind (dir_lookup rd name) (\<lambda>d.
     Option.bind (fat_chain rd (unat (rd_u16 (drop 26 d)))) (\<lambda>cs.
     Some (take (unat (rd_u32 (drop 28 d))) (concat (map (\<lambda>c. rd (521 + of_nat (c - 2))) cs)))))"

section \<open>Sectors\<close>

lemma volume_values [simp]:
  "BPB_SECTORS_PER_FAT = 258" "FS_START_FAT0_SECTOR = 1" "FS_START_ROOTDIR_SECTOR = 517" "FS_START_CLUSTERS_SECTOR = 521"
  "NUM_INFO_SECTORS = 2" "UF2_FIRST_SECTOR = 4" "CFG_UF2_NUM_BLOCKS = 65801"
  by (simp_all add: BPB_SECTORS_PER_FAT_def FS_START_FAT0_SECTOR_def FS_START_FAT1_SECTOR_def FS_START_ROOTDIR_SECTOR_def
      FS_START_CLUSTERS_SECTOR_def NUM_INFO_SECTORS_def UF2_FIRST_SECTOR_def CFG_UF2_NUM_BLOCKS_def)

lemma length_concat_blocks: "(\<And>j. j < n \<Longrightarrow> length (f j) = k) \<Longrightarrow> length (concat (map f [0..<n])) = k * n"
  by (induction n) simp_all

lemma drop_concat_blocks:
  assumes "\<And>j. j < n \<Longrightarrow> length (f j) = k" "i < n"
  shows "drop (k * i) (concat (map f [0..<n])) = f i @ concat (map f [Suc i..<n])"
proof -
  have "[0..<n] = [0..<i] @ i # [Suc i..<n]"
    using assms(2) upt_add_eq_append [of 0 i "n - i"] by (simp add: upt_conv_Cons)
  moreover have "length (concat (map f [0..<i])) = k * i" using assms by (intro length_concat_blocks) simp
  ultimately show ?thesis by simp
qed

lemma memcpy_at_length: "off + length src \<le> length dst \<Longrightarrow> length (memcpy_at off src dst) = length dst"
  by (simp add: memcpy_at_def)

lemma memcpy_at_0: "memcpy_at 0 src dst = src @ drop (length src) dst"
  by (simp add: memcpy_at_def)

text \<open>An entry of the FAT, as the reader sees it.\<close>

lemma fat_sector_entry:
  assumes "j < 256"
  shows "rd_u16 (drop (2 * j) (fat_sector secs idx)) = (let v = idx * 256 + of_nat j
    in if v - 4 < secs then if v = 3 + secs then 0xFFFF else ucast (v + 1)
       else if idx = 0 then if j = 0 then 0xFFF8 else if j < 5 then 0xFFFF else 0 else 0)"
proof -
  let ?d = "if idx = 0 then memcpy_at 1 (replicate 9 0xFF) (memcpy_at 0 [0xF8] (replicate 512 0)) else (replicate 512 0 :: bytes)"
  let ?f = "\<lambda>i. let v = idx * 256 + of_nat i in if v - 4 < secs then wr_u16 (if v = 3 + secs then 0xFFFF else ucast (v + 1)) else take 2 (drop (2 * i) ?d)"
  have l: "length ?d = 512" by (simp add: memcpy_at_length)
  have "length (?f i) = 2" if "i < 256" for i using that l by (simp add: Let_def)
  then have "rd_u16 (drop (2 * j) (concat (map ?f [0..<256]))) = rd_u16 (?f j)"
    using drop_concat_blocks [of 256 ?f 2 j] assms by (simp add: rd_u16_def nth_append)
  moreover have "fat_sector secs idx = concat (map ?f [0..<256])"
  proof -
    have n: "unat ((2 + 3) * 2 :: u32) - 1 = 9" "4 + secs - 1 = 3 + secs" by simp_all
    show ?thesis unfolding fat_sector_def Let_def volume_values n ..
  qed
  moreover have "rd_u16 (take 2 (drop (2 * j) ?d)) = (if idx = 0 then if j = 0 then 0xFFF8 else if j < 5 then 0xFFFF else 0 else 0)"
  proof (cases "idx = 0")
    case True
    have e: "?d = [0xF8, 0xFF, 0xFF, 0xFF, 0xFF, 0xFF, 0xFF, 0xFF, 0xFF, 0xFF] @ replicate 502 0" using True by (simp add: memcpy_at_def eval_nat_numeral)
    have "j = 0 \<or> j = 1 \<or> j = 2 \<or> j = 3 \<or> j = 4 \<or> 5 \<le> j" by arith
    then show ?thesis unfolding e using True assms by (elim disjE) (auto simp: rd_u16_def nth_append)
  next
    case False
    then show ?thesis using assms by (simp add: rd_u16_def)
  qed
  ultimately show ?thesis by (simp add: Let_def)
qed

section \<open>Chains\<close>

lemma read_block_fat: "c < 0x10000 \<Longrightarrow> read_block v b m secs (1 + of_nat (c div 256)) = fat_sector secs (of_nat (c div 256))"
proof -
  assume c: "c < 0x10000"
  have u: "unat (of_nat (c div 256) :: u32) = c div 256" using c by (intro unat_of_nat_u32) simp
  have u1: "unat (1 + of_nat (c div 256) :: u32) = 1 + c div 256" using c u by (subst unat_add_no_wrap) simp_all
  have "\<not> 258 \<le> (of_nat (c div 256) :: u32)" "1 + of_nat (c div 256) < (517 :: u32)" "1 + of_nat (c div 256) \<noteq> (0 :: u32)"
    using c u u1 by (simp_all add: word_le_nat_alt word_less_nat_alt flip: unat_eq_zero)
  then show ?thesis by (simp add: read_block_def Let_def)
qed

lemma fat_entry_eq:
  assumes "c < 0x10000" "unat secs \<le> 0xF000"
  shows "fat_entry (read_block v b m secs) c =
    (if 4 \<le> c \<and> c < 4 + unat secs then if c = 3 + unat secs then 0xFFFF else c + 1
     else if c = 0 then 0xFFF8 else if c < 5 then 0xFFFF else 0)"
proof -
  let ?v = "of_nat (c div 256) * 256 + of_nat (c mod 256) :: u32"
  have "of_nat (c div 256 * 256 + c mod 256) = ?v" by (simp only: of_nat_add of_nat_mult of_nat_numeral)
  then have v: "?v = of_nat c" by simp
  have uv: "unat (of_nat c :: u32) = c" using assms(1) by (intro unat_of_nat_u32) simp
  have lt: "(of_nat c :: u32) - 4 < secs \<longleftrightarrow> 4 \<le> c \<and> c < 4 + unat secs"
  proof (cases "4 \<le> c")
    case True
    then have "(4 :: u32) \<le> of_nat c" using uv by (simp add: word_le_nat_alt)
    then show ?thesis using True uv by (auto simp: word_less_nat_alt unat_sub_le)
  next
    case False
    then have "c = 0 \<or> c = 1 \<or> c = 2 \<or> c = 3" by arith
    then have "unat ((of_nat c :: u32) - 4) \<ge> 0xFFFFFFF0" by (elim disjE) (simp_all add: unsigned_minus_1_eq_mask mask_eq_exp_minus_1)
    then show ?thesis using False assms(2) by (simp add: word_less_nat_alt)
  qed
  have last: "(of_nat c :: u32) = 3 + secs \<longleftrightarrow> c = 3 + unat secs"
  proof -
    have "unat (3 + secs) = 3 + unat secs" using assms(2) by (subst unat_add_no_wrap) simp_all
    then show ?thesis using uv unfolding word_unat_eq_iff by simp
  qed
  have nxt: "unat (ucast (of_nat c + 1 :: u32) :: u16) = c + 1" if "c < 3 + unat secs"
  proof -
    have "unat (of_nat c + 1 :: u32) = c + 1" using uv assms(1) by (subst unat_add_no_wrap) simp_all
    then show ?thesis using that assms(2) by (simp add: unsigned_ucast_eq take_bit_eq_mod)
  qed
  have "unat (of_nat (c div 256) :: u32) = c div 256" using assms(1) by (intro unat_of_nat_u32) simp
  then have z: "(of_nat (c div 256) :: u32) = 0 \<longleftrightarrow> c < 256" by (auto simp flip: unat_eq_zero)
  show ?thesis unfolding fat_entry_def read_block_fat [OF assms(1)]
    using nxt by (simp add: fat_sector_entry Let_def v lt last z)
qed

lemma info_chains:
  assumes "unat secs \<le> 0xF000" "c = 2 \<or> c = 3"
  shows "fat_chain (read_block v b m secs) c = Some [c]"
  using assms by (subst fat_chain.simps) (auto simp: fat_entry_eq)

lemma current_chain:
  assumes "unat secs \<le> 0xF000" "j < unat secs"
  shows "fat_chain (read_block v b m secs) (4 + j) = Some [4 + j..<4 + unat secs]"
  using assms(2)
proof (induction "unat secs - j" arbitrary: j)
  case (Suc x)
  show ?case
  proof (cases "j = unat secs - 1")
    case True
    then show ?thesis using Suc.prems assms(1) by (subst fat_chain.simps) (simp add: fat_entry_eq upt_conv_Cons)
  next
    case False
    then have ih: "fat_chain (read_block v b m secs) (4 + Suc j) = Some [4 + Suc j..<4 + unat secs]" using Suc by (intro Suc.hyps(1)) simp_all
    have "fat_entry (read_block v b m secs) (4 + j) = 4 + Suc j" using False Suc.prems assms(1) by (simp add: fat_entry_eq)
    then show ?thesis using ih Suc.prems assms(1) by (subst fat_chain.simps) (simp add: upt_conv_Cons [of "4 + j"])
  qed
qed simp

section \<open>Directory\<close>

lemma padded_memcpy_length [simp]: "length (padded_memcpy src n) = n"
  by (induction src n rule: padded_memcpy.induct) simp_all

lemma dir_entry_fields:
  assumes "length (de_name d) = 11"
  shows "length (dir_entry_bytes d) = 32" "take 11 (dir_entry_bytes d) = de_name d" "dir_entry_bytes d ! 11 = de_attrs d"
    "rd_u16 (drop 26 (dir_entry_bytes d)) = startCluster d" "rd_u32 (drop 28 (dir_entry_bytes d)) = de_size d"
proof -
  show "length (dir_entry_bytes d) = 32" "take 11 (dir_entry_bytes d) = de_name d" using assms by (simp_all add: dir_entry_bytes_def)
  show "dir_entry_bytes d ! 11 = de_attrs d" using assms by (simp add: dir_entry_bytes_def nth_append)
  show "rd_u16 (drop 26 (dir_entry_bytes d)) = startCluster d" "rd_u32 (drop 28 (dir_entry_bytes d)) = de_size d"
    using assms by (simp_all add: dir_entry_bytes_def)
qed

lemma concat_entries: "list_all (\<lambda>d. length (de_name d) = 11) ds \<Longrightarrow> length (concat (map dir_entry_bytes ds)) = 32 * length ds"
  by (induction ds) (simp_all add: dir_entry_fields)

lemma find_slot:
  assumes "list_all (\<lambda>d. length (de_name d) = 11) ds"
  shows "map (\<lambda>j. take 32 (drop (32 * j) (concat (map dir_entry_bytes ds) @ zs))) [0..<length ds] = map dir_entry_bytes ds"
  using assms
proof (induction ds)
  case (Cons d ds)
  have "map (\<lambda>j. take 32 (drop (32 * j) (concat (map dir_entry_bytes (d # ds)) @ zs))) [0..<Suc (length ds)] =
    dir_entry_bytes d # map (\<lambda>j. take 32 (drop (32 * j) (concat (map dir_entry_bytes ds) @ zs))) [0..<length ds]"
    using Cons.prems by (simp add: upt_conv_Cons map_Suc_upt [symmetric] dir_entry_fields del: upt_Suc)
  then show ?case using Cons by simp
qed simp

lemma dir_slots_start:
  assumes "list_all (\<lambda>d. length (de_name d) = 11) ds" "length ds \<le> 16" "rd 517 = concat (map dir_entry_bytes ds) @ zs"
  shows "\<exists>rest. dir_slots rd = map dir_entry_bytes ds @ rest"
proof -
  have "[0..<16] = [0..<length ds] @ [length ds..<16]" using assms(2) upt_add_eq_append [of 0 "length ds" "16 - length ds"] by simp
  moreover have "dir_slots rd = map (\<lambda>j. take 32 (drop (32 * j) (rd 517))) [0..<16] @ concat (map (\<lambda>s. map (\<lambda>j. take 32 (drop (32 * j) (rd (517 + of_nat s)))) [0..<16]) [1..<4])"
    by (simp add: dir_slots_def upt_conv_Cons del: upt_Suc)
  ultimately show ?thesis using find_slot [OF assms(1), of zs] by (simp add: assms(3))
qed

lemma file_names:
  "padded_memcpy (ascii ''INFO_UF2TXT'') 11 = ascii ''INFO_UF2TXT''" "padded_memcpy (ascii ''INDEX   HTM'') 11 = ascii ''INDEX   HTM''"
  "padded_memcpy (ascii ''CURRENT UF2'') 11 = ascii ''CURRENT UF2''"
  "ascii ''INFO_UF2TXT'' \<noteq> ascii ''INDEX   HTM''" "ascii ''INFO_UF2TXT'' \<noteq> ascii ''CURRENT UF2''" "ascii ''INDEX   HTM'' \<noteq> ascii ''CURRENT UF2''"
  "length (ascii ''INFO_UF2TXT'') = 11" "length (ascii ''INDEX   HTM'') = 11" "length (ascii ''CURRENT UF2'') = 11"
  by code_simp+

lemma root_entries:
  obtains e0 e1 e2 e3 where "root_dir_entries v b secs 0 = [e0, e1, e2, e3]" "list_all (\<lambda>d. length (de_name d) = 11) [e0, e1, e2, e3]"
    "de_attrs e0 = 0x28" "de_attrs e1 = 0" "de_attrs e2 = 0" "de_attrs e3 = 0"
    "de_name e1 = ascii ''INFO_UF2TXT''" "de_name e2 = ascii ''INDEX   HTM''" "de_name e3 = ascii ''CURRENT UF2''"
    "startCluster e1 = 2" "startCluster e2 = 3" "startCluster e3 = 4"
    "de_size e1 = of_nat (length (v_info v))" "de_size e2 = of_nat (length (v_index v))" "de_size e3 = secs * 512"
proof (cases "v_compact v")
  case True
  show ?thesis
    by (rule that [of "DirEntry_zero\<lparr>de_name := padded_memcpy (VolumeLabel (BootBlock v)) 11, de_attrs := 0x28\<rparr>"
          "compactFiles v b ! 0" "compactFiles v b ! 1" "(compactFiles v b ! 2)\<lparr>de_size := secs * 512\<rparr>"])
       (simp_all add: True root_dir_entries_def compactFiles_def Let_def NUM_FILES_def DirEntry_zero_def file_names)
next
  case False
  have u: "[0..<3] = [0, 1, 2]" by (simp add: upt_rec)
  show ?thesis
    by (rule that [of "DirEntry_zero\<lparr>de_name := padded_memcpy (VolumeLabel (BootBlock v)) 11, de_attrs := 0x28\<rparr>"
          "full_entry v secs 0" "full_entry v secs 1" "full_entry v secs 2"])
       (simp_all add: False root_dir_entries_def full_entry_def info_def Let_def NUM_FILES_def DirEntry_zero_def file_names u)
qed

lemma dir_lookup_files:
  assumes rd_def: "rd = read_block v b m secs"
  obtains e1 e2 e3 where "dir_lookup rd (ascii ''INFO_UF2TXT'') = Some (dir_entry_bytes e1)" "dir_lookup rd (ascii ''INDEX   HTM'') = Some (dir_entry_bytes e2)"
    "dir_lookup rd (ascii ''CURRENT UF2'') = Some (dir_entry_bytes e3)" "length (de_name e1) = 11" "length (de_name e2) = 11" "length (de_name e3) = 11"
    "startCluster e1 = 2" "startCluster e2 = 3" "startCluster e3 = 4"
    "de_size e1 = of_nat (length (v_info v))" "de_size e2 = of_nat (length (v_index v))" "de_size e3 = secs * 512"
proof (rule root_entries [of v b secs])
  fix e0 e1 e2 e3
  assume e: "root_dir_entries v b secs 0 = [e0, e1, e2, e3]" "list_all (\<lambda>d. length (de_name d) = 11) [e0, e1, e2, e3]"
    "de_attrs e0 = 0x28" "de_attrs e1 = 0" "de_attrs e2 = 0" "de_attrs e3 = 0"
    "de_name e1 = ascii ''INFO_UF2TXT''" "de_name e2 = ascii ''INDEX   HTM''" "de_name e3 = ascii ''CURRENT UF2''"
    "startCluster e1 = 2" "startCluster e2 = 3" "startCluster e3 = 4"
    "de_size e1 = of_nat (length (v_info v))" "de_size e2 = of_nat (length (v_index v))" "de_size e3 = secs * 512"
  have "rd 517 = concat (map dir_entry_bytes [e0, e1, e2, e3]) @ drop (length (concat (map dir_entry_bytes [e0, e1, e2, e3]))) (replicate 512 0)"
    by (simp add: rd_def read_block_def Let_def memcpy_at_0 e(1))
  from dir_slots_start [of _ rd, OF e(2) _ this] obtain rest where "dir_slots rd = dir_entry_bytes e0 # dir_entry_bytes e1 # dir_entry_bytes e2 # dir_entry_bytes e3 # rest"
    by auto
  moreover have "0x28 AND 8 = (8 :: u8)" by simp
  ultimately show thesis using e that [of e1 e2 e3] file_names(4-6) by (simp add: dir_lookup_def dir_entry_fields)
qed

section \<open>Files\<close>

definition current_sector :: "build \<Rightarrow> flash \<Rightarrow> u32 \<Rightarrow> nat \<Rightarrow> bytes" where
  "current_sector b m secs i =
     uf2_sector (board_id b) (0x1000 + of_nat (256 * i)) (of_nat i) secs (rd_bytes m (0x1000 + of_nat (256 * i)) 256)"

lemma read_block_current:
  assumes "unat secs \<le> 0xF000" "i < unat secs"
  shows "read_block v b m secs (523 + of_nat i) = current_sector b m secs i"
proof -
  have u: "unat (of_nat i :: u32) = i" using assms unat_u32_lt [of secs] by (intro unat_of_nat_u32) simp
  have u1: "unat (523 + of_nat i :: u32) = 523 + i" using assms u by (subst unat_add_no_wrap) simp_all
  have lt: "523 + of_nat i < (65801 :: u32)" "\<not> 523 + of_nat i < (517 :: u32)" "\<not> 523 + of_nat i < (521 :: u32)" "(of_nat i :: u32) < secs"
    "523 + of_nat i \<noteq> (0 :: u32)"
    using assms u u1 by (simp_all add: word_less_nat_alt flip: unat_eq_zero)
  have d: "523 + of_nat i - 521 = (2 + of_nat i :: u32)" by simp
  have "unat (2 + of_nat i :: u32) = 2 + i" using assms u by (subst unat_add_no_wrap) simp_all
  then have "2 + of_nat i \<noteq> (0 :: u32)" "2 + of_nat i \<noteq> (1 :: u32)" unfolding word_unat_eq_iff by simp_all
  then show ?thesis using lt unfolding read_block_def Let_def volume_values d
    by (simp add: current_block_def Let_def current_sector_def uf2_sector_def UF2_FIRMWARE_BYTES_PER_SECTOR_def memcpy_at_0 layout_simps mult.commute)
qed

lemma current_sector_length [simp]: "length (current_sector b m secs i) = 512"
  by (simp add: current_sector_def uf2_sector_length)

lemma read_info_file:
  assumes "unat secs \<le> 0xF000" "length (v_info v) < 512" "length (v_index v) < 512"
  shows "read_file (read_block v b m secs) (ascii ''INFO_UF2TXT'') = Some (v_info v)"
    and "read_file (read_block v b m secs) (ascii ''INDEX   HTM'') = Some (v_index v)"
proof -
  obtain e1 e2 where d: "dir_lookup (read_block v b m secs) (ascii ''INFO_UF2TXT'') = Some (dir_entry_bytes e1)"
    "dir_lookup (read_block v b m secs) (ascii ''INDEX   HTM'') = Some (dir_entry_bytes e2)" "length (de_name e1) = 11" "length (de_name e2) = 11"
    "startCluster e1 = 2" "startCluster e2 = 3" "de_size e1 = of_nat (length (v_info v))" "de_size e2 = of_nat (length (v_index v))"
    using dir_lookup_files [OF refl, of v b m secs] by metis
  have c: "read_block v b m secs 521 = v_info v @ replicate (512 - length (v_info v)) 0"
    "read_block v b m secs 522 = v_index v @ replicate (512 - length (v_index v)) 0"
    by (simp_all add: read_block_def Let_def memcpy_at_0)
  have n: "unat (of_nat (length (v_info v)) :: u32) = length (v_info v)" "unat (of_nat (length (v_index v)) :: u32) = length (v_index v)"
    using assms(2,3) by (intro unat_of_nat_u32; simp)+
  show "read_file (read_block v b m secs) (ascii ''INFO_UF2TXT'') = Some (v_info v)"
    using d c(1) n(1) assms info_chains [OF assms(1), of 2 v b m] by (simp add: read_file_def dir_entry_fields)
  show "read_file (read_block v b m secs) (ascii ''INDEX   HTM'') = Some (v_index v)"
    using d c(2) n(2) assms info_chains [OF assms(1), of 3 v b m] by (simp add: read_file_def dir_entry_fields)
qed

lemma read_current_file:
  assumes "unat secs \<le> 0xF000" "secs \<noteq> 0"
  shows "read_file (read_block v b m secs) (ascii ''CURRENT UF2'') = Some (concat (map (current_sector b m secs) [0..<unat secs]))"
proof -
  obtain e3 where d: "dir_lookup (read_block v b m secs) (ascii ''CURRENT UF2'') = Some (dir_entry_bytes e3)" "length (de_name e3) = 11"
    "startCluster e3 = 4" "de_size e3 = secs * 512"
    using dir_lookup_files [OF refl, of v b m secs] by metis
  have "0 < unat secs" using assms(2) by (simp add: unat_gt_0)
  then have ch: "fat_chain (read_block v b m secs) 4 = Some [4..<4 + unat secs]" using current_chain [OF assms(1), of 0] by simp
  have sz: "unat (secs * 512) = unat secs * 512" using assms(1) by (simp add: unat_word_ariths)
  have up: "[4..<4 + unat secs] = map (\<lambda>i. i + 4) [0..<unat secs]" by (simp add: map_add_upt add.commute)
  have "read_block v b m secs (521 + of_nat (i + 4 - 2)) = current_sector b m secs i" if "i < unat secs" for i
  proof -
    have "521 + of_nat (i + 4 - 2) = (523 + of_nat i :: u32)" by simp
    then show ?thesis using read_block_current [OF assms(1) that] by simp
  qed
  then have "concat (map (\<lambda>c. read_block v b m secs (521 + of_nat (c - 2))) [4..<4 + unat secs]) = concat (map (current_sector b m secs) [0..<unat secs])"
    unfolding up map_map comp_def by (intro arg_cong [of _ _ concat] map_cong) simp_all
  moreover have "length (concat (map (current_sector b m secs) [0..<unat secs])) = 512 * unat secs" by (intro length_concat_blocks) simp
  ultimately show ?thesis using d ch sz by (simp add: read_file_def dir_entry_fields mult.commute)
qed

lemma uf2_init_extent:
  assumes "b_chip b = NRF52840"
  shows "0 < unat (uf2_init b m)" "unat (uf2_init b m) \<le> 3728"
    and "\<lbrakk>0x1000 \<le> unat (CODE_REGION_1_START m); 0 < sz; unat (CODE_REGION_1_START m) + sz \<le> 0xEA000;
      sz = unat (bs_bank_0_size (bootloader_util_settings_get b m))\<rbrakk> \<Longrightarrow>
      unat (uf2_init b m) = (unat (CODE_REGION_1_START m) - 0x1000 + sz + 255) div 256"
proof -
  let ?A = "CODE_REGION_1_START m" and ?z = "bs_bank_0_size (bootloader_util_settings_get b m)"
  have v: "USER_FLASH_END NRF52840 = 0xEA000" "USER_FLASH_START = 0x1000" "TRUE_USER_FLASH_SIZE NRF52840 = 0xE9000"
    "UF2_SECTORS NRF52840 = 3728" "UF2_FIRMWARE_BYTES_PER_SECTOR = 256"
    by (simp_all add: layout_simps TRUE_USER_FLASH_SIZE_def UF2_SECTORS_def UF2_FIRMWARE_BYTES_PER_SECTOR_def USER_FLASH_END_def)
  have i: "uf2_init b m = (if ?A - 0x1000 < 0xE9000 \<and> ?z - 1 < 0xEA000 - ?A then (?A - 0x1000 + ?z + 256 - 1) div 256 else 3728)"
    unfolding uf2_init_def Let_def assms v ..
  have ok: "unat (?A - 0x1000 + ?z + 256 - 1) = unat ?A - 0x1000 + unat ?z + 255 \<and> 0x1000 \<le> unat ?A \<and> 0 < unat ?z \<and> unat ?A + unat ?z \<le> 0xEA000"
    if c: "?A - 0x1000 < 0xE9000" "?z - 1 < 0xEA000 - ?A"
  proof -
    have a: "0x1000 \<le> ?A" using c(1) unfolding word_less_nat_alt word_le_nat_alt unat_sub_if_size by (auto simp: word_size split: if_splits)
    have e: "?A < 0xEA000" using c(1) a by (simp add: word_less_nat_alt unat_sub_le word_le_nat_alt)
    have z: "?z \<noteq> 0" using c(2) a e by (auto simp: word_less_nat_alt unat_sub_le word_le_nat_alt unsigned_minus_1_eq_mask mask_eq_exp_minus_1)
    have z1: "unat (?z - 1) = unat ?z - 1" using z by (simp add: unat_minus_one)
    have s: "unat ?A + unat ?z \<le> 0xEA000" using c(2) z1 e by (simp add: word_less_nat_alt unat_sub_le word_le_nat_alt)
    have "unat (?A - 0x1000 + ?z) = unat ?A - 0x1000 + unat ?z" using a s by (subst unat_add_no_wrap) (simp_all add: unat_sub_le word_le_nat_alt)
    then have "unat (?A - 0x1000 + ?z + 0xFF) = unat ?A - 0x1000 + unat ?z + 255" using a s by (subst unat_add_no_wrap) (simp_all add: word_le_nat_alt)
    moreover have "0x1000 \<le> unat ?A" using a by (simp add: word_le_nat_alt)
    moreover have "?A - 0x1000 + ?z + 256 - 1 = ?A - 0x1000 + ?z + 0xFF" by simp
    ultimately show ?thesis using z s by (simp only:) (simp add: unat_gt_0)
  qed
  show "0 < unat (uf2_init b m)" "unat (uf2_init b m) \<le> 3728" using ok unfolding i by (auto simp: unat_div div_le_mono)
  assume h: "0x1000 \<le> unat ?A" "0 < sz" "unat ?A + sz \<le> 0xEA000" "sz = unat ?z"
  have "?z \<noteq> 0" using h by auto
  then have "?A - 0x1000 < 0xE9000" "?z - 1 < 0xEA000 - ?A" using h
    by (simp_all add: word_less_nat_alt unat_sub_le word_le_nat_alt unat_minus_one)
  then show "unat (uf2_init b m) = (unat ?A - 0x1000 + sz + 255) div 256" unfolding i h(4) using ok by (simp add: unat_div)
qed

lemma concat_payloads:
  "concat (map (\<lambda>i. rd_bytes m (0x1000 + of_nat (256 * i)) 256) [0..<n]) = rd_bytes m 0x1000 (256 * n)"
proof (induction n)
  case (Suc n)
  have "256 * Suc n = 256 * n + 256" by simp
  then show ?case using Suc rd_bytes_append [where n = "256 * n" and k = 256] by (simp del: mult_Suc_right)
qed simp

lemma current_sector_block:
  assumes "unat secs \<le> 3728" "i < unat secs" and bl_def: "bl = uf2_block_of_bytes (current_sector b m secs i)"
  shows "is_uf2_block bl" "block_kind b bl = Some UF2_UPDATE_KIND_APPLICATION" "unat (blockNo bl) = i" "bl_numBlocks bl = secs"
    "unat (targetAddr bl) = 0x1000 + 256 * i" "take 256 (bl_data bl) = rd_bytes m (0x1000 + of_nat (256 * i)) 256"
proof -
  note sb = uf2_sector_block [of "rd_bytes m (0x1000 + of_nat (256 * i)) 256" "board_id b" "0x1000 + of_nat (256 * i)" "of_nat i" secs, simplified]
  note bl = bl_def current_sector_def sb
  have u: "unat (of_nat (256 * i) :: u32) = 256 * i" using assms(1,2) by (intro unat_of_nat_u32) simp
  then have ta: "unat (0x1000 + of_nat (256 * i) :: u32) = 0x1000 + 256 * i" using assms(1,2) by (subst unat_add_no_wrap) simp_all
  then have al: "(0x1000 + of_nat (256 * i) :: u32) AND 255 = 0" unfolding aligned256_iff ta by simp
  show "is_uf2_block bl" using al by (simp add: bl is_uf2_block_def UF2_FLAG_FAMILYID_def UF2_FLAG_NOFLASH_def)
  show "block_kind b bl = Some UF2_UPDATE_KIND_APPLICATION" by (simp add: bl block_kind_def)
  show "unat (blockNo bl) = i" using assms(1,2) by (simp add: bl unat_of_nat_u32)
  show "bl_numBlocks bl = secs" "take 256 (bl_data bl) = rd_bytes m (0x1000 + of_nat (256 * i)) 256" by (simp_all add: bl)
  show "unat (targetAddr bl) = 0x1000 + 256 * i" using ta by (simp add: bl)
qed

lemma current_echo:
  assumes "unat secs \<le> 3728" "i < unat secs" "\<not> aborted w"
  shows "write_block b ram secs (CURRENT_UF2_FIRST_LBA + of_nat i) dat (w, n) = Some (512, w, n)"
proof -
  have v: "unat (of_nat i :: u32) = i" using assms by (intro unat_of_nat_u32) simp
  have u: "unat (523 + of_nat i :: u32) = 523 + i" using assms(1,2) v by (subst unat_add_no_wrap) simp_all
  have "(of_nat i :: u32) < secs" using assms(2) v by (simp add: word_less_nat_alt)
  with u have "uf2_current_lba_is_synthetic (523 + of_nat i) 523 secs" by (simp add: uf2_current_lba_is_synthetic_def word_less_nat_alt)
  then show ?thesis using assms(3) by (simp add: write_block_def Let_def CURRENT_UF2_FIRST_LBA_def)
qed

text \<open>
  C13. The volume is a FAT16 file system with three files.  A reader that follows the directory and the cluster chains gets the two
  texts of the build and \<open>CURRENT.UF2\<close>, a UF2 file whose blocks are numbered in order, name this board's application family and
  carry the flash from the end of the MBR on: every byte of an application whose size the settings record, and less than one
  block more.  Writing to the sectors of that file changes nothing.
\<close>

theorem uf2_volume_roundtrip:
  fixes m :: flash
  assumes "b_chip b = NRF52840" "length (v_info v) < 512" "length (v_index v) < 512"
  defines "secs \<equiv> uf2_init b m"
  defines "rd \<equiv> read_block v b m secs" and "A \<equiv> unat (CODE_REGION_1_START m)"
    and "z \<equiv> unat (bs_bank_0_size (bootloader_util_settings_get b m))"
  shows "read_file rd (ascii ''INFO_UF2TXT'') = Some (v_info v) \<and> read_file rd (ascii ''INDEX   HTM'') = Some (v_index v) \<and>
    (\<exists>bls. read_file rd (ascii ''CURRENT UF2'') = Some (concat bls) \<and> length bls = unat secs \<and> list_all (\<lambda>d. length d = 512) bls \<and>
      (\<forall>i<length bls. let bl = uf2_block_of_bytes (bls ! i)
         in is_uf2_block bl \<and> block_kind b bl = Some UF2_UPDATE_KIND_APPLICATION \<and> unat (blockNo bl) = i \<and> bl_numBlocks bl = secs \<and>
            unat (targetAddr bl) = 0x1000 + 256 * i) \<and>
      concat (map (\<lambda>d. take 256 (bl_data (uf2_block_of_bytes d))) bls) = rd_bytes m 0x1000 (256 * unat secs)) \<and>
    (0x1000 \<le> A \<and> 0 < z \<and> A + z \<le> 0xEA000 \<longrightarrow> A + z \<le> 0x1000 + 256 * unat secs \<and> 0x1000 + 256 * unat secs < A + z + 256) \<and>
    (\<forall>i<unat secs. \<forall>ram dat w n. \<not> aborted w \<longrightarrow> write_block b ram secs (CURRENT_UF2_FIRST_LBA + of_nat i) dat (w, n) = Some (512, w, n))"
proof -
  have s: "0 < unat secs" "unat secs \<le> 3728" using uf2_init_extent(1,2) [OF assms(1), of m] by (simp_all add: secs_def)
  then have f: "unat secs \<le> 0xF000" "secs \<noteq> 0" by auto
  have texts: "read_file rd (ascii ''INFO_UF2TXT'') = Some (v_info v)" "read_file rd (ascii ''INDEX   HTM'') = Some (v_index v)"
    using read_info_file [OF f(1) assms(2,3)] by (simp_all add: rd_def)
  have "concat (map (\<lambda>d. take 256 (bl_data (uf2_block_of_bytes d))) (map (current_sector b m secs) [0..<unat secs])) = rd_bytes m 0x1000 (256 * unat secs)"
    unfolding concat_payloads [symmetric] map_map comp_def
    using current_sector_block(6) [OF s(2) _ refl] by (intro arg_cong [of _ _ concat] map_cong) simp_all
  then have cur: "\<exists>bls. read_file rd (ascii ''CURRENT UF2'') = Some (concat bls) \<and> length bls = unat secs \<and> list_all (\<lambda>d. length d = 512) bls \<and>
      (\<forall>i<length bls. let bl = uf2_block_of_bytes (bls ! i)
         in is_uf2_block bl \<and> block_kind b bl = Some UF2_UPDATE_KIND_APPLICATION \<and> unat (blockNo bl) = i \<and> bl_numBlocks bl = secs \<and>
            unat (targetAddr bl) = 0x1000 + 256 * i) \<and>
      concat (map (\<lambda>d. take 256 (bl_data (uf2_block_of_bytes d))) bls) = rd_bytes m 0x1000 (256 * unat secs)"
    using read_current_file [OF f, of v b m] current_sector_block(1-5) [OF s(2) _ refl]
    by (intro exI [of _ "map (current_sector b m secs) [0..<unat secs]"]) (simp add: rd_def list_all_iff Let_def)
  have ext: "A + z \<le> 0x1000 + 256 * unat secs \<and> 0x1000 + 256 * unat secs < A + z + 256" if h: "0x1000 \<le> A \<and> 0 < z \<and> A + z \<le> 0xEA000"
  proof -
    have "unat secs = (A - 0x1000 + z + 255) div 256" using uf2_init_extent(3) [OF assms(1), of m z] h by (simp add: secs_def A_def z_def)
    then show ?thesis using h by linarith
  qed
  have echo: "write_block b ram secs (CURRENT_UF2_FIRST_LBA + of_nat i) dat (w, n) = Some (512, w, n)" if "i < unat secs" "\<not> aborted w" for i ram dat w n
    by (rule current_echo [OF s(2) that])
  show ?thesis using texts cur ext echo by blast
qed

section \<open>READ10\<close>

lemma boot_block_length: "length (boot_block_bytes (BootBlock v)) = 62"
  by (simp add: boot_block_bytes_def BootBlock_def ascii_def)

lemma root_dir_length: "length (concat (map dir_entry_bytes (root_dir_entries v b secs k))) \<le> 512"
proof (cases k)
  case 0
  show ?thesis by (rule root_entries [of v b secs]) (simp add: 0 dir_entry_fields)
next
  case (Suc k')
  then have "root_dir_entries v b secs k = []" by (simp add: root_dir_entries_def NUM_FILES_def)
  then show ?thesis by simp
qed

lemma fat_sector_length: "length (fat_sector secs idx) = 512"
  unfolding fat_sector_def Let_def by (subst length_concat_blocks [where k = 2]) (auto simp: memcpy_at_length)

lemma read_block_length:
  assumes "length (v_info v) < 512" "length (v_index v) < 512"
  shows "length (read_block v b m secs blk) = 512"
  using assms root_dir_length [of v b secs "unat (blk - 517)"]
  by (simp add: read_block_def Let_def memcpy_at_length boot_block_length fat_sector_length current_block_def
      UF2_FIRMWARE_BYTES_PER_SECTOR_def)

lemma read10_loop_eq:
  assumes "unat bufsize = unat count + 512 * k"
  shows "read10_loop v b m secs bufsize count lba = Some (bufsize, concat (map (\<lambda>i. read_block v b m secs (lba + of_nat i)) [0..<k]))"
  using assms
proof (induction k arbitrary: count lba)
  case 0
  then have "count = bufsize" by (simp add: word_unat_eq_iff)
  then show ?case by (subst read10_loop.simps) simp
next
  case (Suc k)
  have u: "unat (count + 512) = unat count + 512" using Suc.prems unat_u32_lt [of bufsize] by (intro trans [OF unat_add_no_wrap]) simp_all
  have lt: "count < bufsize" using Suc.prems by (simp add: word_less_nat_alt)
  have e: "concat (map (\<lambda>i. read_block v b m secs (lba + of_nat i)) [0..<Suc k]) =
      read_block v b m secs lba @ concat (map (\<lambda>i. read_block v b m secs (lba + 1 + of_nat i)) [0..<k])"
    unfolding upt_conv_Cons [OF zero_less_Suc] map_Suc_upt [symmetric] by (simp add: comp_def add.assoc)
  have "read10_loop v b m secs bufsize (count + 512) (lba + 1) = Some (bufsize, concat (map (\<lambda>i. read_block v b m secs (lba + 1 + of_nat i)) [0..<k]))"
    using Suc.prems u by (intro Suc.IH) simp
  then show ?case using lt unfolding e by (subst read10_loop.simps) simp
qed

text \<open>
  C35. A read command always ends.  A request for a partial sector is refused; for whole sectors the loop ends after exactly
  the sectors that fit the buffer and fills it with their contents, although its 32-bit byte counter could wrap past the bound
  for other sizes.
\<close>

theorem read10_terminates:
  assumes "length (v_info v) < 512" "length (v_index v) < 512"
  shows "\<exists>r dat. tud_msc_read10_cb v b m secs lba offset bufsize = Some (r, dat) \<and>
    (if offset = 0 \<and> 512 dvd unat bufsize
     then r = sint bufsize \<and> length dat = unat bufsize \<and>
       (\<forall>i<unat bufsize div 512. take 512 (drop (512 * i) dat) = read_block v b m secs (lba + of_nat i))
     else r = -1 \<and> dat = [])"
proof (cases "offset = 0 \<and> 512 dvd unat bufsize")
  case True
  then obtain k where k: "unat bufsize = 512 * k" by blast
  let ?f = "\<lambda>i. read_block v b m secs (lba + of_nat i)"
  have m: "bufsize mod 512 = 0" using k by (simp add: word_unat_eq_iff unat_mod)
  have l: "length (?f i) = 512" for i using read_block_length [OF assms] .
  have "tud_msc_read10_cb v b m secs lba offset bufsize = Some (sint bufsize, concat (map ?f [0..<k]))"
    using read10_loop_eq [of bufsize 0 k] k True m by (simp add: tud_msc_read10_cb_def)
  moreover have "length (concat (map ?f [0..<k])) = unat bufsize" unfolding k by (rule length_concat_blocks) (rule l)
  moreover have "take 512 (drop (512 * i) (concat (map ?f [0..<k]))) = ?f i" if "i < k" for i
    using drop_concat_blocks [of k ?f 512 i] that l by simp
  ultimately show ?thesis using True k by simp
next
  case False
  then have "\<not> (offset = 0 \<and> bufsize mod 512 = 0)" by (auto simp: word_unat_eq_iff unat_mod mod_eq_0_iff_dvd)
  then show ?thesis using False unfolding tud_msc_read10_cb_def by (intro exI [of _ "-1"] exI [of _ "[]"]) auto
qed

section \<open>Timestamps\<close>

text \<open>The time word of a FAT directory entry: hours, minutes, and seconds in units of two.\<close>

definition fat_time :: "u32 \<Rightarrow> u32 \<Rightarrow> u32 \<Rightarrow> u32" where
  "fat_time h mi se = push_bit 11 h OR push_bit 5 mi OR se div 2"

text \<open>
  The time word of \<open>compile_date.h\<close> holds the seconds themselves, not their half: it is the time of compilation only when the
  seconds are zero.
\<close>

lemma seconds_halved: "(x :: nat) mod 32 = x div 2 mod 32 \<Longrightarrow> x < 60 \<Longrightarrow> x = 0"
proof -
  assume e: "x mod 32 = x div 2 mod 32" and x: "x < 60"
  have "x div 2 mod 32 = x div 2" "x mod 32 = (if x < 32 then x else x - 32)" using x by (simp_all add: mod_if)
  with e x show "x = 0" by (cases "x < 32") (simp; linarith)+
qed

lemma dostime_wrong_seconds:
  assumes "HOUR_INT t < 24" "MINUTE_INT t < 60" "SECONDS_INT t < 60"
  shows "DOSTIME t = fat_time (HOUR_INT t) (MINUTE_INT t) (SECONDS_INT t) \<longleftrightarrow> SECONDS_INT t = 0"
proof
  assume e: "DOSTIME t = fat_time (HOUR_INT t) (MINUTE_INT t) (SECONDS_INT t)"
  have z: "take_bit 5 (push_bit 11 x OR push_bit 5 y OR w) = take_bit 5 w" for x y w :: u32
    by (rule bit_word_eqI) (auto simp: bit_simps)
  have b: "take_bit 5 (SECONDS_INT t) = take_bit 5 (SECONDS_INT t div 2)"
    using arg_cong [OF e, of "take_bit 5"] by (simp only: DOSTIME_def fat_time_def z)
  have "unat (SECONDS_INT t) mod 32 = unat (SECONDS_INT t) div 2 mod 32"
  proof -
    have "unat (take_bit 5 (SECONDS_INT t)) = unat (take_bit 5 (SECONDS_INT t div 2))" by (simp only: b)
    then show ?thesis by (simp add: take_bit_eq_mod unat_div unat_mod)
  qed
  moreover have "unat (SECONDS_INT t) < 60" using assms(3) by (simp add: word_less_nat_alt)
  ultimately have "unat (SECONDS_INT t) = 0" using seconds_halved by blast
  then show "SECONDS_INT t = 0" by (simp add: unat_eq_zero)
qed (simp add: DOSTIME_def fat_time_def)

section \<open>A sample volume\<close>

definition sample_volume :: volume where
  "sample_volume = \<lparr>v_compact = True, v_label = ascii ''RAK4631'', v_info = ascii ''UF2'', v_index = ascii ''<script>'', v_date = ''Jan  2 2025'',
     v_time = ''12:34:40''\<rparr>"

lemma sample_volume_texts: "length (v_info sample_volume) < 512" "length (v_index sample_volume) < 512"
  by (simp_all add: sample_volume_def ascii_def)

theorem uf2_volume_roundtrip_witness:
  "read_file (read_block sample_volume internal_build (\<lambda>_. 0xFF) (uf2_init internal_build (\<lambda>_. 0xFF))) (ascii ''INFO_UF2TXT'') = Some (ascii ''UF2'')"
  using uf2_volume_roundtrip [OF _ sample_volume_texts, of internal_build "\<lambda>_. 0xFF"]
  by (simp add: internal_build_def sample_volume_def)

theorem read10_terminates_witness:
  "\<exists>dat. tud_msc_read10_cb sample_volume internal_build (\<lambda>_. 0xFF) 3728 0 0 1024 = Some (1024, dat) \<and> length dat = 1024"
  using read10_terminates [OF sample_volume_texts, of internal_build "\<lambda>_. 0xFF" 3728 0 0 1024] by auto

lemma dostime_sample: "DOSTIME ''12:34:40'' = fat_time 12 35 16"
  by code_simp

end
