(* ===== verification/Uf2_Backup.thy ===== *)
theory Uf2_Backup
  imports Uf2_Read
begin

text \<open>
  The two sides of the UF2 volume together: a \<open>CURRENT.UF2\<close> saved from one device and copied to a device with the same SoftDevice
  restores the application.
\<close>

lemma vectors_ok_longer:
  assumes "img_vectors_ok ram A img" "8 \<le> length img" shows "img_vectors_ok ram A (img @ xs)"
  using assms by (auto simp: img_vectors_ok_def Let_def rd_u32_def nth_append)

text \<open>The dump is a file of matching blocks followed by the application.\<close>

lemma current_sector_file:
  assumes A: "CODE_REGION_1_START m = CODE_REGION_1_START m0" "unat (CODE_REGION_1_START m0) = 0x1000 + 256 * p"
    and same: "\<And>x. 0x1000 \<le> unat x \<Longrightarrow> unat x < unat (CODE_REGION_1_START m0) \<Longrightarrow> m x = m0 x"
    and s: "unat secs = p + k" "p + k \<le> 3728" and i: "i < p + k"
  shows "current_sector b m secs i = file_sector m0 (board_id b) p k (rd_bytes m (CODE_REGION_1_START m0) (256 * k)) i"
proof -
  let ?A = "CODE_REGION_1_START m0"
  have Aw: "?A = 0x1000 + of_nat (256 * p)"
  proof -
    have "unat (of_nat (256 * p) :: u32) = 256 * p" using s(2) by (intro unat_of_nat_u32) simp
    then have "unat (0x1000 + of_nat (256 * p) :: u32) = 0x1000 + 256 * p" using s(2) by (subst unat_add_no_wrap) simp_all
    then show ?thesis using A(2) by (simp add: word_unat_eq_iff)
  qed
  have sw: "secs = of_nat (p + k)" using s(1) by (metis of_nat_unat ucast_id)
  show ?thesis
  proof (cases "i < p")
    case True
    have fb: "file_base m0 p = 0x1000" by (simp add: file_base_def Aw)
    have "m (0x1000 + of_nat (256 * i) + of_nat j) = m0 (0x1000 + of_nat (256 * i) + of_nat j)" if "j < 256" for j
    proof (rule same)
      have "unat (of_nat (256 * i + j) :: u32) = 256 * i + j" using True s(2) that by (intro unat_of_nat_u32) simp
      then have "unat (0x1000 + of_nat (256 * i + j) :: u32) = 0x1000 + (256 * i + j)" using True s(2) that by (subst unat_add_no_wrap) simp_all
      then have u: "unat (0x1000 + of_nat (256 * i) + of_nat j :: u32) = 0x1000 + 256 * i + j" by (simp add: add.assoc)
      show "0x1000 \<le> unat (0x1000 + of_nat (256 * i) + of_nat j :: u32)" using u by simp
      have "256 * i + j < 256 * p" using True that by simp
      then show "unat (0x1000 + of_nat (256 * i) + of_nat j :: u32) < unat ?A" using u A(2) by simp
    qed
    then have "rd_bytes m (0x1000 + of_nat (256 * i)) 256 = rd_bytes m0 (0x1000 + of_nat (256 * i)) 256" by (intro rd_bytes_cong)
    then show ?thesis using True by (simp add: current_sector_def file_sector_def sd_sector_def fb sw)
  next
    case False
    then obtain j where j: "i = p + j" "j < k" using i by (metis add_diff_inverse_nat nat_add_left_cancel_less)
    have ad: "?A + of_nat (256 * j) = 0x1000 + of_nat (256 * i)" unfolding Aw j by simp
    have "img_block (rd_bytes m ?A (256 * k)) j = rd_bytes m (?A + of_nat (256 * j)) 256"
      using j(2) by (simp add: img_block_def drop_rd_bytes take_rd_bytes)
    moreover have "i - p = j" "\<not> i < p" using j by simp_all
    ultimately show ?thesis unfolding current_sector_def file_sector_def app_sector_def ad sw using j(1) by (simp only: ad if_False)
  qed
qed

text \<open>
  C12. \<open>CURRENT.UF2\<close> is a backup.  Take the file a host reads from one device whose settings record the size of its application, and
  write its sectors in order, outside the extent of \<open>CURRENT.UF2\<close> there, to a device with the same SoftDevice and whatever
  application.  Every sector is taken, the transfer is validated, and the application region of the second device then holds the
  application of the first.
\<close>

theorem current_file_restores:
  fixes m :: flash and lba :: "nat \<Rightarrow> u32"
  assumes "b_chip b = NRF52840" "uf2_window m0" "CODE_REGION_1_START m = CODE_REGION_1_START m0"
    and same: "\<forall>x. 0x1000 \<le> unat x \<and> unat x < unat (CODE_REGION_1_START m0) \<longrightarrow> m x = m0 x"
    and z: "8 \<le> z" "unat (CODE_REGION_1_START m0) + z \<le> 0xEA000" "z = unat (bs_bank_0_size (bootloader_util_settings_get b m))"
    and vec: "img_vectors_ok ram (CODE_REGION_1_START m) (rd_bytes m (CODE_REGION_1_START m) z)"
    and lba: "\<forall>j<unat (uf2_init b m). \<not> uf2_current_lba_is_synthetic (lba j) CURRENT_UF2_FIRST_LBA secs"
  shows "\<exists>bls w n. read_file (read_block v b m (uf2_init b m)) (ascii ''CURRENT UF2'') = Some (concat bls) \<and> list_all (\<lambda>d. length d = 512) bls \<and>
    write_sectors b ram secs (map (\<lambda>i. (lba i, bls ! i)) [0..<length bls])
      (uf2_transfer_reset (b_chip b), \<lparr>nv_mem = m0, fl_addr = FLASH_CACHE_INVALID_ADDR, fl_buf = buf\<rparr>) = Some (w, n) \<and>
    appValidated w \<and> \<not> aborted w \<and> appStart w = CODE_REGION_1_START m \<and> z \<le> unat (appSize w) \<and> unat (appSize w) < z + 256 \<and>
    rd_bytes (nv_mem n) (CODE_REGION_1_START m) z = rd_bytes m (CODE_REGION_1_START m) z"
proof -
  let ?A = "CODE_REGION_1_START m0" and ?s = "uf2_init b m"
  have win: "4096 dvd unat ?A" "0x4000 \<le> unat ?A" using assms(2) by (simp_all add: uf2_window_def)
  obtain q where q: "unat ?A = 256 * q" by (rule page_blocks [OF win(1)])
  define p where "p = q - 16"
  have p: "unat ?A = 0x1000 + 256 * p" using q win(2) by (simp add: p_def)
  have sz: "unat ?s = (256 * p + z + 255) div 256" using uf2_init_extent(3) [OF assms(1), of m z] p z assms(3) by simp
  define k where "k = unat ?s - p"
  have sk: "unat ?s = p + k" using sz by (simp add: k_def)
  have k: "z \<le> 256 * k" "256 * k < z + 256" using sz sk by linarith+
  have lim: "p + k \<le> 3728" using uf2_init_extent(2) [OF assms(1), of m] sk by simp
  define img where "img = rd_bytes m ?A (256 * k)"
  have img: "length img = 256 * k" "img = rd_bytes m ?A z @ rd_bytes m (?A + of_nat z) (256 * k - z)"
    using rd_bytes_append [of m ?A z "256 * k - z"] k(1) by (simp_all add: img_def)
  have sd: "sendable b m0 (board_id b) p k img" using assms(1,2) img(1) p lim k(1) z(1) by (simp add: sendable_def)
  have v: "img_vectors_ok ram ?A img" unfolding img(2) using vec z(1) by (intro vectors_ok_longer) (simp_all add: assms(3))
  have bl: "current_sector b m ?s i = file_sector m0 (board_id b) p k img i" if "i < p + k" for i
    unfolding img_def by (rule current_sector_file [OF assms(3) p _ sk lim that]) (use same in blast)
  let ?bls = "map (current_sector b m ?s) [0..<p + k]"
  have eq: "map (\<lambda>i. (lba i, ?bls ! i)) [0..<length ?bls] = map (\<lambda>i. (lba i, file_sector m0 (board_id b) p k img i)) [0..<p + k]"
    using bl by (intro nth_equalityI) simp_all
  have lba': "\<forall>j<p + k. \<not> uf2_current_lba_is_synthetic (lba j) CURRENT_UF2_FIRST_LBA secs" using lba sk by simp
  obtain w n where w: "write_sectors b ram secs (map (\<lambda>i. (lba i, ?bls ! i)) [0..<length ?bls])
      (uf2_transfer_reset (b_chip b), \<lparr>nv_mem = m0, fl_addr = FLASH_CACHE_INVALID_ADDR, fl_buf = buf\<rparr>) = Some (w, n)" "sent b ram m0 p k img k w n"
    unfolding eq using send_file [OF sd v lba'] by blast
  note a = sent_all [OF sd w(2)]
  have "rd_bytes (nv_mem n) ?A z = take z (rd_bytes (nv_mem n) ?A (length img))" using k(1) img(1) by (simp add: take_rd_bytes)
  also have "\<dots> = rd_bytes m ?A z" unfolding a(4) using img(2) by simp
  finally have r: "rd_bytes (nv_mem n) ?A z = rd_bytes m ?A z" .
  have nz: "unat ?s \<le> 0xF000" "?s \<noteq> 0" using lim sk k(1) z(1) by auto
  have "read_file (read_block v b m ?s) (ascii ''CURRENT UF2'') = Some (concat ?bls)" using read_current_file [OF nz, of v b m] sk by simp
  moreover have "list_all (\<lambda>d. length d = 512) ?bls" by (simp add: list_all_iff)
  ultimately show ?thesis using w(1) a(1,2,3) sentD(2) [OF w(2)] r k img(1) assms(3) by (intro exI [of _ ?bls] exI [of _ w] exI [of _ n]) simp
qed

section \<open>A sample backup\<close>

text \<open>A device with an application of sixteen bytes, restored to the empty sample device.\<close>

definition backup_flash :: flash where
  "backup_flash = (\<lambda>x. if x = 0xFF008 then 16 else if 0xFF009 \<le> x \<and> x < 0xFF00C then 0
     else if 0x26000 \<le> x \<and> x < 0x26010 then uf2_sample_image ! unat (x - 0x26000) else uf2_sample_flash x)"

lemma backup_base: "CODE_REGION_1_START backup_flash = 0x26000"
  by (simp add: CODE_REGION_1_START_def is_sd_existed_def SD_SIZE_GET_def rd_word_def rd_bytes_def rd_u32_def uf2_sample_flash_def
      backup_flash_def layout_simps upt_conv_Cons)

lemma backup_size: "bs_bank_0_size (bootloader_util_settings_get internal_build backup_flash) = 16"
  by (simp add: bootloader_util_settings_get_def settings_of_bytes_def drop_rd_bytes internal_build_def layout_simps
      rd_u32_def backup_flash_def)

lemma backup_vectors: "img_vectors_ok 256 0x26000 (rd_bytes backup_flash 0x26000 16)"
  by (simp add: img_vectors_ok_def rd_u32_def drop_rd_bytes backup_flash_def uf2_sample_image_def wr_u32_def)

theorem current_file_restores_witness:
  "\<exists>bls w n. read_file (read_block sample_volume internal_build backup_flash (uf2_init internal_build backup_flash)) (ascii ''CURRENT UF2'') = Some (concat bls) \<and>
    write_sectors internal_build 256 0 (map (\<lambda>i. (0, bls ! i)) [0..<length bls])
      (uf2_transfer_reset NRF52840, \<lparr>nv_mem = uf2_sample_flash, fl_addr = FLASH_CACHE_INVALID_ADDR, fl_buf = []\<rparr>) = Some (w, n) \<and>
    appValidated w \<and> rd_bytes (nv_mem n) 0x26000 16 = rd_bytes backup_flash 0x26000 16"
proof -
  have same: "\<forall>x. 0x1000 \<le> unat x \<and> unat x < unat (CODE_REGION_1_START uf2_sample_flash) \<longrightarrow> backup_flash x = uf2_sample_flash x"
    by (simp add: uf2_sample_base backup_flash_def word_less_nat_alt word_le_nat_alt)
  have base: "CODE_REGION_1_START backup_flash = CODE_REGION_1_START uf2_sample_flash" by (simp add: backup_base uf2_sample_base)
  have z: "8 \<le> (16 :: nat)" "unat (CODE_REGION_1_START uf2_sample_flash) + 16 \<le> 0xEA000"
    "16 = unat (bs_bank_0_size (bootloader_util_settings_get internal_build backup_flash))" by (simp_all add: backup_size uf2_sample_base)
  have c: "b_chip internal_build = NRF52840" by (simp add: internal_build_def)
  have lba: "\<forall>j<unat (uf2_init internal_build backup_flash). \<not> uf2_current_lba_is_synthetic ((\<lambda>_. 0) j) CURRENT_UF2_FIRST_LBA 0"
    by (simp add: uf2_current_lba_is_synthetic_def)
  from current_file_restores [OF c uf2_sample_window base same z backup_vectors [folded backup_base] lba, of sample_volume "[]"]
  show ?thesis unfolding backup_base c by blast
qed

end
