(* ===== verification/Hci_Pool.thy ===== *)
theory Hci_Pool
  imports Build_Config
begin

text \<open>
  The receive buffer pool of the serial transport (\<open>libraries/hci/hci_mem_pool.c\<close>): a ring of buffers between the SLIP decoder, which
  produces them, and the DFU transport, which extracts and consumes them.  A buffer is named by its index.
\<close>

section \<open>Operations\<close>

definition HCI_RX_BUF_SIZE :: nat where "HCI_RX_BUF_SIZE = 600"
definition HCI_RX_BUF_QUEUE_SIZE :: u32 where "HCI_RX_BUF_QUEUE_SIZE = 16"

record rx_buffer_queue =
  free_window_count :: u32
  free_available_count :: u32
  read_available_count :: u32
  write_index :: u32
  read_index :: u32
  free_index :: u32
  rx_length :: "u32 \<Rightarrow> u32"     \<comment> \<open>\<open>p_buffer[i].length\<close>\<close>
  m_is_tx_allocated :: bool

definition ring :: "u32 \<Rightarrow> u32" where
  "ring i = i AND (HCI_RX_BUF_QUEUE_SIZE - 1)"

definition hci_mem_pool_open :: "rx_buffer_queue \<Rightarrow> rx_buffer_queue" where
  "hci_mem_pool_open q = q\<lparr>m_is_tx_allocated := False, free_window_count := HCI_RX_BUF_QUEUE_SIZE, free_available_count := 0,
     read_available_count := 0, write_index := 0, read_index := 0, free_index := 0\<rparr>"

definition hci_mem_pool_tx_alloc :: "rx_buffer_queue \<Rightarrow> nrf_error \<times> rx_buffer_queue" where
  "hci_mem_pool_tx_alloc q = (if \<not> m_is_tx_allocated q then (NRF_SUCCESS, q\<lparr>m_is_tx_allocated := True\<rparr>) else (NRF_ERROR_NO_MEM, q))"

definition hci_mem_pool_tx_free :: "rx_buffer_queue \<Rightarrow> rx_buffer_queue" where
  "hci_mem_pool_tx_free q = q\<lparr>m_is_tx_allocated := False\<rparr>"

text \<open>The produced buffer, or \<open>None\<close> for the null pointer, with the error code.\<close>

definition hci_mem_pool_rx_produce :: "nat \<Rightarrow> rx_buffer_queue \<Rightarrow> nrf_error \<times> u32 option \<times> rx_buffer_queue" where
  "hci_mem_pool_rx_produce len q =
     (if free_window_count q \<noteq> 0
      then if len \<le> HCI_RX_BUF_SIZE
           then (NRF_SUCCESS, Some (write_index q),
                 q\<lparr>free_window_count := free_window_count q - 1, read_available_count := read_available_count q + 1,
                   free_index := free_index q OR push_bit (unat (write_index q)) 1, write_index := ring (write_index q + 1)\<rparr>)
           else (NRF_ERROR_DATA_SIZE, None, q)
      else (NRF_ERROR_NO_MEM, None, q))"

text \<open>
  The search of \<open>hci_mem_pool_rx_consume\<close>, in at most one turn of the ring: the index where it stopped and whether it found the buffer.
\<close>

fun consume_search :: "nat \<Rightarrow> u32 \<Rightarrow> u32 \<Rightarrow> u32 \<Rightarrow> (u32 \<times> bool) option" where
  "consume_search 0 read buf i = None"
| "consume_search (Suc n) read buf i =
     (if i = buf then Some (i, True)
      else let i = ring (i + 1) in if i \<noteq> read then consume_search n read buf i else Some (i, False))"

function consume_release :: "u32 \<Rightarrow> u32 \<Rightarrow> rx_buffer_queue \<Rightarrow> rx_buffer_queue" where
  "consume_release consume_index start_index q =
     (if free_index q AND push_bit (unat start_index) 1 = 0 \<and> free_available_count q \<noteq> 0
      then consume_release consume_index (ring (consume_index + 1))
             (q\<lparr>free_available_count := free_available_count q - 1, free_window_count := free_window_count q + 1\<rparr>)
      else q)"
  by pat_completeness auto
termination
  by (relation "measure (\<lambda>(c, s, q). unat (free_available_count q))") (auto simp: unat_minus_one unat_gt_0)

declare consume_release.simps [simp del]

definition hci_mem_pool_rx_consume :: "u32 \<Rightarrow> rx_buffer_queue \<Rightarrow> (nrf_error \<times> rx_buffer_queue) option" where
  "hci_mem_pool_rx_consume buf q =
     (if free_available_count q \<noteq> 0
      then let start_index = ring (read_index q - free_available_count q)
           in case consume_search (unat HCI_RX_BUF_QUEUE_SIZE) (read_index q) buf start_index of
                None \<Rightarrow> None
              | Some (consume_index, found) \<Rightarrow>
                  let q = (if found then q\<lparr>free_index := free_index q XOR push_bit (unat consume_index) 1\<rparr> else q)
                  in Some (if found then NRF_SUCCESS else NRF_ERROR_INVALID_ADDR, consume_release consume_index start_index q)
      else Some (NRF_ERROR_NO_MEM, q))"

definition hci_mem_pool_rx_data_size_set :: "u32 \<Rightarrow> rx_buffer_queue \<Rightarrow> rx_buffer_queue" where
  "hci_mem_pool_rx_data_size_set len q = q\<lparr>rx_length := (rx_length q)(ring (write_index q - 1) := len)\<rparr>"

definition hci_mem_pool_rx_extract :: "rx_buffer_queue \<Rightarrow> nrf_error \<times> (u32 \<times> u32) option \<times> rx_buffer_queue" where
  "hci_mem_pool_rx_extract q =
     (if read_available_count q \<noteq> 0
      then (NRF_SUCCESS, Some (read_index q, rx_length q (read_index q)),
            q\<lparr>read_available_count := read_available_count q - 1, free_available_count := free_available_count q + 1,
              read_index := ring (read_index q + 1)\<rparr>)
      else (NRF_ERROR_NO_MEM, None, q))"

section \<open>The ring as a queue\<close>

text \<open>
  \<open>t\<close> buffers extracted and not yet consumed, then \<open>r\<close> produced and not yet extracted, from index \<open>s\<close> on; the bits of \<open>free_index\<close>
  are the buffers in use.
\<close>

definition pool_rep :: "rx_buffer_queue \<Rightarrow> nat \<Rightarrow> nat \<Rightarrow> nat \<Rightarrow> bool" where
  "pool_rep q s t r \<longleftrightarrow> s < 16 \<and> t + r \<le> 16 \<and> unat (read_index q) = (s + t) mod 16 \<and> unat (write_index q) = (s + t + r) mod 16 \<and>
     unat (free_available_count q) = t \<and> unat (read_available_count q) = r \<and> unat (free_window_count q) = 16 - (t + r) \<and>
     (\<forall>i<16. bit (free_index q) i \<longleftrightarrow> (i + 16 - s) mod 16 < t + r)"

lemma unat_ring: "unat (ring x) = unat x mod 16"
  using unat_and_mask [of x 4] by (simp add: ring_def HCI_RX_BUF_QUEUE_SIZE_def mask_eq_exp_minus_1)

lemma unat_ring_add: "unat (ring (x + 1)) = (unat x + 1) mod 16"
  by (simp add: unat_ring unat_word_ariths mod_mod_cancel)

lemma bit_single: "i < 32 \<Longrightarrow> bit (2 ^ n :: u32) i \<longleftrightarrow> i = n"
  by (auto simp: bit_exp_iff)

lemma and_single_zero: "w AND 2 ^ n = (0 :: u32) \<longleftrightarrow> \<not> bit w n"
  by (rule and_exp_eq_0_iff_not_bit)

lemma pool_open: "pool_rep (hci_mem_pool_open q) 0 0 0"
  by (simp add: pool_rep_def hci_mem_pool_open_def HCI_RX_BUF_QUEUE_SIZE_def)

lemma mod16: "(n :: nat) < 32 \<Longrightarrow> n mod 16 = (if n < 16 then n else n - 16)"
  by (simp add: le_mod_geq)

lemma mod_offset:
  fixes s i k :: nat assumes "s < 16" "i < 16" "k < 16"
  shows "i = (s + k) mod 16 \<longleftrightarrow> (i + 16 - s) mod 16 = k"
  using assms mod16 [of "s + k"] mod16 [of "i + 16 - s"] by auto

lemma pool_produce:
  assumes "pool_rep q s t r" "t + r < 16" "len \<le> HCI_RX_BUF_SIZE"
  obtains w q' where "hci_mem_pool_rx_produce len q = (NRF_SUCCESS, Some w, q')" "unat w = (s + t + r) mod 16" "pool_rep q' s t (r + 1)" "w = write_index q" "rx_length q' = rx_length q"
proof -
  note a = assms(1) [unfolded pool_rep_def]
  have ne: "free_window_count q \<noteq> 0" using a assms(2) by auto
  have w: "unat (free_window_count q - 1) = 16 - (t + r) - 1" using ne a by (simp add: unat_minus_one)
  have r: "unat (read_available_count q + 1) = r + 1" using a by (simp add: unat_word_ariths)
  have u: "unat (write_index q) < 16" using a by simp
  let ?q = "q\<lparr>free_window_count := free_window_count q - 1, read_available_count := read_available_count q + 1,
      free_index := free_index q OR push_bit (unat (write_index q)) 1, write_index := ring (write_index q + 1)\<rparr>"
  have b: "bit (free_index ?q) i \<longleftrightarrow> (i + 16 - s) mod 16 < t + (r + 1)" if i: "i < 16" for i
  proof -
    have "bit (free_index ?q) i \<longleftrightarrow> (i + 16 - s) mod 16 < t + r \<or> i = (s + (t + r)) mod 16"
      using a i by (simp add: bit_or_iff bit_single add.assoc)
    then show ?thesis using mod_offset [of s i "t + r"] a assms(2) i by auto
  qed
  have "pool_rep ?q s t (r + 1)"
    using a assms(2) w r b by (simp add: pool_rep_def unat_ring_add mod_simps)
  then show thesis using that [of "write_index q" ?q] ne assms(3) a by (simp add: hci_mem_pool_rx_produce_def)
qed

lemma pool_extract:
  assumes "pool_rep q s t r" "r \<noteq> 0"
  obtains i q' where "hci_mem_pool_rx_extract q = (NRF_SUCCESS, Some (i, rx_length q i), q')" "unat i = (s + t) mod 16" "pool_rep q' s (t + 1) (r - 1)" "rx_length q' = rx_length q"
proof -
  note a = assms(1) [unfolded pool_rep_def]
  have ne: "read_available_count q \<noteq> 0" using a assms(2) by auto
  let ?q = "q\<lparr>read_available_count := read_available_count q - 1, free_available_count := free_available_count q + 1, read_index := ring (read_index q + 1)\<rparr>"
  have "unat (read_available_count q - 1) = r - 1" "unat (free_available_count q + 1) = t + 1" using ne a by (simp_all add: unat_minus_one unat_word_ariths)
  then have "pool_rep ?q s (t + 1) (r - 1)" using a assms(2) by (simp add: pool_rep_def unat_ring_add mod_simps)
  then show thesis using that [of "read_index q" ?q] ne a by (simp add: hci_mem_pool_rx_extract_def)
qed

lemma queue_turn: "unat HCI_RX_BUF_QUEUE_SIZE = 16"
  by (simp add: HCI_RX_BUF_QUEUE_SIZE_def)

lemma search_hit: "consume_search 16 read buf buf = Some (buf, True)"
  by (simp add: numeral_eq_Suc)

lemma pool_consume:
  assumes "pool_rep q s t r" "t \<noteq> 0"
  obtains q' where "hci_mem_pool_rx_consume (of_nat s) q = Some (NRF_SUCCESS, q')" "pool_rep q' ((s + 1) mod 16) (t - 1) r" "rx_length q' = rx_length q"
proof -
  note a = assms(1) [unfolded pool_rep_def]
  have ne: "free_available_count q \<noteq> 0" using a assms(2) by auto
  have st: "ring (read_index q - free_available_count q) = of_nat s"
  proof -
    let ?a = "unat (read_index q)"
    have a1: "?a = (if s + t < 16 then s + t else s + t - 16)" using a mod16 [of "s + t"] by simp
    have "unat (ring (read_index q - free_available_count q)) = (if t \<le> ?a then ?a - t else ?a + 2 ^ 32 - t) mod 16"
      using a by (simp add: unat_ring unat_sub_if_size word_size)
    also have "\<dots> = s"
    proof (cases "t \<le> ?a")
      case True
      then show ?thesis using a a1 by (auto split: if_splits)
    next
      case False
      then have "?a + 2 ^ 32 - t = s + 16 * (2 ^ 28 - 1)" using a a1 by (auto split: if_splits)
      then show ?thesis using False a by (simp only: mod_mult_self2 if_False) simp
    qed
    finally have "unat (ring (read_index q - free_available_count q)) = s" .
    moreover have "unat (of_nat s :: u32) = s" using a by (simp add: unat_of_nat_u32)
    ultimately show ?thesis by (simp add: word_unat_eq_iff)
  qed
  have us: "unat (of_nat s :: u32) = s" using a by (simp add: unat_of_nat_u32)
  define q1 where "q1 = q\<lparr>free_index := free_index q XOR push_bit s 1\<rparr>"
  define q2 where "q2 = q1\<lparr>free_available_count := free_available_count q - 1, free_window_count := free_window_count q + 1\<rparr>"
  have b: "bit (free_index q1) i \<longleftrightarrow> (i + 16 - s) mod 16 < t + r \<and> i \<noteq> s" if i: "i < 16" for i
    using a i mod_offset [of s i 0] assms(2) by (auto simp: q1_def bit_xor_iff bit_single)
  have nb: "\<not> bit (free_index q1) s" using b [of s] a by simp
  have n1: "unat (ring (of_nat s + 1) :: u32) = (s + 1) mod 16" using us by (simp add: unat_ring_add)
  have c2: "unat (free_available_count q2) = t - 1" "unat (free_window_count q2) = 16 - (t + r) + 1" using a ne assms(2)
    by (simp_all add: q2_def unat_minus_one unat_word_ariths)
  have stop: "\<not> (free_index q2 AND push_bit (unat (ring (of_nat s + 1) :: u32)) 1 = 0 \<and> free_available_count q2 \<noteq> 0)"
  proof
    assume "free_index q2 AND push_bit (unat (ring (of_nat s + 1) :: u32)) 1 = 0 \<and> free_available_count q2 \<noteq> 0"
    then have "free_index q2 AND push_bit (unat (ring (of_nat s + 1) :: u32)) 1 = 0" "unat (free_available_count q2) \<noteq> 0" by (simp_all add: unat_eq_zero)
    then have "\<not> bit (free_index q1) ((s + 1) mod 16)" "t \<noteq> 1" using c2(1) by (simp_all add: n1 and_single_zero q2_def)
    moreover have "((s + 1) mod 16 + 16 - s) mod 16 = 1" "(s + 1) mod 16 \<noteq> s" using mod_offset [of s "(s + 1) mod 16" 1] mod16 [of "s + 1"] a by (simp_all split: if_splits)
    ultimately show False using b [of "(s + 1) mod 16"] assms(2) by auto
  qed
  have rel: "consume_release (of_nat s) (of_nat s) q1 = q2"
  proof -
    have "consume_release (of_nat s) (of_nat s) q1 = consume_release (of_nat s) (ring (of_nat s + 1)) q2"
      using nb ne us a by (subst consume_release.simps) (simp add: and_single_zero q2_def q1_def)
    also have "\<dots> = q2" using stop by (subst consume_release.simps) (simp only: if_False)
    finally show ?thesis .
  qed
  have run: "hci_mem_pool_rx_consume (of_nat s) q = Some (NRF_SUCCESS, q2)"
    using ne st us rel by (simp add: hci_mem_pool_rx_consume_def Let_def queue_turn search_hit q1_def)
  obtain t' where t': "t = Suc t'" using assms(2) by (cases t) auto
  have "pool_rep q2 ((s + 1) mod 16) (t - 1) r"
    unfolding pool_rep_def
  proof (intro conjI allI impI)
    fix i :: nat assume i: "i < 16"
    have "bit (free_index q2) i \<longleftrightarrow> (i + 16 - s) mod 16 < t + r \<and> i \<noteq> s" using b [OF i] by (simp add: q2_def)
    also have "\<dots> \<longleftrightarrow> (i + 16 - (s + 1) mod 16) mod 16 < t - 1 + r" using a i assms(2) mod16 [of "i + 16 - s"] mod16 [of "s + 1"] mod16 [of "i + 16 - (s + 1) mod 16"] by (auto split: if_splits)
    finally show "bit (free_index q2) i \<longleftrightarrow> (i + 16 - (s + 1) mod 16) mod 16 < t - 1 + r" .
  qed (use a c2 t' mod_add_left_eq [of "s + 1" 16 "t' + r"] in \<open>auto simp: q2_def q1_def mod_simps add.assoc\<close>)
  then show thesis using that [OF run] by (simp add: q2_def q1_def)
qed


text \<open>One turn of the ring is enough for the search.\<close>

lemma search_turn:
  assumes "unat i < 16" "unat read < 16" "(unat read + 31 - unat i) mod 16 < n"
  shows "consume_search n read buf i \<noteq> None"
  using assms
proof (induction n arbitrary: i)
  case (Suc n)
  let ?i = "ring (i + 1)"
  have ui: "unat ?i = (unat i + 1) mod 16" by (rule unat_ring_add)
  have "(unat read + 31 - unat ?i) mod 16 < n" if "?i \<noteq> read"
  proof -
    have ne: "unat ?i \<noteq> unat read" using that by (simp add: word_unat_eq_iff)
    have "(unat read + 31 - unat i) mod 16 = (if unat i < unat read then unat read - unat i - 1 else unat read + 15 - unat i)"
      using Suc.prems(1,2) by (auto simp: le_mod_geq)
    moreover have "(unat read + 31 - unat ?i) mod 16 = (if unat ?i < unat read then unat read - unat ?i - 1 else unat read + 15 - unat ?i)"
      using Suc.prems(1,2) ui by (auto simp: le_mod_geq)
    ultimately show ?thesis using Suc.prems ne ui mod16 [of "unat i + 1"] by (auto split: if_splits)
  qed
  then show ?case using Suc.IH [of ?i] Suc.prems(2) ui by (auto simp: Let_def)
qed simp

lemma consume_total:
  assumes "unat (read_index q) < 16" shows "hci_mem_pool_rx_consume buf q \<noteq> None"
proof -
  let ?s = "ring (read_index q - free_available_count q)"
  have "consume_search (unat HCI_RX_BUF_QUEUE_SIZE) (read_index q) buf ?s \<noteq> None"
    using assms by (intro search_turn) (simp_all add: unat_ring queue_turn)
  then show ?thesis by (auto simp: hci_mem_pool_rx_consume_def Let_def split: option.splits prod.splits)
qed

section \<open>Contract\<close>

text \<open>
  What a client that returns buffers in the order it took them may rely on, over the lists of buffers taken and of buffers waiting.
\<close>

locale rx_pool =
  fixes rep :: "'q \<Rightarrow> u32 list \<Rightarrow> u32 list \<Rightarrow> bool"
    and produce :: "'q \<Rightarrow> u32 option \<times> 'q" and take_one :: "'q \<Rightarrow> u32 option \<times> 'q" and consume :: "u32 \<Rightarrow> 'q \<Rightarrow> nrf_error \<times> 'q"
    and cap :: nat
  assumes produce_room: "rep q ts rs \<Longrightarrow> length ts + length rs < cap \<Longrightarrow>
      \<exists>w q'. produce q = (Some w, q') \<and> w \<notin> set ts \<union> set rs \<and> rep q' ts (rs @ [w])"
    and produce_full: "rep q ts rs \<Longrightarrow> length ts + length rs = cap \<Longrightarrow> produce q = (None, q)"
    and extract_some: "rep q ts (r # rs) \<Longrightarrow> \<exists>q'. take_one q = (Some r, q') \<and> rep q' (ts @ [r]) rs"
    and consume_first: "rep q (t # ts) rs \<Longrightarrow> \<exists>q'. consume t q = (NRF_SUCCESS, q') \<and> rep q' ts rs"
begin

lemma take_then_return:
  assumes "rep q [] (r # rs)"
  shows "\<exists>q1 q2. take_one q = (Some r, q1) \<and> consume r q1 = (NRF_SUCCESS, q2) \<and> rep q2 [] rs"
proof -
  obtain q1 where q1: "take_one q = (Some r, q1)" "rep q1 [r] rs" using extract_some [OF assms] by auto
  then show ?thesis using consume_first [of q1 r "[]" rs] by auto
qed

lemma return_all:
  "rep q ts rs \<Longrightarrow> \<exists>q'. fold (\<lambda>t (ok, q). let (e, q) = consume t q in (ok \<and> e = NRF_SUCCESS, q)) ts (True, q) = (True, q') \<and> rep q' [] rs"
proof (induction ts arbitrary: q)
  case (Cons t ts)
  obtain q1 where "consume t q = (NRF_SUCCESS, q1)" "rep q1 ts rs" using consume_first [OF Cons.prems] by auto
  then show ?case using Cons.IH by auto
qed simp

end

definition ring_slots :: "nat \<Rightarrow> nat \<Rightarrow> u32 list" where
  "ring_slots s n = map (\<lambda>j. of_nat ((s + j) mod 16)) [0..<n]"

definition pool_lists :: "rx_buffer_queue \<Rightarrow> u32 list \<Rightarrow> u32 list \<Rightarrow> bool" where
  "pool_lists q ts rs \<longleftrightarrow> (\<exists>s. pool_rep q s (length ts) (length rs) \<and> ts @ rs = ring_slots s (length ts + length rs))"

definition pool_produce1 :: "rx_buffer_queue \<Rightarrow> u32 option \<times> rx_buffer_queue" where
  "pool_produce1 q = snd (hci_mem_pool_rx_produce HCI_RX_BUF_SIZE q)"

definition pool_extract1 :: "rx_buffer_queue \<Rightarrow> u32 option \<times> rx_buffer_queue" where
  "pool_extract1 q = (let (e, r, q) = hci_mem_pool_rx_extract q in (map_option fst r, q))"

definition pool_consume1 :: "u32 \<Rightarrow> rx_buffer_queue \<Rightarrow> nrf_error \<times> rx_buffer_queue" where
  "pool_consume1 b q = (case hci_mem_pool_rx_consume b q of Some r \<Rightarrow> r | None \<Rightarrow> (NRF_ERROR_INTERNAL, q))"

lemma ring_slots_Suc: "ring_slots s (Suc n) = ring_slots s n @ [of_nat ((s + n) mod 16)]"
  by (simp add: ring_slots_def)

lemma ring_slots_tl: "ring_slots s (Suc n) = of_nat (s mod 16) # ring_slots ((s + 1) mod 16) n"
  by (simp add: ring_slots_def upt_conv_Cons del: upt_Suc) (simp add: map_Suc_upt [symmetric] mod_simps del: map_Suc_upt upt_Suc)

lemma ring_slots_fresh:
  assumes "s < 16" "n < 16" shows "(of_nat ((s + n) mod 16) :: u32) \<notin> set (ring_slots s n)"
proof
  assume "(of_nat ((s + n) mod 16) :: u32) \<in> set (ring_slots s n)"
  then obtain j where j: "j < n" "(of_nat ((s + n) mod 16) :: u32) = of_nat ((s + j) mod 16)" by (auto simp: ring_slots_def)
  have "unat (of_nat (k mod 16) :: u32) = k mod 16" for k :: nat by (simp add: unat_of_nat_u32 order_less_trans [OF mod_less_divisor])
  from this [of "s + n"] this [of "s + j"] j(2) have "(s + n) mod 16 = (s + j) mod 16" by metis
  then show False using assms j(1) mod16 [of "s + n"] mod16 [of "s + j"] by (auto split: if_splits)
qed

interpretation pool: rx_pool pool_lists pool_produce1 pool_extract1 pool_consume1 16
proof
  fix q ts rs assume r: "pool_lists q ts rs" and n: "length ts + length rs < 16"
  then obtain s where s: "pool_rep q s (length ts) (length rs)" "ts @ rs = ring_slots s (length ts + length rs)" by (auto simp: pool_lists_def)
  obtain w q' where w: "hci_mem_pool_rx_produce HCI_RX_BUF_SIZE q = (NRF_SUCCESS, Some w, q')" "unat w = (s + length ts + length rs) mod 16"
    "pool_rep q' s (length ts) (length rs + 1)" using pool_produce [OF s(1) n order_refl] by metis
  have wn: "w = of_nat ((s + (length ts + length rs)) mod 16)"
    using w(2) by (simp add: word_unat_eq_iff unat_of_nat_u32 order_less_trans [OF mod_less_divisor] add.assoc)
  have "s < 16" using s(1) by (simp add: pool_rep_def)
  then have "w \<notin> set (ts @ rs)" unfolding s(2) wn using n by (rule ring_slots_fresh)
  moreover have "ts @ rs @ [w] = ring_slots s (length ts + length (rs @ [w]))"
    using s(2) by (simp add: ring_slots_Suc wn)
  ultimately show "\<exists>w q'. pool_produce1 q = (Some w, q') \<and> w \<notin> set ts \<union> set rs \<and> pool_lists q' ts (rs @ [w])"
    using w(1,3) by (auto simp: pool_produce1_def pool_lists_def)
next
  fix q ts rs assume "pool_lists q ts rs" "length ts + length rs = 16"
  then have "unat (free_window_count q) = 0" by (auto simp: pool_lists_def pool_rep_def)
  then show "pool_produce1 q = (None, q)" by (simp add: pool_produce1_def hci_mem_pool_rx_produce_def unat_eq_zero)
next
  fix q ts r rs assume "pool_lists q ts (r # rs)"
  then obtain s where s: "pool_rep q s (length ts) (length (r # rs))" "ts @ r # rs = ring_slots s (length ts + length (r # rs))" by (auto simp: pool_lists_def)
  obtain i q' where i: "hci_mem_pool_rx_extract q = (NRF_SUCCESS, Some (i, rx_length q i), q')" "unat i = (s + length ts) mod 16" "pool_rep q' s (length ts + 1) (length rs)"
    using pool_extract [OF s(1)] by (metis length_Cons list.distinct(1) length_0_conv diff_Suc_1)
  have "r = (ts @ r # rs) ! length ts" by simp
  also have "\<dots> = of_nat ((s + length ts) mod 16)" unfolding s(2) by (simp add: ring_slots_def del: upt_Suc)
  finally have "r = i" using i(2) by (simp add: word_unat_eq_iff unat_of_nat_u32 order_less_trans [OF mod_less_divisor])
  then show "\<exists>q'. pool_extract1 q = (Some r, q') \<and> pool_lists q' (ts @ [r]) rs"
    using i(1,3) s(2) by (auto simp: pool_extract1_def pool_lists_def intro!: exI [of _ s])
next
  fix q t ts rs assume "pool_lists q (t # ts) rs"
  then obtain s where s: "pool_rep q s (length (t # ts)) (length rs)" "t # ts @ rs = ring_slots s (Suc (length ts + length rs))" by (auto simp: pool_lists_def)
  have t: "t = of_nat s" "ts @ rs = ring_slots ((s + 1) mod 16) (length ts + length rs)"
    using s by (simp_all add: ring_slots_tl pool_rep_def)
  obtain q' where "hci_mem_pool_rx_consume (of_nat s) q = Some (NRF_SUCCESS, q')" "pool_rep q' ((s + 1) mod 16) (length ts) (length rs)"
    using pool_consume [OF s(1)] by auto
  then show "\<exists>q'. pool_consume1 t q = (NRF_SUCCESS, q') \<and> pool_lists q' ts rs"
    using t by (auto simp: pool_consume1_def pool_lists_def)
qed


text \<open>
  Buffers given back out of order: the second loop of \<open>hci_mem_pool_rx_consume\<close> continues from the index it found, not from the one
  it released last.
\<close>

definition pool_after_three :: "rx_buffer_queue \<Rightarrow> rx_buffer_queue" where
  "pool_after_three q = q\<lparr>m_is_tx_allocated := False, free_window_count := 12, free_available_count := 3, read_available_count := 1,
     write_index := 4, read_index := 3, free_index := 15\<rparr>"

lemma pool_after_three_rep: "pool_rep (pool_after_three q) 0 3 1"
proof -
  have "\<forall>i<16. bit (mask 4 :: u32) i \<longleftrightarrow> i < 4" by (auto simp: bit_mask_iff)
  moreover have "(mask 4 :: u32) = 15" by (simp add: mask_eq_exp_minus_1)
  ultimately have "\<forall>i<16. bit (15 :: u32) i \<longleftrightarrow> (i + 16 - 0) mod 16 < (3 :: nat) + 1" by simp
  then show ?thesis unfolding pool_rep_def pool_after_three_def by simp
qed

lemma search_second: "consume_search 16 3 1 0 = Some (1, True)"
  by (simp add: eval_nat_numeral ring_def HCI_RX_BUF_QUEUE_SIZE_def)


end
