(* ===== verification/Hci_Slip.thy ===== *)
theory Hci_Slip
  imports Hci_Pool
begin

text \<open>
  The SLIP layer of the serial transport (\<open>libraries/hci/hci_slip.c\<close>).  The receive side calls the registered handler synchronously, so
  the handler \<open>h\<close> is an argument and acts on the SLIP state together with the state \<open>'u\<close> of the layers above.  A store through the
  receive pointer outside the registered buffer is the trap \<open>Bad_Access\<close>; a failed error check is \<open>App_Error\<close>; \<open>Hang\<close> is a search that would not end.
\<close>

section \<open>State\<close>

definition APP_SLIP_END :: u8 where "APP_SLIP_END = 0xC0"
definition APP_SLIP_ESC :: u8 where "APP_SLIP_ESC = 0xDB"
definition APP_SLIP_ESC_END :: u8 where "APP_SLIP_ESC_END = 0xDC"
definition APP_SLIP_ESC_ESC :: u8 where "APP_SLIP_ESC_ESC = 0xDD"

lemmas slip_codes = APP_SLIP_END_def APP_SLIP_ESC_def APP_SLIP_ESC_END_def APP_SLIP_ESC_ESC_def

datatype slip_states = SLIP_OFF | SLIP_READY | SLIP_TRANSMITTING
datatype rx_handler = handle_rx_byte_wait_start | handle_rx_byte_default | handle_rx_byte_esc
datatype tx_sender = send_tx_byte_default | send_tx_byte_esc | send_tx_byte_encoded | send_tx_byte_end

text \<open>Receive buffers: those of the pool, by index, and the acknowledgement buffer; transmit buffers: the acknowledgement packet.\<close>

definition ACK_BUF_SIZE :: nat where "ACK_BUF_SIZE = 5"

datatype hbuf = Pool_Buf u32 | Ack_Buf

fun hbuf_size :: "hbuf \<Rightarrow> nat" where
  "hbuf_size (Pool_Buf i) = (if i < HCI_RX_BUF_QUEUE_SIZE then HCI_RX_BUF_SIZE else 0)"
| "hbuf_size Ack_Buf = ACK_BUF_SIZE"

datatype tbuf = Ack_Packet | Tx_Packet

datatype slip_evt = HCI_SLIP_RX_RDY "hbuf option" u32 | HCI_SLIP_RX_OVERFLOW "hbuf option" u32
datatype hci_trap = App_Error nrf_error | Bad_Access | Hang

record slip =
  m_current_state :: slip_states
  m_slip_event_handler :: bool           \<comment> \<open>a handler is registered\<close>
  mp_tx_buffer :: tbuf
  m_tx_buffer_length :: u32
  m_tx_buffer_index :: u32
  send_tx_byte :: tx_sender
  mp_rx_buffer :: "hbuf option"
  m_rx_buffer_length :: u32
  m_rx_received_count :: u32
  handle_rx_byte :: rx_handler
  sl_mem :: "hbuf \<Rightarrow> nat \<Rightarrow> u8"          \<comment> \<open>contents of the receive buffers\<close>
  sl_txmem :: "tbuf \<Rightarrow> bytes"             \<comment> \<open>contents of the transmit buffers\<close>
  sl_room :: nat                         \<comment> \<open>space left in the serial output FIFO\<close>
  sl_out :: bytes                        \<comment> \<open>bytes given to it, oldest first\<close>

section \<open>Transmission\<close>

definition serial_put :: "u8 \<Rightarrow> slip \<Rightarrow> nrf_error \<times> slip" where
  "serial_put ch s = (if sl_room s = 0 then (NRF_ERROR_NO_MEM, s)
     else (NRF_SUCCESS, s\<lparr>sl_room := sl_room s - 1, sl_out := sl_out s @ [ch]\<rparr>))"

definition tx_byte :: "slip \<Rightarrow> u8" where
  "tx_byte s = sl_txmem s (mp_tx_buffer s) ! unat (m_tx_buffer_index s)"

definition send_end :: "slip \<Rightarrow> nrf_error \<times> slip" where
  "send_end s = (let (err_code, s) = serial_put APP_SLIP_END s
     in (err_code, if err_code = NRF_SUCCESS \<and> m_tx_buffer_index s = 0 then s\<lparr>send_tx_byte := send_tx_byte_default\<rparr> else s))"

definition send_default :: "slip \<Rightarrow> nrf_error \<times> slip" where
  "send_default s = (let (err_code, s') = serial_put (tx_byte s) s
     in (err_code, if err_code = NRF_SUCCESS then s'\<lparr>m_tx_buffer_index := m_tx_buffer_index s' + 1\<rparr> else s'))"

definition send_encoded :: "slip \<Rightarrow> nrf_error \<times> slip" where
  "send_encoded s =
     (let (err_code, s') = (if tx_byte s = APP_SLIP_END then serial_put APP_SLIP_ESC_END s
                            else if tx_byte s = APP_SLIP_ESC then serial_put APP_SLIP_ESC_ESC s
                            else (NRF_ERROR_NO_MEM, s))
      in (err_code, if err_code = NRF_SUCCESS
                    then s'\<lparr>m_tx_buffer_index := m_tx_buffer_index s' + 1, send_tx_byte := send_tx_byte_default\<rparr> else s'))"

definition send_esc :: "slip \<Rightarrow> nrf_error \<times> slip" where
  "send_esc s = (let (err_code, s) = serial_put APP_SLIP_ESC s
     in (err_code, if err_code = NRF_SUCCESS then s\<lparr>send_tx_byte := send_tx_byte_encoded\<rparr> else s))"

definition send_byte :: "slip \<Rightarrow> nrf_error \<times> slip" where
  "send_byte s = (case send_tx_byte s of send_tx_byte_default \<Rightarrow> send_default s | send_tx_byte_esc \<Rightarrow> send_esc s
     | send_tx_byte_encoded \<Rightarrow> send_encoded s | send_tx_byte_end \<Rightarrow> send_end s)"

lemma send_byte_room: "send_byte s = (e, s') \<Longrightarrow> e \<noteq> NRF_ERROR_NO_MEM \<Longrightarrow> sl_room s' < sl_room s"
  by (auto simp: send_byte_def send_default_def send_esc_def send_encoded_def send_end_def serial_put_def Let_def
      split: tx_sender.splits if_splits)

text \<open>The flag says whether \<open>HCI_SLIP_TX_DONE\<close> is signalled.\<close>

function transmit_buffer :: "slip \<Rightarrow> bool \<times> slip" where
  "transmit_buffer s =
     (if m_tx_buffer_index s < m_tx_buffer_length s
      then let s1 = (if (tx_byte s = APP_SLIP_END \<or> tx_byte s = APP_SLIP_ESC) \<and> send_tx_byte s = send_tx_byte_default
                     then s\<lparr>send_tx_byte := send_tx_byte_esc\<rparr> else s);
               (err_code, s2) = send_byte s1
           in if err_code = NRF_ERROR_NO_MEM \<or> err_code = NRF_ERROR_BUSY then (False, s2) else transmit_buffer s2
      else let (err_code, s1) = send_end (s\<lparr>send_tx_byte := send_tx_byte_end\<rparr>)
           in if err_code = NRF_SUCCESS then (m_slip_event_handler s1, s1\<lparr>m_current_state := SLIP_READY\<rparr>) else (False, s1))"
  by pat_completeness auto
termination
proof (relation "measure sl_room", goal_cases)
  case (2 s s1 x err_code s2)
  then have "sl_room s2 < sl_room s1" using send_byte_room by metis
  then show ?case using 2 by (auto split: if_splits)
qed simp

declare transmit_buffer.simps [simp del]

definition hci_slip_write :: "tbuf \<Rightarrow> u32 \<Rightarrow> slip \<Rightarrow> nrf_error \<times> slip" where
  "hci_slip_write p_buffer len s =
     (case m_current_state s of
        SLIP_READY \<Rightarrow> (NRF_SUCCESS, snd (transmit_buffer (s\<lparr>m_tx_buffer_index := 0, m_tx_buffer_length := len, mp_tx_buffer := p_buffer,
          m_current_state := SLIP_TRANSMITTING, send_tx_byte := send_tx_byte_end\<rparr>)))
      | SLIP_TRANSMITTING \<Rightarrow> (NRF_ERROR_NO_MEM, s)
      | SLIP_OFF \<Rightarrow> (NRF_ERROR_INVALID_STATE, s))"

section \<open>Reception\<close>

definition hci_slip_rx_buffer_register :: "hbuf option \<Rightarrow> u32 \<Rightarrow> slip \<Rightarrow> slip" where
  "hci_slip_rx_buffer_register p_buffer len s =
     s\<lparr>mp_rx_buffer := p_buffer, m_rx_buffer_length := len, m_rx_received_count := 0, handle_rx_byte := handle_rx_byte_wait_start\<rparr>"

type_synonym 'u slip_cb = "slip_evt \<Rightarrow> slip \<times> 'u \<Rightarrow> hci_trap + slip \<times> 'u"

definition rx_store :: "u8 \<Rightarrow> slip \<times> 'u \<Rightarrow> hci_trap + slip \<times> 'u" where
  "rx_store byte = (\<lambda>(s, u). case mp_rx_buffer s of
       None \<Rightarrow> Inl Bad_Access
     | Some p \<Rightarrow> if unat (m_rx_received_count s) < hbuf_size p
                 then Inr (s\<lparr>sl_mem := (sl_mem s)(p := (sl_mem s p)(unat (m_rx_received_count s) := byte)),
                             m_rx_received_count := m_rx_received_count s + 1\<rparr>, u)
                 else Inl Bad_Access)"

definition handle_slip_end :: "'u slip_cb \<Rightarrow> slip \<times> 'u \<Rightarrow> hci_trap + slip \<times> 'u" where
  "handle_slip_end h = (\<lambda>(s, u).
     if m_rx_received_count s > 0 \<and> m_slip_event_handler s
     then h (HCI_SLIP_RX_RDY (mp_rx_buffer s) (m_rx_received_count s)) (s\<lparr>m_rx_received_count := 0, mp_rx_buffer := None\<rparr>, u)
     else Inr (s, u))"

definition rx_byte :: "'u slip_cb \<Rightarrow> u8 \<Rightarrow> slip \<times> 'u \<Rightarrow> hci_trap + slip \<times> 'u" where
  "rx_byte h byte = (\<lambda>(s, u). case handle_rx_byte s of
       handle_rx_byte_wait_start \<Rightarrow> Inr (if byte = APP_SLIP_END then s\<lparr>handle_rx_byte := handle_rx_byte_default\<rparr> else s, u)
     | handle_rx_byte_default \<Rightarrow>
         (if byte = APP_SLIP_END then handle_slip_end h (s, u)
          else if byte = APP_SLIP_ESC then Inr (s\<lparr>handle_rx_byte := handle_rx_byte_esc\<rparr>, u)
          else rx_store byte (s, u))
     | handle_rx_byte_esc \<Rightarrow>
         (case (if byte = APP_SLIP_END then handle_slip_end h (s, u)
                else if byte = APP_SLIP_ESC_END then rx_store APP_SLIP_END (s, u)
                else if byte = APP_SLIP_ESC_ESC then rx_store APP_SLIP_ESC (s, u)
                else rx_store byte (s, u)) of
            Inl e \<Rightarrow> Inl e
          | Inr (s, u) \<Rightarrow> Inr (s\<lparr>handle_rx_byte := handle_rx_byte_default\<rparr>, u)))"

definition rx_buffer_overflowed :: "'u slip_cb \<Rightarrow> slip \<times> 'u \<Rightarrow> hci_trap + bool \<times> slip \<times> 'u" where
  "rx_buffer_overflowed h = (\<lambda>(s, u).
     if mp_rx_buffer s = None \<or> m_rx_received_count s \<ge> m_rx_buffer_length s
     then (if m_slip_event_handler s
           then case h (HCI_SLIP_RX_OVERFLOW (mp_rx_buffer s) (m_rx_received_count s)) (s, u) of Inl e \<Rightarrow> Inl e | Inr x \<Rightarrow> Inr (True, x)
           else Inr (True, s, u))
     else Inr (False, s, u))"

text \<open>USB: read the pending characters until none is left or the buffer overflows; the rest stays in the CDC FIFO.\<close>

fun hci_slip_process_pending_rx :: "'u slip_cb \<Rightarrow> bytes \<Rightarrow> slip \<times> 'u \<Rightarrow> hci_trap + bytes \<times> slip \<times> 'u" where
  "hci_slip_process_pending_rx h [] x = Inr ([], x)"
| "hci_slip_process_pending_rx h (ch # cs) x =
     (case rx_buffer_overflowed h x of
        Inl e \<Rightarrow> Inl e
      | Inr (True, x) \<Rightarrow> Inr (ch # cs, x)
      | Inr (False, x) \<Rightarrow> (case rx_byte h ch x of Inl e \<Rightarrow> Inl e | Inr x \<Rightarrow> hci_slip_process_pending_rx h cs x))"

text \<open>UART: one event per received character, and one when the output FIFO has room again.\<close>

definition slip_uart_data :: "'u slip_cb \<Rightarrow> u8 \<Rightarrow> slip \<times> 'u \<Rightarrow> hci_trap + slip \<times> 'u" where
  "slip_uart_data h ch x =
     (case rx_buffer_overflowed h x of Inl e \<Rightarrow> Inl e | Inr (True, x) \<Rightarrow> Inr x | Inr (False, x) \<Rightarrow> rx_byte h ch x)"

definition slip_uart_tx_empty :: "slip \<Rightarrow> bool \<times> slip" where
  "slip_uart_tx_empty s = (if m_current_state s = SLIP_TRANSMITTING then transmit_buffer s else (False, s))"

definition hci_slip_open :: "slip \<Rightarrow> slip" where
  "hci_slip_open s = (if m_current_state s = SLIP_OFF then s\<lparr>m_current_state := SLIP_READY\<rparr> else s)"

definition hci_slip_close :: "slip \<Rightarrow> slip" where
  "hci_slip_close s = s\<lparr>m_current_state := SLIP_OFF\<rparr>"

definition hci_slip_evt_handler_register :: "slip \<Rightarrow> slip" where
  "hci_slip_evt_handler_register s = s\<lparr>m_slip_event_handler := True\<rparr>"

section \<open>The frame a transmission produces\<close>

definition esc_byte :: "u8 \<Rightarrow> bytes" where
  "esc_byte b = (if b = APP_SLIP_END then [APP_SLIP_ESC, APP_SLIP_ESC_END] else if b = APP_SLIP_ESC then [APP_SLIP_ESC, APP_SLIP_ESC_ESC] else [b])"

definition slip_body :: "bytes \<Rightarrow> bytes" where
  "slip_body bs = concat (map esc_byte bs) @ [APP_SLIP_END]"

definition slip_frame :: "bytes \<Rightarrow> bytes" where
  "slip_frame bs = APP_SLIP_END # slip_body bs"

definition tx_data :: "slip \<Rightarrow> bytes" where
  "tx_data s = take (unat (m_tx_buffer_length s)) (sl_txmem s (mp_tx_buffer s))"

definition tx_body :: "slip \<Rightarrow> bytes" where
  "tx_body s = slip_body (drop (unat (m_tx_buffer_index s)) (tx_data s))"

text \<open>What is still to be sent, in a state that satisfies the invariant of the sender.\<close>

definition tx_rest :: "slip \<Rightarrow> bytes" where
  "tx_rest s = (if send_tx_byte s = send_tx_byte_end \<and> m_tx_buffer_index s = 0 \<and> m_tx_buffer_length s \<noteq> 0 then APP_SLIP_END # tx_body s
     else if send_tx_byte s = send_tx_byte_encoded then tl (tx_body s) else tx_body s)"

definition tx_wf :: "slip \<Rightarrow> bool" where
  "tx_wf s \<longleftrightarrow> unat (m_tx_buffer_length s) \<le> length (sl_txmem s (mp_tx_buffer s)) \<and> m_tx_buffer_index s \<le> m_tx_buffer_length s \<and>
     (case send_tx_byte s of send_tx_byte_default \<Rightarrow> True
      | send_tx_byte_end \<Rightarrow> m_tx_buffer_index s = 0 \<or> m_tx_buffer_index s = m_tx_buffer_length s
      | _ \<Rightarrow> m_tx_buffer_index s < m_tx_buffer_length s \<and> tx_byte s \<in> {APP_SLIP_END, APP_SLIP_ESC})"

lemma tx_body_step:
  assumes "tx_wf s" "m_tx_buffer_index s < m_tx_buffer_length s"
  shows "tx_body s = esc_byte (tx_byte s) @ tx_body (s\<lparr>m_tx_buffer_index := m_tx_buffer_index s + 1\<rparr>)"
    "m_tx_buffer_index s + 1 \<le> m_tx_buffer_length s"
proof -
  let ?i = "unat (m_tx_buffer_index s)"
  have i: "?i < unat (m_tx_buffer_length s)" using assms(2) by (simp add: word_less_nat_alt)
  then have u: "unat (m_tx_buffer_index s + 1) = Suc ?i" using unat_u32_lt [of "m_tx_buffer_length s"] by (simp add: unat_word_ariths)
  then show "m_tx_buffer_index s + 1 \<le> m_tx_buffer_length s" using i by (simp add: word_le_nat_alt)
  have l: "?i < length (tx_data s)" "tx_data s ! ?i = tx_byte s" using assms(1) i by (simp_all add: tx_wf_def tx_data_def tx_byte_def)
  have "drop ?i (tx_data s) = tx_byte s # drop (Suc ?i) (tx_data s)" using Cons_nth_drop_Suc [OF l(1)] l(2) by simp
  then show "tx_body s = esc_byte (tx_byte s) @ tx_body (s\<lparr>m_tx_buffer_index := m_tx_buffer_index s + 1\<rparr>)"
    using u by (simp add: tx_body_def slip_body_def tx_data_def)
qed

text \<open>Everything but the progress of the transmission.\<close>

definition tx_static :: "slip \<Rightarrow> slip" where
  "tx_static s = s\<lparr>m_tx_buffer_index := 0, send_tx_byte := send_tx_byte_end, sl_room := 0, sl_out := [], m_current_state := SLIP_OFF\<rparr>"

lemma tx_static_update [simp]:
  "tx_static (s\<lparr>m_tx_buffer_index := i\<rparr>) = tx_static s" "tx_static (s\<lparr>send_tx_byte := x\<rparr>) = tx_static s" "tx_static (s\<lparr>sl_room := r\<rparr>) = tx_static s"
  "tx_static (s\<lparr>sl_out := q\<rparr>) = tx_static s" "tx_static (s\<lparr>m_current_state := st\<rparr>) = tx_static s"
  by (simp_all add: tx_static_def)

lemma tx_staticD:
  assumes "tx_static s = tx_static s'"
  shows "mp_rx_buffer s = mp_rx_buffer s'" "m_rx_buffer_length s = m_rx_buffer_length s'" "m_rx_received_count s = m_rx_received_count s'"
    "handle_rx_byte s = handle_rx_byte s'" "sl_mem s = sl_mem s'" "m_slip_event_handler s = m_slip_event_handler s'" "sl_txmem s = sl_txmem s'"
    "m_tx_buffer_length s = m_tx_buffer_length s'" "mp_tx_buffer s = mp_tx_buffer s'"
  using arg_cong [OF assms, of mp_rx_buffer] arg_cong [OF assms, of m_rx_buffer_length] arg_cong [OF assms, of m_rx_received_count]
    arg_cong [OF assms, of handle_rx_byte] arg_cong [OF assms, of sl_mem] arg_cong [OF assms, of m_slip_event_handler] arg_cong [OF assms, of sl_txmem]
    arg_cong [OF assms, of m_tx_buffer_length] arg_cong [OF assms, of mp_tx_buffer]
  by (simp_all add: tx_static_def)

definition tx_prepare :: "slip \<Rightarrow> slip" where
  "tx_prepare s = (if (tx_byte s = APP_SLIP_END \<or> tx_byte s = APP_SLIP_ESC) \<and> send_tx_byte s = send_tx_byte_default
     then s\<lparr>send_tx_byte := send_tx_byte_esc\<rparr> else s)"

lemma tx_fields [simp]:
  "tx_byte (s\<lparr>send_tx_byte := x\<rparr>) = tx_byte s" "tx_body (s\<lparr>send_tx_byte := x\<rparr>) = tx_body s"
  "tx_byte (s\<lparr>sl_room := r\<rparr>) = tx_byte s" "tx_body (s\<lparr>sl_room := r\<rparr>) = tx_body s"
  "tx_byte (s\<lparr>sl_out := q\<rparr>) = tx_byte s" "tx_body (s\<lparr>sl_out := q\<rparr>) = tx_body s"
  "tx_body (s\<lparr>sl_room := r, sl_out := q, m_tx_buffer_index := i\<rparr>) = tx_body (s\<lparr>m_tx_buffer_index := i\<rparr>)"
  "tx_body (s\<lparr>sl_room := r, sl_out := q, m_tx_buffer_index := i, send_tx_byte := x\<rparr>) = tx_body (s\<lparr>m_tx_buffer_index := i\<rparr>)"
  by (simp_all add: tx_byte_def tx_body_def tx_data_def)

lemma tx_step:
  assumes w: "tx_wf s" "m_tx_buffer_index s < m_tx_buffer_length s"
  shows "sl_room s = 0 \<Longrightarrow> send_byte (tx_prepare s) = (NRF_ERROR_NO_MEM, tx_prepare s) \<and> tx_wf (tx_prepare s) \<and> tx_rest (tx_prepare s) = tx_rest s"
    "sl_room s \<noteq> 0 \<Longrightarrow> \<exists>x s2. send_byte (tx_prepare s) = (NRF_SUCCESS, s2) \<and> tx_rest s = x # tx_rest s2 \<and> tx_wf s2 \<and>
       sl_out s2 = sl_out s @ [x] \<and> sl_room s2 = sl_room s - 1 \<and> tx_static s2 = tx_static s \<and> m_current_state s2 = m_current_state s"
proof -
  have nz: "m_tx_buffer_length s \<noteq> 0" using w(2) by auto
  note b = tx_body_step [OF w]
  show "send_byte (tx_prepare s) = (NRF_ERROR_NO_MEM, tx_prepare s) \<and> tx_wf (tx_prepare s) \<and> tx_rest (tx_prepare s) = tx_rest s" if r: "sl_room s = 0"
    using w r by (cases "send_tx_byte s") (auto simp: tx_prepare_def send_byte_def send_default_def send_esc_def send_encoded_def send_end_def serial_put_def
        tx_wf_def tx_rest_def)
  show "\<exists>x s2. send_byte (tx_prepare s) = (NRF_SUCCESS, s2) \<and> tx_rest s = x # tx_rest s2 \<and> tx_wf s2 \<and>
       sl_out s2 = sl_out s @ [x] \<and> sl_room s2 = sl_room s - 1 \<and> tx_static s2 = tx_static s \<and> m_current_state s2 = m_current_state s" if r: "sl_room s \<noteq> 0"
  proof (cases "send_tx_byte s")
    case send_tx_byte_default
    then show ?thesis using w r b
      by (cases "tx_byte s = APP_SLIP_END \<or> tx_byte s = APP_SLIP_ESC")
         (auto simp: tx_prepare_def send_byte_def send_default_def send_esc_def serial_put_def tx_wf_def tx_rest_def esc_byte_def slip_codes)
  next
    case send_tx_byte_esc
    then show ?thesis using w r b
      by (auto simp: tx_prepare_def send_byte_def send_esc_def serial_put_def tx_wf_def tx_rest_def esc_byte_def slip_codes)
  next
    case send_tx_byte_encoded
    then show ?thesis using w r b
      by (auto simp: tx_prepare_def send_byte_def send_encoded_def serial_put_def tx_wf_def tx_rest_def esc_byte_def slip_codes)
  next
    case send_tx_byte_end
    then show ?thesis using w r b nz
      by (auto simp: tx_prepare_def send_byte_def send_end_def serial_put_def tx_wf_def tx_rest_def)
  qed
qed


lemma transmit_spec:
  assumes "tx_wf s"
  defines "k \<equiv> min (sl_room s) (length (tx_rest s))"
  shows "sl_out (snd (transmit_buffer s)) = sl_out s @ take k (tx_rest s) \<and> sl_room (snd (transmit_buffer s)) = sl_room s - k \<and>
    tx_static (snd (transmit_buffer s)) = tx_static s \<and>
    (if length (tx_rest s) \<le> sl_room s
     then m_current_state (snd (transmit_buffer s)) = SLIP_READY \<and> fst (transmit_buffer s) = m_slip_event_handler s
     else \<not> fst (transmit_buffer s) \<and> m_current_state (snd (transmit_buffer s)) = m_current_state s \<and>
       tx_wf (snd (transmit_buffer s)) \<and> tx_rest (snd (transmit_buffer s)) = drop k (tx_rest s))"
  using assms(1) unfolding k_def
proof (induction "sl_room s" arbitrary: s rule: less_induct)
  case less
  show ?case
  proof (cases "m_tx_buffer_index s < m_tx_buffer_length s")
    case True
    have t: "transmit_buffer s = (let (err_code, s2) = send_byte (tx_prepare s)
        in if err_code = NRF_ERROR_NO_MEM \<or> err_code = NRF_ERROR_BUSY then (False, s2) else transmit_buffer s2)"
      using True by (subst transmit_buffer.simps) (simp add: tx_prepare_def Let_def)
    show ?thesis
    proof (cases "sl_room s = 0")
      case z: True
      note st = tx_step(1) [OF less.prems True z]
      have p: "sl_out (tx_prepare s) = sl_out s" "sl_room (tx_prepare s) = sl_room s" "tx_static (tx_prepare s) = tx_static s" "m_current_state (tx_prepare s) = m_current_state s"
        by (simp_all add: tx_prepare_def)
      have ne: "tx_rest s \<noteq> []" using tx_body_step(1) [OF less.prems True] less.prems True
        by (auto simp: tx_rest_def tx_wf_def esc_byte_def slip_codes split: if_splits)
      have "transmit_buffer s = (False, tx_prepare s)" using t st by simp
      then show ?thesis using st p z ne by simp
    next
      case False
      obtain x s2 where s2: "send_byte (tx_prepare s) = (NRF_SUCCESS, s2)" "tx_rest s = x # tx_rest s2" "tx_wf s2" "sl_out s2 = sl_out s @ [x]"
        "sl_room s2 = sl_room s - 1" "tx_static s2 = tx_static s" "m_current_state s2 = m_current_state s"
        using tx_step(2) [OF less.prems True False] by blast
      have tt: "transmit_buffer s = transmit_buffer s2" using t s2(1) by simp
      have lt: "sl_room s2 < sl_room s" using s2(5) False by simp
      have k: "min (sl_room s) (length (tx_rest s)) = Suc (min (sl_room s2) (length (tx_rest s2)))" using s2(2,5) False by simp
      have h: "m_slip_event_handler s2 = m_slip_event_handler s" using tx_staticD(6) [OF s2(6)] .
      have c: "length (tx_rest s) \<le> sl_room s \<longleftrightarrow> length (tx_rest s2) \<le> sl_room s2" using s2(2,5) False by auto
      show ?thesis unfolding tt k c using less.hyps [OF lt s2(3)] s2(2,4-7) h by simp
    qed
  next
    case False
    have i: "m_tx_buffer_index s = m_tx_buffer_length s" using False less.prems by (simp add: tx_wf_def)
    have d: "drop (unat (m_tx_buffer_index s)) (tx_data s) = []" using i by (simp add: tx_data_def)
    have b: "tx_body s = [APP_SLIP_END]" by (simp add: tx_body_def slip_body_def d)
    have e: "send_tx_byte s \<noteq> send_tx_byte_encoded" using False less.prems by (auto simp: tx_wf_def)
    have r: "tx_rest s = [APP_SLIP_END]" using b e i by (auto simp: tx_rest_def)
    show ?thesis
    proof (cases "sl_room s = 0")
      case z: True
      let ?s = "s\<lparr>send_tx_byte := send_tx_byte_end\<rparr>"
      have "transmit_buffer s = (False, ?s)" using False z by (subst transmit_buffer.simps) (simp add: send_end_def serial_put_def)
      moreover have "tx_wf ?s" "tx_rest ?s = [APP_SLIP_END]" using less.prems i b by (auto simp: tx_wf_def tx_rest_def)
      ultimately show ?thesis using r z by simp
    next
      case nz: False
      let ?s = "s\<lparr>send_tx_byte := (if m_tx_buffer_index s = 0 then send_tx_byte_default else send_tx_byte_end), sl_room := sl_room s - 1, sl_out := sl_out s @ [APP_SLIP_END], m_current_state := SLIP_READY\<rparr>"
      have "transmit_buffer s = (m_slip_event_handler s, ?s)"
        using False nz by (subst transmit_buffer.simps) (simp add: send_end_def serial_put_def)
      then show ?thesis using r nz by simp
    qed
  qed
qed

definition tx_inv :: "bytes \<Rightarrow> nat \<Rightarrow> slip \<Rightarrow> bool" where
  "tx_inv frame tot s \<longleftrightarrow> sl_room s + length (sl_out s) = tot \<and>
     (m_current_state s = SLIP_TRANSMITTING \<and> tx_wf s \<and> sl_out s @ tx_rest s = frame \<and> sl_room s = 0 \<and> tx_rest s \<noteq> [] \<or>
      m_current_state s = SLIP_READY \<and> sl_out s = frame)"

lemma transmit_inv:
  assumes "tx_wf s" "m_current_state s = SLIP_TRANSMITTING" "sl_out s @ tx_rest s = frame"
  shows "tx_inv frame (sl_room s + length (sl_out s)) (snd (transmit_buffer s))"
  using transmit_spec [OF assms(1)] assms(2,3) by (auto simp: tx_inv_def min_def split: if_splits)

lemma refill_inv:
  assumes "tx_inv frame tot s" shows "tx_inv frame (tot + r) (snd (slip_uart_tx_empty (s\<lparr>sl_room := sl_room s + r\<rparr>)))"
proof -
  let ?s = "s\<lparr>sl_room := sl_room s + r\<rparr>"
  from assms consider (tx) "m_current_state s = SLIP_TRANSMITTING" "tx_wf s" "sl_out s @ tx_rest s = frame" | (done_) "m_current_state s = SLIP_READY" "sl_out s = frame"
    by (auto simp: tx_inv_def)
  then show ?thesis
  proof cases
    case tx
    have "tx_wf ?s" "tx_rest ?s = tx_rest s" using tx(2) by (cases "send_tx_byte s"; simp add: tx_wf_def tx_rest_def)+
    then have "tx_inv frame (sl_room ?s + length (sl_out ?s)) (snd (transmit_buffer ?s))" using tx by (intro transmit_inv) simp_all
    moreover have "sl_room ?s + length (sl_out ?s) = tot + r" using assms by (simp add: tx_inv_def)
    ultimately have "tx_inv frame (tot + r) (snd (transmit_buffer ?s))" by metis
    then show ?thesis using tx(1) by (simp add: slip_uart_tx_empty_def)
  next
    case done_
    then show ?thesis using assms by (simp add: slip_uart_tx_empty_def tx_inv_def)
  qed
qed

lemma tx_inv_sent:
  "tx_inv frame tot s \<Longrightarrow> sl_out s = take tot frame \<and> (m_current_state s = SLIP_READY \<longleftrightarrow> length frame \<le> tot)"
  by (auto simp: tx_inv_def)

text \<open>A packet accepted for transmission has its whole frame to send.\<close>

lemma write_start:
  assumes "length bs < 2 ^ 32" "sl_txmem s p = bs" "bs \<noteq> []"
  defines "t \<equiv> s\<lparr>m_tx_buffer_index := 0, m_tx_buffer_length := of_nat (length bs), mp_tx_buffer := p, m_current_state := SLIP_TRANSMITTING, send_tx_byte := send_tx_byte_end\<rparr>"
  shows "tx_wf t" "tx_rest t = slip_frame bs"
proof -
  have u: "unat (of_nat (length bs) :: u32) = length bs" using assms(1) by (intro unat_of_nat_u32) simp
  then have nz: "(of_nat (length bs) :: u32) \<noteq> 0" using assms(3) by (auto simp flip: unat_eq_zero)
  show "tx_wf t" using assms(2) u by (simp add: tx_wf_def t_def)
  show "tx_rest t = slip_frame bs" using assms(2) u nz by (simp add: tx_rest_def tx_body_def tx_data_def slip_frame_def t_def)
qed

lemma write_inv:
  assumes "m_current_state s = SLIP_READY" "length bs < 2 ^ 32" "sl_txmem s p = bs" "sl_out s = []" "bs \<noteq> []"
  shows "tx_inv (slip_frame bs) (sl_room s) (snd (hci_slip_write p (of_nat (length bs)) s))"
proof -
  let ?s = "s\<lparr>m_tx_buffer_index := 0, m_tx_buffer_length := of_nat (length bs), mp_tx_buffer := p, m_current_state := SLIP_TRANSMITTING, send_tx_byte := send_tx_byte_end\<rparr>"
  have "tx_inv (slip_frame bs) (sl_room ?s + length (sl_out ?s)) (snd (transmit_buffer ?s))"
    using write_start [OF assms(2,3,5)] assms(4) by (intro transmit_inv) simp_all
  then show ?thesis using assms(1,4) by (simp add: hci_slip_write_def)
qed

lemma write_sent:
  assumes "m_current_state s = SLIP_READY" "length bs < 2 ^ 32" "sl_txmem s p = bs" "bs \<noteq> []" "length (slip_frame bs) \<le> sl_room s"
  shows "sl_out (snd (hci_slip_write p (of_nat (length bs)) s)) = sl_out s @ slip_frame bs" "m_current_state (snd (hci_slip_write p (of_nat (length bs)) s)) = SLIP_READY"
proof -
  note w = write_start [OF assms(2-4)]
  from transmit_spec [OF w(1)] w(2) assms(5)
  show "sl_out (snd (hci_slip_write p (of_nat (length bs)) s)) = sl_out s @ slip_frame bs" "m_current_state (snd (hci_slip_write p (of_nat (length bs)) s)) = SLIP_READY"
    by (simp_all add: hci_slip_write_def assms(1))
qed

lemma length_slip_frame: "length (slip_frame bs) \<le> 2 + 2 * length bs"
proof -
  have "length (concat (map esc_byte bs)) \<le> 2 * length bs" by (induction bs) (auto simp: esc_byte_def)
  then show ?thesis by (simp add: slip_frame_def slip_body_def)
qed


definition idle_slip :: slip where
  "idle_slip = \<lparr>m_current_state = SLIP_READY, m_slip_event_handler = True, mp_tx_buffer = Ack_Packet, m_tx_buffer_length = 0, m_tx_buffer_index = 0,
     send_tx_byte = send_tx_byte_default, mp_rx_buffer = Some (Pool_Buf 0), m_rx_buffer_length = 600, m_rx_received_count = 0,
     handle_rx_byte = handle_rx_byte_wait_start, sl_mem = (\<lambda>_ _. 0), sl_txmem = (\<lambda>_. []), sl_room = 0, sl_out = []\<rparr>"


section \<open>Receiving a frame\<close>

definition mem_put :: "(nat \<Rightarrow> u8) \<Rightarrow> nat \<Rightarrow> bytes \<Rightarrow> nat \<Rightarrow> u8" where
  "mem_put m k bs = (\<lambda>i. if k \<le> i \<and> i < k + length bs then bs ! (i - k) else m i)"

lemma mem_put_Nil [simp]: "mem_put m k [] = m"
  by (auto simp: mem_put_def fun_eq_iff)

lemma mem_put_Cons: "mem_put (m(k := b)) (Suc k) bs = mem_put m k (b # bs)"
  by (auto simp: mem_put_def fun_eq_iff nth_Cons' Suc_diff_Suc)

lemma mem_put_read: "map (mem_put m 0 bs) [0..<length bs] = bs"
  by (rule nth_equalityI) (simp_all add: mem_put_def)

lemma not_overflowed:
  assumes "mp_rx_buffer s = Some p" "m_rx_received_count s < m_rx_buffer_length s" shows "rx_buffer_overflowed h (s, u) = Inr (False, s, u)"
  using assms by (auto simp: rx_buffer_overflowed_def dest: leD)

text \<open>The state after \<open>bs\<close> was stored from position \<open>k\<close> on.\<close>

definition rx_filled :: "slip \<Rightarrow> hbuf \<Rightarrow> nat \<Rightarrow> bytes \<Rightarrow> slip" where
  "rx_filled s p k bs = s\<lparr>sl_mem := (sl_mem s)(p := mem_put (sl_mem s p) k bs), m_rx_received_count := of_nat (k + length bs)\<rparr>"

lemma rx_body:
  assumes "mp_rx_buffer s = Some p" "m_rx_received_count s = of_nat k" "handle_rx_byte s = handle_rx_byte_default"
    "k + length bs \<le> unat (m_rx_buffer_length s)" "unat (m_rx_buffer_length s) \<le> hbuf_size p"
  shows "hci_slip_process_pending_rx h (concat (map esc_byte bs) @ rest) (s, u) = hci_slip_process_pending_rx h rest (rx_filled s p k bs, u)"
  using assms
proof (induction bs arbitrary: s k)
  case Nil
  have "s\<lparr>m_rx_received_count := of_nat k\<rparr> = s" unfolding Nil(2) [symmetric] by simp
  then show ?case by (simp add: rx_filled_def)
next
  case (Cons b bs)
  have lt: "k < unat (m_rx_buffer_length s)" "unat (m_rx_buffer_length s) < 2 ^ 32" using Cons.prems(4) unat_u32_lt by simp_all
  then have uk: "unat (of_nat k :: u32) = k" by (intro unat_of_nat_u32) simp
  then have room: "m_rx_received_count s < m_rx_buffer_length s" using lt Cons.prems(2) by (simp add: word_less_nat_alt)
  have ksz: "k < hbuf_size p" using lt Cons.prems(5) by simp
  let ?s1 = "rx_filled s p k [b]"
  have "mem_put (sl_mem s p) k [b] = (sl_mem s p)(k := b)" using mem_put_Cons [of "sl_mem s p" k b "[]"] by simp
  then have s1: "?s1 = s\<lparr>sl_mem := (sl_mem s)(p := (sl_mem s p)(k := b)), m_rx_received_count := of_nat k + 1\<rparr>"
    by (simp add: rx_filled_def add.commute)
  have step: "hci_slip_process_pending_rx h (esc_byte b @ xs) (s, u) = hci_slip_process_pending_rx h xs (?s1, u)" for xs
  proof (cases "b \<in> {APP_SLIP_END, APP_SLIP_ESC}")
    case True
    let ?e = "s\<lparr>handle_rx_byte := handle_rx_byte_esc\<rparr>"
    have o2: "rx_buffer_overflowed h (?e, u) = Inr (False, ?e, u)" using Cons.prems(1) room by (intro not_overflowed) simp_all
    have same: "?s1\<lparr>handle_rx_byte := handle_rx_byte_default\<rparr> = ?s1" using Cons.prems(3) by (simp add: rx_filled_def)
    have "s\<lparr>handle_rx_byte := handle_rx_byte_esc, sl_mem := (sl_mem s)(p := (sl_mem s p)(k := b)), m_rx_received_count := of_nat k + 1, handle_rx_byte := handle_rx_byte_default\<rparr> = ?s1"
      using s1 same by simp
    then show ?thesis using True not_overflowed [OF Cons.prems(1) room, of h u] o2 Cons.prems(1-3) uk ksz
      by (auto simp: esc_byte_def rx_byte_def rx_store_def slip_codes)
  next
    case False
    then show ?thesis using not_overflowed [OF Cons.prems(1) room, of h u] Cons.prems(1-3) uk ksz s1
      by (simp add: esc_byte_def rx_byte_def rx_store_def)
  qed
  have f: "rx_filled ?s1 p (Suc k) bs = rx_filled s p k (b # bs)"
    unfolding s1 by (simp add: rx_filled_def mem_put_Cons)
  have "hci_slip_process_pending_rx h (concat (map esc_byte bs) @ rest) (?s1, u) = hci_slip_process_pending_rx h rest (rx_filled ?s1 p (Suc k) bs, u)"
    using Cons.prems by (intro Cons.IH) (simp_all add: rx_filled_def)
  then show ?case using step f by simp
qed

text \<open>One frame is one \<open>HCI_SLIP_RX_RDY\<close> event with the packet in the registered buffer.\<close>

definition rx_waiting :: "slip \<Rightarrow> hbuf \<Rightarrow> bool" where
  "rx_waiting s p \<longleftrightarrow> mp_rx_buffer s = Some p \<and> m_rx_received_count s = 0 \<and> handle_rx_byte s = handle_rx_byte_wait_start \<and>
     unat (m_rx_buffer_length s) = hbuf_size p \<and> m_slip_event_handler s"

definition rx_done :: "slip \<Rightarrow> hbuf \<Rightarrow> bytes \<Rightarrow> slip" where
  "rx_done s p bs = s\<lparr>handle_rx_byte := handle_rx_byte_default, sl_mem := (sl_mem s)(p := mem_put (sl_mem s p) 0 bs), m_rx_received_count := 0, mp_rx_buffer := None\<rparr>"

lemma rx_frame:
  assumes "rx_waiting s p" "bs \<noteq> []" "length bs < hbuf_size p"
  shows "hci_slip_process_pending_rx h (slip_frame bs @ rest) (s, u) =
    (case h (HCI_SLIP_RX_RDY (Some p) (of_nat (length bs))) (rx_done s p bs, u) of Inl e \<Rightarrow> Inl e | Inr x \<Rightarrow> hci_slip_process_pending_rx h rest x)"
proof -
  note a = assms(1) [unfolded rx_waiting_def]
  let ?s = "s\<lparr>handle_rx_byte := handle_rx_byte_default\<rparr>"
  have pos: "m_rx_received_count s < m_rx_buffer_length s" using a assms(3) by (simp add: word_less_nat_alt)
  have "hci_slip_process_pending_rx h (slip_frame bs @ rest) (s, u) =
    hci_slip_process_pending_rx h (concat (map esc_byte bs) @ APP_SLIP_END # rest) (?s, u)"
    using not_overflowed [of s p h u] a pos by (simp add: slip_frame_def slip_body_def rx_byte_def)
  also have "\<dots> = hci_slip_process_pending_rx h (APP_SLIP_END # rest) (rx_filled ?s p 0 bs, u)"
    using a assms(3) by (intro rx_body) simp_all
  also have "\<dots> = (case h (HCI_SLIP_RX_RDY (Some p) (of_nat (length bs))) (rx_done s p bs, u) of Inl e \<Rightarrow> Inl e | Inr x \<Rightarrow> hci_slip_process_pending_rx h rest x)"
  proof -
    have lt: "length bs < 2 ^ 32" using assms(3) a unat_u32_lt [of "m_rx_buffer_length s"] by simp
    then have u: "unat (of_nat (length bs) :: u32) = length bs" by (intro unat_of_nat_u32) simp
    have "(of_nat (length bs) :: u32) < m_rx_buffer_length s" using u a assms(3) by (simp add: word_less_nat_alt)
    moreover have "0 < (of_nat (length bs) :: u32)" using u assms(2) by (simp add: word_less_nat_alt)
    ultimately show ?thesis using a not_overflowed [of "rx_filled ?s p 0 bs" p h u]
      by (simp add: rx_filled_def rx_byte_def handle_slip_end_def rx_done_def)
  qed
  finally show ?thesis .
qed

section \<open>Transmission leaves reception alone\<close>

lemma send_static: "tx_static (snd (send_byte s)) = tx_static s"
  by (auto simp: send_byte_def send_default_def send_esc_def send_encoded_def send_end_def serial_put_def Let_def split: tx_sender.splits)

lemma transmit_static: "tx_static (snd (transmit_buffer s)) = tx_static s"
proof (induction s rule: transmit_buffer.induct)
  case (1 s)
  show ?case
  proof (cases "m_tx_buffer_index s < m_tx_buffer_length s")
    case True
    obtain e s2 where e: "send_byte (tx_prepare s) = (e, s2)" by fastforce
    have s2: "tx_static s2 = tx_static s" using send_static [of "tx_prepare s"] e by (simp add: tx_prepare_def split: if_splits)
    have "transmit_buffer s = (if e = NRF_ERROR_NO_MEM \<or> e = NRF_ERROR_BUSY then (False, s2) else transmit_buffer s2)"
      using True e by (subst transmit_buffer.simps) (simp add: tx_prepare_def Let_def)
    moreover have "\<not> (e = NRF_ERROR_NO_MEM \<or> e = NRF_ERROR_BUSY) \<Longrightarrow> tx_static (snd (transmit_buffer s2)) = tx_static s2"
      using 1 [OF True refl] e unfolding tx_prepare_def by metis
    ultimately show ?thesis using s2 by auto
  next
    case False
    then show ?thesis by (subst transmit_buffer.simps) (auto simp: send_end_def serial_put_def)
  qed
qed

text \<open>The receive side of the state.\<close>

lemma slip_write_rx:
  defines "s' \<equiv> \<lambda>p n s. snd (hci_slip_write p n s)"
  shows "mp_rx_buffer (s' p n s) = mp_rx_buffer s" "m_rx_buffer_length (s' p n s) = m_rx_buffer_length s"
    "m_rx_received_count (s' p n s) = m_rx_received_count s" "handle_rx_byte (s' p n s) = handle_rx_byte s" "sl_mem (s' p n s) = sl_mem s"
    "m_slip_event_handler (s' p n s) = m_slip_event_handler s"
proof -
  let ?t = "s\<lparr>m_tx_buffer_index := 0, m_tx_buffer_length := n, mp_tx_buffer := p, m_current_state := SLIP_TRANSMITTING, send_tx_byte := send_tx_byte_end\<rparr>"
  note d = tx_staticD [OF transmit_static [of ?t]]
  show "mp_rx_buffer (s' p n s) = mp_rx_buffer s" "m_rx_buffer_length (s' p n s) = m_rx_buffer_length s"
    "m_rx_received_count (s' p n s) = m_rx_received_count s" "handle_rx_byte (s' p n s) = handle_rx_byte s" "sl_mem (s' p n s) = sl_mem s"
    "m_slip_event_handler (s' p n s) = m_slip_event_handler s"
    using d by (simp_all add: s'_def hci_slip_write_def split: slip_states.split)
qed

end
