(* ===== verification/Hci_Transport.thy ===== *)
theory Hci_Transport
  imports Hci_Slip Crc
begin

text \<open>
  The reliable packet layer of the serial transport (\<open>libraries/hci/hci_transport.c\<close>): validation, sequence numbers, acknowledgement
  and the hand-over of receive buffers between the SLIP layer, the pool and the client.  The client's event handler is an argument \<open>up\<close>
  that reads the receive buffers and acts on the transport state; it is called synchronously.  Of the transmit state machine the
  acknowledgement of a packet is modelled; the bootloader never writes an application packet, so the machine stays idle, where
  \<open>HCI_SLIP_TX_DONE\<close> and the retransmission timer have no effect.
\<close>

section \<open>State\<close>

datatype tx_state = TX_STATE_IDLE | TX_STATE_PENDING | TX_STATE_ACTIVE

record 'v hci =
  m_tx_state :: tx_state
  m_transport_event_handle :: bool           \<comment> \<open>a handler is registered\<close>
  mp_slip_used_rx_buffer :: "u32 option"     \<comment> \<open>index of the pool buffer\<close>
  m_packet_expected_seq_number :: u32
  m_packet_transmit_seq_number :: u32
  m_is_slip_decode_ready :: bool
  m_tx_done_success :: bool                  \<comment> \<open>\<open>m_tx_done_result_code\<close>\<close>
  hci_pool :: rx_buffer_queue
  hci_up :: 'v

type_synonym 'v hci_cb = "(hbuf \<Rightarrow> nat \<Rightarrow> u8) \<Rightarrow> 'v hci \<Rightarrow> hci_trap + 'v hci"

section \<open>Packets\<close>

definition header_sum :: "bytes \<Rightarrow> u32" where
  "header_sum p = ucast (p ! 0) + ucast (p ! 1) + ucast (p ! 2) + ucast (p ! 3)"

definition is_rx_pkt_valid :: "bytes \<Rightarrow> bool" where
  "is_rx_pkt_valid p_buffer \<longleftrightarrow>
     \<not> length p_buffer < 6 \<and> p_buffer ! 0 AND 0x40 \<noteq> 0 \<and> p_buffer ! 0 AND 0x80 \<noteq> 0 \<and> p_buffer ! 1 AND 0x0F = 14 \<and>
     header_sum p_buffer AND 0xFF = 0 \<and>
     (let payload_length = unat (drop_bit 4 (rd_u16 (drop 1 p_buffer)))
      in \<not> payload_length < 4 \<and> payload_length = length p_buffer - 6) \<and>
     crc16_compute (take (length p_buffer - 2) p_buffer) None = rd_u16 (drop (length p_buffer - 2) p_buffer)"

definition header_checksum_calculate :: "bytes \<Rightarrow> u8" where
  "header_checksum_calculate p_hdr = ucast (NOT ((ucast (p_hdr ! 0) + ucast (p_hdr ! 1) + ucast (p_hdr ! 2) :: u32) AND 0xFF) + 1)"

definition packet_number_expected_get :: "'v hci \<Rightarrow> u8" where
  "packet_number_expected_get u = ucast (m_packet_expected_seq_number u)"

definition packet_number_expected_inc :: "'v hci \<Rightarrow> 'v hci" where
  "packet_number_expected_inc u = u\<lparr>m_packet_expected_seq_number := (m_packet_expected_seq_number u + 1) AND 7\<rparr>"

definition packet_seq_nmbr_extract :: "bytes \<Rightarrow> u8" where
  "packet_seq_nmbr_extract p_buffer = p_buffer ! 0 AND 7"

definition packet_type_decode :: "bytes \<Rightarrow> u8 option" where
  "packet_type_decode p_buffer = (if length p_buffer \<ge> 4 then Some (p_buffer ! 1 AND 0x0F) else None)"

definition ack_packet :: "u8 \<Rightarrow> bytes" where
  "ack_packet e = (let h = [push_bit 3 e, 0, 0] in h @ [header_checksum_calculate h])"

definition ack_transmit :: "slip \<times> 'v hci \<Rightarrow> slip \<times> 'v hci" where
  "ack_transmit = (\<lambda>(s, u). (snd (hci_slip_write Ack_Packet 4 (s\<lparr>sl_txmem := (sl_txmem s)(Ack_Packet := ack_packet (packet_number_expected_get u))\<rparr>)), u))"

text \<open>The packet \<open>pkt_write_handle\<close> builds around a payload, from its first header byte.\<close>

definition tx_packet_byte_zero_construct :: "'v hci \<Rightarrow> u8" where
  "tx_packet_byte_zero_construct u = 0x40 OR 0x80 OR push_bit 3 (packet_number_expected_get u) OR ucast (m_packet_transmit_seq_number u)"

definition tx_packet :: "u8 \<Rightarrow> bytes \<Rightarrow> bytes" where
  "tx_packet byte0 payload =
     (let h = byte0 # wr_u16 (push_bit 4 (of_nat (length payload)) OR 14); p = h @ header_checksum_calculate h # payload
      in p @ wr_u16 (crc16_compute p None))"

section \<open>Events of the SLIP layer\<close>

definition used_register :: "slip \<times> 'v hci \<Rightarrow> slip \<times> 'v hci" where
  "used_register = (\<lambda>(s, u). (hci_slip_rx_buffer_register (map_option Pool_Buf (mp_slip_used_rx_buffer u)) (of_nat HCI_RX_BUF_SIZE) s, u))"

text \<open>Produce a pool buffer for the SLIP layer, or fall back on the acknowledgement buffer.\<close>

definition produce_register :: "slip \<times> 'v hci \<Rightarrow> hci_trap + slip \<times> 'v hci" where
  "produce_register = (\<lambda>(s, u).
     let (err_code, w, q) = hci_mem_pool_rx_produce HCI_RX_BUF_SIZE (hci_pool u);
         u = u\<lparr>mp_slip_used_rx_buffer := w, hci_pool := q\<rparr>
     in if err_code = NRF_SUCCESS then Inr (used_register (s, u))
        else if err_code = NRF_ERROR_NO_MEM then Inr (hci_slip_rx_buffer_register (Some Ack_Buf) (of_nat ACK_BUF_SIZE) s, u)
        else Inl (App_Error err_code))"

definition rx_vendor_specific_pkt_type_handle :: "'v hci_cb \<Rightarrow> bytes \<Rightarrow> slip \<times> 'v hci \<Rightarrow> hci_trap + slip \<times> 'v hci" where
  "rx_vendor_specific_pkt_type_handle up p_buffer = (\<lambda>(s, u).
     if is_rx_pkt_valid p_buffer
     then if packet_number_expected_get u = packet_seq_nmbr_extract p_buffer
          then let (s, u) = ack_transmit (s, packet_number_expected_inc u);
                   u = u\<lparr>m_is_slip_decode_ready := True, hci_pool := hci_mem_pool_rx_data_size_set (of_nat (length p_buffer)) (hci_pool u)\<rparr>
               in case produce_register (s, u) of
                    Inl e \<Rightarrow> Inl e
                  | Inr (s, u) \<Rightarrow> if m_transport_event_handle u then map_sum id (Pair s) (up (sl_mem s) u) else Inr (s, u)
          else Inr (ack_transmit (used_register (s, u)))
     else Inr (used_register (s, u)))"

definition expected_ack_number_get :: "'v hci \<Rightarrow> u8" where
  "expected_ack_number_get u = (ucast (m_packet_transmit_seq_number u) + 1) AND 7"

definition rx_ack_pkt_type_handle :: "bytes \<Rightarrow> 'v hci \<Rightarrow> bool" where
  "rx_ack_pkt_type_handle p_buffer u \<longleftrightarrow> header_sum p_buffer AND 0xFF = 0 \<and> drop_bit 3 (p_buffer ! 0) AND 7 = expected_ack_number_get u"

definition tx_valid_rx_ack :: "'v hci \<Rightarrow> 'v hci" where
  "tx_valid_rx_ack u = (if m_tx_state u = TX_STATE_ACTIVE
     then u\<lparr>m_packet_transmit_seq_number := (m_packet_transmit_seq_number u + 1) AND 7, m_tx_state := TX_STATE_IDLE\<rparr> else u)"

definition rx_packet :: "slip \<Rightarrow> hbuf \<Rightarrow> u32 \<Rightarrow> bytes" where
  "rx_packet s p len = map (sl_mem s p) [0..<unat len]"

definition slip_event_handle :: "'v hci_cb \<Rightarrow> 'v hci slip_cb" where
  "slip_event_handle up evt = (\<lambda>(s, u). case evt of
       HCI_SLIP_RX_RDY None len \<Rightarrow> Inl Bad_Access
     | HCI_SLIP_RX_RDY (Some p) len \<Rightarrow>
         if hbuf_size p < unat len then Inl Bad_Access
         else let packet = rx_packet s p len
              in if packet_type_decode packet = Some 14 then rx_vendor_specific_pkt_type_handle up packet (s, u)
                 else let u = (if packet_type_decode packet = Some 0 \<and> rx_ack_pkt_type_handle packet u
                               then tx_valid_rx_ack (u\<lparr>m_tx_done_success := True\<rparr>) else u)
                      in if mp_slip_used_rx_buffer u \<noteq> None then Inr (used_register (s, u)) else produce_register (s, u)
     | HCI_SLIP_RX_OVERFLOW p len \<Rightarrow> Inr (hci_slip_rx_buffer_register (Some Ack_Buf) (of_nat ACK_BUF_SIZE) s, u))"

section \<open>Operations for the client\<close>

definition hci_transport_open :: "nrf_error \<Rightarrow> slip \<times> 'v hci \<Rightarrow> nrf_error \<times> slip \<times> 'v hci" where
  "hci_transport_open timer_created = (\<lambda>(s, u).
     let u = u\<lparr>m_is_slip_decode_ready := False, m_tx_state := TX_STATE_IDLE, m_packet_expected_seq_number := 1, m_packet_transmit_seq_number := 1,
               m_tx_done_success := False\<rparr>
     in if timer_created \<noteq> NRF_SUCCESS then (NRF_ERROR_INTERNAL, s, u)
        else let s = hci_slip_open s; (err_code, w, q) = hci_mem_pool_rx_produce HCI_RX_BUF_SIZE (hci_mem_pool_open (hci_pool u));
                 u = u\<lparr>mp_slip_used_rx_buffer := w, hci_pool := q\<rparr>
             in if err_code \<noteq> NRF_SUCCESS then (NRF_ERROR_INTERNAL, s, u) else (NRF_SUCCESS, used_register (s, u)))"

definition hci_transport_evt_handler_reg :: "slip \<times> 'v hci \<Rightarrow> slip \<times> 'v hci" where
  "hci_transport_evt_handler_reg = (\<lambda>(s, u). (hci_slip_evt_handler_register s, u\<lparr>m_transport_event_handle := True\<rparr>))"

definition hci_transport_close :: "slip \<times> 'v hci \<Rightarrow> slip \<times> 'v hci" where
  "hci_transport_close = (\<lambda>(s, u). (hci_slip_close s, u\<lparr>m_transport_event_handle := False\<rparr>))"

text \<open>
  \<open>None\<close>: the caller's pointer is untouched; \<open>Some (None, n)\<close>: it is a null pointer moved past the header; \<open>Some (Some i, n)\<close>: it points
  past the header in pool buffer \<open>i\<close>.
\<close>

definition hci_transport_rx_pkt_extract :: "'v hci \<Rightarrow> nrf_error \<times> (u32 option \<times> u16) option \<times> 'v hci" where
  "hci_transport_rx_pkt_extract u =
     (if m_is_slip_decode_ready u
      then let (err_code, r, q) = hci_mem_pool_rx_extract (hci_pool u); len = (case r of None \<Rightarrow> 0 | Some (i, n) \<Rightarrow> n)
           in (err_code, Some (map_option fst r, ucast (len - 6)), u\<lparr>m_is_slip_decode_ready := False, hci_pool := q\<rparr>)
      else (NRF_ERROR_NO_MEM, None, u))"

text \<open>A pointer that is no pool buffer matches no index of the ring.\<close>

definition hci_transport_rx_pkt_consume :: "u32 option \<Rightarrow> 'v hci \<Rightarrow> hci_trap + nrf_error \<times> 'v hci" where
  "hci_transport_rx_pkt_consume i u =
     (case hci_mem_pool_rx_consume (case i of Some i \<Rightarrow> i | None \<Rightarrow> HCI_RX_BUF_QUEUE_SIZE) (hci_pool u) of
        None \<Rightarrow> Inl Hang
      | Some (err_code, q) \<Rightarrow> Inr (err_code, u\<lparr>hci_pool := q\<rparr>))"

section \<open>Packets round trip\<close>

lemma unat_byte: "unat (ucast (b :: u8) :: u32) = unat b" "unat b < 256"
proof -
  show "unat b < 256" using unsigned_less [of b] by simp
  then show "unat (ucast b :: u32) = unat b" by (simp add: unsigned_ucast_eq take_bit_nat_eq_self_iff)
qed

lemma unat_low_byte: "unat ((w :: u32) AND 0xFF) = unat w mod 256"
  using unat_and_mask [of w 8] by (simp add: mask_eq_exp_minus_1)

lemma checksum_zero: "header_sum (b0 # b1 # b2 # header_checksum_calculate [b0, b1, b2] # ps) AND 0xFF = 0"
proof -
  let ?x = "ucast b0 + ucast b1 + ucast b2 :: u32" and ?S = "unat b0 + unat b1 + unat b2" and ?c = "header_checksum_calculate [b0, b1, b2]"
  note b = unat_byte(2) [of b0] unat_byte(2) [of b1] unat_byte(2) [of b2] unat_byte(2) [of ?c]
  have x: "unat ?x = ?S" using b unat_byte(1) by (simp add: unat_word_ariths)
  define y where "y = ?x AND 0xFF"
  have y: "unat y = ?S mod 256" using x by (simp add: y_def unat_low_byte)
  have "NOT y + 1 = - y" by (rule minus_eq_not_plus_1 [symmetric])
  moreover have "?c = ucast (NOT y + 1)" by (simp add: header_checksum_calculate_def y_def)
  ultimately have "?c = ucast (- y)" by simp
  then have "unat ?c = unat (- y) mod 256" by (simp add: unsigned_ucast_eq take_bit_eq_mod)
  also have "\<dots> = (if y = 0 then 0 else 2 ^ 32 - unat y) mod 256" 
    using unat_sub_if_size [of 0 y] by (simp add: word_size unat_eq_zero)
  finally have c: "unat ?c = (if ?S mod 256 = 0 then 0 else 256 - ?S mod 256)"
  proof -
    have "(2 ^ 32 - k) mod 256 = 256 - k" if "0 < k" "k < 256" for k :: nat
    proof -
      have "2 ^ 32 - k = 256 - k + 256 * (2 ^ 24 - 1)" using that by simp
      then show ?thesis using that by (simp only: mod_mult_self2) simp
    qed
    moreover assume "unat ?c = (if y = 0 then 0 else 2 ^ 32 - unat y) mod 256"
    ultimately show ?thesis using y by (simp add: word_unat_eq_iff)
  qed
  have "unat (header_sum (b0 # b1 # b2 # ?c # ps)) = ?S + unat ?c" using b x unat_byte(1) by (simp add: header_sum_def unat_word_ariths)
  moreover have "(?S + unat ?c) mod 256 = 0" unfolding c using mod_add_left_eq [of ?S 256 "256 - ?S mod 256"] by auto
  ultimately show ?thesis by (simp add: word_unat_eq_iff unat_low_byte)
qed

lemma wr_u16_nth: "wr_u16 v ! 0 = ucast v" "wr_u16 v ! 1 = ucast (drop_bit 8 v)"
  by (simp_all add: wr_u16_def)

lemma tx_packet_shape:
  "tx_packet b0 pl = b0 # wr_u16 (push_bit 4 (of_nat (length pl)) OR 14) @
     header_checksum_calculate (b0 # wr_u16 (push_bit 4 (of_nat (length pl)) OR 14)) # pl @
     wr_u16 (crc16_compute (b0 # wr_u16 (push_bit 4 (of_nat (length pl)) OR 14) @ header_checksum_calculate (b0 # wr_u16 (push_bit 4 (of_nat (length pl)) OR 14)) # pl) None)"
  by (simp add: tx_packet_def Let_def)

lemma length_tx_packet [simp]: "length (tx_packet b0 pl) = length pl + 6"
  by (simp add: tx_packet_shape)

lemma tx_packet_payload: "take (length pl) (drop 4 (tx_packet b0 pl)) = pl"
  by (simp add: tx_packet_shape wr_u16_def)

lemma tx_packet_head: "tx_packet b0 pl ! 0 = b0" "tx_packet b0 pl ! 1 AND 0x0F = 14" "packet_type_decode (tx_packet b0 pl) = Some 14"
proof -
  show "tx_packet b0 pl ! 0 = b0" by (simp add: tx_packet_shape)
  show t: "tx_packet b0 pl ! 1 AND 0x0F = 14"
  proof (rule bit_word_eqI)
    fix n assume "n < LENGTH(8)"
    then have "n \<in> {0, 1, 2, 3, 4, 5, 6, 7}" by auto
    then show "bit (tx_packet b0 pl ! 1 AND 0x0F) n = bit (14 :: u8) n"
      by (auto simp: tx_packet_shape wr_u16_def bit_simps)
  qed
  then show "packet_type_decode (tx_packet b0 pl) = Some 14" by (simp add: packet_type_decode_def)
qed

lemma tx_packet_valid:
  assumes "4 \<le> length pl" "length pl < 4096" "b0 AND 0x40 \<noteq> 0" "b0 AND 0x80 \<noteq> 0"
  shows "is_rx_pkt_valid (tx_packet b0 pl)"
proof -
  let ?t = "push_bit 4 (of_nat (length pl)) OR 14 :: u16" and ?p = "tx_packet b0 pl"
  have d1: "rd_u16 (drop 1 ?p) = ?t" by (simp add: tx_packet_shape)
  have "drop_bit 4 ?t = of_nat (length pl)"
  proof (rule bit_word_eqI)
    fix n assume n: "n < LENGTH(16)"
    have "(14 :: u16) = push_bit 1 (mask 3)" by (simp add: mask_eq_exp_minus_1)
    then have "bit (14 :: u16) (n + 4) = False" by (simp only: bit_push_bit_iff bit_mask_iff) simp
    moreover have "bit (of_nat (length pl) :: u16) n = False" if "n \<ge> 12"
    proof -
      have "take_bit 12 (of_nat (length pl) :: u16) = of_nat (length pl)" using assms(2) by (simp add: take_bit_of_nat take_bit_nat_eq_self)
      then show ?thesis using that bit_take_bit_iff [of 12 "of_nat (length pl) :: u16" n] by simp
    qed
    ultimately show "bit (drop_bit 4 ?t) n = bit (of_nat (length pl) :: u16) n" using n by (cases "n < 12") (auto simp: bit_simps add.commute)
  qed
  then have len: "unat (drop_bit 4 (rd_u16 (drop 1 ?p))) = length pl" using d1 assms(2) by (simp add: unat_of_nat)
  have crc: "crc16_compute (take (length ?p - 2) ?p) None = rd_u16 (drop (length ?p - 2) ?p)" by (simp add: tx_packet_def Let_def)
  obtain b1 b2 where w: "wr_u16 ?t = [b1, b2]" by (simp add: wr_u16_def)
  have "header_sum ?p AND 0xFF = 0" using checksum_zero [of b0 b1 b2] w by (simp add: tx_packet_shape)
  then show ?thesis using assms len crc tx_packet_head by (simp add: is_rx_pkt_valid_def)
qed

section \<open>The ring under any client\<close>

text \<open>
  What holds of the pool whatever order buffers are given back in: \<open>n\<close> buffers are produced and not extracted, the last of them
  before \<open>write_index\<close>.
\<close>

definition pool_link :: "rx_buffer_queue \<Rightarrow> nat \<Rightarrow> bool" where
  "pool_link q n \<longleftrightarrow> unat (read_index q) < 16 \<and> unat (read_available_count q) = n \<and> n \<le> 2 \<and> unat (write_index q) = (unat (read_index q) + n) mod 16"

lemma link_open: "pool_link (hci_mem_pool_open q) 0"
  by (simp add: pool_link_def hci_mem_pool_open_def)

lemma link_produce:
  assumes "pool_link q n" "n \<le> 1"
  obtains (room) q' where "hci_mem_pool_rx_produce HCI_RX_BUF_SIZE q = (NRF_SUCCESS, Some (write_index q), q')" "pool_link q' (Suc n)" "read_index q' = read_index q" "rx_length q' = rx_length q" "write_index q' = ring (write_index q + 1)"
  | (full) "hci_mem_pool_rx_produce HCI_RX_BUF_SIZE q = (NRF_ERROR_NO_MEM, None, q)"
proof (cases "free_window_count q = 0")
  case True
  then show thesis by (intro full) (simp add: hci_mem_pool_rx_produce_def)
next
  case False
  let ?q = "q\<lparr>free_window_count := free_window_count q - 1, read_available_count := read_available_count q + 1,
      free_index := free_index q OR push_bit (unat (write_index q)) 1, write_index := ring (write_index q + 1)\<rparr>"
  have "unat (read_available_count q + 1) = Suc n" using assms by (simp add: pool_link_def unat_word_ariths)
  then have "pool_link ?q (Suc n)" using assms by (simp add: pool_link_def unat_ring_add mod_Suc_eq)
  then show thesis using False by (intro room [of ?q]) (simp_all add: hci_mem_pool_rx_produce_def)
qed

lemma ring_back:
  assumes "unat r < 16" "unat x = (unat r + 1) mod 16" shows "ring (x - 1) = r"
proof -
  have "unat (ring (x - 1)) = unat r"
  proof (cases "unat r = 15")
    case True
    then have "x = 0" using assms(2) by (simp add: unat_eq_zero)
    then show ?thesis using True by (simp add: unat_ring unsigned_minus_1_eq_mask mask_eq_exp_minus_1)
  next
    case False
    then have "unat x = unat r + 1" using assms by simp
    then have "unat (x - 1) = unat r" by (subst unat_minus_one) auto
    then show ?thesis using assms(1) by (simp add: unat_ring)
  qed
  then show ?thesis by (simp add: word_unat_eq_iff)
qed

lemma link_last: "pool_link q 1 \<Longrightarrow> ring (write_index q - 1) = read_index q"
  by (rule ring_back) (simp_all add: pool_link_def)

lemma link_size:
  assumes "pool_link q 1"
  shows "pool_link (hci_mem_pool_rx_data_size_set len q) 1" "rx_length (hci_mem_pool_rx_data_size_set len q) (read_index q) = len"
    "read_index (hci_mem_pool_rx_data_size_set len q) = read_index q" "write_index (hci_mem_pool_rx_data_size_set len q) = write_index q"
  using assms link_last [OF assms] by (simp_all add: pool_link_def hci_mem_pool_rx_data_size_set_def)

lemma link_extract:
  assumes "pool_link q (Suc n)"
  obtains q' where "hci_mem_pool_rx_extract q = (NRF_SUCCESS, Some (read_index q, rx_length q (read_index q)), q')" "pool_link q' n" "write_index q' = write_index q"
proof -
  let ?q = "q\<lparr>read_available_count := read_available_count q - 1, free_available_count := free_available_count q + 1, read_index := ring (read_index q + 1)\<rparr>"
  have ne: "read_available_count q \<noteq> 0" using assms by (auto simp: pool_link_def)
  then have "unat (read_available_count q - 1) = n" using assms by (simp add: unat_minus_one pool_link_def)
  then have "pool_link ?q n" using assms by (simp add: pool_link_def unat_ring_add mod_simps)
  then show thesis using ne by (intro that [of ?q]) (simp_all add: hci_mem_pool_rx_extract_def)
qed

lemma release_same:
  "read_index (consume_release c i q) = read_index q \<and> write_index (consume_release c i q) = write_index q \<and>
   read_available_count (consume_release c i q) = read_available_count q \<and> rx_length (consume_release c i q) = rx_length q"
  by (induction c i q rule: consume_release.induct) (subst consume_release.simps, auto simp: consume_release.simps)

lemma link_consume:
  assumes "pool_link q n"
  obtains e q' where "hci_mem_pool_rx_consume i q = Some (e, q')" "pool_link q' n" "write_index q' = write_index q" "read_index q' = read_index q" "rx_length q' = rx_length q"
proof -
  have "hci_mem_pool_rx_consume i q \<noteq> None" using assms by (intro consume_total) (simp add: pool_link_def)
  then obtain e q' where c: "hci_mem_pool_rx_consume i q = Some (e, q')" by auto
  then have "read_index q' = read_index q \<and> write_index q' = write_index q \<and> read_available_count q' = read_available_count q \<and> rx_length q' = rx_length q"
    using release_same by (auto simp: hci_mem_pool_rx_consume_def Let_def split: if_splits option.splits)
  then show thesis using c assms by (intro that [OF c]) (simp_all add: pool_link_def)
qed

section \<open>Safety under any byte stream\<close>

definition benign :: "('a \<Rightarrow> bool) \<Rightarrow> hci_trap + 'a \<Rightarrow> bool" where
  "benign P r \<longleftrightarrow> (case r of Inl e \<Rightarrow> (\<exists>x. e = App_Error x) | Inr y \<Rightarrow> P y)"

lemma benign_simps [simp]: "benign P (Inr y) \<longleftrightarrow> P y" "benign P (Inl (App_Error x))" "\<not> benign P (Inl Bad_Access)" "\<not> benign P (Inl Hang)"
  by (simp_all add: benign_def)

lemma benign_cases [consumes 1, case_names App_Error Inr]:
  assumes "benign P r" obtains x where "r = Inl (App_Error x)" | y where "r = Inr y" "P y"
  using assms by (auto simp: benign_def split: sum.splits)

definition used_ok :: "'v hci \<Rightarrow> bool" where
  "used_ok u \<longleftrightarrow> (case mp_slip_used_rx_buffer u of None \<Rightarrow> pool_link (hci_pool u) 0
     | Some w \<Rightarrow> pool_link (hci_pool u) 1 \<and> read_index (hci_pool u) = w)"

definition rx_ok :: "slip \<Rightarrow> u32 option \<Rightarrow> bool" where
  "rx_ok s used \<longleftrightarrow> m_slip_event_handler s \<and>
     (case mp_rx_buffer s of
        None \<Rightarrow> m_rx_received_count s = 0
      | Some p \<Rightarrow> unat (m_rx_buffer_length s) \<le> hbuf_size p \<and> m_rx_received_count s \<le> m_rx_buffer_length s \<and> p \<in> {Ack_Buf} \<union> Pool_Buf ` set_option used)"

definition extract_ready :: "'v hci \<Rightarrow> nat \<Rightarrow> bool" where
  "extract_ready u n \<longleftrightarrow> m_is_slip_decode_ready u \<and> pool_link (hci_pool u) (Suc n) \<and>
     10 \<le> unat (rx_length (hci_pool u) (read_index (hci_pool u))) \<and> unat (rx_length (hci_pool u) (read_index (hci_pool u))) \<le> HCI_RX_BUF_SIZE"

definition extract_done :: "'v hci \<Rightarrow> nat \<Rightarrow> 'v hci \<Rightarrow> bool" where
  "extract_done u n u' \<longleftrightarrow> pool_link (hci_pool u') n \<and> write_index (hci_pool u') = write_index (hci_pool u) \<and>
     mp_slip_used_rx_buffer u' = mp_slip_used_rx_buffer u \<and> m_transport_event_handle u' = m_transport_event_handle u"

definition hci_inv :: "('v \<Rightarrow> bool) \<Rightarrow> slip \<times> 'v hci \<Rightarrow> bool" where
  "hci_inv up_inv = (\<lambda>(s, u). rx_ok s (mp_slip_used_rx_buffer u) \<and> used_ok u \<and> up_inv (hci_up u) \<and> m_transport_event_handle u)"

text \<open>
  What the transport relies on its client for: told that a packet is ready, it takes one buffer from the pool, gives back whichever it
  likes, and keeps its own invariant.
\<close>

locale hci_client =
  fixes up :: "'v hci_cb" and up_inv :: "'v \<Rightarrow> bool"
  assumes up_safe: "up_inv (hci_up u) \<Longrightarrow> extract_ready u n \<Longrightarrow> benign (\<lambda>u'. up_inv (hci_up u') \<and> extract_done u n u') (up mem u)"
begin

lemma used_register_inv:
  assumes "m_slip_event_handler s" "used_ok u" "up_inv (hci_up u)" "m_transport_event_handle u" shows "hci_inv up_inv (used_register (s, u))"
proof -
  have "w < HCI_RX_BUF_QUEUE_SIZE" if "mp_slip_used_rx_buffer u = Some w" for w
    using assms(2) that by (auto simp: used_ok_def pool_link_def HCI_RX_BUF_QUEUE_SIZE_def word_less_nat_alt)
  then show ?thesis using assms
    by (auto simp: hci_inv_def used_register_def hci_slip_rx_buffer_register_def rx_ok_def HCI_RX_BUF_SIZE_def split: option.splits)
qed

lemma ack_register_inv:
  assumes "m_slip_event_handler s" "used_ok u" "up_inv (hci_up u)" "m_transport_event_handle u"
  shows "hci_inv up_inv (hci_slip_rx_buffer_register (Some Ack_Buf) (of_nat ACK_BUF_SIZE) s, u)"
  using assms by (simp add: hci_inv_def hci_slip_rx_buffer_register_def rx_ok_def ACK_BUF_SIZE_def)

lemma ack_transmit_inv: "hci_inv up_inv (ack_transmit x) = hci_inv up_inv x"
  by (cases x; cases "mp_rx_buffer (fst x)") (simp_all add: ack_transmit_def hci_inv_def rx_ok_def slip_write_rx)

lemma produce_inv:
  assumes "m_slip_event_handler s" "pool_link (hci_pool u) 0" "up_inv (hci_up u)" "m_transport_event_handle u" shows "benign (hci_inv up_inv) (produce_register (s, u))"
proof (rule link_produce [OF assms(2) zero_le_one])
  fix q' assume p: "hci_mem_pool_rx_produce HCI_RX_BUF_SIZE (hci_pool u) = (NRF_SUCCESS, Some (write_index (hci_pool u)), q')"
    "pool_link q' (Suc 0)" "read_index q' = read_index (hci_pool u)" "rx_length q' = rx_length (hci_pool u)" "write_index q' = ring (write_index (hci_pool u) + 1)"
  have "write_index (hci_pool u) = read_index (hci_pool u)" using assms(2) by (simp add: pool_link_def word_unat_eq_iff)
  then show ?thesis using p assms by (auto simp: produce_register_def used_ok_def intro: used_register_inv)
next
  assume "hci_mem_pool_rx_produce HCI_RX_BUF_SIZE (hci_pool u) = (NRF_ERROR_NO_MEM, None, hci_pool u)"
  then show ?thesis using assms by (auto simp: produce_register_def used_ok_def intro: ack_register_inv)
qed

lemma link_unique: "pool_link q 1 \<Longrightarrow> pool_link q' 1 \<Longrightarrow> write_index q = write_index q' \<Longrightarrow> read_index q = read_index q'"
  using link_last [of q] link_last [of q'] by simp

text \<open>A packet accepted in sequence: the client runs on a ring with one or two buffers to extract.\<close>

lemma accept_inv:
  assumes s: "m_slip_event_handler s" and u: "pool_link (hci_pool u) 1" "up_inv (hci_up u)" "m_transport_event_handle u"
    and n: "10 \<le> unat n" "unat n \<le> HCI_RX_BUF_SIZE"
  defines "u1 \<equiv> u\<lparr>m_is_slip_decode_ready := True, hci_pool := hci_mem_pool_rx_data_size_set n (hci_pool u)\<rparr>"
  shows "benign (hci_inv up_inv) (case produce_register (s, u1) of Inl e \<Rightarrow> Inl e
    | Inr (s, u) \<Rightarrow> if m_transport_event_handle u then map_sum id (Pair s) (up (sl_mem s) u) else Inr (s, u))"
proof -
  let ?q = "hci_pool u1"
  have q: "pool_link ?q 1" "rx_length ?q (read_index ?q) = n" using link_size [OF u(1)] by (simp_all add: u1_def)
  have fin: "benign (hci_inv up_inv) (map_sum id (Pair t) (up (sl_mem t) v))"
    if t: "m_slip_event_handler t" "rx_ok t (mp_slip_used_rx_buffer v)" and v: "up_inv (hci_up v)" "extract_ready v k" "m_transport_event_handle v"
      and k: "\<And>v'. extract_done v k v' \<Longrightarrow> used_ok v'" for t v k
    using up_safe [OF v(1,2), of "sl_mem t"]
  proof (cases rule: benign_cases)
    case (Inr v')
    then show ?thesis using t v(3) k by (auto simp: hci_inv_def extract_done_def)
  qed simp
  from q(1) order_refl show ?thesis
  proof (cases rule: link_produce)
    case (room q')
    define v where "v = u1\<lparr>mp_slip_used_rx_buffer := Some (write_index ?q), hci_pool := q'\<rparr>"
    have l: "pool_link q' (Suc 1)" "unat (write_index ?q) < 16" using room(2) q(1) by (simp_all add: pool_link_def)
    have p: "produce_register (s, u1) = Inr (used_register (s, v))" using room(1) by (simp add: produce_register_def v_def)
    have w: "write_index ?q < HCI_RX_BUF_QUEUE_SIZE" using l(2) by (simp add: HCI_RX_BUF_QUEUE_SIZE_def word_less_nat_alt)
    have e: "extract_ready v 1" using room q n l(1) by (simp add: extract_ready_def v_def u1_def)
    have k: "used_ok v'" if d: "extract_done v 1 v'" for v'
    proof -
      have "pool_link (hci_pool v') 1" "write_index (hci_pool v') = write_index q'" "mp_slip_used_rx_buffer v' = Some (write_index ?q)"
        using d by (simp_all add: extract_done_def v_def)
      moreover have "ring (write_index q' - 1) = write_index ?q"
        unfolding room(5) using l(2) by (intro ring_back) (simp_all add: unat_ring_add)
      ultimately show ?thesis using link_last [of "hci_pool v'"] by (simp add: used_ok_def)
    qed
    have "up_inv (hci_up v)" "m_transport_event_handle v" "m_slip_event_handler (fst (used_register (s, v)))" "rx_ok (fst (used_register (s, v))) (mp_slip_used_rx_buffer v)"
      using u s w by (auto simp: v_def u1_def used_register_def hci_slip_rx_buffer_register_def rx_ok_def HCI_RX_BUF_SIZE_def)
    from fin [OF this(3,4,1) e this(2) k] show ?thesis using p \<open>m_transport_event_handle v\<close> by (simp add: used_register_def)
  next
    case full
    define v where "v = u1\<lparr>mp_slip_used_rx_buffer := None\<rparr>"
    let ?t = "hci_slip_rx_buffer_register (Some Ack_Buf) (of_nat ACK_BUF_SIZE) s"
    have p: "produce_register (s, u1) = Inr (?t, v)" using full by (simp add: produce_register_def v_def)
    have e: "extract_ready v 0" using q n by (simp add: extract_ready_def v_def u1_def)
    have k: "used_ok v'" if "extract_done v 0 v'" for v' using that by (simp add: extract_done_def used_ok_def v_def)
    have "up_inv (hci_up v)" "m_transport_event_handle v" "m_slip_event_handler ?t" "rx_ok ?t (mp_slip_used_rx_buffer v)"
      using u s by (simp_all add: v_def u1_def hci_slip_rx_buffer_register_def rx_ok_def ACK_BUF_SIZE_def)
    from fin [OF this(3,4,1) e this(2) k] show ?thesis using p \<open>m_transport_event_handle v\<close> by simp
  qed
qed

lemma vendor_inv:
  assumes "m_slip_event_handler s" "used_ok u" "up_inv (hci_up u)" "m_transport_event_handle u" "length bs \<le> HCI_RX_BUF_SIZE"
    "6 \<le> length bs \<Longrightarrow> mp_slip_used_rx_buffer u \<noteq> None"
  shows "benign (hci_inv up_inv) (rx_vendor_specific_pkt_type_handle up bs (s, u))"
proof (cases "is_rx_pkt_valid bs \<and> packet_number_expected_get u = packet_seq_nmbr_extract bs")
  case True
  then have n: "10 \<le> length bs" "6 \<le> length bs" by (auto simp: is_rx_pkt_valid_def Let_def)
  then have l: "pool_link (hci_pool u) 1" using assms(2,6) by (auto simp: used_ok_def)
  let ?u = "packet_number_expected_inc u"
  obtain s' where s': "ack_transmit (s, ?u) = (s', ?u)" "m_slip_event_handler s'" using assms(1) by (simp add: ack_transmit_def slip_write_rx)
  have un: "unat (of_nat (length bs) :: u32) = length bs" using assms(5) by (intro unat_of_nat_u32) (simp add: HCI_RX_BUF_SIZE_def)
  have "benign (hci_inv up_inv) (case produce_register (s', ?u\<lparr>m_is_slip_decode_ready := True, hci_pool := hci_mem_pool_rx_data_size_set (of_nat (length bs)) (hci_pool ?u)\<rparr>) of Inl e \<Rightarrow> Inl e
      | Inr (s, u) \<Rightarrow> if m_transport_event_handle u then map_sum id (Pair s) (up (sl_mem s) u) else Inr (s, u))"
    using assms l n un by (intro accept_inv) (simp_all add: s'(2) packet_number_expected_inc_def)
  then show ?thesis using True s'(1) by (simp add: rx_vendor_specific_pkt_type_handle_def Let_def)
next
  case False
  have "hci_inv up_inv (used_register (s, u))" using assms by (intro used_register_inv)
  then show ?thesis using False by (auto simp: rx_vendor_specific_pkt_type_handle_def ack_transmit_inv)
qed

lemma ack_same:
  "mp_slip_used_rx_buffer (tx_valid_rx_ack u) = mp_slip_used_rx_buffer u" "hci_pool (tx_valid_rx_ack u) = hci_pool u" "hci_up (tx_valid_rx_ack u) = hci_up u"
  "m_transport_event_handle (tx_valid_rx_ack u) = m_transport_event_handle u" "used_ok (tx_valid_rx_ack u) = used_ok u"
  by (simp_all add: tx_valid_rx_ack_def used_ok_def split: option.split)

lemma event_rdy_inv:
  assumes s: "m_slip_event_handler s" "used_ok u" "up_inv (hci_up u)" "m_transport_event_handle u"
    and p: "unat len \<le> hbuf_size p" "p \<in> {Ack_Buf} \<union> Pool_Buf ` set_option (mp_slip_used_rx_buffer u)"
  shows "benign (hci_inv up_inv) (slip_event_handle up (HCI_SLIP_RX_RDY (Some p) len) (s, u))"
proof -
  let ?bs = "rx_packet s p len"
  define v where "v = (if packet_type_decode ?bs = Some 0 \<and> rx_ack_pkt_type_handle ?bs u then tx_valid_rx_ack (u\<lparr>m_tx_done_success := True\<rparr>) else u)"
  have v: "mp_slip_used_rx_buffer v = mp_slip_used_rx_buffer u" "hci_pool v = hci_pool u" "used_ok v" "up_inv (hci_up v)" "m_transport_event_handle v"
    using s by (simp_all add: v_def ack_same used_ok_def split: option.splits)
  have len: "length ?bs \<le> HCI_RX_BUF_SIZE" "6 \<le> length ?bs \<Longrightarrow> mp_slip_used_rx_buffer u \<noteq> None"
    using p by (auto simp: rx_packet_def ACK_BUF_SIZE_def HCI_RX_BUF_SIZE_def split: if_splits)
  have "benign (hci_inv up_inv) (if mp_slip_used_rx_buffer v \<noteq> None then Inr (used_register (s, v)) else produce_register (s, v))"
  proof (cases "mp_slip_used_rx_buffer v")
    case None
    then have "pool_link (hci_pool v) 0" using v(3) by (simp add: used_ok_def)
    then show ?thesis using None produce_inv [OF s(1) _ v(4,5)] by simp
  next
    case (Some w)
    then show ?thesis using used_register_inv [OF s(1) v(3-5)] by simp
  qed
  moreover have "slip_event_handle up (HCI_SLIP_RX_RDY (Some p) len) (s, u) = (if packet_type_decode ?bs = Some 14 then rx_vendor_specific_pkt_type_handle up ?bs (s, u)
      else if mp_slip_used_rx_buffer v \<noteq> None then Inr (used_register (s, v)) else produce_register (s, v))"
    unfolding v_def slip_event_handle_def Let_def using p(1) by (simp only: prod.case slip_evt.case option.case not_less [symmetric] if_False)
  ultimately show ?thesis using vendor_inv [OF s len] by (cases "packet_type_decode ?bs = Some 14") (simp_all only: if_True if_False simp_thms)
qed

lemma overflow_inv:
  assumes "hci_inv up_inv x" shows "benign (hci_inv up_inv) (slip_event_handle up (HCI_SLIP_RX_OVERFLOW p len) x)"
proof -
  obtain s u where x: "x = (s, u)" by (cases x)
  then have "m_slip_event_handler s" "used_ok u" "up_inv (hci_up u)" "m_transport_event_handle u" using assms by (simp_all add: hci_inv_def rx_ok_def)
  then show ?thesis using x by (simp add: slip_event_handle_def ack_register_inv)
qed

lemma rx_byte_inv:
  assumes "hci_inv up_inv (s, u)" "mp_rx_buffer s \<noteq> None" "m_rx_received_count s < m_rx_buffer_length s"
  shows "benign (hci_inv up_inv) (rx_byte (slip_event_handle up) b (s, u))"
proof -
  from assms(2) obtain p where p: "mp_rx_buffer s = Some p" by auto
  have a: "m_slip_event_handler s" "unat (m_rx_buffer_length s) \<le> hbuf_size p" "p \<in> {Ack_Buf} \<union> Pool_Buf ` set_option (mp_slip_used_rx_buffer u)"
    "used_ok u" "up_inv (hci_up u)" "m_transport_event_handle u" using assms(1) p by (auto simp: hci_inv_def rx_ok_def)
  have set_handler: "hci_inv up_inv (s\<lparr>handle_rx_byte := x\<rparr>, u) = hci_inv up_inv (s, u)" for s u x by (simp add: hci_inv_def rx_ok_def split: option.split)
  have st: "benign (hci_inv up_inv) (rx_store c (s, u))" for c
  proof -
    have lt: "unat (m_rx_received_count s) < hbuf_size p" using assms(3) a(2) by (simp add: word_less_nat_alt)
    have "m_rx_received_count s + 1 \<le> m_rx_buffer_length s" using assms(3) by (rule inc_le)
    then show ?thesis using p a lt by (simp add: rx_store_def hci_inv_def rx_ok_def)
  qed
  have e: "benign (hci_inv up_inv) (handle_slip_end (slip_event_handle up) (s, u))"
  proof -
    have "unat (m_rx_received_count s) \<le> hbuf_size p" using assms(3) a(2) by (simp add: word_less_nat_alt)
    then show ?thesis using event_rdy_inv [of "s\<lparr>m_rx_received_count := 0, mp_rx_buffer := None\<rparr>" u "m_rx_received_count s" p] a p assms(1)
      by (simp add: handle_slip_end_def)
  qed
  have esc: "benign (hci_inv up_inv) (case r of Inl e \<Rightarrow> Inl e | Inr (s, u) \<Rightarrow> Inr (s\<lparr>handle_rx_byte := handle_rx_byte_default\<rparr>, u))" if "benign (hci_inv up_inv) r" for r
    using that by (cases rule: benign_cases) (auto simp: set_handler)
  show ?thesis using assms(1) st e esc by (cases "handle_rx_byte s") (simp_all add: rx_byte_def set_handler)
qed

lemma pending_inv:
  assumes "hci_inv up_inv x" shows "benign (\<lambda>(cs, y). hci_inv up_inv y) (hci_slip_process_pending_rx (slip_event_handle up) cs x)"
  using assms
proof (induction cs arbitrary: x)
  case (Cons c cs)
  obtain s u where x: "x = (s, u)" by (cases x)
  show ?case
  proof (cases "mp_rx_buffer s = None \<or> m_rx_received_count s \<ge> m_rx_buffer_length s")
    case True
    have "m_slip_event_handler s" using Cons.prems x by (simp add: hci_inv_def rx_ok_def)
    then have o: "rx_buffer_overflowed (slip_event_handle up) x = (case slip_event_handle up (HCI_SLIP_RX_OVERFLOW (mp_rx_buffer s) (m_rx_received_count s)) x of Inl e \<Rightarrow> Inl e | Inr x \<Rightarrow> Inr (True, x))"
      using True x by (simp add: rx_buffer_overflowed_def)
    from overflow_inv [OF Cons.prems, of "mp_rx_buffer s" "m_rx_received_count s"] show ?thesis
      by (cases rule: benign_cases) (simp_all add: o)
  next
    case False
    then have o: "rx_buffer_overflowed (slip_event_handle up) x = Inr (False, x)" using x by (auto simp: rx_buffer_overflowed_def)
    have "benign (hci_inv up_inv) (rx_byte (slip_event_handle up) c x)" using rx_byte_inv Cons.prems False x by (simp add: not_le)
    then show ?thesis by (cases rule: benign_cases) (simp_all add: o Cons.IH)
  qed
qed simp

end

end
