(* ===== verification/App_Sched.thy ===== *)
theory App_Sched
  imports Build_Config
begin

text \<open>
  The event scheduler (\<open>libraries/scheduler/app_scheduler.c\<close>): a ring of one entry more than the queue has room for, filled from
  interrupt or main context and drained by the main loop.  Handlers are values of \<open>'h\<close>; the client runs them.
\<close>

record 'h sched =
  m_queue_event_headers :: "u8 \<Rightarrow> 'h"
  m_queue_event_data :: "u8 \<Rightarrow> bytes"
  m_queue_start_index :: u8
  m_queue_end_index :: u8
  m_queue_event_size :: u16
  m_queue_size :: u16

definition next_index :: "'h sched \<Rightarrow> u8 \<Rightarrow> u8" where
  "next_index q index = (if ucast index < m_queue_size q then index + 1 else 0)"

definition app_sched_queue_full :: "'h sched \<Rightarrow> bool" where
  "app_sched_queue_full q \<longleftrightarrow> next_index q (m_queue_end_index q) = m_queue_start_index q"

definition app_sched_queue_empty :: "'h sched \<Rightarrow> bool" where
  "app_sched_queue_empty q \<longleftrightarrow> m_queue_end_index q = m_queue_start_index q"

definition app_sched_init :: "bool \<Rightarrow> u16 \<Rightarrow> u16 \<Rightarrow> 'h sched \<Rightarrow> nrf_error \<times> 'h sched" where
  "app_sched_init aligned event_size queue_size q =
     (if \<not> aligned then (NRF_ERROR_INVALID_PARAM, q)
      else (NRF_SUCCESS, q\<lparr>m_queue_end_index := 0, m_queue_start_index := 0, m_queue_event_size := event_size, m_queue_size := queue_size\<rparr>))"

definition app_sched_queue_space_get :: "'h sched \<Rightarrow> u16" where
  "app_sched_queue_space_get q =
     (let start = ucast (m_queue_start_index q); end' = ucast (m_queue_end_index q)
      in m_queue_size q - (if end' \<ge> start then end' - start else m_queue_size q + 1 - start + end'))"

definition app_sched_event_put :: "bytes \<Rightarrow> 'h \<Rightarrow> 'h sched \<Rightarrow> nrf_error \<times> 'h sched" where
  "app_sched_event_put p_event_data handler q =
     (if length p_event_data \<le> unat (m_queue_event_size q)
      then if \<not> app_sched_queue_full q
           then let event_index = m_queue_end_index q
                in (NRF_SUCCESS, q\<lparr>m_queue_end_index := next_index q event_index,
                      m_queue_event_headers := (m_queue_event_headers q)(event_index := handler),
                      m_queue_event_data := (m_queue_event_data q)(event_index := p_event_data)\<rparr>)
           else (NRF_ERROR_NO_MEM, q)
      else (NRF_ERROR_INVALID_LENGTH, q))"

text \<open>One turn of the loop of \<open>app_sched_execute\<close>: the event to run, and the queue once it was run (its entry stays taken meanwhile).\<close>

definition app_sched_head :: "'h sched \<Rightarrow> ('h \<times> bytes) option" where
  "app_sched_head q = (if app_sched_queue_empty q then None
     else Some (m_queue_event_headers q (m_queue_start_index q), m_queue_event_data q (m_queue_start_index q)))"

definition app_sched_drop :: "'h sched \<Rightarrow> 'h sched" where
  "app_sched_drop q = q\<lparr>m_queue_start_index := next_index q (m_queue_start_index q)\<rparr>"

section \<open>The queue the ring holds\<close>

definition sched_slots :: "nat \<Rightarrow> nat \<Rightarrow> nat \<Rightarrow> u8 list" where
  "sched_slots n s k = map (\<lambda>j. of_nat ((s + j) mod Suc n)) [0..<k]"

definition sched_rep :: "'h sched \<Rightarrow> ('h \<times> bytes) list \<Rightarrow> bool" where
  "sched_rep q es \<longleftrightarrow> unat (m_queue_size q) < 255 \<and> unat (m_queue_start_index q) \<le> unat (m_queue_size q) \<and> length es \<le> unat (m_queue_size q) \<and>
     unat (m_queue_end_index q) = (unat (m_queue_start_index q) + length es) mod Suc (unat (m_queue_size q)) \<and>
     es = map (\<lambda>i. (m_queue_event_headers q i, m_queue_event_data q i)) (sched_slots (unat (m_queue_size q)) (unat (m_queue_start_index q)) (length es))"

lemma length_sched_slots [simp]: "length (sched_slots n s k) = k"
  by (simp add: sched_slots_def)

lemma next_index_unat:
  assumes "unat (m_queue_size q) < 255" "unat i \<le> unat (m_queue_size q)"
  shows "unat (next_index q i) = (unat i + 1) mod Suc (unat (m_queue_size q))"
proof -
  have "unat i < 2 ^ 8" using unsigned_less [of i] by simp
  then have u: "unat (ucast i :: u16) = unat i" by (simp add: unsigned_ucast_eq take_bit_nat_eq_self_iff)
  show ?thesis
  proof (cases "unat i < unat (m_queue_size q)")
    case True
    then have "ucast i < m_queue_size q" using u by (simp add: word_less_nat_alt)
    moreover have "unat (i + 1) = unat i + 1" using True assms(1) by (simp add: unat_word_ariths)
    ultimately show ?thesis using True by (simp add: next_index_def)
  next
    case False
    then have "\<not> ucast i < m_queue_size q" using u by (simp add: word_less_nat_alt)
    then show ?thesis using False assms(2) by (simp add: next_index_def)
  qed
qed

lemma mod_Suc_offset:
  fixes s j k n :: nat assumes "j < k" "k \<le> n" shows "(s + j) mod Suc n \<noteq> (s + k) mod Suc n"
proof
  assume "(s + j) mod Suc n = (s + k) mod Suc n"
  then have "Suc n dvd (s + k) - (s + j)" using assms(1) mod_eq_dvd_iff_nat [of "s + j" "s + k" "Suc n"] by simp
  then have "Suc n dvd k - j" by simp
  then show False using assms by (auto dest: dvd_imp_le)
qed

lemma sched_full_iff:
  assumes "sched_rep q es" shows "app_sched_queue_full q \<longleftrightarrow> length es = unat (m_queue_size q)"
proof -
  let ?n = "unat (m_queue_size q)" and ?s = "unat (m_queue_start_index q)"
  have a: "?n < 255" "?s \<le> ?n" "length es \<le> ?n" "unat (m_queue_end_index q) = (?s + length es) mod Suc ?n" using assms by (auto simp: sched_rep_def)
  then have e: "unat (next_index q (m_queue_end_index q)) = (?s + Suc (length es)) mod Suc ?n"
    using mod_less_divisor [of "Suc ?n" "?s + length es"] by (subst next_index_unat) (simp_all add: mod_Suc_eq del: mod_less_divisor)
  have "app_sched_queue_full q \<longleftrightarrow> (?s + Suc (length es)) mod Suc ?n = ?s"
    unfolding app_sched_queue_full_def word_unat_eq_iff e ..
  also have "\<dots> \<longleftrightarrow> length es = ?n"
  proof
    assume "length es = ?n"
    then show "(?s + Suc (length es)) mod Suc ?n = ?s" using a(2) by (simp only: mod_add_self2) simp
  next
    assume m: "(?s + Suc (length es)) mod Suc ?n = ?s"
    show "length es = ?n"
    proof (rule ccontr)
      assume "length es \<noteq> ?n"
      then have "Suc (length es) \<le> ?n" using a(3) by simp
      from mod_Suc_offset [OF zero_less_Suc this, of ?s] show False using m a(2) by simp
    qed
  qed
  finally show ?thesis .
qed

lemma sched_empty_iff:
  assumes "sched_rep q es" shows "app_sched_queue_empty q \<longleftrightarrow> es = []"
proof -
  let ?n = "unat (m_queue_size q)" and ?s = "unat (m_queue_start_index q)"
  have a: "?s \<le> ?n" "length es \<le> ?n" "unat (m_queue_end_index q) = (?s + length es) mod Suc ?n" using assms by (auto simp: sched_rep_def)
  have "app_sched_queue_empty q \<longleftrightarrow> (?s + length es) mod Suc ?n = (?s + 0) mod Suc ?n" using a by (simp add: app_sched_queue_empty_def word_unat_eq_iff)
  then show ?thesis using mod_Suc_offset [of 0 "length es" ?n ?s] a(2) by (metis add_0_right length_greater_0_conv list.size(3))
qed

lemma sched_put:
  assumes "sched_rep q es" "length es < unat (m_queue_size q)" "length d \<le> unat (m_queue_event_size q)"
  shows "\<exists>q'. app_sched_event_put d h q = (NRF_SUCCESS, q') \<and> sched_rep q' (es @ [(h, d)]) \<and> m_queue_size q' = m_queue_size q \<and> m_queue_event_size q' = m_queue_event_size q"
proof -
  let ?n = "unat (m_queue_size q)" and ?s = "unat (m_queue_start_index q)" and ?e = "m_queue_end_index q"
  have a: "?n < 255" "?s \<le> ?n" "unat ?e = (?s + length es) mod Suc ?n"
    and es: "es = map (\<lambda>i. (m_queue_event_headers q i, m_queue_event_data q i)) (sched_slots ?n ?s (length es))" using assms(1) by (auto simp: sched_rep_def)
  let ?q = "q\<lparr>m_queue_end_index := next_index q ?e, m_queue_event_headers := (m_queue_event_headers q)(?e := h), m_queue_event_data := (m_queue_event_data q)(?e := d)\<rparr>"
  have put: "app_sched_event_put d h q = (NRF_SUCCESS, ?q)"
    using sched_full_iff [OF assms(1)] assms(2,3) by (simp add: app_sched_event_put_def Let_def)
  have lt: "(?s + j) mod Suc ?n < 256" for j using a(1) mod_less_divisor [of "Suc ?n" "?s + j"] by linarith
  have u: "unat (of_nat ((?s + j) mod Suc ?n) :: u8) = (?s + j) mod Suc ?n" for j using lt [of j] by (simp add: unat_of_nat)
  have ne: "of_nat ((?s + j) mod Suc ?n) \<noteq> ?e" if "j < length es" for j
    unfolding word_unat_eq_iff u a(3) using mod_Suc_offset [OF that, of ?n ?s] assms(2) by simp
  have last: "of_nat ((?s + length es) mod Suc ?n) = ?e" unfolding word_unat_eq_iff u a(3) ..
  have "es @ [(h, d)] = map (\<lambda>i. (m_queue_event_headers ?q i, m_queue_event_data ?q i)) (sched_slots ?n ?s (Suc (length es)))"
  proof -
    have "map (\<lambda>i. (m_queue_event_headers ?q i, m_queue_event_data ?q i)) (sched_slots ?n ?s (length es)) =
        map (\<lambda>i. (m_queue_event_headers q i, m_queue_event_data q i)) (sched_slots ?n ?s (length es))"
      using ne by (auto simp: sched_slots_def)
    also have "\<dots> = es" using es by (rule sym)
    moreover have "sched_slots ?n ?s (Suc (length es)) = sched_slots ?n ?s (length es) @ [?e]" using last by (simp add: sched_slots_def)
    ultimately show ?thesis by (simp only: map_append list.map) simp
  qed
  moreover have "unat (next_index q ?e) = (?s + Suc (length es)) mod Suc ?n"
    using a mod_less_divisor [of "Suc ?n" "?s + length es"] by (subst next_index_unat) (simp_all add: mod_Suc_eq del: mod_less_divisor)
  ultimately have "sched_rep ?q (es @ [(h, d)])" using a assms(2) by (simp add: sched_rep_def)
  then show ?thesis using put by auto
qed

lemma sched_run:
  assumes "sched_rep q (e # es)" shows "app_sched_head q = Some e \<and> sched_rep (app_sched_drop q) es"
proof -
  let ?n = "unat (m_queue_size q)" and ?s = "unat (m_queue_start_index q)"
  have a: "?n < 255" "?s \<le> ?n" "Suc (length es) \<le> ?n" "unat (m_queue_end_index q) = (?s + Suc (length es)) mod Suc ?n"
    and es: "e # es = map (\<lambda>i. (m_queue_event_headers q i, m_queue_event_data q i)) (sched_slots ?n ?s (Suc (length es)))"
    using assms by (auto simp: sched_rep_def)
  have n: "unat (next_index q (m_queue_start_index q)) = (?s + 1) mod Suc ?n" using a by (intro next_index_unat)
  have sl: "sched_slots ?n ?s (Suc (length es)) = m_queue_start_index q # sched_slots ?n ((?s + 1) mod Suc ?n) (length es)"
    using a(2) by (simp add: sched_slots_def upt_conv_Cons map_Suc_upt [symmetric] mod_add_left_eq del: upt_Suc map_Suc_upt)
  have "\<not> app_sched_queue_empty q" using sched_empty_iff [OF assms] by simp
  then have "app_sched_head q = Some e" using es sl by (simp add: app_sched_head_def)
  moreover have "sched_rep (app_sched_drop q) es"
    using a n es sl mod_less_divisor [of "Suc ?n" "?s + 1"] by (simp add: sched_rep_def app_sched_drop_def mod_add_left_eq del: mod_less_divisor)
  ultimately show ?thesis ..
qed

section \<open>Contract\<close>

text \<open>A bounded first-in first-out queue of events.\<close>

locale event_queue =
  fixes rep :: "'q \<Rightarrow> 'e list \<Rightarrow> bool" and put :: "'e \<Rightarrow> 'q \<Rightarrow> nrf_error \<times> 'q" and head :: "'q \<Rightarrow> 'e option" and drop_head :: "'q \<Rightarrow> 'q" and cap :: nat
    and fits :: "'e \<Rightarrow> bool"
  assumes put_room: "rep q es \<Longrightarrow> length es < cap \<Longrightarrow> fits e \<Longrightarrow> \<exists>q'. put e q = (NRF_SUCCESS, q') \<and> rep q' (es @ [e])"
    and put_full: "rep q es \<Longrightarrow> length es \<ge> cap \<Longrightarrow> fits e \<Longrightarrow> put e q = (NRF_ERROR_NO_MEM, q)"
    and head_some: "rep q (e # es) \<Longrightarrow> head q = Some e \<and> rep (drop_head q) es"
    and head_none: "rep q [] \<Longrightarrow> head q = None"
begin

text \<open>Every put either appends or refuses without a change.\<close>

lemma put_cases:
  assumes "rep q es" "fits e"
  obtains q' where "put e q = (NRF_SUCCESS, q')" "rep q' (es @ [e])" | "put e q = (NRF_ERROR_NO_MEM, q)" "rep q es"
  using put_room [OF assms(1) _ assms(2)] put_full [OF assms(1) _ assms(2)] assms(1) by (metis not_le)

text \<open>Events leave in the order they were put.\<close>

lemma nth_head: "rep q es \<Longrightarrow> k < length es \<Longrightarrow> head ((drop_head ^^ k) q) = Some (es ! k)"
proof (induction k arbitrary: q es)
  case 0
  then show ?case by (cases es) (simp_all add: head_some)
next
  case (Suc k)
  then obtain e es' where e: "es = e # es'" by (cases es) auto
  then have "rep (drop_head q) es'" using Suc.prems(1) head_some by blast
  from Suc.IH [OF this] show ?case using Suc.prems(2) e by (simp add: funpow_swap1)
qed

end

definition SCHED_QUEUE_SIZE :: u16 where "SCHED_QUEUE_SIZE = 30"
definition SCHED_MAX_EVENT_DATA_SIZE :: u16 where "SCHED_MAX_EVENT_DATA_SIZE = 8"

definition board_sched :: "'h sched \<Rightarrow> ('h \<times> bytes) list \<Rightarrow> bool" where
  "board_sched q es \<longleftrightarrow> sched_rep q es \<and> m_queue_size q = SCHED_QUEUE_SIZE \<and> m_queue_event_size q = SCHED_MAX_EVENT_DATA_SIZE"

interpretation sq: event_queue board_sched "\<lambda>(h, d). app_sched_event_put d h" app_sched_head app_sched_drop 30 "\<lambda>(h, d). length d \<le> 8"
proof
  fix q :: "'h sched" and es and e :: "'h \<times> bytes"
  assume r: "board_sched q es" and f: "case e of (h, d) \<Rightarrow> length d \<le> 8"
  obtain h d where e: "e = (h, d)" by (cases e)
  have n: "unat (m_queue_size q) = 30" "unat (m_queue_event_size q) = 8" using r by (simp_all add: board_sched_def SCHED_QUEUE_SIZE_def SCHED_MAX_EVENT_DATA_SIZE_def)
  show "\<exists>q'. (case e of (h, d) \<Rightarrow> app_sched_event_put d h) q = (NRF_SUCCESS, q') \<and> board_sched q' (es @ [e])" if "length es < 30"
    using sched_put [of q es d h] r that f e n by (auto simp: board_sched_def)
  show "(case e of (h, d) \<Rightarrow> app_sched_event_put d h) q = (NRF_ERROR_NO_MEM, q)" if "30 \<le> length es"
  proof -
    have "sched_rep q es" using r by (simp add: board_sched_def)
    then have "app_sched_queue_full q" using that n(1) sched_full_iff [of q es] unfolding sched_rep_def by linarith
    then show ?thesis using f e n by (simp add: app_sched_event_put_def)
  qed
next
  fix q :: "'h sched" and es and e :: "'h \<times> bytes"
  assume "board_sched q (e # es)"
  then show "app_sched_head q = Some e \<and> board_sched (app_sched_drop q) es"
    using sched_run [of q e es] by (simp add: board_sched_def app_sched_drop_def)
next
  fix q :: "'h sched" assume "board_sched q []"
  then show "app_sched_head q = None" using sched_empty_iff [of q "[]"] by (simp add: board_sched_def app_sched_head_def)
qed

end
