(* ===== verification/Flash_Cache.thy ===== *)
theory Flash_Cache
  imports Uf2_Run
begin

text \<open>
  The page cache of \<open>src/src/flash_nrf5x.c\<close> as a memory: what a reader of the cache over the flash sees, and that writing without
  erase into erased flash and flushing gives exactly that.  Serial DFU stores its image through it.
\<close>

section \<open>The memory a cache stands for\<close>

definition cview :: "nvm \<Rightarrow> flash" where
  "cview n x = (if fl_addr n \<noteq> FLASH_CACHE_INVALID_ADDR \<and> in_page (fl_addr n) x then fl_buf n ! unat (x - fl_addr n) else nv_mem n x)"

definition cwf :: "nvm \<Rightarrow> bool" where
  "cwf n \<longleftrightarrow> fl_addr n = FLASH_CACHE_INVALID_ADDR \<or>
     4096 dvd unat (fl_addr n) \<and> length (fl_buf n) = 4096 \<and> (\<forall>x. in_page (fl_addr n) x \<longrightarrow> cview n x = nv_mem n x \<or> nv_mem n x = 0xFF)"

lemma cview_invalid [simp]: "fl_addr n = FLASH_CACHE_INVALID_ADDR \<Longrightarrow> cview n = nv_mem n"
  by (rule ext) (simp add: cview_def)

lemma cwf_invalid [simp]: "fl_addr n = FLASH_CACHE_INVALID_ADDR \<Longrightarrow> cwf n"
  by (simp add: cwf_def)

lemma flush_program:
  assumes "length buf = 4096" "k \<le> 16"
  shows "fold (\<lambda>i m. fl_write_words m (p + of_nat (256 * i)) (words_of_bytes (take 256 (drop (256 * i) buf)))) [0..<k] m =
    program_bytes m p (take (256 * k) buf)"
  using assms(2)
proof (induction k)
  case (Suc k)
  have l: "length (take 256 (drop (256 * k) buf)) = 256" "length (take (256 * k) buf) = 256 * k" using Suc.prems assms(1) by simp_all
  have "take (256 * Suc k) buf = take (256 * k) buf @ take 256 (drop (256 * k) buf)" using take_add [of "256 * k" 256 buf] by (simp add: add.commute)
  moreover have "fl_write_words m' a (words_of_bytes (take 256 (drop (256 * k) buf))) = program_bytes m' a (take 256 (drop (256 * k) buf))" for m' a
    using l(1) by (simp add: fl_write_words_program)
  moreover have "length (take (256 * k) buf @ take 256 (drop (256 * k) buf)) < 2 ^ 32" using l Suc.prems by simp
  ultimately show ?case using Suc l(2) by (simp add: program_bytes_append)
qed simp

lemma page_offset_lt: "in_page p x \<longleftrightarrow> unat (x - p) < 4096"
  by (simp add: in_page_def word_less_nat_alt)

lemma flush_view:
  assumes "cwf n"
  shows "nv_mem (flash_nrf5x_flush False n) = cview n" "fl_addr (flash_nrf5x_flush False n) = FLASH_CACHE_INVALID_ADDR"
proof -
  show a: "fl_addr (flash_nrf5x_flush False n) = FLASH_CACHE_INVALID_ADDR" by (simp add: flash_nrf5x_flush_def Let_def)
  show "nv_mem (flash_nrf5x_flush False n) = cview n"
  proof (cases "fl_addr n = FLASH_CACHE_INVALID_ADDR")
    case True
    then show ?thesis by (simp add: flash_nrf5x_flush_def)
  next
    case False
    let ?p = "fl_addr n"
    have c: "length (fl_buf n) = 4096" "\<And>x. in_page ?p x \<Longrightarrow> cview n x = nv_mem n x \<or> nv_mem n x = 0xFF" using assms False by (auto simp: cwf_def)
    have v: "cview n x = (if in_page ?p x then fl_buf n ! unat (x - ?p) else nv_mem n x)" for x using False by (simp add: cview_def)
    show ?thesis
    proof (cases "fl_buf n = rd_bytes (nv_mem n) ?p 4096")
      case True
      have "cview n x = nv_mem n x" for x unfolding v using True by (simp add: page_offset_lt)
      then show ?thesis using False True by (simp add: flash_nrf5x_flush_def fun_eq_iff)
    next
      case dirty: False
      have "nv_mem (flash_nrf5x_flush False n) = program_bytes (nv_mem n) ?p (fl_buf n)"
        using False dirty flush_program [OF c(1), of 16 ?p "nv_mem n"] c(1) by (simp add: flash_nrf5x_flush_def Let_def)
      moreover have "program_bytes (nv_mem n) ?p (fl_buf n) x = cview n x" for x
        using c(2) [of x] c(1) unfolding v by (auto simp: program_bytes_def page_offset_lt)
      ultimately show ?thesis by (simp add: fun_eq_iff)
    qed
  qed
qed

section \<open>Writing\<close>

definition overlay :: "flash \<Rightarrow> u32 \<Rightarrow> bytes \<Rightarrow> flash" where
  "overlay m a src = (\<lambda>x. if unat (x - a) < length src then src ! unat (x - a) else m x)"

lemma overlay_Nil [simp]: "overlay m a [] = m"
  by (simp add: overlay_def)

lemma overlay_append:
  assumes "length (xs @ ys) < 2 ^ 32"
  shows "overlay m a (xs @ ys) = overlay (overlay m a xs) (a + of_nat (length xs)) ys"
proof
  fix x
  let ?n = "length xs"
  have u: "unat (of_nat ?n :: u32) = ?n" using assms by (intro unat_of_nat_u32) simp
  have e: "x - (a + of_nat ?n) = (x - a) - of_nat ?n" by simp
  show "overlay m a (xs @ ys) x = overlay (overlay m a xs) (a + of_nat ?n) ys x"
  proof (cases "unat (x - a) < ?n")
    case True
    have "unat ((x - a) - of_nat ?n) = unat (x - a) + 2 ^ 32 - ?n"
      using True u unfolding unat_sub_if_size by (simp add: word_size)
    then have "\<not> unat (x - (a + of_nat ?n)) < length ys" unfolding e using assms by simp
    then show ?thesis using True by (simp add: overlay_def nth_append)
  next
    case False
    then have "unat ((x - a) - of_nat ?n) = unat (x - a) - ?n" using u by (subst unat_sub_le) (simp_all add: word_le_nat_alt)
    then show ?thesis using False by (auto simp: overlay_def nth_append e)
  qed
qed

lemma page_of_valid: "page_of a \<noteq> FLASH_CACHE_INVALID_ADDR"
proof
  assume "page_of a = FLASH_CACHE_INVALID_ADDR"
  then have "4096 dvd unat FLASH_CACHE_INVALID_ADDR" using page_of_aligned(1) [of a] by simp
  then show False by (simp add: FLASH_CACHE_INVALID_ADDR_def)
qed

text \<open>Loading the page of an address.\<close>

definition load_page :: "u32 \<Rightarrow> nvm \<Rightarrow> nvm" where
  "load_page a n = (if page_of a \<noteq> fl_addr n
     then let n = flash_nrf5x_flush False n in n\<lparr>fl_addr := page_of a, fl_buf := rd_bytes (nv_mem n) (page_of a) 4096\<rparr>
     else n)"

lemma load_page_view:
  assumes "cwf n" shows "cwf (load_page a n)" "cview (load_page a n) = cview n" "fl_addr (load_page a n) = page_of a" "length (fl_buf (load_page a n)) = 4096"
proof -
  show ad: "fl_addr (load_page a n) = page_of a" by (simp add: load_page_def Let_def)
  have v: "cview (load_page a n) = cview n \<and> cwf (load_page a n) \<and> length (fl_buf (load_page a n)) = 4096"
  proof (cases "page_of a = fl_addr n")
    case True
    then show ?thesis using assms page_of_valid [of a] by (auto simp: load_page_def cwf_def)
  next
    case False
    let ?n = "load_page a n"
    have m: "nv_mem ?n = cview n" "fl_buf ?n = rd_bytes (cview n) (page_of a) 4096"
      using False flush_view(1) [OF assms] by (simp_all add: load_page_def Let_def)
    have "cview ?n x = cview n x" for x
      using m ad page_of_valid [of a] by (simp add: cview_def [of ?n] page_offset_lt)
    then show ?thesis using m ad page_of_aligned(1) [of a] by (auto simp: cwf_def)
  qed
  then show "cwf (load_page a n)" "cview (load_page a n) = cview n" "length (fl_buf (load_page a n)) = 4096" by blast+
qed

lemma write_in_page:
  assumes "cwf n" "off + length src \<le> 4096" "off = unat (a - page_of a)" "\<And>i. i < length src \<Longrightarrow> cview n (a + of_nat i) = 0xFF"
  defines "n' \<equiv> load_page a n"
  defines "n'' \<equiv> n'\<lparr>fl_buf := take off (fl_buf n') @ src @ drop (off + length src) (fl_buf n')\<rparr>"
  shows "cwf n''" "cview n'' = overlay (cview n) a src"
proof -
  note l = load_page_view [OF assms(1), of a, folded n'_def]
  have av: "fl_addr n'' = page_of a" "nv_mem n'' = nv_mem n'" "length (fl_buf n'') = 4096" using l(3,4) assms(2) by (simp_all add: n''_def)
  have off: "unat (x - page_of a) = off + unat (x - a)" if "unat (x - a) < length src" for x
  proof -
    have "x - page_of a = (a - page_of a) + (x - a)" by simp
    moreover have "unat (a - page_of a) + unat (x - a) < 2 ^ 32" using assms(2,3) that by simp
    ultimately show ?thesis using assms(3) by (simp only: unat_add_no_wrap)
  qed
  have rel: "unat (x - a) = unat (x - page_of a) - off" if "off \<le> unat (x - page_of a)" for x
  proof -
    have "x - a = (x - page_of a) - (a - page_of a)" by simp
    then show ?thesis using that assms(3) by (simp only: unat_sub_le word_le_nat_alt)
  qed
  show vw: "cview n'' = overlay (cview n) a src"
  proof
    fix x
    show "cview n'' x = overlay (cview n) a src x"
    proof (cases "unat (x - a) < length src")
      case True
      then have "in_page (page_of a) x" using off [OF True] assms(2) by (simp add: page_offset_lt)
      then have "cview n'' x = fl_buf n'' ! (off + unat (x - a))" using av(1) page_of_valid [of a] off [OF True] by (simp add: cview_def)
      also have "\<dots> = src ! unat (x - a)" using True l(4) assms(2) by (simp add: n''_def nth_append)
      finally show ?thesis using True by (simp add: overlay_def)
    next
      case False
      have "cview n'' x = cview n' x"
      proof (cases "in_page (page_of a) x")
        case True
        let ?k = "unat (x - page_of a)"
        have "?k < off \<or> off + length src \<le> ?k" using False rel [of x] by fastforce
        then have "fl_buf n'' ! ?k = fl_buf n' ! ?k" using True l(4) assms(2) by (auto simp: n''_def nth_append page_offset_lt)
        then show ?thesis using True av(1) l(3) by (simp add: cview_def n''_def)
      next
        case False
        then show ?thesis using av(1) l(3) by (simp add: cview_def n''_def)
      qed
      then show ?thesis using False l(2) by (simp add: overlay_def)
    qed
  qed
  have "cview n'' x = nv_mem n'' x \<or> nv_mem n'' x = 0xFF" if x: "in_page (page_of a) x" for x
  proof -
    have old: "cview n x = nv_mem n' x \<or> nv_mem n' x = 0xFF" using l(1,2,3) x page_of_valid [of a] by (auto simp: cwf_def)
    show ?thesis
    proof (cases "unat (x - a) < length src")
      case True
      then have "cview n x = 0xFF" using assms(4) [OF True] by simp
      then show ?thesis using old av(2) by auto
    next
      case False
      then show ?thesis using old av(2) by (simp add: vw overlay_def)
    qed
  qed
  then show "cwf n''" using av page_of_aligned(1) [of a] by (auto simp: cwf_def)
qed

lemma write_view:
  assumes "cwf n" "length src < 2 ^ 32" "\<And>i. i < length src \<Longrightarrow> cview n (dst + of_nat i) = 0xFF"
  shows "cwf (flash_nrf5x_write dst src False n) \<and> cview (flash_nrf5x_write dst src False n) = overlay (cview n) dst src"
  using assms
proof (induction "length src" arbitrary: dst src n rule: less_induct)
  case less
  show ?case
  proof (cases "src = []")
    case True
    then show ?thesis using less.prems(1) by (simp add: flash_nrf5x_write.simps)
  next
    case False
    define off where "off = unat (dst - page_of dst)"
    define k where "k = (if 4096 - off < length src then 4096 - off else length src)"
    define n1 where "n1 = load_page dst n"
    define n2 where "n2 = n1\<lparr>fl_buf := take off (fl_buf n1) @ take k src @ drop (off + k) (fl_buf n1)\<rparr>"
    have o: "off < 4096" by (simp add: off_def page_off(2))
    have k: "0 < k" "k \<le> length src" "off + k \<le> 4096" using False o by (auto simp: k_def)
    have lk: "length (take k src) = k" using k(2) by simp
    have w: "flash_nrf5x_write dst src False n = flash_nrf5x_write (dst + of_nat k) (drop k src) False n2"
      by (subst flash_nrf5x_write.simps) (simp add: False Let_def n2_def n1_def load_page_def off_def k_def)
    have i: "cwf n2" "cview n2 = overlay (cview n) dst (take k src)"
      using write_in_page [OF less.prems(1), of off "take k src" dst] less.prems(3) k lk by (simp_all add: n2_def n1_def off_def)
    have rest: "cview n2 (dst + of_nat k + of_nat j) = 0xFF" if j: "j < length (drop k src)" for j
    proof -
      have kj: "k + j < length src" using j by simp
      then have "unat (of_nat (k + j) :: u32) = k + j" using less.prems(2) by (intro unat_of_nat_u32) simp
      moreover have "dst + of_nat k + of_nat j = dst + (of_nat (k + j) :: u32)" by simp
      ultimately show ?thesis using less.prems(3) [OF kj] lk by (simp only: i(2) overlay_def) simp
    qed
    have ih: "cwf (flash_nrf5x_write (dst + of_nat k) (drop k src) False n2) \<and>
        cview (flash_nrf5x_write (dst + of_nat k) (drop k src) False n2) = overlay (cview n2) (dst + of_nat k) (drop k src)"
      using k less.prems(2) i(1) rest by (intro less.hyps) simp_all
    have "overlay (cview n) dst src = overlay (overlay (cview n) dst (take k src)) (dst + of_nat k) (drop k src)"
      using overlay_append [of "take k src" "drop k src" "cview n" dst] less.prems(2) lk by simp
    then show ?thesis using ih i(2) w by simp
  qed
qed

end
