(* ===== verification/Dfu_Bank.thy ===== *)
theory Dfu_Bank
  imports Flash_Cache
begin

text \<open>
  Legacy DFU: the init packet (\<open>src/src/dfu_init.c\<close>), the timeout conversion (\<open>src/src/dfu_timeout.h\<close>) and the receiving state
  machine (\<open>dfu_single_bank.c\<close>) for builds without \<open>SIGNED_FW\<close> and \<open>SECURE_DFU_TEST\<close>.  The serial transport stores through the page
  cache; the BLE transport through pstorage, whose requests are the parameter \<open>ps\<close> and whose completions are events.
\<close>

section \<open>Timeout\<close>

definition dfu_timeout_ticks :: "u32 \<Rightarrow> u32" where
  "dfu_timeout_ticks milliseconds =
     (let whole = milliseconds div 125; remainder = milliseconds - whole * 125
      in push_bit 12 whole + (remainder * 4096 + 62) div 125)"

section \<open>Init packet\<close>

definition ADAFRUIT_DEVICE_TYPE :: u16 where "ADAFRUIT_DEVICE_TYPE = 0x0052"

fun ADAFRUIT_DEV_REV :: "chip \<Rightarrow> u16" where
  "ADAFRUIT_DEV_REV NRF52840 = 52840"
| "ADAFRUIT_DEV_REV NRF52833 = 52833"
| "ADAFRUIT_DEV_REV NRF52832 = 0xADAF"

definition DFU_INIT_PACKET_EXT_LENGTH_MIN :: nat where "DFU_INIT_PACKET_EXT_LENGTH_MIN = 2"
definition DFU_INIT_PACKET_PADDING_MAX :: nat where "DFU_INIT_PACKET_PADDING_MAX = 3"
definition DFU_SOFTDEVICE_ANY :: u16 where "DFU_SOFTDEVICE_ANY = 0xFFFE"

text \<open>
  \<open>dfu_init_packet_t\<close> is twelve bytes: device type, device revision, application version, number of SoftDevices and the first of
  them.  The result has the extended data when the packet got as far as storing it.
\<close>

definition softdevice_supported :: "flash \<Rightarrow> bytes \<Rightarrow> nat \<Rightarrow> bool" where
  "softdevice_supported m p_init_data softdevice_count \<longleftrightarrow>
     (\<exists>i < softdevice_count. let required = rd_u16 (drop (10 + 2 * i) p_init_data)
        in required = DFU_SOFTDEVICE_ANY \<or> required = SD_FWID_GET m MBR_SIZE)"

definition dfu_init_prevalidate :: "build \<Rightarrow> flash \<Rightarrow> bytes \<Rightarrow> u8 \<Rightarrow> nrf_error \<times> (u8 \<times> bytes) option" where
  "dfu_init_prevalidate b m p_init_data image_type =
     (if length p_init_data < 12 then (NRF_ERROR_INVALID_LENGTH, None)
      else let softdevice_count = unat (rd_u16 (drop 8 p_init_data)); softdevice_length = softdevice_count * 2
      in if softdevice_count = 0 \<or> softdevice_length > length p_init_data - 10 then (NRF_ERROR_INVALID_LENGTH, None)
      else let extended_packet_offset = 10 + softdevice_length;
               extended_packet_length = length p_init_data - extended_packet_offset
      in if extended_packet_length < DFU_INIT_PACKET_EXT_LENGTH_MIN \<or>
            extended_packet_length > DFU_INIT_PACKET_EXT_LENGTH_MIN + DFU_INIT_PACKET_PADDING_MAX
         then (NRF_ERROR_INVALID_LENGTH, None)
      else let ext = Some (of_nat extended_packet_length, take DFU_INIT_PACKET_EXT_LENGTH_MIN (drop extended_packet_offset p_init_data))
      in if rd_u16 p_init_data \<noteq> ADAFRUIT_DEVICE_TYPE then (NRF_ERROR_FORBIDDEN, ext)
      else if image_type AND (DFU_UPDATE_SD OR DFU_UPDATE_BL) \<noteq> 0 \<and> rd_u16 (drop 2 p_init_data) \<noteq> ADAFRUIT_DEV_REV (b_chip b)
      then (NRF_ERROR_FORBIDDEN, ext)
      else if \<not> softdevice_supported m p_init_data softdevice_count then (NRF_ERROR_INVALID_DATA, ext)
      else (NRF_SUCCESS, ext))"

definition dfu_init_postvalidate :: "bytes \<Rightarrow> bytes \<Rightarrow> u16 option" where
  "dfu_init_postvalidate extended_packet p_image =
     (let image_crc = crc16_compute p_image None
      in if image_crc \<noteq> rd_u16 extended_packet then None else Some image_crc)"

section \<open>State\<close>

datatype dfu_state =
    DFU_STATE_INIT_ERROR | DFU_STATE_IDLE | DFU_STATE_PREPARING | DFU_STATE_RDY | DFU_STATE_RX_INIT_PKT
  | DFU_STATE_RX_DATA_PKT | DFU_STATE_VALIDATE | DFU_STATE_WAIT_4_ACTIVATE

datatype dfu_packet = INIT_PACKET | START_PACKET | DATA_PACKET

datatype dfu_activate = Activate_SD | Activate_BL | Activate_App

record 'p dfu_session =
  m_dfu_state :: dfu_state
  m_image_size :: u32
  m_start_packet :: dfu_start_packet
  m_init_packet :: bytes
  m_init_packet_length :: u8
  m_image_crc :: u16
  m_dfu_timed_out :: bool
  m_data_received :: u32
  m_activate :: dfu_activate          \<comment> \<open>\<open>m_functions.activate\<close>\<close>
  m_extended_packet :: bytes
  m_extended_packet_length :: u8
  m_storage_handle_app :: u32         \<comment> \<open>its \<open>block_id\<close>\<close>
  dfu_page_erased :: "bool list option"
  dfu_image_page_count :: u32
  dfu_base_address :: u32
  ds_timer :: bool                    \<comment> \<open>the DFU timer runs\<close>
  ds_sent :: "(dfu_packet \<times> nrf_error) list"   \<comment> \<open>calls of \<open>m_data_pkt_cb\<close>, newest first\<close>
  ds_nvm :: nvm
  ds_ctl :: boot_ctl                  \<comment> \<open>flash is that of \<open>ds_nvm\<close>\<close>
  ds_ps :: 'p

text \<open>
  Requests to pstorage: \<open>ps_clear\<close> address and size, \<open>ps_store\<close> address and data (its answer once the queue has room).
\<close>

record 'p pstorage =
  ps_clear :: "u32 \<Rightarrow> u32 \<Rightarrow> 'p \<Rightarrow> nrf_error \<times> 'p"
  ps_store :: "u32 \<Rightarrow> bytes \<Rightarrow> 'p \<Rightarrow> nrf_error \<times> 'p"

abbreviation ds_is_ota :: "'p dfu_session \<Rightarrow> bool" where
  "ds_is_ota s \<equiv> bc_is_ota (ds_ctl s)"

abbreviation ds_mem :: "'p dfu_session \<Rightarrow> flash" where
  "ds_mem s \<equiv> nv_mem (ds_nvm s)"

definition DFU_IMAGE_MAX_SIZE_FULL :: "chip \<Rightarrow> flash \<Rightarrow> u32" where
  "DFU_IMAGE_MAX_SIZE_FULL c m = BOOTLOADER_REGION_START c - CODE_REGION_1_START m - DFU_APP_DATA_RESERVED c"

definition dfu_report :: "build \<Rightarrow> (bool \<Rightarrow> nrf_error) \<Rightarrow> dfu_update_status \<Rightarrow> 'p dfu_session \<Rightarrow> nrf_error + 'p dfu_session" where
  "dfu_report b tc u s =
     (case bootloader_dfu_update_process b tc u (ds_ctl s\<lparr>bc_flash := ds_mem s\<rparr>) of
        Inl e \<Rightarrow> Inl e
      | Inr c \<Rightarrow> Inr (s\<lparr>ds_ctl := c, ds_nvm := (ds_nvm s)\<lparr>nv_mem := bc_flash c\<rparr>\<rparr>))"

definition dfu_status :: "dfu_status_code \<Rightarrow> dfu_update_status" where
  "dfu_status code = \<lparr>us_code = code, us_app_crc = 0, us_sd_size = 0, us_bl_size = 0, us_app_size = 0, us_sd_image_start = 0,
     us_restart_into_bootloader = False\<rparr>"

section \<open>Preparing the bank\<close>

definition dfu_cleared_func_app :: "build \<Rightarrow> (bool \<Rightarrow> nrf_error) \<Rightarrow> 'p dfu_session \<Rightarrow> nrf_error + 'p dfu_session" where
  "dfu_cleared_func_app b tc s = dfu_report b tc (dfu_status DFU_BANK_0_ERASED) s"

definition dfu_notify :: "dfu_packet \<Rightarrow> nrf_error \<Rightarrow> 'p dfu_session \<Rightarrow> 'p dfu_session" where
  "dfu_notify packet result s = s\<lparr>ds_sent := (packet, result) # ds_sent s\<rparr>"

text \<open>A failed operation traps after the notification.\<close>

definition dfu_storage_callback :: "build \<Rightarrow> (bool \<Rightarrow> nrf_error) \<Rightarrow> bool \<Rightarrow> nrf_error \<Rightarrow> 'p dfu_session \<Rightarrow> nrf_error + 'p dfu_session" where
  "dfu_storage_callback b tc is_store result s =
     (let r = (if is_store
               then Inr (if m_dfu_state s = DFU_STATE_RX_DATA_PKT then dfu_notify DATA_PACKET result s else s)
               else if m_dfu_state s = DFU_STATE_PREPARING
               then let s = (case dfu_page_erased s of
                               Some e \<Rightarrow> if dfu_image_page_count s > 0 then s\<lparr>dfu_page_erased := Some (e[0 := True])\<rparr> else s
                             | None \<Rightarrow> s)
                    in case dfu_cleared_func_app b tc s of
                         Inl e \<Rightarrow> Inl e
                       | Inr s \<Rightarrow> Inr (dfu_notify START_PACKET result (s\<lparr>m_dfu_state := DFU_STATE_RDY\<rparr>))
               else Inr s)
      in case r of Inl e \<Rightarrow> Inl e | Inr s \<Rightarrow> if result \<noteq> NRF_SUCCESS then Inl result else Inr s)"

definition dfu_prepare_func_app_erase :: "'p pstorage \<Rightarrow> build \<Rightarrow> (bool \<Rightarrow> nrf_error) \<Rightarrow> 'p dfu_session \<Rightarrow> nrf_error + 'p dfu_session" where
  "dfu_prepare_func_app_erase ps b tc s =
     (let s = s\<lparr>m_dfu_state := DFU_STATE_PREPARING, dfu_base_address := m_storage_handle_app s\<rparr>
      in if ds_is_ota s
         then let pages = (m_image_size s + (PAGE - 1)) div PAGE;
                  pages = (if pages < 1 then 1 else pages);
                  s = s\<lparr>dfu_image_page_count := pages, dfu_page_erased := Some (replicate (unat pages) False)\<rparr>;
                  (err_code, p) = ps_clear ps (m_storage_handle_app s) PAGE (ds_ps s);
                  s = s\<lparr>ds_ps := p\<rparr>
              in if err_code \<noteq> NRF_SUCCESS then Inl err_code else Inr s
         else dfu_storage_callback b tc False NRF_SUCCESS
                (s\<lparr>ds_nvm := flash_nrf5x_erase (CODE_REGION_1_START (ds_mem s)) (m_image_size s) (ds_nvm s)\<rparr>))"

section \<open>Timer\<close>

definition dfu_timeout_handler :: "build \<Rightarrow> (bool \<Rightarrow> nrf_error) \<Rightarrow> 'p dfu_session \<Rightarrow> nrf_error + 'p dfu_session" where
  "dfu_timeout_handler b tc s = dfu_report b tc (dfu_status DFU_TIMEOUT) (s\<lparr>m_dfu_timed_out := True, ds_timer := False\<rparr>)"

definition dfu_timer_restart :: "'p dfu_session \<Rightarrow> nrf_error \<times> 'p dfu_session" where
  "dfu_timer_restart s =
     (if m_dfu_timed_out s then (NRF_ERROR_INVALID_STATE, s) else (NRF_SUCCESS, s\<lparr>ds_timer := True\<rparr>))"

section \<open>Activation\<close>

definition activation_report :: "dfu_activate \<Rightarrow> 'p dfu_session \<Rightarrow> dfu_update_status" where
  "activation_report a s =
     (let p = m_start_packet s
      in case a of
           Activate_SD \<Rightarrow> (dfu_status DFU_UPDATE_SD_COMPLETE)\<lparr>us_app_crc := m_image_crc s, us_sd_image_start := CODE_REGION_1_START (ds_mem s),
             us_sd_size := sd_image_size p, us_bl_size := bl_image_size p, us_app_size := app_image_size p\<rparr>
         | Activate_App \<Rightarrow> (dfu_status DFU_UPDATE_APP_COMPLETE)\<lparr>us_app_crc := m_image_crc s, us_app_size := app_image_size p\<rparr>
         | Activate_BL \<Rightarrow> (dfu_status DFU_UPDATE_BOOT_COMPLETE)\<lparr>us_app_crc := m_image_crc s,
             us_sd_size := sd_image_size p, us_bl_size := bl_image_size p, us_app_size := app_image_size p\<rparr>)"

section \<open>Packets\<close>

text \<open>Handlers answer with an error code and the new state; \<open>Inl\<close> is a failed error check.\<close>

definition dfu_init :: "nrf_error \<Rightarrow> 'p dfu_session \<Rightarrow> nrf_error \<times> 'p dfu_session" where
  "dfu_init registered s =
     (let s = s\<lparr>m_init_packet_length := 0, m_image_crc := 0, dfu_page_erased := None, dfu_image_page_count := 0, dfu_base_address := 0\<rparr>
      in if registered \<noteq> NRF_SUCCESS then (registered, s\<lparr>m_dfu_state := DFU_STATE_INIT_ERROR\<rparr>)
         else (NRF_SUCCESS, s\<lparr>m_storage_handle_app := CODE_REGION_1_START (ds_mem s), ds_timer := True, m_data_received := 0,
                              m_dfu_state := DFU_STATE_IDLE\<rparr>))"

definition dfu_start_pkt_handle :: "'p pstorage \<Rightarrow> build \<Rightarrow> (bool \<Rightarrow> nrf_error) \<Rightarrow> dfu_start_packet \<Rightarrow> 'p dfu_session \<Rightarrow> nrf_error + nrf_error \<times> 'p dfu_session" where
  "dfu_start_pkt_handle ps b tc packet s =
     (if m_dfu_state s \<noteq> DFU_STATE_IDLE then Inr (NRF_ERROR_INVALID_STATE, s)
      else let s = s\<lparr>m_start_packet := packet\<rparr>
      in case dfu_start_packet_validate b packet of
           Inl e \<Rightarrow> Inr (e, s)
         | Inr image_size \<Rightarrow>
             let s = s\<lparr>m_image_size := image_size\<rparr>
             in if image_size > DFU_IMAGE_MAX_SIZE_FULL (b_chip b) (ds_mem s) then Inr (NRF_ERROR_DATA_SIZE, s)
                else let s = s\<lparr>m_activate := (if dfu_update_mode packet AND DFU_UPDATE_SD \<noteq> 0 then Activate_SD
                                              else if dfu_update_mode packet AND DFU_UPDATE_BL \<noteq> 0 then Activate_BL else Activate_App)\<rparr>;
                         (err_code, s) = dfu_timer_restart s
                     in if err_code \<noteq> NRF_SUCCESS then Inr (err_code, s)
                        else case dfu_prepare_func_app_erase ps b tc s of Inl e \<Rightarrow> Inl e | Inr s \<Rightarrow> Inr (NRF_SUCCESS, s))"

text \<open>A data packet is a list of words; the caller passes an aligned buffer, or \<open>aligned\<close> is false.\<close>

definition dfu_data_pkt_handle :: "'p pstorage \<Rightarrow> build \<Rightarrow> (bool \<Rightarrow> nrf_error) \<Rightarrow> bool \<Rightarrow> u32 list \<Rightarrow> 'p dfu_session \<Rightarrow> nrf_error + nrf_error \<times> 'p dfu_session" where
  "dfu_data_pkt_handle ps b tc aligned packet s =
     (if \<not> aligned then Inr (NRF_ERROR_INVALID_ADDR, s)
      else if m_dfu_state s \<noteq> DFU_STATE_RX_DATA_PKT then Inr (NRF_ERROR_INVALID_STATE, s)
      else if m_data_received s > m_image_size s \<or> of_nat (length packet) > (m_image_size s - m_data_received s) div 4
      then Inr (NRF_ERROR_DATA_SIZE, s\<lparr>m_data_received := 0xFFFFFFFF\<rparr>)
      else let p_data = concat (map wr_u32 packet); data_length = of_nat (length packet) * 4;
               (err_code, s) = dfu_timer_restart s
      in if err_code \<noteq> NRF_SUCCESS then Inr (err_code, s)
      else let finish = (\<lambda>s. let s = s\<lparr>m_data_received := m_data_received s + data_length\<rparr>
                             in if m_data_received s \<noteq> m_image_size s then (NRF_ERROR_INVALID_LENGTH, s)
                                else (NRF_SUCCESS, if ds_is_ota s then s else s\<lparr>ds_nvm := flash_nrf5x_flush False (ds_nvm s)\<rparr>))
      in if ds_is_ota s
         then let (err_code, p) = ps_store ps (m_storage_handle_app s + m_data_received s) p_data (ds_ps s); s = s\<lparr>ds_ps := p\<rparr>
              in if err_code \<noteq> NRF_SUCCESS then Inr (err_code, s) else Inr (finish s)
         else case dfu_storage_callback b tc True NRF_SUCCESS
                     (s\<lparr>ds_nvm := flash_nrf5x_write (CODE_REGION_1_START (ds_mem s) + m_data_received s) p_data False (ds_nvm s)\<rparr>) of
                Inl e \<Rightarrow> Inl e
              | Inr s \<Rightarrow> Inr (finish s))"

definition dfu_init_pkt_handle :: "u32 list \<Rightarrow> 'p dfu_session \<Rightarrow> nrf_error \<times> 'p dfu_session" where
  "dfu_init_pkt_handle packet s =
     (if m_dfu_state s \<noteq> DFU_STATE_RDY \<and> m_dfu_state s \<noteq> DFU_STATE_RX_INIT_PKT then (NRF_ERROR_INVALID_STATE, s)
      else let s = s\<lparr>m_dfu_state := DFU_STATE_RX_INIT_PKT\<rparr>
      in if m_data_received s > 0 then (NRF_ERROR_INVALID_STATE, s)
      else let (err_code, s) = dfu_timer_restart s
      in if err_code \<noteq> NRF_SUCCESS then (err_code, s)
      else if length packet > 32 then (NRF_ERROR_INVALID_LENGTH, s)
      else let len = 4 * length packet; pos = unat (m_init_packet_length s)
      in if pos > 128 - len then (NRF_ERROR_INVALID_LENGTH, s)
         else (NRF_SUCCESS, s\<lparr>m_init_packet := take pos (m_init_packet s) @ concat (map wr_u32 packet) @ drop (pos + len) (m_init_packet s),
                               m_init_packet_length := m_init_packet_length s + of_nat len\<rparr>))"

definition dfu_init_pkt_complete :: "build \<Rightarrow> 'p dfu_session \<Rightarrow> nrf_error \<times> 'p dfu_session" where
  "dfu_init_pkt_complete b s =
     (if m_data_received s > 0 \<or> m_dfu_state s \<noteq> DFU_STATE_RX_INIT_PKT then (NRF_ERROR_INVALID_STATE, s)
      else let (err_code, ext) = dfu_init_prevalidate b (ds_mem s) (take (unat (m_init_packet_length s)) (m_init_packet s))
                                   (dfu_update_mode (m_start_packet s));
               s = (case ext of
                      Some (n, e) \<Rightarrow> s\<lparr>m_extended_packet_length := n, m_extended_packet := e @ drop (length e) (m_extended_packet s)\<rparr>
                    | None \<Rightarrow> s)
           in (err_code, if err_code = NRF_SUCCESS then s\<lparr>m_dfu_state := DFU_STATE_RX_DATA_PKT\<rparr> else s\<lparr>m_init_packet_length := 0\<rparr>))"

definition dfu_image_validate :: "build \<Rightarrow> 'p dfu_session \<Rightarrow> nrf_error \<times> 'p dfu_session" where
  "dfu_image_validate b s =
     (if m_dfu_state s \<noteq> DFU_STATE_RX_DATA_PKT \<or> m_data_received s \<noteq> m_image_size s then (NRF_ERROR_INVALID_STATE, s)
      else let (err_code, s) = dfu_timer_restart (s\<lparr>m_dfu_state := DFU_STATE_VALIDATE\<rparr>)
      in if err_code \<noteq> NRF_SUCCESS then (err_code, s)
      else let p_image = rd_bytes (ds_mem s) (m_storage_handle_app s) (unat (m_image_size s))
      in case dfu_init_postvalidate (m_extended_packet s) p_image of
           None \<Rightarrow> (NRF_ERROR_INVALID_DATA, s)
         | Some crc \<Rightarrow>
             let s = s\<lparr>m_image_crc := crc\<rparr>; err_code = dfu_image_policy_validate b (ds_mem s) p_image (m_start_packet s)
             in if err_code \<noteq> NRF_SUCCESS then (err_code, s) else (NRF_SUCCESS, s\<lparr>m_dfu_state := DFU_STATE_WAIT_4_ACTIVATE\<rparr>))"

definition dfu_image_activate :: "build \<Rightarrow> (bool \<Rightarrow> nrf_error) \<Rightarrow> 'p dfu_session \<Rightarrow> nrf_error + nrf_error \<times> 'p dfu_session" where
  "dfu_image_activate b tc s =
     (if m_dfu_state s \<noteq> DFU_STATE_WAIT_4_ACTIVATE then Inr (NRF_ERROR_INVALID_STATE, s)
      else case dfu_report b tc (activation_report (m_activate s) s) (s\<lparr>ds_timer := False\<rparr>) of
             Inl e \<Rightarrow> Inl e | Inr s \<Rightarrow> Inr (NRF_SUCCESS, s))"

definition dfu_reset :: "build \<Rightarrow> (bool \<Rightarrow> nrf_error) \<Rightarrow> 'p dfu_session \<Rightarrow> nrf_error + 'p dfu_session" where
  "dfu_reset b tc s =
     dfu_report b tc ((dfu_status DFU_RESET)\<lparr>us_restart_into_bootloader :=
       (m_dfu_state s = DFU_STATE_RX_DATA_PKT \<and> m_data_received s \<noteq> m_image_size s)\<rparr>) s"

section \<open>The timeout conversion\<close>

text \<open>
  C36. The division-free conversion is exact: for every 32-bit number of milliseconds the ticks are the low 32 bits of the
  64-bit quotient \<open>milliseconds * 32768 / 1000\<close>, rounded to the nearest tick.
\<close>

theorem dfu_timeout_ticks_exact:
  "unat (dfu_timeout_ticks ms) = ((unat ms * 32768 + 500) div 1000) mod 2 ^ 32"
proof -
  let ?q = "unat ms div 125" and ?r = "unat ms mod 125"
  have w: "unat (ms div 125) = ?q" by (simp add: unat_div)
  define d where "d = ms - ms div 125 * 125"
  have r: "unat d = ?r" by (simp add: d_def minus_div_mult_eq_mod unat_mod)
  have "?r < 125" by simp
  then have "unat (d * 4096 + 62) = ?r * 4096 + 62" using r by (simp add: unat_word_ariths)
  then have f: "unat ((d * 4096 + 62) div 125) = (?r * 4096 + 62) div 125" by (simp add: unat_div)
  have t: "dfu_timeout_ticks ms = ms div 125 * 4096 + (d * 4096 + 62) div 125"
    by (simp add: dfu_timeout_ticks_def Let_def d_def push_bit_eq_mult)
  have "unat (dfu_timeout_ticks ms) = (?q * 4096 + (?r * 4096 + 62) div 125) mod 2 ^ 32"
    unfolding t unat_word_ariths(1) f by (simp add: unat_word_ariths(2) w mod_simps)
  also have "?q * 4096 + (?r * 4096 + 62) div 125 = (unat ms * 4096 + 62) div 125"
  proof -
    have split: "((125 * q + r) * 4096 + 62) div 125 = q * 4096 + (r * 4096 + 62) div 125" for q r :: nat
    proof -
      have "(125 * q + r) * 4096 + 62 = (r * 4096 + 62) + (q * 4096) * 125" by simp
      then show ?thesis by (simp only: div_mult_self1)
    qed
    show ?thesis using split [of ?q ?r] by simp
  qed
  also have "(unat ms * 4096 + 62) div 125 = (unat ms * 32768 + 500) div 1000"
  proof -
    have "(unat ms * 32768 + 500) div 1000 = ((unat ms * 32768 + 500) div 8) div 125" by (simp add: div_mult2_eq [symmetric])
    moreover have "(unat ms * 32768 + 500) div 8 = unat ms * 4096 + 62" by simp
    ultimately show ?thesis by simp
  qed
  finally show ?thesis .
qed

end
