(* ===== verification/Dfu_Run.thy ===== *)
theory Dfu_Run
  imports Dfu_Bank
begin

text \<open>
  Runs of a wired DFU session: every sequence of packets, timer expiries and resets the transport may deliver to \<open>dfu_single_bank.c\<close>.
  The invariant ties the state machine to the flash behind the page cache; from it follow what an update can change, when the
  application or a pending swap is vouched for, and that a complete transfer installs an image that boots.
\<close>

section \<open>Events\<close>

datatype dfu_event =
    Ev_Start dfu_start_packet
  | Ev_Init "u32 list"
  | Ev_Init_Complete
  | Ev_Data bool "u32 list"
  | Ev_Validate
  | Ev_Activate
  | Ev_Reset
  | Ev_Timeout
  | Ev_Activity

fun dfu_step :: "'p pstorage \<Rightarrow> build \<Rightarrow> (bool \<Rightarrow> nrf_error) \<Rightarrow> dfu_event \<Rightarrow> 'p dfu_session \<Rightarrow> nrf_error + nrf_error \<times> 'p dfu_session" where
  "dfu_step ps b tc (Ev_Start p) s = dfu_start_pkt_handle ps b tc p s"
| "dfu_step ps b tc (Ev_Init ws) s = Inr (dfu_init_pkt_handle ws s)"
| "dfu_step ps b tc Ev_Init_Complete s = Inr (dfu_init_pkt_complete b s)"
| "dfu_step ps b tc (Ev_Data al ws) s = dfu_data_pkt_handle ps b tc al ws s"
| "dfu_step ps b tc Ev_Validate s = Inr (dfu_image_validate b s)"
| "dfu_step ps b tc Ev_Activate s = dfu_image_activate b tc s"
| "dfu_step ps b tc Ev_Reset s = map_sum id (Pair NRF_SUCCESS) (dfu_reset b tc s)"
| "dfu_step ps b tc Ev_Timeout s = map_sum id (Pair NRF_SUCCESS) (dfu_timeout_handler b tc s)"
| "dfu_step ps b tc Ev_Activity s = Inr (NRF_SUCCESS, s\<lparr>ds_ctl := bootloader_dfu_activity_mark (ds_ctl s)\<rparr>)"

text \<open>The bytes of a DATA packet that is accepted: more is expected, or the image is complete.\<close>

fun dfu_accepted :: "dfu_event \<Rightarrow> nrf_error \<Rightarrow> bytes" where
  "dfu_accepted (Ev_Data al ws) e = (if e \<in> {NRF_SUCCESS, NRF_ERROR_INVALID_LENGTH} then concat (map wr_u32 ws) else [])"
| "dfu_accepted _ e = []"

text \<open>\<open>packet_length\<close> counts words in 32 bits.\<close>

fun dfu_event_ok :: "dfu_event \<Rightarrow> bool" where
  "dfu_event_ok (Ev_Data al ws) \<longleftrightarrow> length ws < 2 ^ 32"
| "dfu_event_ok (Ev_Init ws) \<longleftrightarrow> length ws < 2 ^ 32"
| "dfu_event_ok _ \<longleftrightarrow> True"

inductive dfu_run :: "'p pstorage \<Rightarrow> build \<Rightarrow> (bool \<Rightarrow> nrf_error) \<Rightarrow> flash \<Rightarrow> 'p dfu_session \<Rightarrow> bytes \<Rightarrow> bool"
  for ps :: "'p pstorage" and b :: build and tc :: "bool \<Rightarrow> nrf_error" and m0 :: flash where
  begin_: "ds_mem s = m0 \<Longrightarrow> \<not> ds_is_ota s \<Longrightarrow> fl_addr (ds_nvm s) = FLASH_CACHE_INVALID_ADDR \<Longrightarrow> dfu_init NRF_SUCCESS s = (NRF_SUCCESS, s') \<Longrightarrow>
    dfu_run ps b tc m0 s' []"
| step: "dfu_run ps b tc m0 s rx \<Longrightarrow> dfu_event_ok ev \<Longrightarrow> dfu_step ps b tc ev s = Inr (e, s') \<Longrightarrow> dfu_run ps b tc m0 s' (rx @ dfu_accepted ev e)"

section \<open>Erasing the bank\<close>

lemma erase_pages:
  assumes "4096 dvd unat p" "unat p + 4096 * k < 2 ^ 32"
  shows "fold (\<lambda>i m. fl_erase m (p + of_nat i * PAGE)) [0..<k] m =
    (\<lambda>x. if unat p \<le> unat x \<and> unat x < unat p + 4096 * k then 0xFF else m x)"
  using assms(2)
proof (induction k)
  case (Suc k)
  let ?q = "p + of_nat k * PAGE"
  have q: "unat ?q = unat p + 4096 * k" using Suc.prems by (simp add: unat_word_ariths unat_of_nat)
  then have "in_page ?q x \<longleftrightarrow> unat p + 4096 * k \<le> unat x \<and> unat x < unat p + 4096 * k + 4096" for x
    using in_page_aligned_iff [of ?q x] assms(1) by simp
  then show ?case using Suc by (auto simp: fl_erase_def)
qed (auto simp: fun_eq_iff)

definition rounded :: "nat \<Rightarrow> nat" where
  "rounded n = 4096 * ((n + 4095) div 4096)"

lemma rounded_bounds: "n \<le> rounded n" "rounded n < n + 4096" "4096 dvd rounded n"
  by (simp_all add: rounded_def)

lemma bank_erase:
  assumes "4096 dvd unat p" "unat p + unat n + 4096 < 2 ^ 32"
  shows "flash_nrf5x_erase p n v =
    v\<lparr>nv_mem := (\<lambda>x. if unat p \<le> unat x \<and> unat x < unat p + rounded (unat n) then 0xFF else nv_mem v x)\<rparr>"
proof -
  have "unat (n + 0xFFF) = unat n + 0xFFF" using assms(2) by (subst unat_add_no_wrap) simp_all
  then have c: "unat ((n + (PAGE - 1)) div PAGE) = (unat n + 4095) div 4096" by (simp add: unat_div)
  have "page_of p = p" using assms(1) by (intro page_of_unique) (simp_all add: in_page_def)
  moreover have "unat p + 4096 * ((unat n + 4095) div 4096) < 2 ^ 32"
    using rounded_bounds(2) [of "unat n"] assms(2) by (simp add: rounded_def)
  ultimately show ?thesis
    unfolding flash_nrf5x_erase_def Let_def c using erase_pages [OF assms(1)] by (simp add: rounded_def)
qed

section \<open>Invariant\<close>

definition dfu_window :: "build \<Rightarrow> flash \<Rightarrow> bool" where
  "dfu_window b m0 \<longleftrightarrow> 4096 dvd unat (CODE_REGION_1_START m0) \<and> 0x4000 \<le> unat (CODE_REGION_1_START m0) \<and>
     unat (CODE_REGION_1_START m0) + unat (DFU_APP_DATA_RESERVED (b_chip b)) + 8 \<le> unat (BOOTLOADER_REGION_START (b_chip b))"

text \<open>Outside the pages of the image and the settings page, flash is as it was when the session began.\<close>

definition dfu_frame :: "build \<Rightarrow> flash \<Rightarrow> nat \<Rightarrow> flash \<Rightarrow> bool" where
  "dfu_frame b m0 n m \<longleftrightarrow> (\<forall>x. \<not> (unat (CODE_REGION_1_START m0) \<le> unat x \<and> unat x < unat (CODE_REGION_1_START m0) + rounded n) \<and>
     \<not> in_page (BOOTLOADER_SETTINGS_ADDRESS (b_chip b)) x \<longrightarrow> m x = m0 x)"

definition activate_of :: "dfu_start_packet \<Rightarrow> dfu_activate" where
  "activate_of p = (if dfu_update_mode p AND DFU_UPDATE_SD \<noteq> 0 then Activate_SD
     else if dfu_update_mode p AND DFU_UPDATE_BL \<noteq> 0 then Activate_BL else Activate_App)"

text \<open>The record an activation leaves, and the one an erased bank leaves.\<close>

definition activated_settings :: "u32 \<Rightarrow> dfu_start_packet \<Rightarrow> u16 \<Rightarrow> bootloader_settings" where
  "activated_settings A p crc = bootloader_settings_seal
     (case activate_of p of
        Activate_App \<Rightarrow> settings_zero\<lparr>bs_bank_0_crc := crc, bs_bank_0_size := app_image_size p, bs_bank_0 := BANK_VALID_APP, bs_bank_1 := BANK_INVALID_APP\<rparr>
      | Activate_SD \<Rightarrow> settings_zero\<lparr>bs_bank_0_crc := crc, bs_bank_0_size := sd_image_size p + bl_image_size p + app_image_size p,
          bs_bank_0 := BANK_VALID_SD, bs_bank_1 := BANK_INVALID_APP, bs_sd_image_size := sd_image_size p, bs_bl_image_size := bl_image_size p,
          bs_app_image_size := app_image_size p, bs_sd_image_start := A\<rparr>
      | Activate_BL \<Rightarrow> settings_zero\<lparr>bs_bank_0 := BANK_INVALID_APP, bs_bank_1 := BANK_VALID_BOOT, bs_sd_image_size := sd_image_size p,
          bs_bl_image_size := bl_image_size p, bs_app_image_size := app_image_size p\<rparr>)"

definition erased_settings :: "bootloader_settings \<Rightarrow> bool" where
  "erased_settings r \<longleftrightarrow> (\<exists>k. r = bootloader_settings_seal (settings_zero\<lparr>bs_bank_0_crc := 0, bs_bank_0_size := 0, bs_bank_0 := BANK_INVALID_APP, bs_bank_1 := k\<rparr>))"

text \<open>The image in bank 0 is what was received and passed both checks.\<close>

definition dfu_verified :: "build \<Rightarrow> flash \<Rightarrow> 'p dfu_session \<Rightarrow> bytes \<Rightarrow> bool" where
  "dfu_verified b m0 s rx \<longleftrightarrow> crc16_compute rx None = rd_u16 (m_extended_packet s) \<and> m_image_crc s = crc16_compute rx None \<and>
     dfu_image_policy_validate b m0 rx (m_start_packet s) = NRF_SUCCESS"

text \<open>After START: what the page cache and the flash hold.\<close>

definition bank_inv :: "build \<Rightarrow> flash \<Rightarrow> nat \<Rightarrow> nvm \<Rightarrow> bytes \<Rightarrow> bool" where
  "bank_inv b m0 n v rx \<longleftrightarrow> cwf v \<and> dfu_frame b m0 n (cview v) \<and> length rx \<le> n \<and>
     (\<forall>i<n. cview v (CODE_REGION_1_START m0 + of_nat i) = (if i < length rx then rx ! i else 0xFF)) \<and>
     (fl_addr v = FLASH_CACHE_INVALID_ADDR \<or>
        unat (CODE_REGION_1_START m0) \<le> unat (fl_addr v) \<and> unat (fl_addr v) < unat (CODE_REGION_1_START m0) + n)"

definition live_inv :: "build \<Rightarrow> flash \<Rightarrow> 'p dfu_session \<Rightarrow> bytes \<Rightarrow> bool" where
  "live_inv b m0 s rx \<longleftrightarrow>
     dfu_start_packet_validate b (m_start_packet s) = Inr (m_image_size s) \<and> m_image_size s \<le> DFU_IMAGE_MAX_SIZE_FULL (b_chip b) m0 \<and>
     m_activate s = activate_of (m_start_packet s) \<and> bank_inv b m0 (unat (m_image_size s)) (ds_nvm s) rx \<and>
     (m_dfu_state s \<in> {DFU_STATE_RDY, DFU_STATE_RX_INIT_PKT} \<longrightarrow> rx = [] \<and> m_data_received s = 0) \<and>
     (m_dfu_state s = DFU_STATE_RX_DATA_PKT \<longrightarrow> m_data_received s = 0xFFFFFFFF \<or> unat (m_data_received s) = length rx) \<and>
     (m_dfu_state s = DFU_STATE_RX_DATA_PKT \<and> m_data_received s = m_image_size s \<or> m_dfu_state s \<in> {DFU_STATE_VALIDATE, DFU_STATE_WAIT_4_ACTIVATE} \<longrightarrow>
        length rx = unat (m_image_size s) \<and> fl_addr (ds_nvm s) = FLASH_CACHE_INVALID_ADDR) \<and>
     (m_dfu_state s = DFU_STATE_WAIT_4_ACTIVATE \<longrightarrow> dfu_verified b m0 s rx) \<and>
     (let r = bootloader_util_settings_get b (cview (ds_nvm s))
      in erased_settings r \<or> m_dfu_state s = DFU_STATE_WAIT_4_ACTIVATE \<and> r = activated_settings (CODE_REGION_1_START m0) (m_start_packet s) (m_image_crc s))"

definition dfu_inv :: "build \<Rightarrow> flash \<Rightarrow> 'p dfu_session \<Rightarrow> bytes \<Rightarrow> bool" where
  "dfu_inv b m0 s rx \<longleftrightarrow> \<not> ds_is_ota s \<and> m_storage_handle_app s = CODE_REGION_1_START m0 \<and>
     m_dfu_state s \<notin> {DFU_STATE_INIT_ERROR, DFU_STATE_PREPARING} \<and>
     (if m_dfu_state s = DFU_STATE_IDLE then ds_mem s = m0 \<and> fl_addr (ds_nvm s) = FLASH_CACHE_INVALID_ADDR \<and> rx = [] \<and> m_data_received s = 0
      else live_inv b m0 s rx)"

section \<open>Consequences of the invariant\<close>

lemma image_window:
  assumes "dfu_window b m0" "n \<le> DFU_IMAGE_MAX_SIZE_FULL (b_chip b) m0"
  shows "unat (CODE_REGION_1_START m0) + rounded (unat n) \<le> unat (BOOTLOADER_REGION_START (b_chip b))"
    "unat (CODE_REGION_1_START m0) + unat n + unat (DFU_APP_DATA_RESERVED (b_chip b)) \<le> unat (BOOTLOADER_REGION_START (b_chip b))"
proof -
  let ?A = "CODE_REGION_1_START m0" and ?R = "BOOTLOADER_REGION_START (b_chip b)" and ?D = "DFU_APP_DATA_RESERVED (b_chip b)"
  have le: "?A \<le> ?R" using assms(1) by (simp add: dfu_window_def word_le_nat_alt)
  then have d: "unat (?R - ?A) = unat ?R - unat ?A" by (rule unat_sub_le)
  then have "?D \<le> ?R - ?A" using assms(1) unfolding dfu_window_def word_le_nat_alt by linarith
  then have "unat (DFU_IMAGE_MAX_SIZE_FULL (b_chip b) m0) = unat ?R - unat ?A - unat ?D"
    using d by (simp add: DFU_IMAGE_MAX_SIZE_FULL_def unat_sub_le)
  then show *: "unat ?A + unat n + unat ?D \<le> unat ?R" using assms unfolding dfu_window_def word_le_nat_alt by linarith
  have "4096 dvd unat ?R" "4096 \<le> unat ?D" by (cases "b_chip b"; simp)+
  then have "4096 dvd unat ?R - unat ?A" "unat n \<le> unat ?R - unat ?A" using assms(1) * by (auto simp: dfu_window_def)
  then have "rounded (unat n) \<le> unat ?R - unat ?A"
    unfolding rounded_def by (auto simp: dvd_def) 
  then show "unat ?A + rounded (unat n) \<le> unat ?R" using * by simp
qed


lemma base_same:
  assumes "dfu_window b m0" "dfu_frame b m0 n m" shows "CODE_REGION_1_START m = CODE_REGION_1_START m0" "SD_FWID_GET m MBR_SIZE = SD_FWID_GET m0 MBR_SIZE"
    "is_sd_existed m = is_sd_existed m0"
proof -
  have eq: "m a = m0 a" if "0x3000 \<le> a" "a < 0x3010" for a :: u32
  proof -
    have u: "0x3000 \<le> unat a" "unat a < 0x3010" using that by (simp_all add: word_le_nat_alt word_less_nat_alt)
    then have "\<not> unat (CODE_REGION_1_START m0) \<le> unat a" using assms(1) by (simp add: dfu_window_def)
    moreover have "\<not> in_page (BOOTLOADER_SETTINGS_ADDRESS (b_chip b)) a" using u by (intro settings_page_above_sd) (simp add: word_less_nat_alt)
    ultimately show ?thesis using assms(2) by (simp add: dfu_frame_def)
  qed
  then show "CODE_REGION_1_START m = CODE_REGION_1_START m0" by (rule CODE_REGION_1_START_cong)
  have "rd_bytes m 0x300C 2 = rd_bytes m0 0x300C 2" by (rule rd_bytes_cong) (auto simp: less_2_cases_iff intro: eq)
  then show "SD_FWID_GET m MBR_SIZE = SD_FWID_GET m0 MBR_SIZE" by (simp add: SD_FWID_GET_def layout_simps)
  have "rd_word m 0x3004 = rd_word m0 0x3004" by (rule rd_word_cong) (auto intro: eq simp: word_le_nat_alt word_less_nat_alt)
  then show "is_sd_existed m = is_sd_existed m0" by (simp add: is_sd_existed_def layout_simps)
qed

lemma policy_same:
  assumes "dfu_window b m0" "dfu_frame b m0 n m" shows "dfu_image_policy_validate b m img p = dfu_image_policy_validate b m0 img p"
proof -
  have r: "dfu_policy_runtime_app_base m = dfu_policy_runtime_app_base m0" "dfu_policy_runtime_softdevice_fwid m = dfu_policy_runtime_softdevice_fwid m0"
    using base_same [OF assms] by (simp_all add: dfu_policy_runtime_app_base_def dfu_policy_runtime_softdevice_fwid_def)
  have "bootloader_info b m = bootloader_info b m0" by (intro ext) (simp only: bootloader_info_def r)
  then show ?thesis by (simp only: dfu_image_policy_validate_def r)
qed

lemma page_below:
  fixes p e :: nat assumes "4096 dvd p" "4096 dvd e" "p < e" shows "p + 4096 \<le> e"
proof -
  obtain i j where "p = 4096 * i" "e = 4096 * j" using assms(1,2) by (auto simp: dvd_def)
  then show ?thesis using assms(3) by simp
qed

text \<open>The page in the cache is a page of the image, so flash itself keeps the frame.\<close>

lemma bank_page:
  assumes "bank_inv b m0 n v rx" "dfu_window b m0" "\<not> (unat (CODE_REGION_1_START m0) \<le> unat x \<and> unat x < unat (CODE_REGION_1_START m0) + rounded n)"
  shows "cview v x = nv_mem v x"
proof (cases "fl_addr v = FLASH_CACHE_INVALID_ADDR")
  case False
  let ?A = "unat (CODE_REGION_1_START m0)" and ?p = "unat (fl_addr v)"
  have p: "?A \<le> ?p" "?p < ?A + n" "4096 dvd ?p" "4096 dvd ?A" using assms(1,2) False by (auto simp: bank_inv_def cwf_def dfu_window_def)
  have "?p + 4096 \<le> ?A + rounded n" using p rounded_bounds(1) [of n] by (intro page_below) (simp_all add: rounded_bounds(3))
  then have "\<not> in_page (fl_addr v) x" using assms(3) p in_page_aligned_iff [of "fl_addr v" x] by auto
  then show ?thesis by (simp add: cview_def)
qed simp


lemma bank_addr:
  assumes "dfu_window b m0" "n \<le> DFU_IMAGE_MAX_SIZE_FULL (b_chip b) m0" "i \<le> unat n"
  shows "unat (CODE_REGION_1_START m0 + of_nat i) = unat (CODE_REGION_1_START m0) + i" 
    "unat (CODE_REGION_1_START m0 + of_nat i) < unat (BOOTLOADER_REGION_START (b_chip b))"
proof -
  have "unat (CODE_REGION_1_START m0) + unat n + 4096 \<le> unat (BOOTLOADER_REGION_START (b_chip b))"
    using image_window(2) [OF assms(1,2)] by (cases "b_chip b") simp_all
  moreover have "unat (BOOTLOADER_REGION_START (b_chip b)) < 2 ^ 32" by (cases "b_chip b") simp_all
  ultimately show "unat (CODE_REGION_1_START m0 + of_nat i) = unat (CODE_REGION_1_START m0) + i" 
    "unat (CODE_REGION_1_START m0 + of_nat i) < unat (BOOTLOADER_REGION_START (b_chip b))"
    using assms(3) by (simp_all add: unat_word_ariths unat_of_nat)
qed

lemma bank_inv_save:
  assumes "bank_inv b m0 (unat n) v rx" "fl_addr v = FLASH_CACHE_INVALID_ADDR" "dfu_window b m0" "n \<le> DFU_IMAGE_MAX_SIZE_FULL (b_chip b) m0"
  shows "bank_inv b m0 (unat n) (v\<lparr>nv_mem := exec_cmds (settings_save_cmds b t) (nv_mem v)\<rparr>) rx"
proof -
  have all: "settings_save_cmds b t = take 9 (settings_save_cmds b t)" by (simp add: settings_save_cmds_def Let_def)
  have fr: "exec_cmds (settings_save_cmds b t) (nv_mem v) x = nv_mem v x" if "\<not> in_page (BOOTLOADER_SETTINGS_ADDRESS (b_chip b)) x" for x
    by (subst all) (rule save_cmds_frame [OF that])
  have img: "exec_cmds (settings_save_cmds b t) (nv_mem v) (CODE_REGION_1_START m0 + of_nat i) = nv_mem v (CODE_REGION_1_START m0 + of_nat i)" if "i < unat n" for i
    using bank_addr(2) [OF assms(3,4), of i] that by (intro fr below_settings_page) simp
  show ?thesis using assms(1,2) fr img by (auto simp: bank_inv_def dfu_frame_def)
qed

lemma report_save:
  assumes "bootloader_dfu_update_process b tc u (ds_ctl s\<lparr>bc_flash := ds_mem s\<rparr>) = Inr (bootloader_settings_save b x c)" "\<not> bc_is_ota c" "bc_flash c = ds_mem s"
  obtains c' where "dfu_report b tc u s =
      Inr (s\<lparr>ds_ctl := c', ds_nvm := (ds_nvm s)\<lparr>nv_mem := exec_cmds (settings_save_cmds b (bootloader_settings_seal x)) (ds_mem s)\<rparr>\<rparr>)"
    "\<not> bc_is_ota c'" "c' = bootloader_settings_save b x c"
  using assms by (auto simp: dfu_report_def direct_save_settings(1) bootloader_settings_save_def Let_def pstorage_callback_handler_def)

lemma live_invD:
  assumes "live_inv b m0 s rx"
  shows "dfu_start_packet_validate b (m_start_packet s) = Inr (m_image_size s)" "m_image_size s \<le> DFU_IMAGE_MAX_SIZE_FULL (b_chip b) m0"
    "m_activate s = activate_of (m_start_packet s)" "bank_inv b m0 (unat (m_image_size s)) (ds_nvm s) rx"
    "m_dfu_state s = DFU_STATE_RX_DATA_PKT \<Longrightarrow> m_data_received s \<noteq> 0xFFFFFFFF \<Longrightarrow> unat (m_data_received s) = length rx"
    "m_dfu_state s = DFU_STATE_RX_DATA_PKT \<and> m_data_received s = m_image_size s \<or> m_dfu_state s \<in> {DFU_STATE_VALIDATE, DFU_STATE_WAIT_4_ACTIVATE} \<Longrightarrow>
      length rx = unat (m_image_size s) \<and> fl_addr (ds_nvm s) = FLASH_CACHE_INVALID_ADDR"
    "m_dfu_state s = DFU_STATE_WAIT_4_ACTIVATE \<Longrightarrow> dfu_verified b m0 s rx"
    "m_dfu_state s \<noteq> DFU_STATE_WAIT_4_ACTIVATE \<Longrightarrow> erased_settings (bootloader_util_settings_get b (cview (ds_nvm s)))"
  using assms unfolding live_inv_def Let_def by blast+

section \<open>START\<close>

lemma bank_inv_erased:
  assumes "dfu_window b m0" "n \<le> DFU_IMAGE_MAX_SIZE_FULL (b_chip b) m0" "fl_addr v = FLASH_CACHE_INVALID_ADDR" "nv_mem v = m0"
  shows "bank_inv b m0 (unat n) (flash_nrf5x_erase (CODE_REGION_1_START m0) n v) []" "fl_addr (flash_nrf5x_erase (CODE_REGION_1_START m0) n v) = FLASH_CACHE_INVALID_ADDR"
proof -
  have d: "4096 dvd unat (CODE_REGION_1_START m0)" using assms(1) by (simp add: dfu_window_def)
  have "unat (BOOTLOADER_REGION_START (b_chip b)) < 2 ^ 30" "4096 \<le> unat (DFU_APP_DATA_RESERVED (b_chip b))" by (cases "b_chip b"; simp)+
  then have w: "unat (CODE_REGION_1_START m0) + unat n + 4096 < 2 ^ 32" using image_window(2) [OF assms(1,2)] by simp
  note e = bank_erase [OF d w, of v]
  show a: "fl_addr (flash_nrf5x_erase (CODE_REGION_1_START m0) n v) = FLASH_CACHE_INVALID_ADDR" using assms(3) e by simp
  have "unat (CODE_REGION_1_START m0 + of_nat i) = unat (CODE_REGION_1_START m0) + i" if "i < unat n" for i
    using bank_addr(1) [OF assms(1,2)] that by simp
  then show "bank_inv b m0 (unat n) (flash_nrf5x_erase (CODE_REGION_1_START m0) n v) []"
    using a e assms(4) rounded_bounds(1) [of "unat n"] by (auto simp: bank_inv_def dfu_frame_def)
qed

lemma start_packet_fresh:
  assumes "dfu_inv b m0 s rx" "m_dfu_state s = DFU_STATE_IDLE" "dfu_start_packet_validate b p = Inr n" "n \<le> DFU_IMAGE_MAX_SIZE_FULL (b_chip b) m0"
    "\<not> m_dfu_timed_out s" "dfu_window b m0"
  obtains s' where "dfu_start_pkt_handle ps b tc p s = Inr (NRF_SUCCESS, s')" "dfu_inv b m0 s' []" "m_dfu_state s' = DFU_STATE_RDY"
    "m_start_packet s' = p" "m_image_size s' = n" "\<not> m_dfu_timed_out s'" "m_init_packet s' = m_init_packet s" "m_init_packet_length s' = m_init_packet_length s"
    "m_extended_packet s' = m_extended_packet s"
proof -
  let ?A = "CODE_REGION_1_START m0"
  have i: "\<not> ds_is_ota s" "m_storage_handle_app s = ?A" "ds_mem s = m0" "fl_addr (ds_nvm s) = FLASH_CACHE_INVALID_ADDR" "m_data_received s = 0"
    using assms(1,2) by (simp_all add: dfu_inv_def)
  define v where "v = flash_nrf5x_erase ?A n (ds_nvm s)"
  note e = bank_inv_erased [OF assms(6,4) i(4,3), folded v_def]
  define s1 where "s1 = s\<lparr>m_start_packet := p, m_image_size := n, m_activate := activate_of p, ds_timer := True, m_dfu_state := DFU_STATE_PREPARING,
    dfu_base_address := ?A, ds_nvm := v\<rparr>"
  define s2 where "s2 = (case dfu_page_erased s1 of Some e \<Rightarrow> if dfu_image_page_count s1 > 0 then s1\<lparr>dfu_page_erased := Some (e[0 := True])\<rparr> else s1 | None \<Rightarrow> s1)"
  have s2: "ds_ctl s2 = ds_ctl s" "ds_nvm s2 = v" "m_start_packet s2 = p" "m_image_size s2 = n" "m_activate s2 = activate_of p" "m_storage_handle_app s2 = ?A"
    "m_data_received s2 = 0" "m_dfu_timed_out s2 = m_dfu_timed_out s" "m_init_packet s2 = m_init_packet s" "m_init_packet_length s2 = m_init_packet_length s" 
    "m_extended_packet s2 = m_extended_packet s"
    using i by (auto simp: s2_def s1_def split: option.splits)
  define k where "k = (let q = bootloader_util_settings_get b (nv_mem v) in if bootloader_settings_integrity_valid q then bs_bank_1 q else BANK_INVALID_APP)"
  define x where "x = settings_zero\<lparr>bs_bank_0_crc := 0, bs_bank_0_size := 0, bs_bank_0 := BANK_INVALID_APP, bs_bank_1 := k\<rparr>"
  obtain c' where c': "dfu_report b tc (dfu_status DFU_BANK_0_ERASED) s2 =
      Inr (s2\<lparr>ds_ctl := c', ds_nvm := v\<lparr>nv_mem := exec_cmds (settings_save_cmds b (bootloader_settings_seal x)) (nv_mem v)\<rparr>\<rparr>)" "\<not> bc_is_ota c'"
    by (rule report_save [of b tc "dfu_status DFU_BANK_0_ERASED" s2 x "ds_ctl s\<lparr>bc_flash := nv_mem v\<rparr>"])
       (use i(1) s2(1,2) in \<open>simp_all add: dfu_status_def Let_def x_def k_def\<close>)
  define s3 where "s3 = dfu_notify START_PACKET NRF_SUCCESS (s2\<lparr>ds_ctl := c', ds_nvm := v\<lparr>nv_mem := exec_cmds (settings_save_cmds b (bootloader_settings_seal x)) (nv_mem v)\<rparr>,
      m_dfu_state := DFU_STATE_RDY\<rparr>)"
  have "m_dfu_state s1 = DFU_STATE_PREPARING" by (simp add: s1_def)
  then have run: "dfu_start_pkt_handle ps b tc p s = Inr (NRF_SUCCESS, s3)"
    using assms(2-5) i c'(1)
    by (simp add: dfu_start_pkt_handle_def Let_def dfu_timer_restart_def dfu_prepare_func_app_erase_def dfu_storage_callback_def dfu_cleared_func_app_def
        activate_of_def [symmetric] s1_def [symmetric] s2_def [symmetric] v_def [symmetric] s3_def not_less)
  have f: "fl_addr (ds_nvm s3) = FLASH_CACHE_INVALID_ADDR" "ds_nvm s3 = v\<lparr>nv_mem := exec_cmds (settings_save_cmds b (bootloader_settings_seal x)) (nv_mem v)\<rparr>"
    using e(2) by (simp_all add: s3_def dfu_notify_def)
  have "bank_inv b m0 (unat n) (ds_nvm s3) []" unfolding f(2) by (rule bank_inv_save [OF e(1,2) assms(6,4)])
  moreover have "erased_settings (bootloader_util_settings_get b (cview (ds_nvm s3)))"
    using f by (auto simp: full_save(1) erased_settings_def x_def)
  ultimately have "dfu_inv b m0 s3 []"
    using assms(3,4) s2 c'(2) by (simp add: dfu_inv_def live_inv_def Let_def s3_def dfu_notify_def)
  then show thesis using that [OF run] s2 assms(5) by (simp add: s3_def dfu_notify_def)
qed


lemma start_inv:
  assumes "dfu_inv b m0 s rx" "dfu_window b m0" "dfu_start_pkt_handle ps b tc p s = Inr (e, s')" shows "dfu_inv b m0 s' rx"
proof (cases "m_dfu_state s = DFU_STATE_IDLE \<and> \<not> m_dfu_timed_out s \<and> (\<exists>n. dfu_start_packet_validate b p = Inr n \<and> n \<le> DFU_IMAGE_MAX_SIZE_FULL (b_chip b) m0)")
  case True
  then obtain n where n: "m_dfu_state s = DFU_STATE_IDLE" "\<not> m_dfu_timed_out s" "dfu_start_packet_validate b p = Inr n" "n \<le> DFU_IMAGE_MAX_SIZE_FULL (b_chip b) m0" by blast
  have "rx = []" using assms(1) n(1) by (simp add: dfu_inv_def)
  then show ?thesis using assms(3) start_packet_fresh [OF assms(1) n(1,3,4,2) assms(2), of ps tc] by (metis Pair_inject sum.inject(2))
next
  case False
  have i: "m_dfu_state s = DFU_STATE_IDLE \<Longrightarrow> ds_mem s = m0" using assms(1) by (simp add: dfu_inv_def)
  show ?thesis using False assms(1,3) i
    by (auto simp: dfu_start_pkt_handle_def dfu_timer_restart_def Let_def dfu_inv_def not_less split: if_splits sum.splits)
qed

section \<open>INIT\<close>

lemma init_inv:
  assumes "dfu_inv b m0 s rx" shows "dfu_inv b m0 (snd (dfu_init_pkt_handle ws s)) rx"
  using assms by (auto simp: dfu_init_pkt_handle_def dfu_timer_restart_def Let_def dfu_inv_def live_inv_def)

lemma start_size_pos:
  assumes "dfu_start_packet_validate b p = Inr n" shows "n \<noteq> 0"
proof -
  have "start_tuple_wf p" "unat n = start_total p" using assms by (simp_all add: start_packet_Inr_iff)
  moreover from this(1) have "start_total p \<noteq> 0" unfolding start_tuple_wf_def start_total_def by (auto simp: unat_eq_zero)
  ultimately show ?thesis by auto
qed

lemma init_complete_inv:
  assumes "dfu_inv b m0 s rx" "dfu_init_pkt_complete b s = (e, s')" shows "dfu_inv b m0 s' rx"
proof (cases "m_data_received s > 0 \<or> m_dfu_state s \<noteq> DFU_STATE_RX_INIT_PKT")
  case True
  then show ?thesis using assms by (auto simp: dfu_init_pkt_complete_def)
next
  case False
  have l: "live_inv b m0 s rx" "rx = []" using assms(1) False by (auto simp: dfu_inv_def live_inv_def)
  obtain e' ext where pv: "dfu_init_prevalidate b (ds_mem s) (take (unat (m_init_packet_length s)) (m_init_packet s)) (dfu_update_mode (m_start_packet s)) = (e', ext)"
    by (cases "dfu_init_prevalidate b (ds_mem s) (take (unat (m_init_packet_length s)) (m_init_packet s)) (dfu_update_mode (m_start_packet s))")
  have sz: "m_image_size s \<noteq> 0" using l(1) start_size_pos unfolding live_inv_def by blast
  define s1 where "s1 = (case ext of Some (n, e) \<Rightarrow> s\<lparr>m_extended_packet_length := n, m_extended_packet := e @ drop (length e) (m_extended_packet s)\<rparr> | None \<Rightarrow> s)"
  have s': "s' = (if e = NRF_SUCCESS then s1\<lparr>m_dfu_state := DFU_STATE_RX_DATA_PKT\<rparr> else s1\<lparr>m_init_packet_length := 0\<rparr>)"
    using assms(2) False pv by (auto simp: dfu_init_pkt_complete_def s1_def Let_def)
  have same: "ds_ctl s1 = ds_ctl s" "ds_nvm s1 = ds_nvm s" "m_dfu_state s1 = m_dfu_state s" "m_start_packet s1 = m_start_packet s" "m_image_size s1 = m_image_size s"
    "m_activate s1 = m_activate s" "m_data_received s1 = m_data_received s" "m_storage_handle_app s1 = m_storage_handle_app s"
    by (auto simp: s1_def split: option.splits)
  have "m_data_received s = 0" using False by (simp add: word_greater_zero_iff)
  then show ?thesis using assms(1) False l(2) sz by (auto simp: s' same dfu_inv_def live_inv_def Let_def)
qed

section \<open>DATA\<close>

lemma window_iff:
  assumes "unat (a :: u32) + n \<le> 2 ^ 32" shows "unat (x - a) < n \<longleftrightarrow> unat a \<le> unat x \<and> unat x < unat a + n"
  using assms unat_u32_lt [of x] unat_u32_lt [of a] by (auto simp: unat_sub_if_size word_size)

lemma page_of_div: "unat (page_of a) = unat a div 4096 * 4096"
proof -
  have "unat (page_of a) \<le> unat a" using page_of_aligned [of a] in_page_aligned_iff [of "page_of a" a] by simp
  then have "unat (a - page_of a) = unat a - unat (page_of a)" by (simp add: unat_sub_le word_le_nat_alt)
  then show ?thesis using page_off(2) [of a] \<open>unat (page_of a) \<le> unat a\<close> by (simp add: div_mult_mod_eq minus_mod_eq_div_mult [symmetric])
qed

lemma length_words [simp]: "length (concat (map wr_u32 ws)) = 4 * length ws"
  by (induction ws) auto

lemma write_addr:
  "fl_addr (flash_nrf5x_write dst src er v) = fl_addr v \<or> (\<exists>i<length src. fl_addr (flash_nrf5x_write dst src er v) = page_of (dst + of_nat i))"
proof (induction "length src" arbitrary: dst src v rule: less_induct)
  case less
  define off where "off = unat (dst - page_of dst)"
  define k where "k = (if 4096 - off < length src then 4096 - off else length src)"
  define v1 where "v1 = (if page_of dst \<noteq> fl_addr v then let n = flash_nrf5x_flush er v in n\<lparr>fl_addr := page_of dst, fl_buf := rd_bytes (nv_mem n) (page_of dst) 4096\<rparr> else v)"
  define v2 where "v2 = v1\<lparr>fl_buf := take off (fl_buf v1) @ take k src @ drop (off + k) (fl_buf v1)\<rparr>"
  have o: "off < 4096" by (simp add: off_def page_off(2))
  have a: "fl_addr v2 = page_of dst" by (simp add: v2_def v1_def Let_def)
  show ?case
  proof (cases "src = []")
    case True
    then show ?thesis by (simp add: flash_nrf5x_write.simps)
  next
    case False
    have w: "flash_nrf5x_write dst src er v = flash_nrf5x_write (dst + of_nat k) (drop k src) er v2"
      by (subst flash_nrf5x_write.simps) (simp add: False Let_def v2_def v1_def off_def k_def)
    have ih: "fl_addr (flash_nrf5x_write (dst + of_nat k) (drop k src) er v2) = fl_addr v2 \<or>
        (\<exists>i<length (drop k src). fl_addr (flash_nrf5x_write (dst + of_nat k) (drop k src) er v2) = page_of (dst + of_nat k + of_nat i))"
      using False o by (intro less) (simp add: k_def)
    then show ?thesis
    proof
      assume "fl_addr (flash_nrf5x_write (dst + of_nat k) (drop k src) er v2) = fl_addr v2"
      then show ?thesis using w a False by (intro disjI2 exI [of _ 0]) simp
    next
      assume "\<exists>i<length (drop k src). fl_addr (flash_nrf5x_write (dst + of_nat k) (drop k src) er v2) = page_of (dst + of_nat k + of_nat i)"
      then obtain i where i: "i < length (drop k src)" "fl_addr (flash_nrf5x_write (dst + of_nat k) (drop k src) er v2) = page_of (dst + of_nat k + of_nat i)" by blast
      then show ?thesis using w by (intro disjI2 exI [of _ "k + i"]) (simp add: add.assoc)
    qed
  qed
qed

lemma bank_inv_write:
  assumes "bank_inv b m0 (unat n) v rx" "length rx + length d \<le> unat n" "dfu_window b m0" "n \<le> DFU_IMAGE_MAX_SIZE_FULL (b_chip b) m0"
  shows "bank_inv b m0 (unat n) (flash_nrf5x_write (CODE_REGION_1_START m0 + of_nat (length rx)) d False v) (rx @ d)"
    "bootloader_util_settings_get b (cview (flash_nrf5x_write (CODE_REGION_1_START m0 + of_nat (length rx)) d False v)) = bootloader_util_settings_get b (cview v)"
proof -
  let ?A = "CODE_REGION_1_START m0" and ?v = "flash_nrf5x_write (CODE_REGION_1_START m0 + of_nat (length rx)) d False v"
  have i: "cwf v" "dfu_frame b m0 (unat n) (cview v)" "\<forall>i<unat n. cview v (?A + of_nat i) = (if i < length rx then rx ! i else 0xFF)"
    "fl_addr v = FLASH_CACHE_INVALID_ADDR \<or> unat ?A \<le> unat (fl_addr v) \<and> unat (fl_addr v) < unat ?A + unat n"
    using assms(1) by (simp_all add: bank_inv_def)
  have "cview v (?A + of_nat (length rx) + of_nat j) = 0xFF" if "j < length d" for j
    using i(3) assms(2) that by (auto dest: spec [of _ "length rx + j"] simp: add.assoc)
  moreover have "length d < 2 ^ 32" using assms(2) unat_u32_lt [of n] by simp
  ultimately have w: "cwf ?v" "cview ?v = overlay (cview v) (?A + of_nat (length rx)) d" using write_view [OF i(1), of d "?A + of_nat (length rx)"] by auto
  have un: "unat (?A + of_nat k) = unat ?A + k" if "k \<le> unat n" for k using bank_addr(1) [OF assms(3,4) that] .
  have in_d: "unat (x - (?A + of_nat (length rx))) < length d \<longleftrightarrow> unat ?A + length rx \<le> unat x \<and> unat x < unat ?A + length rx + length d" for x
    using un [of "length rx"] un [of "length rx + length d"] assms(2) window_iff [of "?A + of_nat (length rx)" "length d" x] unat_u32_lt [of "?A + of_nat (length rx + length d)"] by simp
  have out: "cview ?v x = cview v x" if "\<not> (unat ?A \<le> unat x \<and> unat x < unat ?A + unat n)" for x
    using that assms(2) in_d [of x] by (auto simp: w(2) overlay_def)
  have img: "cview ?v (?A + of_nat k) = (if k < length (rx @ d) then (rx @ d) ! k else 0xFF)" if k: "k < unat n" for k
  proof (cases "length rx \<le> k \<and> k < length rx + length d")
    case True
    have "unat (of_nat (k - length rx) :: u32) = k - length rx" using k unat_u32_lt [of n] by (intro unat_of_nat_u32) simp
    moreover have "?A + of_nat k - (?A + of_nat (length rx)) = (of_nat (k - length rx) :: u32)" using True by (simp add: of_nat_diff)
    ultimately have "unat (?A + of_nat k - (?A + of_nat (length rx))) = k - length rx" by simp
    then show ?thesis using True by (auto simp: w(2) overlay_def nth_append)
  next
    case False
    then show ?thesis using in_d [of "?A + of_nat k"] un [of k] i(3) k by (auto simp: w(2) overlay_def nth_append)
  qed
  have pg: "fl_addr ?v = FLASH_CACHE_INVALID_ADDR \<or> unat ?A \<le> unat (fl_addr ?v) \<and> unat (fl_addr ?v) < unat ?A + unat n"
    using write_addr [of "?A + of_nat (length rx)" d False v]
  proof
    assume "\<exists>i<length d. fl_addr ?v = page_of (?A + of_nat (length rx) + of_nat i)"
    then obtain j where j: "j < length d" "fl_addr ?v = page_of (?A + of_nat (length rx + j))" by (auto simp: add.assoc)
    have u: "unat (?A + of_nat (length rx + j)) = unat ?A + (length rx + j)" using j(1) assms(2) by (intro un) simp
    have "unat (page_of (?A + of_nat (length rx + j))) = unat (?A + of_nat (length rx + j)) div 4096 * 4096" by (rule page_of_div)
    moreover have "unat ?A div 4096 * 4096 = unat ?A" using assms(3) by (simp add: dfu_window_def)
    moreover have "unat ?A div 4096 \<le> unat (?A + of_nat (length rx + j)) div 4096" unfolding u by (rule div_le_mono) simp
    ultimately have "unat ?A \<le> unat (fl_addr ?v)" "unat (fl_addr ?v) \<le> unat ?A + (length rx + j)" unfolding j(2) u by linarith+
    then show ?thesis using j(1) assms(2) by simp
  qed (use i(4) in simp)
  have "dfu_frame b m0 (unat n) (cview ?v)" using i(2) out rounded_bounds(1) [of "unat n"] unfolding dfu_frame_def by (metis order_less_le_trans add_le_cancel_left)
  then show "bank_inv b m0 (unat n) ?v (rx @ d)" using w(1) img pg assms(2) by (simp add: bank_inv_def)
  have "rd_bytes (cview ?v) (BOOTLOADER_SETTINGS_ADDRESS (b_chip b)) 32 = rd_bytes (cview v) (BOOTLOADER_SETTINGS_ADDRESS (b_chip b)) 32"
  proof (rule rd_bytes_cong)
    fix j :: nat assume "j < 32"
    then have "unat (BOOTLOADER_REGION_START (b_chip b)) \<le> unat (BOOTLOADER_SETTINGS_ADDRESS (b_chip b) + of_nat j)"
      by (cases "b_chip b") (simp_all add: unat_word_ariths unat_of_nat)
    then show "cview ?v (BOOTLOADER_SETTINGS_ADDRESS (b_chip b) + of_nat j) = cview v (BOOTLOADER_SETTINGS_ADDRESS (b_chip b) + of_nat j)"
      using image_window(2) [OF assms(3,4)] by (intro out) linarith
  qed
  then show "bootloader_util_settings_get b (cview ?v) = bootloader_util_settings_get b (cview v)" by (simp add: bootloader_util_settings_get_def)
qed


lemma data_packet_accept:
  assumes inv: "dfu_inv b m0 s rx" "m_dfu_state s = DFU_STATE_RX_DATA_PKT" "dfu_window b m0" "\<not> m_dfu_timed_out s"
    and fit: "unat (m_data_received s) = length rx" "length rx + 4 * length ws \<le> unat (m_image_size s)"
  obtains s' where "dfu_data_pkt_handle ps b tc True ws s =
      Inr (if length rx + 4 * length ws = unat (m_image_size s) then NRF_SUCCESS else NRF_ERROR_INVALID_LENGTH, s')"
    "dfu_inv b m0 s' (rx @ concat (map wr_u32 ws))" "m_dfu_state s' = DFU_STATE_RX_DATA_PKT" "\<not> m_dfu_timed_out s'"
    "unat (m_data_received s') = length rx + 4 * length ws" "m_image_size s' = m_image_size s" "m_start_packet s' = m_start_packet s"
    "m_extended_packet s' = m_extended_packet s"
proof -
  let ?A = "CODE_REGION_1_START m0" and ?d = "concat (map wr_u32 ws)" and ?n = "m_image_size s"
  have i: "\<not> ds_is_ota s" "m_storage_handle_app s = ?A" "live_inv b m0 s rx" using inv(1,2) by (simp_all add: dfu_inv_def)
  have l: "dfu_start_packet_validate b (m_start_packet s) = Inr ?n" "?n \<le> DFU_IMAGE_MAX_SIZE_FULL (b_chip b) m0" "m_activate s = activate_of (m_start_packet s)"
    "bank_inv b m0 (unat ?n) (ds_nvm s) rx" "erased_settings (bootloader_util_settings_get b (cview (ds_nvm s)))"
    using live_invD [OF i(3)] inv(2) by simp_all
  have r: "m_data_received s = of_nat (length rx)" using fit(1) by (simp flip: fit(1))
  have fit': "length rx + length ?d \<le> unat ?n" using fit(2) by simp
  have lt: "4 * length ws < 2 ^ 32" "length ws < 2 ^ 32" using fit(2) unat_u32_lt [of ?n] by simp_all
  have base: "CODE_REGION_1_START (ds_mem s) = ?A"
  proof (rule base_same(1) [OF inv(3)])
    show "dfu_frame b m0 (unat ?n) (ds_mem s)" using bank_page [OF l(4) inv(3)] l(4) by (auto simp: dfu_frame_def bank_inv_def)
  qed
  define v where "v = flash_nrf5x_write (?A + of_nat (length rx)) ?d False (ds_nvm s)"
  note w = bank_inv_write [OF l(4) fit' inv(3) l(2), folded v_def]
  define v' where "v' = (if length rx + 4 * length ws = unat ?n then flash_nrf5x_flush False v else v)"
  have vv: "cwf v" using w(1) by (simp add: bank_inv_def)
  have f: "length rx + 4 * length ws = unat ?n \<Longrightarrow> fl_addr v' = FLASH_CACHE_INVALID_ADDR" "cview v' = cview v" "bank_inv b m0 (unat ?n) v' (rx @ ?d)"
    using flush_view [OF vv] w(1) by (auto simp: v'_def bank_inv_def)
  have sum: "m_data_received s + of_nat (length ws) * 4 = of_nat (length rx + 4 * length ws)" by (simp add: r)
  have us: "unat (of_nat (length rx + 4 * length ws) :: u32) = length rx + 4 * length ws" using fit(2) unat_u32_lt [of ?n] by (intro unat_of_nat_u32) simp
  have eq: "(of_nat (length rx + 4 * length ws) :: u32) = ?n \<longleftrightarrow> length rx + 4 * length ws = unat ?n" using us by (metis unat_of_nat_u32 word_unat_eq_iff)
  have ok: "\<not> (m_data_received s > ?n \<or> of_nat (length ws) > (?n - m_data_received s) div 4)"
  proof -
    have le: "m_data_received s \<le> ?n" using fit by (simp add: word_le_nat_alt)
    then have "unat ((?n - m_data_received s) div 4) = (unat ?n - length rx) div 4" by (simp add: unat_div unat_sub_le fit(1))
    moreover have "unat (of_nat (length ws) :: u32) = length ws" using lt(2) by (intro unat_of_nat_u32) simp
    ultimately have "of_nat (length ws) \<le> (?n - m_data_received s) div 4" using fit(2) by (simp add: word_le_nat_alt)
    then show ?thesis using le by (simp add: not_less)
  qed
  define s' where "s' = dfu_notify DATA_PACKET NRF_SUCCESS (s\<lparr>ds_timer := True, ds_nvm := v', m_data_received := of_nat (length rx + 4 * length ws)\<rparr>)"
  have run: "dfu_data_pkt_handle ps b tc True ws s =
      Inr (if length rx + 4 * length ws = unat ?n then NRF_SUCCESS else NRF_ERROR_INVALID_LENGTH, s')"
    unfolding dfu_data_pkt_handle_def dfu_timer_restart_def dfu_storage_callback_def dfu_notify_def Let_def s'_def v'_def
    using inv(2,4) i(1) ok base eq by (simp add: r v_def mult.commute)
  have "dfu_inv b m0 s' (rx @ ?d)"
    using l f i(1,2) w(2) inv(2) us eq by (simp add: dfu_inv_def live_inv_def Let_def s'_def dfu_notify_def)
  then show thesis using that [OF run] inv(2,4) us by (simp add: s'_def dfu_notify_def)
qed


lemma image_size_small:
  assumes "dfu_window b m0" "n \<le> DFU_IMAGE_MAX_SIZE_FULL (b_chip b) m0" shows "unat n < 2 ^ 30"
proof -
  have "unat (BOOTLOADER_REGION_START (b_chip b)) < 2 ^ 30" by (cases "b_chip b") simp_all
  then show ?thesis using image_window(2) [OF assms] by linarith
qed

lemma data_inv:
  assumes "dfu_inv b m0 s rx" "dfu_window b m0" "dfu_data_pkt_handle ps b tc al ws s = Inr (e, s')" "length ws < 2 ^ 32"
  shows "dfu_inv b m0 s' (rx @ dfu_accepted (Ev_Data al ws) e)"
proof (cases "al \<and> m_dfu_state s = DFU_STATE_RX_DATA_PKT \<and> \<not> (m_data_received s > m_image_size s \<or> of_nat (length ws) > (m_image_size s - m_data_received s) div 4) \<and> \<not> m_dfu_timed_out s")
  case True
  let ?n = "m_image_size s" and ?k = "m_data_received s"
  have l: "live_inv b m0 s rx" using assms(1) True by (simp add: dfu_inv_def)
  have le: "?k \<le> ?n" "of_nat (length ws) \<le> (?n - ?k) div 4" using True by (simp_all add: not_less)
  have "unat ?n < 2 ^ 30" by (rule image_size_small [OF assms(2) live_invD(2) [OF l]])
  then have "?k \<noteq> 0xFFFFFFFF" using le(1) by (auto simp: word_le_nat_alt)
  then have r: "unat ?k = length rx" using live_invD(5) [OF l] True by blast
  have "length ws \<le> (unat ?n - unat ?k) div 4"
    using le assms(4) by (simp add: word_le_nat_alt unat_div unat_sub_le unat_of_nat_u32)
  then have "length rx + 4 * length ws \<le> unat ?n" using r le(1) by (simp add: word_le_nat_alt)
  then obtain s1 where "dfu_data_pkt_handle ps b tc True ws s =
      Inr (if length rx + 4 * length ws = unat ?n then NRF_SUCCESS else NRF_ERROR_INVALID_LENGTH, s1)" "dfu_inv b m0 s1 (rx @ concat (map wr_u32 ws))"
    using data_packet_accept [OF assms(1) _ assms(2) _ r, of ws ps tc] True by blast
  then show ?thesis using True assms(3) by (simp split: if_splits)
next
  case False
  let ?s = "s\<lparr>m_data_received := 0xFFFFFFFF\<rparr>"
  have "dfu_data_pkt_handle ps b tc al ws s \<in> {Inr (NRF_ERROR_INVALID_ADDR, s), Inr (NRF_ERROR_INVALID_STATE, s)} \<or>
      m_dfu_state s = DFU_STATE_RX_DATA_PKT \<and> dfu_data_pkt_handle ps b tc al ws s = Inr (NRF_ERROR_DATA_SIZE, ?s)"
    using False
    by (cases "al \<and> m_dfu_state s = DFU_STATE_RX_DATA_PKT";
        cases "m_data_received s > m_image_size s \<or> of_nat (length ws) > (m_image_size s - m_data_received s) div 4")
       (simp_all only: dfu_data_pkt_handle_def dfu_timer_restart_def Let_def, auto)
  moreover have "dfu_inv b m0 ?s rx" if st: "m_dfu_state s = DFU_STATE_RX_DATA_PKT"
  proof -
    have l: "live_inv b m0 s rx" "\<not> ds_is_ota s" "m_storage_handle_app s = CODE_REGION_1_START m0" using assms(1) st by (simp_all add: dfu_inv_def)
    note d = live_invD [OF l(1)]
    have "0xFFFFFFFF \<noteq> m_image_size s" using image_size_small [OF assms(2) d(2)] by auto
    then have "live_inv b m0 ?s rx" unfolding live_inv_def Let_def using d(1-4,8) st by simp
    then show ?thesis using st l by (simp add: dfu_inv_def)
  qed
  ultimately show ?thesis using assms(1,3) by auto
qed

section \<open>Validation and activation\<close>

lemma live_frame:
  assumes "dfu_window b m0" "live_inv b m0 s rx" shows "dfu_frame b m0 (unat (m_image_size s)) (ds_mem s)"
proof -
  note i = live_invD(4) [OF assms(2)]
  then have "dfu_frame b m0 (unat (m_image_size s)) (cview (ds_nvm s))" by (simp add: bank_inv_def)
  then show ?thesis using bank_page [OF i assms(1)] unfolding dfu_frame_def by metis
qed

lemma complete_image:
  assumes "live_inv b m0 s rx" "length rx = unat (m_image_size s)" "fl_addr (ds_nvm s) = FLASH_CACHE_INVALID_ADDR"
  shows "rd_bytes (ds_mem s) (CODE_REGION_1_START m0) (unat (m_image_size s)) = rx"
proof (rule nth_equalityI)
  fix i assume "i < length (rd_bytes (ds_mem s) (CODE_REGION_1_START m0) (unat (m_image_size s)))"
  then have "i < unat (m_image_size s)" by simp
  moreover from this have "cview (ds_nvm s) (CODE_REGION_1_START m0 + of_nat i) = rx ! i"
    using assms by (simp add: live_inv_def bank_inv_def)
  ultimately show "rd_bytes (ds_mem s) (CODE_REGION_1_START m0) (unat (m_image_size s)) ! i = rx ! i" using assms(3) by simp
qed (use assms(2) in simp)

lemma validate_inv:
  assumes "dfu_inv b m0 s rx" "dfu_window b m0" shows "dfu_inv b m0 (snd (dfu_image_validate b s)) rx"
proof (cases "m_dfu_state s \<noteq> DFU_STATE_RX_DATA_PKT \<or> m_data_received s \<noteq> m_image_size s")
  case True
  then show ?thesis using assms(1) by (simp add: dfu_image_validate_def)
next
  case False
  have l: "live_inv b m0 s rx" "m_storage_handle_app s = CODE_REGION_1_START m0" "\<not> ds_is_ota s" using assms(1) False by (simp_all add: dfu_inv_def)
  have c: "length rx = unat (m_image_size s)" "fl_addr (ds_nvm s) = FLASH_CACHE_INVALID_ADDR" "erased_settings (bootloader_util_settings_get b (cview (ds_nvm s)))"
    using live_invD(6,8) [OF l(1)] False by simp_all
  note im = complete_image [OF l(1) c(1,2)] and pol = policy_same [OF assms(2) live_frame [OF assms(2) l(1)]]
  show ?thesis
    using False l live_invD(1-4) [OF l(1)] c im pol
    by (auto simp: dfu_image_validate_def dfu_timer_restart_def dfu_init_postvalidate_def dfu_inv_def live_inv_def dfu_verified_def Let_def split: option.splits)
qed

lemma validate_ok:
  assumes "dfu_inv b m0 s rx" "dfu_window b m0" "m_dfu_state s = DFU_STATE_RX_DATA_PKT" "m_data_received s = m_image_size s" "\<not> m_dfu_timed_out s"
    and "crc16_compute rx None = rd_u16 (m_extended_packet s)" "dfu_image_policy_validate b m0 rx (m_start_packet s) = NRF_SUCCESS"
  obtains s' where "dfu_image_validate b s = (NRF_SUCCESS, s')" "m_dfu_state s' = DFU_STATE_WAIT_4_ACTIVATE" "m_start_packet s' = m_start_packet s"
    "m_image_crc s' = crc16_compute rx None" "dfu_inv b m0 s' rx"
proof -
  have l: "live_inv b m0 s rx" "m_storage_handle_app s = CODE_REGION_1_START m0" using assms(1,3) by (simp_all add: dfu_inv_def)
  have c: "length rx = unat (m_image_size s)" "fl_addr (ds_nvm s) = FLASH_CACHE_INVALID_ADDR"
    using live_invD(6) [OF l(1)] assms(3,4) by simp_all
  note im = complete_image [OF l(1) c(1,2)] and pol = policy_same [OF assms(2) live_frame [OF assms(2) l(1)]]
  let ?s = "s\<lparr>m_dfu_state := DFU_STATE_WAIT_4_ACTIVATE, ds_timer := True, m_image_crc := crc16_compute rx None\<rparr>"
  have run: "dfu_image_validate b s = (NRF_SUCCESS, ?s)"
    using assms(3-7) im pol l(2) by (simp add: dfu_image_validate_def dfu_timer_restart_def dfu_init_postvalidate_def Let_def)
  then show thesis using that [of ?s] validate_inv [OF assms(1,2)] by simp
qed


lemma activate_ok:
  assumes "dfu_inv b m0 s rx" "dfu_window b m0" "m_dfu_state s = DFU_STATE_WAIT_4_ACTIVATE"
  obtains s' where "dfu_image_activate b tc s = Inr (NRF_SUCCESS, s')" "m_dfu_state s' = DFU_STATE_WAIT_4_ACTIVATE" "dfu_inv b m0 s' rx"
    "ds_mem s' = exec_cmds (settings_save_cmds b (activated_settings (CODE_REGION_1_START m0) (m_start_packet s) (m_image_crc s))) (ds_mem s)"
    "m_update_status (ds_ctl s') = BOOTLOADER_COMPLETE"
    "activate_of (m_start_packet s) = Activate_App \<Longrightarrow> m_app_update_complete (ds_ctl s')"
proof -
  let ?A = "CODE_REGION_1_START m0" and ?p = "m_start_packet s"
  have l: "live_inv b m0 s rx" "\<not> ds_is_ota s" "m_storage_handle_app s = ?A" using assms(1,3) by (simp_all add: dfu_inv_def)
  note d = live_invD [OF l(1)]
  have f: "fl_addr (ds_nvm s) = FLASH_CACHE_INVALID_ADDR" "length rx = unat (m_image_size s)" using d(6) assms(3) by simp_all
  have r: "erased_settings (bootloader_util_settings_get b (ds_mem s)) \<or> bootloader_util_settings_get b (ds_mem s) = activated_settings ?A ?p (m_image_crc s)"
    using l(1) f(1) unfolding live_inv_def Let_def by (metis cview_invalid)
  have base: "CODE_REGION_1_START (ds_mem s) = ?A" using base_same(1) [OF assms(2) live_frame [OF assms(2) l(1)]] .
  have kb: "keep_bank_0 (bootloader_util_settings_get b (ds_mem s)) = settings_zero\<lparr>bs_bank_0 := BANK_INVALID_APP\<rparr>" if "activate_of ?p = Activate_BL"
    using r that by (auto simp: erased_settings_def activated_settings_def keep_bank_0_def seal_integrity settings_zero_def)
  obtain x c where x: "bootloader_dfu_update_process b tc (activation_report (m_activate s) s) (ds_ctl s\<lparr>bc_flash := ds_mem s\<rparr>) = Inr (bootloader_settings_save b x c)"
    "\<not> bc_is_ota c" "bc_flash c = ds_mem s" "m_update_status c = BOOTLOADER_SETTINGS_SAVING" "activate_of ?p = Activate_App \<Longrightarrow> m_app_update_complete c"
    "bootloader_settings_seal x = activated_settings ?A ?p (m_image_crc s)"
  proof (cases "activate_of ?p")
    case Activate_App
    then show ?thesis using l(2) d(3)
      by (intro that [of _ "ds_ctl s\<lparr>bc_flash := ds_mem s, m_app_update_complete := True, m_update_status := BOOTLOADER_SETTINGS_SAVING\<rparr>"])
         (simp_all add: activation_report_def dfu_status_def Let_def activated_settings_def)
  next
    case Activate_SD
    then show ?thesis using l(2) d(3) base
      by (intro that [of _ "ds_ctl s\<lparr>bc_flash := ds_mem s, m_update_status := BOOTLOADER_SETTINGS_SAVING\<rparr>"])
         (simp_all add: activation_report_def dfu_status_def Let_def activated_settings_def)
  next
    case Activate_BL
    then show ?thesis using l(2) d(3) kb
      by (intro that [of _ "ds_ctl s\<lparr>bc_flash := ds_mem s, m_update_status := BOOTLOADER_SETTINGS_SAVING\<rparr>"])
         (simp_all add: activation_report_def dfu_status_def Let_def activated_settings_def)
  qed
  let ?s0 = "s\<lparr>ds_timer := False\<rparr>"
  obtain c' where c': "dfu_report b tc (activation_report (m_activate s) s) ?s0 =
      Inr (?s0\<lparr>ds_ctl := c', ds_nvm := (ds_nvm ?s0)\<lparr>nv_mem := exec_cmds (settings_save_cmds b (bootloader_settings_seal x)) (ds_mem ?s0)\<rparr>\<rparr>)"
    "\<not> bc_is_ota c'" "c' = bootloader_settings_save b x c"
    by (rule report_save [of b tc "activation_report (m_activate s) s" ?s0 x c]) (use x in simp_all)
  define s' where "s' = ?s0\<lparr>ds_ctl := c', ds_nvm := (ds_nvm s)\<lparr>nv_mem := exec_cmds (settings_save_cmds b (activated_settings ?A ?p (m_image_crc s))) (ds_mem s)\<rparr>\<rparr>"
  have run: "dfu_image_activate b tc s = Inr (NRF_SUCCESS, s')" using assms(3) c'(1) x(6) by (simp add: dfu_image_activate_def s'_def)
  have st: "m_update_status (ds_ctl s') = BOOTLOADER_COMPLETE" "activate_of ?p = Activate_App \<Longrightarrow> m_app_update_complete (ds_ctl s')"
    using x(2,4,5) c'(3) by (simp_all add: s'_def bootloader_settings_save_def pstorage_callback_handler_def Let_def)
  have bi: "bank_inv b m0 (unat (m_image_size s)) (ds_nvm s') rx" using bank_inv_save [OF d(4) f(1) assms(2) d(2)] by (simp add: s'_def)
  have "live_inv b m0 s' rx"
    unfolding live_inv_def Let_def using d(1-3,7) bi f assms(3) by (simp add: s'_def dfu_verified_def full_save(1))
  then have "dfu_inv b m0 s' rx" using assms(3) l(3) c'(2) by (simp add: dfu_inv_def s'_def)
  then show thesis using that [OF run] st assms(3) by (simp add: s'_def)
qed

lemma activate_inv:
  assumes "dfu_inv b m0 s rx" "dfu_window b m0" "dfu_image_activate b tc s = Inr (e, s')" shows "dfu_inv b m0 s' rx"
proof (cases "m_dfu_state s = DFU_STATE_WAIT_4_ACTIVATE")
  case True
  then show ?thesis using activate_ok [OF assms(1,2) True, of tc] assms(3) by (metis Pair_inject sum.inject(2))
next
  case False
  then show ?thesis using assms(1,3) by (simp add: dfu_image_activate_def)
qed

lemma report_flow:
  assumes "us_code u = DFU_TIMEOUT \<or> us_code u = DFU_RESET" "dfu_report b tc u s = Inr s'"
  obtains st where "s' = s\<lparr>ds_ctl := (ds_ctl s)\<lparr>bc_flash := ds_mem s, m_update_status := st\<rparr>\<rparr>"
  using assms by (auto simp: dfu_report_def Let_def split: if_splits)

lemma dfu_inv_ctl:
  assumes "dfu_inv b m0 s rx" "bc_is_ota c = ds_is_ota s"
  shows "dfu_inv b m0 (s\<lparr>ds_ctl := c\<rparr>) rx" "dfu_inv b m0 (s\<lparr>m_dfu_timed_out := t, ds_timer := t'\<rparr>) rx"
proof -
  have "live_inv b m0 (s\<lparr>ds_ctl := c\<rparr>) rx = live_inv b m0 s rx" "live_inv b m0 (s\<lparr>m_dfu_timed_out := t, ds_timer := t'\<rparr>) rx = live_inv b m0 s rx"
    by (simp_all add: live_inv_def dfu_verified_def)
  then show "dfu_inv b m0 (s\<lparr>ds_ctl := c\<rparr>) rx" "dfu_inv b m0 (s\<lparr>m_dfu_timed_out := t, ds_timer := t'\<rparr>) rx"
    using assms by (simp_all add: dfu_inv_def)
qed

lemma step_inv:
  assumes "dfu_inv b m0 s rx" "dfu_window b m0" "dfu_event_ok ev" "dfu_step ps b tc ev s = Inr (e, s')"
  shows "dfu_inv b m0 s' (rx @ dfu_accepted ev e)"
proof (cases ev)
  case (Ev_Start p)
  then show ?thesis using start_inv [OF assms(1,2)] assms(4) by simp
next
  case (Ev_Init ws)
  then show ?thesis using init_inv [OF assms(1), of ws] assms(4) by simp
next
  case Ev_Init_Complete
  then show ?thesis using init_complete_inv [OF assms(1)] assms(4) by simp
next
  case (Ev_Data al ws)
  then show ?thesis using data_inv [OF assms(1,2)] assms(3,4) by simp
next
  case Ev_Validate
  then show ?thesis using validate_inv [OF assms(1,2)] assms(4) by simp
next
  case Ev_Activate
  then show ?thesis using activate_inv [OF assms(1,2)] assms(4) by simp
next
  case Ev_Reset
  then have "dfu_reset b tc s = Inr s'" using assms(4) by (cases "dfu_reset b tc s") auto
  then obtain st where "s' = s\<lparr>ds_ctl := (ds_ctl s)\<lparr>bc_flash := ds_mem s, m_update_status := st\<rparr>\<rparr>"
    unfolding dfu_reset_def by (auto elim!: report_flow [rotated] simp: dfu_status_def)
  then show ?thesis using dfu_inv_ctl(1) [OF assms(1)] Ev_Reset by simp
next
  case Ev_Timeout
  then have "dfu_timeout_handler b tc s = Inr s'" using assms(4) by (cases "dfu_timeout_handler b tc s") auto
  then obtain st where "s' = (s\<lparr>m_dfu_timed_out := True, ds_timer := False\<rparr>)\<lparr>ds_ctl := (ds_ctl s)\<lparr>bc_flash := ds_mem s, m_update_status := st\<rparr>\<rparr>"
    unfolding dfu_timeout_handler_def by (auto elim!: report_flow [rotated] simp: dfu_status_def)
  then show ?thesis using dfu_inv_ctl(1) [OF dfu_inv_ctl(2) [OF assms(1)]] Ev_Timeout by simp
next
  case Ev_Activity
  then show ?thesis using dfu_inv_ctl(1) [OF assms(1)] assms(4) by (auto simp: bootloader_dfu_activity_mark_def)
qed

lemma run_inv:
  assumes "dfu_run ps b tc m0 s rx" "dfu_window b m0" shows "dfu_inv b m0 s rx"
  using assms
proof (induction rule: dfu_run.induct)
  case (begin_ s s')
  then show ?case by (auto simp: dfu_init_def Let_def dfu_inv_def)
next
  case (step s rx ev e s')
  then show ?case using step_inv by blast
qed


section \<open>What a session can leave behind\<close>

lemma erased_not_bootable:
  assumes "erased_settings (bootloader_util_settings_get b m)"
  shows "\<not> bootloader_app_is_valid b m ram" "\<not> bootloader_dfu_sd_in_progress b m"
proof -
  obtain k where r: "bootloader_util_settings_get b m =
      bootloader_settings_seal (settings_zero\<lparr>bs_bank_0_crc := 0, bs_bank_0_size := 0, bs_bank_0 := BANK_INVALID_APP, bs_bank_1 := k\<rparr>)"
    using assms unfolding erased_settings_def by blast
  show "\<not> bootloader_app_is_valid b m ram" by (simp add: bootloader_app_is_valid_def Let_def r)
  show "\<not> bootloader_dfu_sd_in_progress b m" by (simp add: bootloader_dfu_sd_in_progress_def bootloader_update_settings_valid_def r settings_zero_def)
qed

lemma settings_in_flash:
  assumes "live_inv b m0 s rx" "dfu_window b m0"
  shows "bootloader_util_settings_get b (ds_mem s) = bootloader_util_settings_get b (cview (ds_nvm s))"
proof -
  note d = live_invD [OF assms(1)]
  have "rd_bytes (ds_mem s) (BOOTLOADER_SETTINGS_ADDRESS (b_chip b)) 32 = rd_bytes (cview (ds_nvm s)) (BOOTLOADER_SETTINGS_ADDRESS (b_chip b)) 32"
  proof (rule rd_bytes_cong)
    fix j :: nat assume "j < 32"
    then have "unat (BOOTLOADER_REGION_START (b_chip b)) \<le> unat (BOOTLOADER_SETTINGS_ADDRESS (b_chip b) + of_nat j)"
      by (cases "b_chip b") (simp_all add: unat_word_ariths unat_of_nat)
    then show "ds_mem s (BOOTLOADER_SETTINGS_ADDRESS (b_chip b) + of_nat j) = cview (ds_nvm s) (BOOTLOADER_SETTINGS_ADDRESS (b_chip b) + of_nat j)"
      using image_window(1) [OF assms(2) d(2)] by (intro bank_page [OF d(4) assms(2), symmetric]) linarith
  qed
  then show ?thesis by (simp add: bootloader_util_settings_get_def)
qed

lemma activated_marks:
  assumes "bootloader_util_settings_get b m = activated_settings A p crc"
  shows "bootloader_app_is_valid b m ram \<Longrightarrow> activate_of p = Activate_App" "bootloader_dfu_sd_in_progress b m \<Longrightarrow> activate_of p \<noteq> Activate_App"
  using assms
  by (cases "activate_of p"; auto simp: bootloader_app_is_valid_def Let_def activated_settings_def bootloader_dfu_sd_in_progress_def
      bootloader_update_settings_valid_def settings_zero_def split: if_splits)+

lemma activate_of_mode:
  assumes "start_tuple_wf p" shows "activate_of p = Activate_App \<longleftrightarrow> dfu_update_mode p = DFU_UPDATE_APP"
  using assms by (auto simp: start_tuple_wf_def activate_of_def layout_simps)



section \<open>A complete transfer\<close>

fun dfu_exec :: "'p pstorage \<Rightarrow> build \<Rightarrow> (bool \<Rightarrow> nrf_error) \<Rightarrow> dfu_event list \<Rightarrow> 'p dfu_session \<Rightarrow> nrf_error + 'p dfu_session" where
  "dfu_exec ps b tc [] s = Inr s"
| "dfu_exec ps b tc (ev # evs) s = (case dfu_step ps b tc ev s of Inl e \<Rightarrow> Inl e | Inr (e, s') \<Rightarrow> dfu_exec ps b tc evs s')"

lemma exec_append:
  "dfu_exec ps b tc (xs @ ys) s = (case dfu_exec ps b tc xs s of Inl e \<Rightarrow> Inl e | Inr s' \<Rightarrow> dfu_exec ps b tc ys s')"
  by (induction xs arbitrary: s) (auto split: sum.splits prod.splits)

lemma exec_data:
  assumes "dfu_inv b m0 s rx" "m_dfu_state s = DFU_STATE_RX_DATA_PKT" "dfu_window b m0" "\<not> m_dfu_timed_out s" "unat (m_data_received s) = length rx"
    "length rx + length (concat (map wr_u32 (concat dss))) \<le> unat (m_image_size s)"
  obtains s' where "dfu_exec ps b tc (map (Ev_Data True) dss) s = Inr s'" "dfu_inv b m0 s' (rx @ concat (map wr_u32 (concat dss)))" "m_dfu_state s' = DFU_STATE_RX_DATA_PKT"
    "\<not> m_dfu_timed_out s'" "unat (m_data_received s') = length rx + length (concat (map wr_u32 (concat dss)))" "m_image_size s' = m_image_size s"
    "m_start_packet s' = m_start_packet s" "m_extended_packet s' = m_extended_packet s"
  using assms
proof (induction dss arbitrary: s rx thesis)
  case Nil
  then show ?case by simp
next
  case (Cons ws dss)
  have "length rx + 4 * length ws \<le> unat (m_image_size s)" using Cons.prems(7) by simp
  then obtain s1 where s1: "dfu_data_pkt_handle ps b tc True ws s =
      Inr (if length rx + 4 * length ws = unat (m_image_size s) then NRF_SUCCESS else NRF_ERROR_INVALID_LENGTH, s1)"
    "dfu_inv b m0 s1 (rx @ concat (map wr_u32 ws))" "m_dfu_state s1 = DFU_STATE_RX_DATA_PKT" "\<not> m_dfu_timed_out s1"
    "unat (m_data_received s1) = length rx + 4 * length ws" "m_image_size s1 = m_image_size s" "m_start_packet s1 = m_start_packet s"
    "m_extended_packet s1 = m_extended_packet s"
    using data_packet_accept [OF Cons.prems(2-6), of ws ps tc] by blast
  show ?case
    by (rule Cons.IH [of s1 "rx @ concat (map wr_u32 ws)"])
       (use s1 Cons.prems(1,4,7) in \<open>simp_all add: add.assoc\<close>)
qed

lemma init_packet_ok:
  assumes "dfu_inv b m0 s []" "m_dfu_state s = DFU_STATE_RDY" "dfu_window b m0" "\<not> m_dfu_timed_out s" "m_init_packet_length s = 0" "length (m_init_packet s) = 128"
    and "length ws \<le> 32" "dfu_init_prevalidate b m0 (concat (map wr_u32 ws)) (dfu_update_mode (m_start_packet s)) = (NRF_SUCCESS, Some (n, ext))"
  obtains t s' where "dfu_init_pkt_handle ws s = (NRF_SUCCESS, t)" "dfu_init_pkt_complete b t = (NRF_SUCCESS, s')" "dfu_inv b m0 s' []" "m_dfu_state s' = DFU_STATE_RX_DATA_PKT"
    "\<not> m_dfu_timed_out s'" "m_data_received s' = 0" "m_start_packet s' = m_start_packet s" "m_image_size s' = m_image_size s" "rd_u16 (m_extended_packet s') = rd_u16 ext"
proof -
  let ?d = "concat (map wr_u32 ws)"
  have l: "live_inv b m0 s []" "m_data_received s = 0" using assms(1,2) by (auto simp: dfu_inv_def live_inv_def)
  define s1 where "s1 = s\<lparr>m_dfu_state := DFU_STATE_RX_INIT_PKT, ds_timer := True, m_init_packet := ?d @ drop (4 * length ws) (m_init_packet s), m_init_packet_length := of_nat (4 * length ws)\<rparr>"
  have r1: "dfu_init_pkt_handle ws s = (NRF_SUCCESS, s1)"
    using assms(2,4,5,7) l(2) by (simp add: dfu_init_pkt_handle_def dfu_timer_restart_def Let_def s1_def)
  have u: "unat (of_nat (4 * length ws) :: u8) = 4 * length ws" unfolding unat_of_nat using assms(7) by simp
  have tk: "take (unat (m_init_packet_length s1)) (m_init_packet s1) = ?d" unfolding s1_def using u by simp
  have m: "CODE_REGION_1_START (ds_mem s) = CODE_REGION_1_START m0" "SD_FWID_GET (ds_mem s) MBR_SIZE = SD_FWID_GET m0 MBR_SIZE"
    using base_same [OF assms(3) live_frame [OF assms(3) l(1)]] by simp_all
  have pv: "dfu_init_prevalidate b (ds_mem s1) ?d (dfu_update_mode (m_start_packet s1)) = (NRF_SUCCESS, Some (n, ext))"
  proof -
    have sd: "softdevice_supported (ds_mem s) = softdevice_supported m0" by (intro ext) (simp only: softdevice_supported_def m)
    have "dfu_init_prevalidate b (ds_mem s) = dfu_init_prevalidate b m0" by (intro ext) (simp only: dfu_init_prevalidate_def sd)
    then show ?thesis using assms(8) by (simp add: s1_def)
  qed
  have le: "length ext = 2" using assms(8) by (auto simp: dfu_init_prevalidate_def Let_def DFU_INIT_PACKET_EXT_LENGTH_MIN_def split: if_splits)
  define s2 where "s2 = s1\<lparr>m_extended_packet_length := n, m_extended_packet := ext @ drop (length ext) (m_extended_packet s1), m_dfu_state := DFU_STATE_RX_DATA_PKT\<rparr>"
  have r2: "dfu_init_pkt_complete b s1 = (NRF_SUCCESS, s2)"
    unfolding dfu_init_pkt_complete_def tk pv using l(2) by (simp add: s1_def s2_def)
  have "dfu_inv b m0 s2 []" using init_complete_inv [OF _ r2] init_inv [OF assms(1), of ws] r1 by simp
  moreover have "rd_u16 (m_extended_packet s2) = rd_u16 ext" using le by (simp add: s2_def rd_u16_def nth_append)
  ultimately show thesis using that [OF r1 r2] assms(4) l(2) by (simp add: s2_def s1_def)
qed

lemma policy_boots:
  assumes "dfu_image_policy_validate b m0 img p = NRF_SUCCESS" "dfu_update_mode p = DFU_UPDATE_APP"
    and "ram_end (b_chip b) \<le> 0x20000000 + push_bit 10 ram" "CODE_REGION_1_START m = CODE_REGION_1_START m0" "rd_bytes m (CODE_REGION_1_START m0) (length img) = img"
    and "unat (CODE_REGION_1_START m0) + length img \<le> unat (BOOTLOADER_REGION_START (b_chip b))"
  shows "app_vector_valid b m ram" "rd_word m (CODE_REGION_1_START m0 + 4) AND NOT 1 < CODE_REGION_1_START m0 + of_nat (length img)" "8 \<le> length img"
proof -
  let ?A = "CODE_REGION_1_START m0"
  have v: "bootloader_image_vectors_valid b img ?A (of_nat (length img))"
    using assms(1,2) by (auto simp: dfu_image_policy_validate_def dfu_policy_runtime_app_base_def Let_def split: sum.splits if_splits)
  then show l: "8 \<le> length img" by (auto simp: bootloader_image_vectors_valid_def split: if_splits)
  have "rd_bytes m ?A 4 = take 4 img" "rd_bytes m (?A + 4) 4 = take 4 (drop 4 img)"
    using arg_cong [OF assms(5), of "take 4"] arg_cong [OF assms(5), of "\<lambda>x. take 4 (drop 4 x)"] l
    by (simp_all add: take_rd_bytes drop_rd_bytes)
  then have w: "rd_word m ?A = rd_u32 img" "rd_word m (?A + 4) = rd_u32 (drop 4 img)" by (simp_all add: rd_word_def)
  have R: "unat (BOOTLOADER_REGION_START (b_chip b)) < 2 ^ 30" "unat (ram_end (b_chip b)) < 2 ^ 30" by (cases "b_chip b"; simp)+
  have e: "unat (?A + of_nat (length img)) = unat ?A + length img" using assms(6) R(1) by (subst unat_add_no_wrap) (simp_all add: unat_of_nat_u32)
  have c: "rd_u32 img AND 7 = 0" "rd_u32 img \<ge> 0x20000000" "rd_u32 img \<le> ram_end (b_chip b)" "rd_u32 (drop 4 img) AND 1 \<noteq> 0"
    "rd_u32 (drop 4 img) AND NOT 1 \<ge> ?A" "rd_u32 (drop 4 img) AND NOT 1 < ?A + of_nat (length img)"
    using v by (auto simp: bootloader_image_vectors_valid_def Let_def split: if_splits)
  show "rd_word m (?A + 4) AND NOT 1 < ?A + of_nat (length img)" unfolding w by (rule c(6))
  have lt: "rd_u32 (drop 4 img) AND NOT 1 < BOOTLOADER_REGION_START (b_chip b)" using c(6) e assms(6) by (simp add: word_less_nat_alt)
  have ne: "rd_u32 (drop 4 img) \<noteq> UINT32_MAX" "rd_u32 img \<noteq> UINT32_MAX"
    using lt c(3) R by (auto simp: word_less_nat_alt word_le_nat_alt)
  show "app_vector_valid b m ram"
    unfolding app_vector_valid_def Let_def assms(4) w using c lt ne assms(3) by auto
qed


text \<open>
  The steps of a transfer, with or without the activity mark the serial transport sets after an accepted START.
\<close>

definition dfu_mark :: "bool \<Rightarrow> 'p dfu_session \<Rightarrow> 'p dfu_session" where
  "dfu_mark mark s = (if mark then s\<lparr>ds_ctl := bootloader_dfu_activity_mark (ds_ctl s)\<rparr> else s)"

lemma wired_transfer:
  assumes fresh: "dfu_run ps b tc m0 s []" "m_dfu_state s = DFU_STATE_IDLE" "\<not> m_dfu_timed_out s" "m_init_packet_length s = 0" "length (m_init_packet s) = 128"
    and w: "dfu_window b m0" and ram: "ram_end (b_chip b) \<le> 0x20000000 + push_bit 10 ram"
    and p: "dfu_start_packet_validate b p = Inr n" "dfu_update_mode p = DFU_UPDATE_APP" "n \<le> DFU_IMAGE_MAX_SIZE_FULL (b_chip b) m0"
    and ini: "length iw \<le> 32" "dfu_init_prevalidate b m0 (concat (map wr_u32 iw)) DFU_UPDATE_APP = (NRF_SUCCESS, Some (k, ext))"
      "rd_u16 ext = crc16_compute img None"
    and img: "img = concat (map wr_u32 (concat dss))" "length img = unat n" "dfu_image_policy_validate b m0 img p = NRF_SUCCESS"
  obtains s1 t s2 s3 s4 s5 where "dfu_start_pkt_handle ps b tc p s = Inr (NRF_SUCCESS, s1)"
    "dfu_init_pkt_handle iw (dfu_mark mark s1) = (NRF_SUCCESS, t)" "dfu_init_pkt_complete b t = (NRF_SUCCESS, s2)"
    "dfu_exec ps b tc (map (Ev_Data True) dss) s2 = Inr s3" "dfu_image_validate b s3 = (NRF_SUCCESS, s4)" "dfu_image_activate b tc s4 = Inr (NRF_SUCCESS, s5)"
    "rd_bytes (ds_mem s5) (CODE_REGION_1_START (ds_mem s5)) (length img) = img"
    "bs_bank_0_size (bootloader_util_settings_get b (ds_mem s5)) = n"
    "bs_bank_0_crc (bootloader_util_settings_get b (ds_mem s5)) = crc16_compute img None"
    "bootloader_dfu_app_update_complete (ds_ctl s5)" "bootloader_app_is_valid b (ds_mem s5) ram"
proof -
  let ?A = "CODE_REGION_1_START m0"
  note i0 = run_inv [OF fresh(1) w]
  obtain s1 where s1: "dfu_start_pkt_handle ps b tc p s = Inr (NRF_SUCCESS, s1)" "dfu_inv b m0 s1 []" "m_dfu_state s1 = DFU_STATE_RDY"
    "m_start_packet s1 = p" "m_image_size s1 = n" "\<not> m_dfu_timed_out s1" "m_init_packet s1 = m_init_packet s" "m_init_packet_length s1 = m_init_packet_length s"
    using start_packet_fresh [OF i0 fresh(2) p(1,3) fresh(3) w] by metis
  let ?s1 = "dfu_mark mark s1"
  have m1: "dfu_inv b m0 ?s1 []" "m_dfu_state ?s1 = DFU_STATE_RDY" "m_start_packet ?s1 = p" "m_image_size ?s1 = n" "\<not> m_dfu_timed_out ?s1"
    "m_init_packet ?s1 = m_init_packet s" "m_init_packet_length ?s1 = m_init_packet_length s"
    using s1 dfu_inv_ctl(1) [OF s1(2)] by (simp_all add: dfu_mark_def bootloader_dfu_activity_mark_def)
  obtain t1 s2 where s2: "dfu_init_pkt_complete b t1 = (NRF_SUCCESS, s2)" "dfu_inv b m0 s2 []" "m_dfu_state s2 = DFU_STATE_RX_DATA_PKT"
    "\<not> m_dfu_timed_out s2" "m_data_received s2 = 0" "m_start_packet s2 = p" "m_image_size s2 = n" "rd_u16 (m_extended_packet s2) = rd_u16 ext"
    "dfu_init_pkt_handle iw ?s1 = (NRF_SUCCESS, t1)"
    using init_packet_ok [OF m1(1,2) w m1(5), of iw k ext] m1 fresh(4,5) p(2) ini(1,2) by metis
  obtain s3 where s3: "dfu_exec ps b tc (map (Ev_Data True) dss) s2 = Inr s3" "dfu_inv b m0 s3 img" "m_dfu_state s3 = DFU_STATE_RX_DATA_PKT"
    "\<not> m_dfu_timed_out s3" "unat (m_data_received s3) = length img" "m_image_size s3 = n" "m_start_packet s3 = p" "m_extended_packet s3 = m_extended_packet s2"
    by (rule exec_data [OF s2(2,3) w s2(4), of dss ps tc]) (use s2(5-7) img(1,2) in simp_all)
  have rec: "m_data_received s3 = m_image_size s3" using s3(5,6) img(2) by (simp add: word_unat_eq_iff)
  obtain s4 where s4: "dfu_image_validate b s3 = (NRF_SUCCESS, s4)" "m_dfu_state s4 = DFU_STATE_WAIT_4_ACTIVATE" "m_start_packet s4 = p"
    "m_image_crc s4 = crc16_compute img None" "dfu_inv b m0 s4 img"
    using validate_ok [OF s3(2) w s3(3) rec s3(4)] s3(7,8) s2(8) ini(3) img(3) by metis
  have wf: "start_tuple_wf p" "unat n = start_total p" using p(1) by (simp_all add: start_packet_Inr_iff)
  then have "sd_image_size p = 0" "bl_image_size p = 0" using p(2) by (auto simp: start_tuple_wf_def layout_simps)
  then have app: "activate_of p = Activate_App" "app_image_size p = n"
    using wf p(2) activate_of_mode by (simp_all add: start_total_def word_unat_eq_iff)
  define t where "t = activated_settings ?A p (crc16_compute img None)"
  obtain s5 where s5: "dfu_image_activate b tc s4 = Inr (NRF_SUCCESS, s5)" "dfu_inv b m0 s5 img" "m_dfu_state s5 = DFU_STATE_WAIT_4_ACTIVATE"
    "ds_mem s5 = exec_cmds (settings_save_cmds b t) (ds_mem s4)" "m_update_status (ds_ctl s5) = BOOTLOADER_COMPLETE" "m_app_update_complete (ds_ctl s5)"
    using activate_ok [OF s4(5) w s4(2), of tc] s4(3,4) app(1) unfolding t_def by metis
  have l4: "live_inv b m0 s4 img" "live_inv b m0 s5 img" using s4(2,5) s5(2,3) by (simp_all add: dfu_inv_def)
  have c4: "length img = unat (m_image_size s4)" "fl_addr (ds_nvm s4) = FLASH_CACHE_INVALID_ADDR" "length img = unat (m_image_size s5)" "fl_addr (ds_nvm s5) = FLASH_CACHE_INVALID_ADDR"
    using live_invD(6) [OF l4(1)] live_invD(6) [OF l4(2)] s4(2) s5(3) by simp_all
  have base: "CODE_REGION_1_START (ds_mem s4) = ?A" "CODE_REGION_1_START (ds_mem s5) = ?A"
    using base_same(1) [OF w live_frame [OF w l4(1)]] base_same(1) [OF w live_frame [OF w l4(2)]] by simp_all
  have im: "rd_bytes (ds_mem s4) ?A (length img) = img" "rd_bytes (ds_mem s5) ?A (length img) = img"
    using complete_image [OF l4(1) c4(1,2)] complete_image [OF l4(2) c4(3,4)] c4(1,3) by simp_all
  have fit: "unat ?A + length img \<le> unat (BOOTLOADER_REGION_START (b_chip b))" using image_window(2) [OF w p(3)] img(2) by simp
  note v = policy_boots [OF img(3) p(2) ram base(1) im(1) fit]
  have tf: "bs_bank_0 t = BANK_VALID_APP" "bs_bank_0_size t = n" "bs_bank_0_crc t = crc16_compute img None" "\<not> bootloader_settings_is_legacy t" "bootloader_settings_integrity_valid t"
    using app by (simp_all add: t_def activated_settings_def seal_not_legacy seal_integrity)
  have room: "unat (CODE_REGION_1_START (ds_mem s4)) + 8 \<le> unat (BOOTLOADER_REGION_START (b_chip b))" using base(1) w by (simp add: dfu_window_def)
  have n: "n \<noteq> 0" "rd_bytes (ds_mem s4) ?A (unat n) = img" using img(2) v(3) im(1) by auto
  have lt: "rd_word (ds_mem s4) (?A + 4) AND NOT 1 < ?A + n" using v(2) by (simp add: img(2))
  have "n \<le> BOOTLOADER_REGION_START (b_chip b) - ?A" using fit img(2) by (simp add: word_le_nat_alt unat_sub_le)
  then have "bootloader_app_is_valid b (ds_mem s5) ram"
    unfolding s5(4) app_valid_after_save [OF room tf(4,5)] base(1) tf(1-3) n(2) using v(1) lt n(1) by simp
  then show thesis using im(2) base(2) s5(4-6) tf
    by (intro that [OF s1(1) s2(9,1) s3(1) s4(1) s5(1)]) (simp_all add: full_save(1) bootloader_dfu_app_update_complete_def)
qed


text \<open>
  A complete wired transfer of an application installs it and it boots.  From a fresh session, START for an
  application that fits, its init packet in at most 32 words, DATA packets that carry the image in any split into words, validation and
  activation: when the init packet is acceptable on this device and names the CRC of the image, and the image policy accepts
  the image, every step succeeds without a failed error check, flash holds the image at the application base, the settings record its
  size and CRC, the update counts as complete, and the application passes the check at the next boot on every part with at
  least the RAM the policy assumes.
\<close>

theorem dfu_transfer_installs:
  assumes fresh: "dfu_run ps b tc m0 s []" "m_dfu_state s = DFU_STATE_IDLE" "\<not> m_dfu_timed_out s" "m_init_packet_length s = 0" "length (m_init_packet s) = 128"
    and w: "dfu_window b m0" and ram: "ram_end (b_chip b) \<le> 0x20000000 + push_bit 10 ram"
    and p: "dfu_start_packet_validate b p = Inr n" "dfu_update_mode p = DFU_UPDATE_APP" "n \<le> DFU_IMAGE_MAX_SIZE_FULL (b_chip b) m0"
    and ini: "length iw \<le> 32" "dfu_init_prevalidate b m0 (concat (map wr_u32 iw)) DFU_UPDATE_APP = (NRF_SUCCESS, Some (k, ext))"
      "rd_u16 ext = crc16_compute img None"
    and img: "img = concat (map wr_u32 (concat dss))" "length img = unat n" "dfu_image_policy_validate b m0 img p = NRF_SUCCESS"
  shows "\<exists>s'. dfu_exec ps b tc ([Ev_Start p, Ev_Init iw, Ev_Init_Complete] @ map (Ev_Data True) dss @ [Ev_Validate, Ev_Activate]) s = Inr s' \<and>
    rd_bytes (ds_mem s') (CODE_REGION_1_START (ds_mem s')) (length img) = img \<and>
    bs_bank_0_size (bootloader_util_settings_get b (ds_mem s')) = n \<and>
    bs_bank_0_crc (bootloader_util_settings_get b (ds_mem s')) = crc16_compute img None \<and>
    bootloader_dfu_app_update_complete (ds_ctl s') \<and> bootloader_app_is_valid b (ds_mem s') ram"
proof -
  obtain s1 t s2 s3 s4 s5 where r: "dfu_start_pkt_handle ps b tc p s = Inr (NRF_SUCCESS, s1)"
    "dfu_init_pkt_handle iw (dfu_mark False s1) = (NRF_SUCCESS, t)" "dfu_init_pkt_complete b t = (NRF_SUCCESS, s2)"
    "dfu_exec ps b tc (map (Ev_Data True) dss) s2 = Inr s3" "dfu_image_validate b s3 = (NRF_SUCCESS, s4)" "dfu_image_activate b tc s4 = Inr (NRF_SUCCESS, s5)"
    and c: "rd_bytes (ds_mem s5) (CODE_REGION_1_START (ds_mem s5)) (length img) = img"
    "bs_bank_0_size (bootloader_util_settings_get b (ds_mem s5)) = n"
    "bs_bank_0_crc (bootloader_util_settings_get b (ds_mem s5)) = crc16_compute img None"
    "bootloader_dfu_app_update_complete (ds_ctl s5)" "bootloader_app_is_valid b (ds_mem s5) ram"
    by (rule wired_transfer [OF fresh w ram p ini img, where mark = False])
  have "dfu_exec ps b tc (map (Ev_Data True) dss @ [Ev_Validate, Ev_Activate]) s2 = Inr s5"
    unfolding exec_append r(4) sum.case by (simp add: r(5,6))
  then have "dfu_exec ps b tc ([Ev_Start p, Ev_Init iw, Ev_Init_Complete] @ map (Ev_Data True) dss @ [Ev_Validate, Ev_Activate]) s = Inr s5"
    using r(1-3) by (simp add: dfu_mark_def)
  then show ?thesis using c by blast
qed


section \<open>Witnesses\<close>

text \<open>A device with a SoftDevice of \<open>0x26000\<close> bytes and no application; a transfer of three words in two packets.\<close>

definition dfu_sample_flash :: flash where
  "dfu_sample_flash = (\<lambda>_. 0xFF)(0x3004 := 0xDB, 0x3005 := 0xE5, 0x3006 := 0xB1, 0x3007 := 0x51,
     0x3008 := 0, 0x3009 := 0x60, 0x300A := 2, 0x300B := 0)"

definition dfu_sample_session :: "unit dfu_session" where
  "dfu_sample_session = \<lparr>m_dfu_state = DFU_STATE_IDLE, m_image_size = 0,
     m_start_packet = \<lparr>dfu_update_mode = 0, sd_image_size = 0, bl_image_size = 0, app_image_size = 0\<rparr>,
     m_init_packet = replicate 128 0, m_init_packet_length = 0, m_image_crc = 0, m_dfu_timed_out = False, m_data_received = 0, m_activate = Activate_App,
     m_extended_packet = replicate 104 0, m_extended_packet_length = 0, m_storage_handle_app = 0x26000, dfu_page_erased = None, dfu_image_page_count = 0,
     dfu_base_address = 0, ds_timer = True, ds_sent = [], ds_nvm = \<lparr>nv_mem = dfu_sample_flash, fl_addr = FLASH_CACHE_INVALID_ADDR, fl_buf = []\<rparr>,
     ds_ctl = idle_ctl\<lparr>bc_is_ota := False\<rparr>, ds_ps = ()\<rparr>"

definition no_pstorage :: "unit pstorage" where
  "no_pstorage = \<lparr>ps_clear = (\<lambda>_ _ _. (NRF_ERROR_INVALID_STATE, ())), ps_store = (\<lambda>_ _ _. (NRF_ERROR_INVALID_STATE, ()))\<rparr>"

definition dfu_sample_packet :: dfu_start_packet where
  "dfu_sample_packet = \<lparr>dfu_update_mode = 4, sd_image_size = 0, bl_image_size = 0, app_image_size = 12\<rparr>"

abbreviation dfu_sample_data :: "u32 list list" where
  "dfu_sample_data \<equiv> [[0x20001000, 0x26009], [0]]"

lemma dfu_sample_base: "CODE_REGION_1_START dfu_sample_flash = 0x26000"
  by (simp add: CODE_REGION_1_START_def is_sd_existed_def SD_SIZE_GET_def rd_word_def rd_bytes_def rd_u32_def dfu_sample_flash_def
      layout_simps upt_conv_Cons)

lemma dfu_sample_window: "dfu_window internal_build dfu_sample_flash"
  by (simp add: dfu_window_def dfu_sample_base internal_build_def)

lemma dfu_sample_run: "dfu_run no_pstorage internal_build (\<lambda>_. NRF_SUCCESS) dfu_sample_flash dfu_sample_session []"
  by (rule dfu_run.begin_ [of dfu_sample_session])
     (simp_all add: dfu_sample_session_def dfu_init_def Let_def dfu_sample_base idle_ctl_def)

lemma rd_u16_wr_u32: "rd_u16 (take 2 (wr_u32 (ucast c))) = c"
  by (rule bit_word_eqI) (auto simp: rd_u16_def wr_u32_def bit_simps)

lemma dfu_sample_start:
  "dfu_start_packet_validate internal_build dfu_sample_packet = Inr 12" "12 \<le> DFU_IMAGE_MAX_SIZE_FULL (b_chip internal_build) dfu_sample_flash"
  by (simp_all add: dfu_start_packet_validate_def populated_mode_def dfu_sample_packet_def layout_simps add_overflow_def
      DFU_IMAGE_MAX_SIZE_FULL_def dfu_sample_base internal_build_def)

lemma dfu_sample_init:
  defines "img \<equiv> concat (map wr_u32 (concat dfu_sample_data))"
  defines "iw \<equiv> [0x52, 0, 0xFFFE0001, ucast (crc16_compute img None)] :: u32 list"
  defines "ext \<equiv> take 2 (drop 12 (concat (map wr_u32 iw)))"
  shows "dfu_init_prevalidate internal_build dfu_sample_flash (concat (map wr_u32 iw)) DFU_UPDATE_APP = (NRF_SUCCESS, Some (4, ext))"
    "rd_u16 ext = crc16_compute img None"
    "dfu_image_policy_validate internal_build dfu_sample_flash img dfu_sample_packet = NRF_SUCCESS"
proof -
  show "dfu_init_prevalidate internal_build dfu_sample_flash (concat (map wr_u32 iw)) DFU_UPDATE_APP = (NRF_SUCCESS, Some (4, ext))"
    unfolding ext_def iw_def
    by (simp add: dfu_init_prevalidate_def DFU_INIT_PACKET_EXT_LENGTH_MIN_def DFU_INIT_PACKET_PADDING_MAX_def wr_u32_def rd_u16_def Let_def
        ADAFRUIT_DEVICE_TYPE_def softdevice_supported_def DFU_SOFTDEVICE_ANY_def layout_simps)
  show "rd_u16 ext = crc16_compute img None" unfolding ext_def iw_def using rd_u16_wr_u32 [of "crc16_compute img None"] by simp
  show "dfu_image_policy_validate internal_build dfu_sample_flash img dfu_sample_packet = NRF_SUCCESS"
    unfolding img_def using dfu_sample_start(1)
    by (simp add: dfu_image_policy_validate_def dfu_sample_packet_def layout_simps bootloader_image_vectors_valid_def dfu_policy_runtime_app_base_def
        dfu_sample_base internal_build_def)
qed


theorem dfu_transfer_installs_witness:
  "\<exists>s'. dfu_exec no_pstorage internal_build (\<lambda>_. NRF_SUCCESS)
       ([Ev_Start dfu_sample_packet, Ev_Init [0x52, 0, 0xFFFE0001, ucast (crc16_compute (concat (map wr_u32 (concat dfu_sample_data))) None)], Ev_Init_Complete] @
        map (Ev_Data True) dfu_sample_data @ [Ev_Validate, Ev_Activate]) dfu_sample_session = Inr s' \<and>
     bootloader_app_is_valid internal_build (ds_mem s') 256"
proof -
  let ?img = "concat (map wr_u32 (concat dfu_sample_data))" and ?b = internal_build
  let ?iw = "[0x52, 0, 0xFFFE0001, ucast (crc16_compute ?img None)] :: u32 list"
  let ?k = "take 2 (drop 12 (concat (map wr_u32 ?iw)))"
  have s: "m_dfu_state dfu_sample_session = DFU_STATE_IDLE" "\<not> m_dfu_timed_out dfu_sample_session" "m_init_packet_length dfu_sample_session = 0"
    "length (m_init_packet dfu_sample_session) = 128" by (simp_all add: dfu_sample_session_def)
  have ram: "ram_end (b_chip ?b) \<le> 0x20000000 + push_bit 10 256" by (simp add: internal_build_def)
  show ?thesis
    using dfu_transfer_installs [OF dfu_sample_run s dfu_sample_window ram dfu_sample_start(1) _ dfu_sample_start(2) _ dfu_sample_init(1,2) refl _ dfu_sample_init(3)]
    by (auto simp: dfu_sample_packet_def layout_simps)
qed

end
