(* ===== verification/Dfu_Serial.thy ===== *)
theory Dfu_Serial
  imports Hci_Transport App_Sched Dfu_Run
begin

text \<open>
  The serial DFU transport (\<open>dfu_transport_serial.c\<close>) on top of the packet layer, with the scheduler that defers the work and
  the update session it drives.  A run is any interleaving of received bytes, scheduler turns, timer expiries and events of other modules.
\<close>

section \<open>State\<close>

definition MAX_BUFFERS :: nat where "MAX_BUFFERS = 4"

definition INVALID_PACKET :: u32 where "INVALID_PACKET = 0"
definition INIT_PACKET_ID :: u32 where "INIT_PACKET_ID = 1"
definition STOP_INIT_PACKET :: u32 where "STOP_INIT_PACKET = 2"
definition START_PACKET_ID :: u32 where "START_PACKET_ID = 3"
definition DATA_PACKET_ID :: u32 where "DATA_PACKET_ID = 4"
definition STOP_DATA_PACKET :: u32 where "STOP_DATA_PACKET = 5"

lemmas packet_ids = INVALID_PACKET_def INIT_PACKET_ID_def STOP_INIT_PACKET_def START_PACKET_ID_def DATA_PACKET_ID_def STOP_DATA_PACKET_def

record dfu_update_packet =
  packet_type :: u32
  p_data_packet :: "u32 option"     \<comment> \<open>the pool buffer it points into, past the packet header and the type word\<close>
  packet_length :: u32

datatype sched_handler = Process_Dfu_Packet | Other_Handler

record 'p serial =
  data_packet :: "dfu_update_packet list"
  dq_count :: u8
  ser_sched :: "sched_handler sched"
  ser_dfu :: "'p dfu_session"

section \<open>The packet queue\<close>

definition DATA_QUEUE_FULL :: "'p serial \<Rightarrow> bool" where
  "DATA_QUEUE_FULL v \<longleftrightarrow> unat (dq_count v) = MAX_BUFFERS - 1"

definition data_queue_element_init :: "nat \<Rightarrow> 'p serial \<Rightarrow> 'p serial" where
  "data_queue_element_init i v = v\<lparr>data_packet := (data_packet v)[i := \<lparr>packet_type = INVALID_PACKET, p_data_packet = None, packet_length = 0\<rparr>]\<rparr>"

definition data_queue_init :: "'p serial \<Rightarrow> 'p serial" where
  "data_queue_init v = fold data_queue_element_init [0..<MAX_BUFFERS] (v\<lparr>dq_count := 0\<rparr>)"

definition data_queue_element_alloc :: "u32 \<Rightarrow> 'p serial \<Rightarrow> nrf_error \<times> nat option \<times> 'p serial" where
  "data_queue_element_alloc t v =
     (if DATA_QUEUE_FULL v then (NRF_ERROR_NO_MEM, None, v)
      else case find (\<lambda>i. packet_type (data_packet v ! i) = INVALID_PACKET) [0..<MAX_BUFFERS] of
             None \<Rightarrow> (NRF_ERROR_NO_MEM, None, v)
           | Some i \<Rightarrow> (NRF_SUCCESS, Some i, v\<lparr>data_packet := (data_packet v)[i := (data_packet v ! i)\<lparr>packet_type := t\<rparr>], dq_count := dq_count v + 1\<rparr>))"

definition consume_checked :: "u32 option \<Rightarrow> 'v hci \<Rightarrow> hci_trap + 'v hci" where
  "consume_checked i u = (case hci_transport_rx_pkt_consume i u of Inl e \<Rightarrow> Inl e | Inr (e, u) \<Rightarrow> if e = NRF_SUCCESS then Inr u else Inl (App_Error e))"

definition data_queue_element_free :: "nat \<Rightarrow> 'p serial hci \<Rightarrow> hci_trap + nrf_error \<times> 'p serial hci" where
  "data_queue_element_free i u =
     (if MAX_BUFFERS > i
      then let e = data_packet (hci_up u) ! i
           in if packet_type e \<noteq> INVALID_PACKET
              then map_sum id (Pair NRF_SUCCESS) (consume_checked (p_data_packet e)
                     (u\<lparr>hci_up := data_queue_element_init i ((hci_up u)\<lparr>dq_count := dq_count (hci_up u) - 1\<rparr>)\<rparr>))
              else Inr (NRF_SUCCESS, u)
      else Inr (NRF_ERROR_INVALID_PARAM, u))"

fun data_queue_flush_from :: "nat list \<Rightarrow> 'p serial hci \<Rightarrow> hci_trap + 'p serial hci" where
  "data_queue_flush_from [] u = Inr u"
| "data_queue_flush_from (i # is) u = (case data_queue_element_free i u of Inl e \<Rightarrow> Inl e | Inr (e, u) \<Rightarrow> data_queue_flush_from is u)"

definition data_queue_flush :: "'p serial hci \<Rightarrow> hci_trap + 'p serial hci" where
  "data_queue_flush u = data_queue_flush_from [0..<MAX_BUFFERS] u"

section \<open>Processing\<close>

definition packet_words :: "(hbuf \<Rightarrow> nat \<Rightarrow> u8) \<Rightarrow> dfu_update_packet \<Rightarrow> u32 list option" where
  "packet_words mem e = (case p_data_packet e of
       None \<Rightarrow> None
     | Some i \<Rightarrow> if 8 + 4 * unat (packet_length e) \<le> hbuf_size (Pool_Buf i)
                 then Some (map (\<lambda>j. rd_u32 (map (mem (Pool_Buf i)) [8 + 4 * j..<12 + 4 * j])) [0..<unat (packet_length e)])
                 else None)"

text \<open>The packed layout of \<open>dfu_start_packet_t\<close>: the mode in the first byte of a word, then three words.\<close>

definition packet_start :: "(hbuf \<Rightarrow> nat \<Rightarrow> u8) \<Rightarrow> dfu_update_packet \<Rightarrow> dfu_start_packet option" where
  "packet_start mem e = (case p_data_packet e of
       None \<Rightarrow> None
     | Some i \<Rightarrow> if 24 \<le> hbuf_size (Pool_Buf i)
                 then let p = map (mem (Pool_Buf i)) [8..<24]
                      in Some \<lparr>dfu_update_mode = p ! 0, sd_image_size = rd_u32 (drop 4 p), bl_image_size = rd_u32 (drop 8 p), app_image_size = rd_u32 (drop 12 p)\<rparr>
                 else None)"

definition checked :: "nrf_error + 'a \<Rightarrow> hci_trap + 'a" where
  "checked r = map_sum App_Error id r"

text \<open>The switch of \<open>process_dfu_packet\<close>; the flag says that it returns.  The callback \<open>dfu_cb_handler\<close> traps on a failed operation as
  the session itself does right after it.\<close>

definition process_switch :: "'p pstorage \<Rightarrow> build \<Rightarrow> (bool \<Rightarrow> nrf_error) \<Rightarrow> (hbuf \<Rightarrow> nat \<Rightarrow> u8) \<Rightarrow> dfu_update_packet \<Rightarrow> 'p dfu_session \<Rightarrow> hci_trap + bool \<times> 'p dfu_session" where
  "process_switch ps b tc mem packet s =
     (if packet_type packet = DATA_PACKET_ID
      then case packet_words mem packet of
             None \<Rightarrow> Inl Bad_Access
           | Some ws \<Rightarrow> map_sum id (\<lambda>(retval, s). (False, s)) (checked (dfu_data_pkt_handle ps b tc True ws s))
      else if packet_type packet = START_PACKET_ID
      then case packet_start mem packet of
             None \<Rightarrow> Inl Bad_Access
           | Some p \<Rightarrow> map_sum id (\<lambda>(retval, s). (False, if retval = NRF_SUCCESS then s\<lparr>ds_ctl := bootloader_dfu_activity_mark (ds_ctl s)\<rparr> else s))
                         (checked (dfu_start_pkt_handle ps b tc p s))
      else if packet_type packet = INIT_PACKET_ID
      then case packet_words mem packet of
             None \<Rightarrow> Inl Bad_Access
           | Some ws \<Rightarrow> let (retval, s) = dfu_init_pkt_handle ws s
                        in Inr (False, if retval = NRF_SUCCESS then snd (dfu_init_pkt_complete b s) else s)
      else if packet_type packet = STOP_DATA_PACKET
      then let (retval, s) = dfu_image_validate b s
           in if retval = NRF_SUCCESS
              then map_sum id (\<lambda>(retval, s). (retval = NRF_SUCCESS, s)) (checked (dfu_image_activate b tc s))
              else Inr (False, s)
      else Inr (False, s))"

fun process_pass :: "'p pstorage \<Rightarrow> build \<Rightarrow> (bool \<Rightarrow> nrf_error) \<Rightarrow> (hbuf \<Rightarrow> nat \<Rightarrow> u8) \<Rightarrow> nat list \<Rightarrow> 'p serial hci \<Rightarrow> hci_trap + bool \<times> 'p serial hci" where
  "process_pass ps b tc mem [] u = Inr (False, u)"
| "process_pass ps b tc mem (i # is) u =
     (let packet = data_packet (hci_up u) ! i
      in if packet_type packet = INVALID_PACKET then process_pass ps b tc mem is u
         else case process_switch ps b tc mem packet (ser_dfu (hci_up u)) of
                Inl e \<Rightarrow> Inl e
              | Inr (ret, s) \<Rightarrow>
                  let u = u\<lparr>hci_up := (hci_up u)\<lparr>ser_dfu := s\<rparr>\<rparr>
                  in if ret then Inr (True, u)
                     else case data_queue_element_free i u of
                            Inl e \<Rightarrow> Inl e
                          | Inr (retval, u) \<Rightarrow> if retval \<noteq> NRF_SUCCESS then Inl (App_Error retval) else process_pass ps b tc mem is u)"

text \<open>The outer loop has no bound of its own: \<open>None\<close> is a loop that does not end.\<close>

partial_function (option) process_dfu_packet :: "'p pstorage \<Rightarrow> build \<Rightarrow> (bool \<Rightarrow> nrf_error) \<Rightarrow> (hbuf \<Rightarrow> nat \<Rightarrow> u8) \<Rightarrow> 'p serial hci \<Rightarrow> (hci_trap + 'p serial hci) option" where
  "process_dfu_packet ps b tc mem u =
     (if dq_count (hci_up u) = 0 then Some (Inr u)
      else case process_pass ps b tc mem [0..<MAX_BUFFERS] u of
             Inl e \<Rightarrow> Some (Inl e)
           | Inr x \<Rightarrow> if fst x then Some (Inr (snd x)) else process_dfu_packet ps b tc mem (snd x))"

section \<open>Reception\<close>

definition rpc_accept :: "u32 \<Rightarrow> u16 \<Rightarrow> u32 \<Rightarrow> 'p serial \<Rightarrow> nrf_error \<times> 'p serial" where
  "rpc_accept buf len t v =
     (if t < INIT_PACKET_ID \<or> t > STOP_DATA_PACKET \<or> t = STOP_INIT_PACKET then (NRF_ERROR_INVALID_PARAM, v)
      else if t = START_PACKET_ID \<and> unat len \<noteq> 4 + 16 \<or> t = STOP_DATA_PACKET \<and> unat len \<noteq> 4 \<or> t = DATA_PACKET_ID \<and> unat len mod 4 \<noteq> 0
      then (NRF_ERROR_INVALID_LENGTH, v)
      else let (retval, q) = app_sched_event_put [] Process_Dfu_Packet (ser_sched v); v = v\<lparr>ser_sched := q\<rparr>
           in if retval \<noteq> NRF_SUCCESS then (retval, v)
              else case data_queue_element_alloc t v of
                     (retval, None, v) \<Rightarrow> (retval, v)
                   | (retval, Some i, v) \<Rightarrow>
                       (retval, v\<lparr>data_packet := (data_packet v)[i := (data_packet v ! i)\<lparr>packet_length := ucast (len div 4) - 1, p_data_packet := Some buf\<rparr>]\<rparr>))"

definition rpc_transport_event_handler :: "'p serial hci_cb" where
  "rpc_transport_event_handler mem u =
     (case hci_transport_rx_pkt_extract u of
        (retval, None, u) \<Rightarrow> Inr u
      | (retval, Some (None, len), u) \<Rightarrow> consume_checked None u
      | (retval, Some (Some i, len), u) \<Rightarrow>
          let (retval, v) = rpc_accept i len (rd_u32 (map (mem (Pool_Buf i)) [4..<8])) (hci_up u); u = u\<lparr>hci_up := v\<rparr>
          in if retval \<noteq> NRF_SUCCESS then consume_checked (Some i) u else Inr u)"

section \<open>Sessions\<close>

text \<open>The characters waiting in the CDC FIFO, the SLIP layer and the layers above it.\<close>

type_synonym 'p serial_state = "bytes \<times> slip \<times> 'p serial hci"

abbreviation serial_cb :: "'p serial hci slip_cb" where
  "serial_cb \<equiv> slip_event_handle rpc_transport_event_handler"

definition dfu_transport_serial_update_start :: "nrf_error \<Rightarrow> 'p serial_state \<Rightarrow> hci_trap + 'p serial_state" where
  "dfu_transport_serial_update_start timer_created = (\<lambda>(fifo, s, u).
     let (err_code, x) = hci_transport_open timer_created (s, u\<lparr>hci_up := data_queue_init (hci_up u)\<rparr>)
     in if err_code \<noteq> NRF_SUCCESS then Inl (App_Error err_code)
        else hci_slip_process_pending_rx serial_cb fifo (hci_transport_evt_handler_reg x))"

definition dfu_transport_serial_close :: "'p serial_state \<Rightarrow> hci_trap + 'p serial_state" where
  "dfu_transport_serial_close = (\<lambda>(fifo, s, u). case data_queue_flush u of Inl e \<Rightarrow> Inl e | Inr u \<Rightarrow> Inr (fifo, hci_transport_close (s, u)))"

datatype serial_event = Ser_Rx bytes | Ser_Sched | Ser_Timeout | Ser_Other

text \<open>
  Characters arrive and are processed; the main loop runs the event at the head of the scheduler queue; the DFU timer expires; another
  module queues an event.
\<close>

fun serial_step :: "'p pstorage \<Rightarrow> build \<Rightarrow> (bool \<Rightarrow> nrf_error) \<Rightarrow> serial_event \<Rightarrow> 'p serial_state \<Rightarrow> (hci_trap + 'p serial_state) option" where
  "serial_step ps b tc (Ser_Rx cs) (fifo, s, u) = Some (hci_slip_process_pending_rx serial_cb (fifo @ cs) (s, u))"
| "serial_step ps b tc Ser_Sched (fifo, s, u) =
     (case app_sched_head (ser_sched (hci_up u)) of
        None \<Rightarrow> Some (Inr (fifo, s, u))
      | Some (h, d) \<Rightarrow>
          map_option (map_sum id (\<lambda>u. (fifo, s, u\<lparr>hci_up := (hci_up u)\<lparr>ser_sched := app_sched_drop (ser_sched (hci_up u))\<rparr>\<rparr>)))
            (case h of Process_Dfu_Packet \<Rightarrow> process_dfu_packet ps b tc (sl_mem s) u | Other_Handler \<Rightarrow> Some (Inr u)))"
| "serial_step ps b tc Ser_Timeout (fifo, s, u) =
     Some (map_sum App_Error (\<lambda>d. (fifo, s, u\<lparr>hci_up := (hci_up u)\<lparr>ser_dfu := d\<rparr>\<rparr>)) (dfu_timeout_handler b tc (ser_dfu (hci_up u))))"
| "serial_step ps b tc Ser_Other (fifo, s, u) =
     Some (Inr (fifo, s, u\<lparr>hci_up := (hci_up u)\<lparr>ser_sched := snd (app_sched_event_put [] Other_Handler (ser_sched (hci_up u)))\<rparr>\<rparr>))"

inductive serial_run :: "'p pstorage \<Rightarrow> build \<Rightarrow> (bool \<Rightarrow> nrf_error) \<Rightarrow> flash \<Rightarrow> 'p serial_state \<Rightarrow> bool"
  for ps :: "'p pstorage" and b :: build and tc :: "bool \<Rightarrow> nrf_error" and m0 :: flash where
  begin_: "dfu_run ps b tc m0 (ser_dfu (hci_up u)) [] \<Longrightarrow> length (data_packet (hci_up u)) = MAX_BUFFERS \<Longrightarrow> board_sched (ser_sched (hci_up u)) es \<Longrightarrow>
    dfu_transport_serial_update_start NRF_SUCCESS (fifo, s, u) = Inr x \<Longrightarrow> serial_run ps b tc m0 x"
| step: "serial_run ps b tc m0 x \<Longrightarrow> serial_step ps b tc ev x = Some (Inr y) \<Longrightarrow> serial_run ps b tc m0 y"

section \<open>Invariant of the queue\<close>

abbreviation pending :: "dfu_update_packet \<Rightarrow> bool" where
  "pending e \<equiv> packet_type e \<noteq> INVALID_PACKET"

text \<open>A queued packet lies in its buffer.\<close>

definition packet_ok :: "dfu_update_packet \<Rightarrow> bool" where
  "packet_ok e \<longleftrightarrow> (case p_data_packet e of None \<Rightarrow> False | Some i \<Rightarrow> i < HCI_RX_BUF_QUEUE_SIZE \<and> 8 + 4 * unat (packet_length e) \<le> HCI_RX_BUF_SIZE)"

definition queue_inv :: "'p serial \<Rightarrow> bool" where
  "queue_inv v \<longleftrightarrow> length (data_packet v) = MAX_BUFFERS \<and> unat (dq_count v) = length (filter pending (data_packet v)) \<and> unat (dq_count v) < MAX_BUFFERS \<and>
     (\<forall>e\<in>set (data_packet v). pending e \<longrightarrow> packet_ok e) \<and> (\<exists>es. board_sched (ser_sched v) es)"

definition ser_inv :: "'p pstorage \<Rightarrow> build \<Rightarrow> (bool \<Rightarrow> nrf_error) \<Rightarrow> flash \<Rightarrow> 'p serial \<Rightarrow> bool" where
  "ser_inv ps b tc m0 v \<longleftrightarrow> queue_inv v \<and> (\<exists>rx. dfu_run ps b tc m0 (ser_dfu v) rx)"

lemma filter_update_count:
  "i < length xs \<Longrightarrow> length (filter P (xs[i := x])) + (if P (xs ! i) then 1 else 0) = length (filter P xs) + (if P x then 1 else 0)"
proof (induction xs arbitrary: i)
  case (Cons y ys)
  then show ?case by (cases i) auto
qed simp

lemma queue_update:
  assumes "queue_inv v" "i < MAX_BUFFERS" "unat c + (if pending (data_packet v ! i) then 1 else 0) = unat (dq_count v) + (if pending e then 1 else 0)"
    "unat c < MAX_BUFFERS" "pending e \<Longrightarrow> packet_ok e"
  shows "queue_inv (v\<lparr>data_packet := (data_packet v)[i := e], dq_count := c\<rparr>)"
proof -
  have l: "i < length (data_packet v)" using assms(1,2) by (simp add: queue_inv_def)
  have "unat c = length (filter pending ((data_packet v)[i := e]))" using filter_update_count [OF l, of pending e] assms(1,3) by (simp add: queue_inv_def)
  moreover have "\<forall>x\<in>set ((data_packet v)[i := e]). pending x \<longrightarrow> packet_ok x" using assms(1,5) set_update_subset_insert [of "data_packet v" i e] by (auto simp: queue_inv_def)
  ultimately show ?thesis using assms(1,4) by (simp add: queue_inv_def)
qed

lemma queue_sched:
  assumes "queue_inv v" shows "queue_inv (v\<lparr>ser_sched := snd (app_sched_event_put [] h (ser_sched v))\<rparr>)"
proof -
  obtain es where es: "board_sched (ser_sched v) es" using assms by (auto simp: queue_inv_def)
  have "\<exists>es'. board_sched (snd (app_sched_event_put [] h (ser_sched v))) es'"
    by (rule sq.put_cases [OF es, of "(h, [])"]) auto
  then show ?thesis using assms by (simp add: queue_inv_def)
qed

lemma queue_drop:
  assumes "queue_inv v" "app_sched_head (ser_sched v) = Some e" shows "queue_inv (v\<lparr>ser_sched := app_sched_drop (ser_sched v)\<rparr>)"
proof -
  obtain es where es: "board_sched (ser_sched v) es" using assms(1) by (auto simp: queue_inv_def)
  then obtain e' es' where "es = e' # es'" using assms(2) sq.head_none [of "ser_sched v"] by (cases es) auto
  then have "board_sched (app_sched_drop (ser_sched v)) es'" using sq.head_some es by blast
  then show ?thesis using assms(1) by (auto simp: queue_inv_def)
qed

section \<open>The transport's client\<close>

lemma consume_checked_safe:
  assumes "pool_link (hci_pool u) n"
  shows "benign (\<lambda>u'. hci_up u' = hci_up u \<and> pool_link (hci_pool u') n \<and> write_index (hci_pool u') = write_index (hci_pool u) \<and> read_index (hci_pool u') = read_index (hci_pool u) \<and>
    mp_slip_used_rx_buffer u' = mp_slip_used_rx_buffer u \<and> m_transport_event_handle u' = m_transport_event_handle u) (consume_checked i u)"
  by (rule link_consume [OF assms, of "case i of Some i \<Rightarrow> i | None \<Rightarrow> HCI_RX_BUF_QUEUE_SIZE"])
     (simp add: consume_checked_def hci_transport_rx_pkt_consume_def)

lemma alloc_inv:
  assumes "queue_inv v" "data_queue_element_alloc t v = (e, Some i, v')" "t \<noteq> INVALID_PACKET" "buf < HCI_RX_BUF_QUEUE_SIZE" "8 + 4 * unat n \<le> HCI_RX_BUF_SIZE"
  shows "queue_inv (v'\<lparr>data_packet := (data_packet v')[i := (data_packet v' ! i)\<lparr>packet_length := n, p_data_packet := Some buf\<rparr>]\<rparr>)"
    "ser_dfu v' = ser_dfu v"
proof -
  from assms(2) have i: "i < MAX_BUFFERS" "\<not> pending (data_packet v ! i)" "\<not> DATA_QUEUE_FULL v"
    and v': "v' = v\<lparr>data_packet := (data_packet v)[i := (data_packet v ! i)\<lparr>packet_type := t\<rparr>], dq_count := dq_count v + 1\<rparr>"
    by (auto simp: data_queue_element_alloc_def find_Some_iff split: if_splits option.splits)
  have l: "i < length (data_packet v)" using i(1) assms(1) by (simp add: queue_inv_def)
  have c: "unat (dq_count v + 1) = unat (dq_count v) + 1" "unat (dq_count v) + 1 < MAX_BUFFERS"
    using i(3) assms(1) by (auto simp: queue_inv_def DATA_QUEUE_FULL_def MAX_BUFFERS_def unat_word_ariths)
  let ?e = "(data_packet v ! i)\<lparr>packet_type := t, packet_length := n, p_data_packet := Some buf\<rparr>"
  have "queue_inv (v\<lparr>data_packet := (data_packet v)[i := ?e], dq_count := dq_count v + 1\<rparr>)"
    using i(2) c assms(3-5) by (intro queue_update [OF assms(1) i(1)]) (simp_all add: packet_ok_def)
  moreover have "v'\<lparr>data_packet := (data_packet v')[i := (data_packet v' ! i)\<lparr>packet_length := n, p_data_packet := Some buf\<rparr>]\<rparr> =
    v\<lparr>data_packet := (data_packet v)[i := ?e], dq_count := dq_count v + 1\<rparr>" using l by (simp add: v')
  ultimately show "queue_inv (v'\<lparr>data_packet := (data_packet v')[i := (data_packet v' ! i)\<lparr>packet_length := n, p_data_packet := Some buf\<rparr>]\<rparr>)" by simp
  show "ser_dfu v' = ser_dfu v" by (simp add: v')
qed

lemma accept_queue_inv:
  assumes "queue_inv v" "buf < HCI_RX_BUF_QUEUE_SIZE" "4 \<le> unat len" "unat len + 6 \<le> HCI_RX_BUF_SIZE"
  shows "queue_inv (snd (rpc_accept buf len t v)) \<and> ser_dfu (snd (rpc_accept buf len t v)) = ser_dfu v"
proof (cases "t < INIT_PACKET_ID \<or> t > STOP_DATA_PACKET \<or> t = STOP_INIT_PACKET \<or>
    t = START_PACKET_ID \<and> unat len \<noteq> 4 + 16 \<or> t = STOP_DATA_PACKET \<and> unat len \<noteq> 4 \<or> t = DATA_PACKET_ID \<and> unat len mod 4 \<noteq> 0")
  case True
  then show ?thesis using assms(1) by (auto simp: rpc_accept_def)
next
  case False
  define v1 where "v1 = v\<lparr>ser_sched := snd (app_sched_event_put [] Process_Dfu_Packet (ser_sched v))\<rparr>"
  have v1: "queue_inv v1" "ser_dfu v1 = ser_dfu v" using queue_sched [OF assms(1)] by (simp_all add: v1_def)
  have t: "t \<noteq> INVALID_PACKET" using False by (auto simp: packet_ids)
  define n :: u32 where "n = ucast (len div 4) - 1"
  have n: "8 + 4 * unat n \<le> HCI_RX_BUF_SIZE"
  proof -
    have d: "unat (ucast (len div 4) :: u32) = unat len div 4"
    proof -
      have "unat (len div 4) = unat len div 4" by (simp add: unat_div)
      moreover have "unat len div 4 < 2 ^ 16" using assms(4) by (simp add: HCI_RX_BUF_SIZE_def)
      ultimately show ?thesis by (simp add: unsigned_ucast_eq take_bit_nat_eq_self_iff)
    qed
    then have "(ucast (len div 4) :: u32) \<noteq> 0" using assms(3) by (auto simp flip: unat_eq_zero)
    then have "unat n = unat len div 4 - 1" using d by (simp add: n_def unat_minus_one)
    then show ?thesis using assms(3,4) by (simp add: HCI_RX_BUF_SIZE_def)
  qed
  obtain r q where p: "app_sched_event_put [] Process_Dfu_Packet (ser_sched v) = (r, q)" by fastforce
  obtain e oi v2 where a: "data_queue_element_alloc t v1 = (e, oi, v2)" by (cases "data_queue_element_alloc t v1")
  have res: "rpc_accept buf len t v = (if r \<noteq> NRF_SUCCESS then (r, v1)
      else case oi of None \<Rightarrow> (e, v2) | Some i \<Rightarrow> (e, v2\<lparr>data_packet := (data_packet v2)[i := (data_packet v2 ! i)\<lparr>packet_length := n, p_data_packet := Some buf\<rparr>]\<rparr>))"
    using False a p by (auto simp: rpc_accept_def v1_def n_def split: option.split)
  show ?thesis
  proof (cases oi)
    case None
    then have "v2 = v1" using a by (auto simp: data_queue_element_alloc_def split: if_splits option.splits)
    then show ?thesis using res None v1 by simp
  next
    case (Some i)
    from alloc_inv [OF v1(1) a [unfolded Some] t assms(2) n] show ?thesis using res Some v1 by simp
  qed
qed

lemma rpc_safe:
  assumes "ser_inv ps b tc m0 (hci_up u)" "extract_ready u n"
  shows "benign (\<lambda>u'. ser_inv ps b tc m0 (hci_up u') \<and> extract_done u n u') (rpc_transport_event_handler mem u)"
proof -
  let ?q = "hci_pool u" and ?i = "read_index (hci_pool u)"
  have e: "m_is_slip_decode_ready u" "pool_link ?q (Suc n)" "10 \<le> unat (rx_length ?q ?i)" "unat (rx_length ?q ?i) \<le> HCI_RX_BUF_SIZE"
    using assms(2) by (simp_all add: extract_ready_def)
  obtain q' where q': "hci_mem_pool_rx_extract ?q = (NRF_SUCCESS, Some (?i, rx_length ?q ?i), q')" "pool_link q' n" "write_index q' = write_index ?q"
    by (rule link_extract [OF e(2)])
  define len :: u16 where "len = ucast (rx_length ?q ?i - 6)"
  have "unat (rx_length ?q ?i - 6) = unat (rx_length ?q ?i) - 6" using e(3) by (subst unat_sub) (simp_all add: word_le_nat_alt)
  then have l: "unat len = unat (rx_length ?q ?i) - 6" using e(4) by (simp add: len_def unsigned_ucast_eq take_bit_nat_eq_self_iff HCI_RX_BUF_SIZE_def)
  have i: "?i < HCI_RX_BUF_QUEUE_SIZE" using e(2) by (simp add: pool_link_def HCI_RX_BUF_QUEUE_SIZE_def word_less_nat_alt)
  define u1 where "u1 = u\<lparr>m_is_slip_decode_ready := False, hci_pool := q'\<rparr>"
  obtain r v where a: "rpc_accept ?i len (rd_u32 (map (mem (Pool_Buf ?i)) [4..<8])) (hci_up u) = (r, v)" by fastforce
  have v: "ser_inv ps b tc m0 v"
    using accept_queue_inv [of "hci_up u" ?i len "rd_u32 (map (mem (Pool_Buf ?i)) [4..<8])"] assms(1) i l e(3,4) a by (auto simp: ser_inv_def)
  have r: "rpc_transport_event_handler mem u = (if r \<noteq> NRF_SUCCESS then consume_checked (Some ?i) (u1\<lparr>hci_up := v\<rparr>) else Inr (u1\<lparr>hci_up := v\<rparr>))"
    using e(1) q'(1) a by (simp add: rpc_transport_event_handler_def hci_transport_rx_pkt_extract_def u1_def len_def)
  have "pool_link (hci_pool (u1\<lparr>hci_up := v\<rparr>)) n" using q'(2) by (simp add: u1_def)
  from consume_checked_safe [OF this, of "Some ?i"] have "benign (\<lambda>u'. ser_inv ps b tc m0 (hci_up u') \<and> extract_done u n u') (consume_checked (Some ?i) (u1\<lparr>hci_up := v\<rparr>))"
    by (cases rule: benign_cases) (use v q'(3) in \<open>auto simp: extract_done_def u1_def\<close>)
  then show ?thesis using r v q'(2,3) by (simp add: extract_done_def u1_def)
qed

interpretation serial: hci_client rpc_transport_event_handler "ser_inv ps b tc m0"
  by unfold_locales (rule rpc_safe)

section \<open>Processing keeps the session a session\<close>

lemma checked_simps [simp]: "checked (Inl e) = Inl (App_Error e)" "checked (Inr x) = Inr x"
  by (simp_all add: checked_def)

lemma run_step:
  assumes "\<exists>rx. dfu_run ps b tc m0 s rx" "dfu_event_ok ev" "dfu_step ps b tc ev s = Inr (e, s')" shows "\<exists>rx. dfu_run ps b tc m0 s' rx"
  using assms dfu_run.step by blast

lemma packet_words_ok:
  assumes "packet_ok e" obtains ws where "packet_words mem e = Some ws" "length ws < 2 ^ 32"
proof -
  have "unat (packet_length e) < 2 ^ 32" using unat_u32_lt by simp
  then show thesis using assms that by (auto simp: packet_ok_def packet_words_def split: option.splits)
qed

lemma packet_start_ok:
  assumes "packet_ok e" obtains p where "packet_start mem e = Some p"
  using assms that by (auto simp: packet_ok_def packet_start_def HCI_RX_BUF_SIZE_def Let_def split: option.splits)

lemma switch_safe:
  assumes "packet_ok e" "\<exists>rx. dfu_run ps b tc m0 s rx"
  shows "benign (\<lambda>(ret, s'). \<exists>rx. dfu_run ps b tc m0 s' rx) (process_switch ps b tc mem e s)"
proof -
  obtain ws where ws: "packet_words mem e = Some ws" "length ws < 2 ^ 32" by (rule packet_words_ok [OF assms(1)])
  obtain p where p: "packet_start mem e = Some p" by (rule packet_start_ok [OF assms(1)])
  note st = run_step [OF assms(2)]
  have d: "benign (\<lambda>(ret, s'). \<exists>rx. dfu_run ps b tc m0 s' rx) (map_sum id (\<lambda>(retval, s). (False, s)) (checked (dfu_data_pkt_handle ps b tc True ws s)))"
    using st [of "Ev_Data True ws"] ws(2) by (cases "dfu_data_pkt_handle ps b tc True ws s") auto
  have a: "benign (\<lambda>(ret, s'). \<exists>rx. dfu_run ps b tc m0 s' rx) (map_sum id (\<lambda>(retval, s). (False, if retval = NRF_SUCCESS then s\<lparr>ds_ctl := bootloader_dfu_activity_mark (ds_ctl s)\<rparr> else s))
      (checked (dfu_start_pkt_handle ps b tc p s)))"
  proof (cases "dfu_start_pkt_handle ps b tc p s")
    case (Inr r)
    then obtain x s' where r: "r = (x, s')" "dfu_start_pkt_handle ps b tc p s = Inr (x, s')" by (cases r) auto
    then have s': "\<exists>rx. dfu_run ps b tc m0 s' rx" using st [of "Ev_Start p"] by simp
    from run_step [OF this, of Ev_Activity] s' Inr r show ?thesis by simp
  qed simp
  obtain r1 s1 where r1: "dfu_init_pkt_handle ws s = (r1, s1)" by fastforce
  obtain r2 s2 where r2: "dfu_init_pkt_complete b s1 = (r2, s2)" by fastforce
  have s1: "\<exists>rx. dfu_run ps b tc m0 s1 rx" using st [of "Ev_Init ws"] ws(2) r1 by simp
  have s2: "\<exists>rx. dfu_run ps b tc m0 s2 rx" using run_step [OF s1, of Ev_Init_Complete] r2 by simp
  obtain r3 s3 where r3: "dfu_image_validate b s = (r3, s3)" by fastforce
  have s3: "\<exists>rx. dfu_run ps b tc m0 s3 rx" using st [of Ev_Validate] r3 by simp
  have v: "benign (\<lambda>(ret, s'). \<exists>rx. dfu_run ps b tc m0 s' rx) (map_sum id (\<lambda>(retval, s). (retval = NRF_SUCCESS, s)) (checked (dfu_image_activate b tc s3)))"
    using run_step [OF s3, of Ev_Activate] by (cases "dfu_image_activate b tc s3") auto
  show ?thesis
    using d a v s1 s2 s3 assms(2) by (simp add: process_switch_def ws(1) p r1 r2 r3)
qed

text \<open>What processing leaves of the transport.\<close>

definition pool_kept :: "'v hci \<Rightarrow> 'v hci \<Rightarrow> bool" where
  "pool_kept u u' \<longleftrightarrow> (\<forall>n. pool_link (hci_pool u) n \<longrightarrow> pool_link (hci_pool u') n) \<and> read_index (hci_pool u') = read_index (hci_pool u) \<and>
     mp_slip_used_rx_buffer u' = mp_slip_used_rx_buffer u \<and> m_transport_event_handle u' = m_transport_event_handle u"

definition work_kept :: "'p serial hci \<Rightarrow> 'p serial hci \<Rightarrow> bool" where
  "work_kept u u' \<longleftrightarrow> pool_kept u u' \<and> ser_sched (hci_up u') = ser_sched (hci_up u)"

lemma free_safe:
  assumes "ser_inv ps b tc m0 (hci_up u)" "pool_link (hci_pool u) n" "i < MAX_BUFFERS" "pending (data_packet (hci_up u) ! i)"
  shows "benign (\<lambda>(e, u'). e = NRF_SUCCESS \<and> ser_inv ps b tc m0 (hci_up u') \<and> work_kept u u' \<and> pool_link (hci_pool u') n \<and>
    data_packet (hci_up u') = (data_packet (hci_up u))[i := \<lparr>packet_type = INVALID_PACKET, p_data_packet = None, packet_length = 0\<rparr>])
    (data_queue_element_free i u)"
proof -
  let ?v = "hci_up u" and ?e = "\<lparr>packet_type = INVALID_PACKET, p_data_packet = None, packet_length = 0\<rparr>"
  define v where "v = data_queue_element_init i (?v\<lparr>dq_count := dq_count ?v - 1\<rparr>)"
  have q: "queue_inv ?v" using assms(1) by (simp add: ser_inv_def)
  then have "0 < length (filter pending (data_packet ?v))" using assms(3,4) by (auto simp: queue_inv_def filter_empty_conv intro!: nth_mem)
  then have "unat (dq_count ?v - 1) + 1 = unat (dq_count ?v)" using q by (subst unat_minus_one) (auto simp: queue_inv_def)
  moreover have "v = ?v\<lparr>data_packet := (data_packet ?v)[i := ?e], dq_count := dq_count ?v - 1\<rparr>" by (simp add: v_def data_queue_element_init_def)
  ultimately have v: "queue_inv v" "ser_dfu v = ser_dfu ?v" "data_packet v = (data_packet ?v)[i := ?e]"
    using queue_update [OF q assms(3), of "dq_count ?v - 1" ?e] assms(4) q by (simp_all add: queue_inv_def)
  have sc: "ser_sched v = ser_sched ?v" by (simp add: v_def data_queue_element_init_def)
  have f: "data_queue_element_free i u = map_sum id (Pair NRF_SUCCESS) (consume_checked (p_data_packet (data_packet ?v ! i)) (u\<lparr>hci_up := v\<rparr>))"
    using assms(3,4) by (simp add: data_queue_element_free_def Let_def v_def)
  have "pool_link (hci_pool (u\<lparr>hci_up := v\<rparr>)) n" using assms(2) by simp
  from consume_checked_safe [OF this, of "p_data_packet (data_packet ?v ! i)"] show ?thesis unfolding f
  proof (cases rule: benign_cases)
    case (Inr u')
    have "work_kept u u'" using Inr(2) assms(2) sc by (auto simp: work_kept_def pool_kept_def pool_link_def)
    then show "benign (\<lambda>(e, u'). e = NRF_SUCCESS \<and> ser_inv ps b tc m0 (hci_up u') \<and> work_kept u u' \<and> pool_link (hci_pool u') n \<and>
      data_packet (hci_up u') = (data_packet (hci_up u))[i := ?e]) (map_sum id (Pair NRF_SUCCESS) (consume_checked (p_data_packet (data_packet ?v ! i)) (u\<lparr>hci_up := v\<rparr>)))"
      using Inr v assms(1) by (simp add: ser_inv_def)
  qed simp
qed

lemma kept_trans: "work_kept u v \<Longrightarrow> work_kept v w \<Longrightarrow> work_kept u w"
  by (simp add: work_kept_def pool_kept_def)

lemma pass_safe:
  assumes "ser_inv ps b tc m0 (hci_up u)" "pool_link (hci_pool u) n" "set is \<subseteq> {..<MAX_BUFFERS}"
  shows "benign (\<lambda>(ret, u'). ser_inv ps b tc m0 (hci_up u') \<and> work_kept u u' \<and>
    (\<not> ret \<longrightarrow> (\<forall>i<MAX_BUFFERS. i \<in> set is \<or> \<not> pending (data_packet (hci_up u) ! i) \<longrightarrow> \<not> pending (data_packet (hci_up u') ! i))))
    (process_pass ps b tc mem is u)"
  using assms
proof (induction "is" arbitrary: u)
  case Nil
  then show ?case by (simp add: work_kept_def pool_kept_def)
next
  case (Cons i "is")
  have i: "i < MAX_BUFFERS" "set is \<subseteq> {..<MAX_BUFFERS}" using Cons.prems(3) by auto
  let ?e = "data_packet (hci_up u) ! i"
  show ?case
  proof (cases "pending ?e")
    case False
    from Cons.IH [OF Cons.prems(1,2) i(2)] show ?thesis
      by (cases rule: benign_cases) (use False in \<open>auto simp: Let_def\<close>)
  next
    case True
    have "?e \<in> set (data_packet (hci_up u))" using i(1) Cons.prems(1) by (simp add: ser_inv_def queue_inv_def)
    then have ok: "packet_ok ?e" "\<exists>rx. dfu_run ps b tc m0 (ser_dfu (hci_up u)) rx" using Cons.prems(1) True by (auto simp: ser_inv_def queue_inv_def)
    from switch_safe [OF ok, of mem] show ?thesis
    proof (cases rule: benign_cases)
      case (App_Error x)
      then show ?thesis using True by (simp add: Let_def)
    next
      case (Inr y)
      obtain ret s where y: "y = (ret, s)" by (cases y)
      define u1 where "u1 = u\<lparr>hci_up := (hci_up u)\<lparr>ser_dfu := s\<rparr>\<rparr>"
      have u1: "ser_inv ps b tc m0 (hci_up u1)" "pool_link (hci_pool u1) n" "work_kept u u1" "data_packet (hci_up u1) = data_packet (hci_up u)"
        using Cons.prems(1,2) Inr(2) y by (simp_all add: u1_def ser_inv_def queue_inv_def work_kept_def pool_kept_def)
      have step: "process_pass ps b tc mem (i # is) u = (if ret then Inr (True, u1) else case data_queue_element_free i u1 of Inl e \<Rightarrow> Inl e
          | Inr (r, u) \<Rightarrow> if r \<noteq> NRF_SUCCESS then Inl (App_Error r) else process_pass ps b tc mem is u)"
        using True Inr(1) y by (simp add: Let_def u1_def)
      show ?thesis
      proof (cases ret)
        case True
        then show ?thesis using step u1 by simp
      next
        case False
        from free_safe [OF u1(1,2) i(1)] True u1(4) have "benign (\<lambda>(e, u'). e = NRF_SUCCESS \<and> ser_inv ps b tc m0 (hci_up u') \<and> work_kept u1 u' \<and> pool_link (hci_pool u') n \<and>
          data_packet (hci_up u') = (data_packet (hci_up u))[i := \<lparr>packet_type = INVALID_PACKET, p_data_packet = None, packet_length = 0\<rparr>]) (data_queue_element_free i u1)" by simp
        then show ?thesis
        proof (cases rule: benign_cases)
          case (App_Error x)
          then show ?thesis using step False by simp
        next
          case (Inr z)
          then obtain u2 where z: "data_queue_element_free i u1 = Inr (NRF_SUCCESS, u2)" "ser_inv ps b tc m0 (hci_up u2)" "work_kept u1 u2" "pool_link (hci_pool u2) n"
            "data_packet (hci_up u2) = (data_packet (hci_up u))[i := \<lparr>packet_type = INVALID_PACKET, p_data_packet = None, packet_length = 0\<rparr>]" by auto
          have l: "length (data_packet (hci_up u)) = MAX_BUFFERS" using Cons.prems(1) by (simp add: ser_inv_def queue_inv_def)
          have np: "\<not> pending (data_packet (hci_up u2) ! j)" if "j < MAX_BUFFERS" "j = i \<or> \<not> pending (data_packet (hci_up u) ! j)" for j
            using that l z(5) by (cases "j = i") simp_all
          from Cons.IH [OF z(2,4) i(2)] show ?thesis
          proof (cases rule: benign_cases)
            case (App_Error x)
            then show ?thesis using step False z(1) by simp
          next
            case (Inr w)
            obtain r3 u3 where w: "w = (r3, u3)" by (cases w)
            have "process_pass ps b tc mem (i # is) u = Inr (r3, u3)" using step False z(1) Inr(1) w by simp
            moreover have "work_kept u u3" using kept_trans [OF u1(3) kept_trans [OF z(3)]] Inr(2) w by simp
            ultimately show ?thesis using Inr(2) w np by auto
          qed
        qed
      qed
    qed
  qed
qed

lemma process_safe:
  assumes "ser_inv ps b tc m0 (hci_up u)" "pool_link (hci_pool u) n"
  obtains r where "process_dfu_packet ps b tc mem u = Some r" "benign (\<lambda>u'. ser_inv ps b tc m0 (hci_up u') \<and> work_kept u u') r"
proof (cases "dq_count (hci_up u) = 0")
  case True
  then have "process_dfu_packet ps b tc mem u = Some (Inr u)" by (subst process_dfu_packet.simps) simp
  then show thesis by (rule that) (simp add: assms(1) work_kept_def pool_kept_def)
next
  case False
  have un: "process_dfu_packet ps b tc mem u = (case process_pass ps b tc mem [0..<MAX_BUFFERS] u of Inl e \<Rightarrow> Some (Inl e)
      | Inr x \<Rightarrow> if fst x then Some (Inr (snd x)) else process_dfu_packet ps b tc mem (snd x))"
    using False by (subst process_dfu_packet.simps) simp
  have sub: "set [0..<MAX_BUFFERS] \<subseteq> {..<MAX_BUFFERS}" by auto
  from pass_safe [OF assms sub, of mem] show thesis
  proof (cases rule: benign_cases)
    case (App_Error x)
    then show thesis using un by (intro that [of "Inl (App_Error x)"]) simp_all
  next
    case (Inr y)
    obtain ret u' where y: "y = (ret, u')" by (cases y)
    have inv: "ser_inv ps b tc m0 (hci_up u')" "work_kept u u'" using Inr(2) y by simp_all
    have "process_dfu_packet ps b tc mem u' = Some (Inr u')" if "\<not> ret"
    proof -
      have l: "length (data_packet (hci_up u')) = MAX_BUFFERS" using inv(1) by (simp add: ser_inv_def queue_inv_def)
      have "\<forall>j<MAX_BUFFERS. \<not> pending (data_packet (hci_up u') ! j)" using Inr(2) y that by simp
      then have "filter pending (data_packet (hci_up u')) = []" using l by (auto simp: filter_empty_conv in_set_conv_nth)
      then have "dq_count (hci_up u') = 0" using inv(1) by (simp add: ser_inv_def queue_inv_def unat_eq_zero)
      then show ?thesis by (subst process_dfu_packet.simps) simp
    qed
    then have "process_dfu_packet ps b tc mem u = Some (Inr u')" using un Inr(1) y by simp
    then show thesis by (rule that) (simp add: inv)
  qed
qed

section \<open>Every byte stream\<close>

definition serial_inv :: "'p pstorage \<Rightarrow> build \<Rightarrow> (bool \<Rightarrow> nrf_error) \<Rightarrow> flash \<Rightarrow> 'p serial_state \<Rightarrow> bool" where
  "serial_inv ps b tc m0 = (\<lambda>(fifo, x). hci_inv (ser_inv ps b tc m0) x)"

lemma hci_inv_up:
  assumes "hci_inv P (s, u)" "pool_kept u u'" "P (hci_up u')" shows "hci_inv P (s, u')"
  using assms by (auto simp: hci_inv_def used_ok_def pool_kept_def split: option.splits)

lemma serial_step_inv:
  assumes "serial_inv ps b tc m0 x"
  obtains r where "serial_step ps b tc ev x = Some r" "benign (serial_inv ps b tc m0) r"
proof -
  obtain fifo s u where x: "x = (fifo, s, u)" by (cases x)
  have i: "hci_inv (ser_inv ps b tc m0) (s, u)" "ser_inv ps b tc m0 (hci_up u)" "used_ok u" using assms x by (simp_all add: serial_inv_def hci_inv_def)
  obtain n where n: "pool_link (hci_pool u) n" using i(3) by (auto simp: used_ok_def split: option.splits)
  show thesis
  proof (cases ev)
    case (Ser_Rx cs)
    from serial.pending_inv [OF i(1), of "fifo @ cs"] have "benign (serial_inv ps b tc m0) (hci_slip_process_pending_rx serial_cb (fifo @ cs) (s, u))"
      by (cases rule: benign_cases) (auto simp: serial_inv_def)
    then show thesis using Ser_Rx x that by simp
  next
    case Ser_Sched
    show thesis
    proof (cases "app_sched_head (ser_sched (hci_up u))")
      case None
      then show thesis using Ser_Sched x assms that by simp
    next
      case (Some hd)
      obtain h d where h: "hd = (h, d)" by (cases hd)
      obtain r where r: "(case h of Process_Dfu_Packet \<Rightarrow> process_dfu_packet ps b tc (sl_mem s) u | Other_Handler \<Rightarrow> Some (Inr u)) = Some r"
        "benign (\<lambda>u'. ser_inv ps b tc m0 (hci_up u') \<and> work_kept u u') r"
      proof (cases h)
        case Process_Dfu_Packet
        then show thesis using process_safe [OF i(2) n, of "sl_mem s"] that by auto
      next
        case Other_Handler
        then show thesis using that [of "Inr u"] i(2) by (simp add: work_kept_def pool_kept_def)
      qed
      have st: "serial_step ps b tc ev x = Some (map_sum id (\<lambda>u. (fifo, s, u\<lparr>hci_up := (hci_up u)\<lparr>ser_sched := app_sched_drop (ser_sched (hci_up u))\<rparr>\<rparr>)) r)"
        using Ser_Sched x Some h r(1) by simp
      from r(2) show thesis
      proof (cases rule: benign_cases)
        case (App_Error e)
        then show thesis using that [OF st] by simp
      next
        case (Inr u')
        let ?v = "(hci_up u')\<lparr>ser_sched := app_sched_drop (ser_sched (hci_up u'))\<rparr>"
        have k: "ser_inv ps b tc m0 (hci_up u')" "pool_kept u u'" "ser_sched (hci_up u') = ser_sched (hci_up u)" using Inr(2) by (simp_all add: work_kept_def)
        have "queue_inv ?v" using k(1,3) Some by (intro queue_drop) (auto simp: ser_inv_def)
        then have "ser_inv ps b tc m0 ?v" using k(1) by (simp add: ser_inv_def)
        then have "hci_inv (ser_inv ps b tc m0) (s, u'\<lparr>hci_up := ?v\<rparr>)" using k(2) by (intro hci_inv_up [OF i(1)]) (simp_all add: pool_kept_def)
        then show thesis using that [OF st] Inr(1) by (simp add: serial_inv_def)
      qed
    qed
  next
    case Ser_Timeout
    then have st: "serial_step ps b tc ev x = Some (map_sum App_Error (\<lambda>d. (fifo, s, u\<lparr>hci_up := (hci_up u)\<lparr>ser_dfu := d\<rparr>\<rparr>)) (dfu_timeout_handler b tc (ser_dfu (hci_up u))))"
      using x by simp
    show thesis
    proof (cases "dfu_timeout_handler b tc (ser_dfu (hci_up u))")
      case (Inl e)
      then show thesis using that [OF st] by simp
    next
      case (Inr d)
      have "\<exists>rx. dfu_run ps b tc m0 (ser_dfu (hci_up u)) rx" using i(2) by (simp add: ser_inv_def)
      from run_step [OF this, of Ev_Timeout] Inr have "\<exists>rx. dfu_run ps b tc m0 d rx" by simp
      then have "ser_inv ps b tc m0 ((hci_up u)\<lparr>ser_dfu := d\<rparr>)" using i(2) by (simp add: ser_inv_def queue_inv_def)
      then show thesis using that [OF st] Inr hci_inv_up [OF i(1), of "u\<lparr>hci_up := (hci_up u)\<lparr>ser_dfu := d\<rparr>\<rparr>"] by (simp add: serial_inv_def pool_kept_def)
    qed
  next
    case Ser_Other
    let ?v = "(hci_up u)\<lparr>ser_sched := snd (app_sched_event_put [] Other_Handler (ser_sched (hci_up u)))\<rparr>"
    have "ser_inv ps b tc m0 ?v" using i(2) queue_sched [of "hci_up u"] by (simp add: ser_inv_def)
    then show thesis using Ser_Other x that hci_inv_up [OF i(1), of "u\<lparr>hci_up := ?v\<rparr>"] by (simp add: serial_inv_def pool_kept_def)
  qed
qed

lemma queue_init_packets:
  assumes "length (data_packet v) = MAX_BUFFERS"
  shows "data_queue_init v = v\<lparr>dq_count := 0, data_packet := replicate MAX_BUFFERS \<lparr>packet_type = INVALID_PACKET, p_data_packet = None, packet_length = 0\<rparr>\<rparr>"
proof -
  obtain a b c d where "data_packet v = [a, b, c, d]" using assms by (auto simp: MAX_BUFFERS_def length_Suc_conv numeral_eq_Suc)
  then show ?thesis by (simp add: data_queue_init_def data_queue_element_init_def MAX_BUFFERS_def upt_conv_Cons numeral_eq_Suc)
qed

lemma open_inv:
  assumes "ser_inv ps b tc m0 (hci_up u)" "hci_transport_open NRF_SUCCESS (s, u) = (e, x)"
  shows "e = NRF_SUCCESS \<and> hci_inv (ser_inv ps b tc m0) (hci_transport_evt_handler_reg x) \<and> hci_up (snd x) = hci_up u"
proof -
  let ?q = "hci_mem_pool_open (hci_pool u)"
  have w: "write_index ?q = 0" "read_index ?q = 0" "free_window_count ?q \<noteq> 0" by (simp_all add: hci_mem_pool_open_def HCI_RX_BUF_QUEUE_SIZE_def)
  obtain q' where q: "hci_mem_pool_rx_produce HCI_RX_BUF_SIZE ?q = (NRF_SUCCESS, Some 0, q')" "pool_link q' 1" "read_index q' = 0"
    by (rule link_produce [OF link_open [of "hci_pool u"]]) (use w in \<open>auto simp: hci_mem_pool_rx_produce_def\<close>)
  define v where "v = u\<lparr>m_is_slip_decode_ready := False, m_tx_state := TX_STATE_IDLE, m_packet_expected_seq_number := 1, m_packet_transmit_seq_number := 1,
     m_tx_done_success := False, mp_slip_used_rx_buffer := Some 0, hci_pool := q'\<rparr>"
  have x: "e = NRF_SUCCESS" "x = used_register (hci_slip_open s, v)" using assms(2) q(1) by (simp_all add: hci_transport_open_def v_def)
  define t where "t = hci_slip_open s"
  have "used_ok (v\<lparr>m_transport_event_handle := True\<rparr>)" using q by (simp add: used_ok_def v_def)
  moreover have "hci_transport_evt_handler_reg x = used_register (hci_slip_evt_handler_register t, v\<lparr>m_transport_event_handle := True\<rparr>)"
    unfolding x(2) t_def [symmetric] by (simp add: hci_transport_evt_handler_reg_def used_register_def hci_slip_evt_handler_register_def hci_slip_rx_buffer_register_def)
  ultimately have "hci_inv (ser_inv ps b tc m0) (hci_transport_evt_handler_reg x)"
    using serial.used_register_inv [of "hci_slip_evt_handler_register t" "v\<lparr>m_transport_event_handle := True\<rparr>"] assms(1) by (simp add: hci_slip_evt_handler_register_def v_def)
  then show ?thesis using x by (simp add: used_register_def v_def)
qed

lemma start_inv_serial:
  assumes "dfu_run ps b tc m0 (ser_dfu (hci_up u)) []" "length (data_packet (hci_up u)) = MAX_BUFFERS" "board_sched (ser_sched (hci_up u)) es"
  shows "benign (serial_inv ps b tc m0) (dfu_transport_serial_update_start NRF_SUCCESS (fifo, s, u))"
proof -
  define u1 where "u1 = u\<lparr>hci_up := data_queue_init (hci_up u)\<rparr>"
  have "ser_inv ps b tc m0 (hci_up u1)"
    using assms queue_init_packets [OF assms(2)] by (auto simp: u1_def ser_inv_def queue_inv_def MAX_BUFFERS_def)
  moreover obtain e x where o: "hci_transport_open NRF_SUCCESS (s, u1) = (e, x)" by (rule prod.exhaust)
  ultimately have i: "e = NRF_SUCCESS" "hci_inv (ser_inv ps b tc m0) (hci_transport_evt_handler_reg x)" using open_inv by blast+
  from serial.pending_inv [OF i(2), of fifo] show ?thesis
    by (cases rule: benign_cases) (use o i(1) in \<open>auto simp: dfu_transport_serial_update_start_def serial_inv_def u1_def\<close>)
qed

lemma serial_run_inv: "serial_run ps b tc m0 x \<Longrightarrow> serial_inv ps b tc m0 x"
proof (induction rule: serial_run.induct)
  case (begin_ u es fifo s x)
  then show ?case using start_inv_serial [OF begin_(1-3), of fifo s] by simp
next
  case (step x ev y)
  obtain r where "serial_step ps b tc ev x = Some r" "benign (serial_inv ps b tc m0) r" by (rule serial_step_inv [OF step.IH])
  then show ?case using step.hyps(2) by auto
qed

text \<open>
  C9. No byte stream breaks the serial transport.  In a session begun on a fresh update state, whatever bytes arrive in whatever
  chunks, between whatever scheduler turns, timer expiries and events of other modules: no byte is stored outside the receive buffer it
  belongs to, no packet is read beyond its buffer, every loop ends - a step gives the next state or stops at a failed error check - and the
  update session the packets drive is a run of the DFU state machine, so that everything proved of its runs holds of every stream.
\<close>

theorem serial_stream_safe:
  assumes "serial_run ps b tc m0 x"
  shows "(\<exists>rx. dfu_run ps b tc m0 (ser_dfu (hci_up (snd (snd x)))) rx) \<and>
    (\<exists>r. serial_step ps b tc ev x = Some r \<and> r \<noteq> Inl Bad_Access \<and> r \<noteq> Inl Hang)"
proof -
  have i: "serial_inv ps b tc m0 x" by (rule serial_run_inv [OF assms])
  obtain r where "serial_step ps b tc ev x = Some r" "benign (serial_inv ps b tc m0) r" by (rule serial_step_inv [OF i])
  moreover have "\<exists>rx. dfu_run ps b tc m0 (ser_dfu (hci_up (snd (snd x)))) rx" using i by (auto simp: serial_inv_def hci_inv_def ser_inv_def)
  ultimately show ?thesis by auto
qed

section \<open>Witness\<close>

definition serial_sample :: "unit serial hci" where
  "serial_sample = \<lparr>m_tx_state = TX_STATE_IDLE, m_transport_event_handle = False, mp_slip_used_rx_buffer = None, m_packet_expected_seq_number = 0,
     m_packet_transmit_seq_number = 0, m_is_slip_decode_ready = False, m_tx_done_success = False,
     hci_pool = \<lparr>free_window_count = 0, free_available_count = 0, read_available_count = 0, write_index = 0, read_index = 0, free_index = 0, rx_length = (\<lambda>_. 0), m_is_tx_allocated = False\<rparr>,
     hci_up = \<lparr>data_packet = replicate MAX_BUFFERS \<lparr>packet_type = 7, p_data_packet = None, packet_length = 9\<rparr>, dq_count = 4,
       ser_sched = \<lparr>m_queue_event_headers = (\<lambda>_. Other_Handler), m_queue_event_data = (\<lambda>_. []), m_queue_start_index = 0, m_queue_end_index = 0, m_queue_event_size = 8, m_queue_size = 30\<rparr>,
       ser_dfu = dfu_sample_session\<rparr>\<rparr>"

lemma serial_sample_start:
  "dfu_run no_pstorage internal_build (\<lambda>_. NRF_SUCCESS) dfu_sample_flash (ser_dfu (hci_up serial_sample)) []"
  "length (data_packet (hci_up serial_sample)) = MAX_BUFFERS" "board_sched (ser_sched (hci_up serial_sample)) []"
  using dfu_sample_run by (simp_all add: serial_sample_def board_sched_def sched_rep_def sched_slots_def SCHED_QUEUE_SIZE_def SCHED_MAX_EVENT_DATA_SIZE_def)

theorem serial_stream_safe_witness:
  "\<exists>x r. serial_run no_pstorage internal_build (\<lambda>_. NRF_SUCCESS) dfu_sample_flash x \<and>
     serial_step no_pstorage internal_build (\<lambda>_. NRF_SUCCESS) (Ser_Rx [0xC0, 0xDB, 0xC0, 1, 2, 3, 0xC0]) x = Some r \<and> r \<noteq> Inl Bad_Access \<and> r \<noteq> Inl Hang"
proof -
  have "\<exists>x. dfu_transport_serial_update_start NRF_SUCCESS ([], idle_slip, serial_sample) = Inr x"
  proof -
    obtain e y where o: "hci_transport_open NRF_SUCCESS (idle_slip, serial_sample\<lparr>hci_up := data_queue_init (hci_up serial_sample)\<rparr>) = (e, y)" by (rule prod.exhaust)
    have "ser_inv no_pstorage internal_build (\<lambda>_. NRF_SUCCESS) dfu_sample_flash (data_queue_init (hci_up serial_sample))"
      using serial_sample_start queue_init_packets [OF serial_sample_start(2)] by (auto simp: ser_inv_def queue_inv_def MAX_BUFFERS_def)
    then have "e = NRF_SUCCESS" using open_inv [OF _ o] by simp
    then show ?thesis using o by (simp add: dfu_transport_serial_update_start_def)
  qed
  then obtain x where x: "dfu_transport_serial_update_start NRF_SUCCESS ([], idle_slip, serial_sample) = Inr x" by blast
  have run: "serial_run no_pstorage internal_build (\<lambda>_. NRF_SUCCESS) dfu_sample_flash x"
    by (rule serial_run.begin_ [OF serial_sample_start x])
  show ?thesis using serial_stream_safe [OF run, of "Ser_Rx [0xC0, 0xDB, 0xC0, 1, 2, 3, 0xC0]"] run by blast
qed

end
