(* ===== verification/Serial_Install.thy ===== *)
theory Serial_Install
  imports Dfu_Serial
begin

text \<open>
  A host that frames DFU packets for the serial transport: each packet in sequence is decoded, queued, run by the scheduler and its buffer
  given back, so that a transfer over the wire is the transfer of the update session.
\<close>

section \<open>The host's packets\<close>

datatype wired_packet = W_Start dfu_start_packet | W_Init "u32 list" | W_Data "u32 list" | W_Stop

fun wired_id :: "wired_packet \<Rightarrow> u32" where
  "wired_id (W_Start p) = START_PACKET_ID"
| "wired_id (W_Init ws) = INIT_PACKET_ID"
| "wired_id (W_Data ws) = DATA_PACKET_ID"
| "wired_id W_Stop = STOP_DATA_PACKET"

fun wired_words :: "wired_packet \<Rightarrow> u32 list" where
  "wired_words (W_Start p) = [ucast (dfu_update_mode p), sd_image_size p, bl_image_size p, app_image_size p]"
| "wired_words (W_Init ws) = ws"
| "wired_words (W_Data ws) = ws"
| "wired_words W_Stop = []"

definition wired_bytes :: "wired_packet \<Rightarrow> bytes" where
  "wired_bytes pkt = concat (map wr_u32 (wired_id pkt # wired_words pkt))"

definition host_frame :: "u8 \<Rightarrow> wired_packet \<Rightarrow> bytes" where
  "host_frame k pkt = slip_frame (tx_packet (0xC0 OR k) (wired_bytes pkt))"

text \<open>What a packet does to the update session; the flag is set by a STOP that activates the image.\<close>

fun wired_step :: "'p pstorage \<Rightarrow> build \<Rightarrow> (bool \<Rightarrow> nrf_error) \<Rightarrow> wired_packet \<Rightarrow> 'p dfu_session \<Rightarrow> nrf_error + bool \<times> 'p dfu_session" where
  "wired_step ps b tc (W_Start p) s = map_sum id (\<lambda>(e, s). (False, dfu_mark (e = NRF_SUCCESS) s)) (dfu_start_pkt_handle ps b tc p s)"
| "wired_step ps b tc (W_Init ws) s = (let (e, s) = dfu_init_pkt_handle ws s in Inr (False, if e = NRF_SUCCESS then snd (dfu_init_pkt_complete b s) else s))"
| "wired_step ps b tc (W_Data ws) s = map_sum id (\<lambda>(e, s). (False, s)) (dfu_data_pkt_handle ps b tc True ws s)"
| "wired_step ps b tc W_Stop s = (let (e, s) = dfu_image_validate b s
     in if e = NRF_SUCCESS then map_sum id (\<lambda>(e, s). (e = NRF_SUCCESS, s)) (dfu_image_activate b tc s) else Inr (False, s))"

lemma length_wired_bytes: "length (wired_bytes pkt) = 4 + 4 * length (wired_words pkt)"
  by (simp add: wired_bytes_def)

section \<open>Reading a packet back\<close>

lemma mem_packet:
  assumes "a + n \<le> length pl"
  shows "map (mem_put m 0 (tx_packet b0 pl)) [4 + a..<4 + a + n] = take n (drop a pl)"
proof (rule nth_equalityI)
  fix i assume i: "i < length (map (mem_put m 0 (tx_packet b0 pl)) [4 + a..<4 + a + n])"
  have "tx_packet b0 pl ! (4 + (a + i)) = pl ! (a + i)"
    using arg_cong [OF tx_packet_payload [of pl b0], of "\<lambda>xs. xs ! (a + i)"] i assms by (simp add: add.assoc)
  then show "map (mem_put m 0 (tx_packet b0 pl)) [4 + a..<4 + a + n] ! i = take n (drop a pl) ! i"
    using i assms by (simp add: mem_put_def add.assoc)
qed (use assms in simp)

lemma drop_words: "drop (4 * j) (concat (map wr_u32 ws)) = concat (map wr_u32 (drop j ws))"
proof (induction ws arbitrary: j)
  case (Cons w ws)
  then show ?case by (cases j) simp_all
qed simp

lemma mem_words:
  assumes "pl = wr_u32 t @ concat (map wr_u32 ws)"
  shows "map (\<lambda>j. rd_u32 (map (mem_put m 0 (tx_packet b0 pl)) [8 + 4 * j..<12 + 4 * j])) [0..<length ws] = ws"
proof (rule nth_equalityI)
  fix j assume "j < length (map (\<lambda>j. rd_u32 (map (mem_put m 0 (tx_packet b0 pl)) [8 + 4 * j..<12 + 4 * j])) [0..<length ws])"
  then have j: "j < length ws" by simp
  have "map (mem_put m 0 (tx_packet b0 pl)) [4 + (4 + 4 * j)..<4 + (4 + 4 * j) + 4] = take 4 (drop (4 + 4 * j) pl)"
    using j assms by (intro mem_packet) simp
  moreover have "4 + (4 + 4 * j) = 8 + 4 * j" "8 + 4 * j + 4 = 12 + 4 * j" by simp_all
  moreover have "drop (4 + 4 * j) pl = wr_u32 (ws ! j) @ concat (map wr_u32 (drop (Suc j) ws))"
    using assms j by (simp add: drop_words Cons_nth_drop_Suc [symmetric])
  ultimately show "map (\<lambda>j. rd_u32 (map (mem_put m 0 (tx_packet b0 pl)) [8 + 4 * j..<12 + 4 * j])) [0..<length ws] ! j = ws ! j"
    using j by simp
qed simp

text \<open>The queue entry of a packet whose bytes are in a buffer.\<close>

definition wired_elem :: "u32 \<Rightarrow> wired_packet \<Rightarrow> dfu_update_packet" where
  "wired_elem w pkt = \<lparr>packet_type = wired_id pkt, p_data_packet = Some w, packet_length = of_nat (length (wired_words pkt))\<rparr>"

lemma checked_map: "map_sum id f (checked r) = checked (map_sum id f r)"
  by (cases r) simp_all

lemma switch_wired:
  assumes "mem (Pool_Buf w) = mem_put m 0 (tx_packet b0 (wired_bytes pkt))" "w < HCI_RX_BUF_QUEUE_SIZE" "length (wired_words pkt) \<le> 147"
  shows "process_switch ps b tc mem (wired_elem w pkt) s = checked (wired_step ps b tc pkt s)"
proof -
  let ?ws = "wired_words pkt"
  have pl: "wired_bytes pkt = wr_u32 (wired_id pkt) @ concat (map wr_u32 ?ws)" by (simp add: wired_bytes_def)
  have u: "unat (of_nat (length ?ws) :: u32) = length ?ws" using assms(3) by (intro unat_of_nat_u32) simp
  have words: "packet_words mem (wired_elem w pkt) = Some ?ws"
    using assms u mem_words [OF pl, of m b0] by (simp add: packet_words_def wired_elem_def HCI_RX_BUF_SIZE_def)
  have start: "packet_start mem (wired_elem w (W_Start p)) = Some p" if p: "pkt = W_Start p" for p
  proof -
    have "map (mem (Pool_Buf w)) [4 + 4..<4 + 4 + 16] = take 16 (drop 4 (wired_bytes pkt))"
      unfolding assms(1) using p by (intro mem_packet) (simp add: wired_bytes_def)
    then have "map (mem (Pool_Buf w)) [8..<24] = wr_u32 (ucast (dfu_update_mode p)) @ wr_u32 (sd_image_size p) @ wr_u32 (bl_image_size p) @ wr_u32 (app_image_size p)"
      using p by (simp add: wired_bytes_def)
    moreover have "ucast (ucast m :: u32) = m" for m :: u8 by (rule bit_word_eqI) (auto simp: bit_simps)
    then have "(wr_u32 (ucast (dfu_update_mode p)) @ xs) ! 0 = dfu_update_mode p" for xs by (simp add: wr_u32_def)
    moreover have "rd_u32 (wr_u32 x @ ys) = x" "drop 4 (wr_u32 x @ ys) = ys" "drop 8 (wr_u32 x @ wr_u32 y @ ys) = ys" "drop 12 (wr_u32 x @ wr_u32 y @ wr_u32 z @ ys) = ys" for x y z ys by simp_all
    ultimately show ?thesis using assms(2) by (simp add: packet_start_def wired_elem_def HCI_RX_BUF_SIZE_def Let_def)
  qed
  show ?thesis
  proof (cases pkt)
    case (W_Start p)
    have "process_switch ps b tc mem (wired_elem w pkt) s = map_sum id (\<lambda>(retval, s). (False, if retval = NRF_SUCCESS then s\<lparr>ds_ctl := bootloader_dfu_activity_mark (ds_ctl s)\<rparr> else s)) (checked (dfu_start_pkt_handle ps b tc p s))"
      using start [OF W_Start] W_Start by (simp add: process_switch_def wired_elem_def packet_ids)
    then show ?thesis using W_Start by (cases "dfu_start_pkt_handle ps b tc p s") (auto simp: dfu_mark_def)
  next
    case (W_Init ws)
    then show ?thesis using words by (simp add: process_switch_def wired_elem_def packet_ids split: prod.split)
  next
    case (W_Data ws)
    have "process_switch ps b tc mem (wired_elem w pkt) s = map_sum id (\<lambda>(retval, s). (False, s)) (checked (dfu_data_pkt_handle ps b tc True ws s))"
      using words W_Data by (simp add: process_switch_def wired_elem_def packet_ids)
    then show ?thesis using W_Data by (cases "dfu_data_pkt_handle ps b tc True ws s") auto
  next
    case W_Stop
    have "process_switch ps b tc mem (wired_elem w pkt) s = (let (e, s) = dfu_image_validate b s
       in if e = NRF_SUCCESS then map_sum id (\<lambda>(e, s). (e = NRF_SUCCESS, s)) (checked (dfu_image_activate b tc s)) else Inr (False, s))"
      using W_Stop by (simp add: process_switch_def wired_elem_def packet_ids)
    then show ?thesis using W_Stop by (simp add: checked_map split: prod.split)
  qed
qed

section \<open>One packet\<close>

abbreviation empty_elem :: dfu_update_packet where
  "empty_elem \<equiv> \<lparr>packet_type = INVALID_PACKET, p_data_packet = None, packet_length = 0\<rparr>"

text \<open>Between packets: the SLIP layer waits with buffer \<open>w\<close>, sequence number \<open>k\<close> is expected, nothing is queued or scheduled.\<close>

definition serial_ready :: "u32 \<Rightarrow> u32 \<Rightarrow> slip \<Rightarrow> 'p serial hci \<Rightarrow> bool" where
  "serial_ready k w s u \<longleftrightarrow> rx_waiting s (Pool_Buf w) \<and> mp_slip_used_rx_buffer u = Some w \<and> pool_rep (hci_pool u) (unat w) 0 1 \<and>
     m_packet_expected_seq_number u = k \<and> m_transport_event_handle u \<and> data_packet (hci_up u) = replicate MAX_BUFFERS empty_elem \<and>
     dq_count (hci_up u) = 0 \<and> board_sched (ser_sched (hci_up u)) []"

text \<open>A packet is queued: it lies in buffer \<open>w\<close>, the SLIP layer waits with the next one.\<close>

definition serial_queued :: "u32 \<Rightarrow> u32 \<Rightarrow> wired_packet \<Rightarrow> slip \<Rightarrow> 'p serial hci \<Rightarrow> bool" where
  "serial_queued k w pkt s u \<longleftrightarrow> (\<exists>w'. unat w' = (unat w + 1) mod 16 \<and> rx_waiting s (Pool_Buf w') \<and> mp_slip_used_rx_buffer u = Some w') \<and> unat w < 16 \<and>
     pool_rep (hci_pool u) (unat w) 1 1 \<and> m_packet_expected_seq_number u = k \<and> m_transport_event_handle u \<and>
     (\<exists>m b0. sl_mem s (Pool_Buf w) = mem_put m 0 (tx_packet b0 (wired_bytes pkt))) \<and>
     data_packet (hci_up u) = [wired_elem w pkt, empty_elem, empty_elem, empty_elem] \<and> dq_count (hci_up u) = 1 \<and>
     board_sched (ser_sched (hci_up u)) [(Process_Dfu_Packet, [])]"

definition wired_fits :: "wired_packet \<Rightarrow> bool" where
  "wired_fits pkt \<longleftrightarrow> length (wired_words pkt) \<le> 147"

lemma accept_wired:
  assumes "data_packet v = replicate MAX_BUFFERS empty_elem" "dq_count v = 0" "board_sched (ser_sched v) []" "wired_fits pkt"
    "unat len = length (wired_bytes pkt)"
  obtains q where "rpc_accept w len (wired_id pkt) v = (NRF_SUCCESS, v\<lparr>ser_sched := q, data_packet := [wired_elem w pkt, empty_elem, empty_elem, empty_elem], dq_count := 1\<rparr>)"
    "board_sched q [(Process_Dfu_Packet, [])]"
proof -
  let ?n = "length (wired_words pkt)"
  have l: "unat len = 4 + 4 * ?n" using assms(5) by (simp add: length_wired_bytes)
  obtain q where q: "app_sched_event_put [] Process_Dfu_Packet (ser_sched v) = (NRF_SUCCESS, q)" "board_sched q [(Process_Dfu_Packet, [])]"
    using sq.put_room [OF assms(3), of "(Process_Dfu_Packet, [])"] by auto
  have n: "(ucast (len div 4) :: u32) - 1 = of_nat ?n"
  proof -
    have "unat (len div 4) = 1 + ?n" using l by (simp add: unat_div)
    then have "unat (ucast (len div 4) :: u32) = 1 + ?n" using assms(4) by (simp add: unsigned_ucast_eq take_bit_nat_eq_self_iff wired_fits_def)
    then have "(ucast (len div 4) :: u32) = of_nat (1 + ?n)" using assms(4) by (simp add: word_unat_eq_iff unat_of_nat_u32 wired_fits_def del: of_nat_add of_nat_Suc)
    then show ?thesis by simp
  qed
  have ok: "\<not> (wired_id pkt < INIT_PACKET_ID \<or> wired_id pkt > STOP_DATA_PACKET \<or> wired_id pkt = STOP_INIT_PACKET)"
    "\<not> (wired_id pkt = START_PACKET_ID \<and> unat len \<noteq> 4 + 16 \<or> wired_id pkt = STOP_DATA_PACKET \<and> unat len \<noteq> 4 \<or> wired_id pkt = DATA_PACKET_ID \<and> unat len mod 4 \<noteq> 0)"
    using l by (cases pkt; simp add: packet_ids)+
  have "replicate MAX_BUFFERS empty_elem = [empty_elem, empty_elem, empty_elem, empty_elem]" by (simp add: MAX_BUFFERS_def numeral_eq_Suc)
  then have "data_queue_element_alloc (wired_id pkt) (v\<lparr>ser_sched := q\<rparr>) =
      (NRF_SUCCESS, Some 0, v\<lparr>ser_sched := q, data_packet := [empty_elem\<lparr>packet_type := wired_id pkt\<rparr>, empty_elem, empty_elem, empty_elem], dq_count := 1\<rparr>)"
    using assms(1,2) by (simp add: data_queue_element_alloc_def DATA_QUEUE_FULL_def MAX_BUFFERS_def upt_conv_Cons)
  then have "rpc_accept w len (wired_id pkt) v = (NRF_SUCCESS, v\<lparr>ser_sched := q, data_packet := [wired_elem w pkt, empty_elem, empty_elem, empty_elem], dq_count := 1\<rparr>)"
    unfolding rpc_accept_def using ok q(1) n by (simp add: wired_elem_def)
  then show thesis using q(2) that by blast
qed

lemma packet_bytes_le: "wired_fits pkt \<Longrightarrow> length (tx_packet b0 (wired_bytes pkt)) < HCI_RX_BUF_SIZE"
  by (simp add: length_wired_bytes wired_fits_def HCI_RX_BUF_SIZE_def)

lemma host_byte:
  assumes "unat k < 8" shows "(0xC0 OR ucast k :: u8) AND 0x40 \<noteq> 0" "(0xC0 OR ucast k :: u8) AND 0x80 \<noteq> 0" "(0xC0 OR ucast k :: u8) AND 7 = ucast (k :: u32)"
proof -
  have "k \<in> {0, 1, 2, 3, 4, 5, 6, 7}" 
  proof -
    have "unat k \<in> {0, 1, 2, 3, 4, 5, 6, 7}" using assms by auto
    then show ?thesis by (auto simp: word_unat_eq_iff)
  qed
  then show "(0xC0 OR ucast k :: u8) AND 0x40 \<noteq> 0" "(0xC0 OR ucast k :: u8) AND 0x80 \<noteq> 0" "(0xC0 OR ucast k :: u8) AND 7 = ucast (k :: u32)" by auto
qed

lemma rep_link: "pool_rep q s 0 1 \<Longrightarrow> pool_link q 1 \<and> unat (read_index q) = s"
  by (auto simp: pool_rep_def pool_link_def)

text \<open>A host packet passes the checks of the packet layer.\<close>

lemma wired_packet_rx:
  assumes f: "wired_fits pkt" and k: "unat (k :: u32) < 8"
  defines "bs \<equiv> tx_packet (0xC0 OR ucast k) (wired_bytes pkt)"
  shows "is_rx_pkt_valid bs" "packet_type_decode bs = Some 14" "packet_seq_nmbr_extract bs = ucast k" "length bs < HCI_RX_BUF_SIZE"
    "unat (of_nat (length bs) :: u32) = length bs" "bs \<noteq> []"
proof -
  show len: "length bs < HCI_RX_BUF_SIZE" using packet_bytes_le [OF f] by (simp add: bs_def)
  then show "unat (of_nat (length bs) :: u32) = length bs" by (intro unat_of_nat_u32) (simp add: HCI_RX_BUF_SIZE_def)
  have l: "4 \<le> length (wired_bytes pkt)" by (simp add: length_wired_bytes)
  then show "is_rx_pkt_valid bs" "packet_type_decode bs = Some 14" "packet_seq_nmbr_extract bs = ucast k"
    using tx_packet_valid [of "wired_bytes pkt" "0xC0 OR ucast k"] host_byte [OF k] len tx_packet_head [of "0xC0 OR ucast k" "wired_bytes pkt"]
    by (simp_all add: bs_def HCI_RX_BUF_SIZE_def packet_seq_nmbr_extract_def)
  show "bs \<noteq> []" using l by (auto simp: bs_def simp flip: length_0_conv)
qed

text \<open>The transport's client, told of a packet in buffer \<open>w\<close>, queues it.\<close>

lemma rpc_wired:
  assumes v: "data_packet (hci_up u) = replicate MAX_BUFFERS empty_elem" "dq_count (hci_up u) = 0" "board_sched (ser_sched (hci_up u)) []" and f: "wired_fits pkt"
    and u: "m_is_slip_decode_ready u" "pool_rep (hci_pool u) (unat w) 0 2" "rx_length (hci_pool u) w = of_nat (length (wired_bytes pkt) + 6)"
    and m: "mem (Pool_Buf w) = mem_put m0 0 (tx_packet b0 (wired_bytes pkt))"
  obtains q qs where "rpc_transport_event_handler mem u = Inr (u\<lparr>m_is_slip_decode_ready := False, hci_pool := q,
      hci_up := (hci_up u)\<lparr>ser_sched := qs, data_packet := [wired_elem w pkt, empty_elem, empty_elem, empty_elem], dq_count := 1\<rparr>\<rparr>)"
    "pool_rep q (unat w) 1 1" "board_sched qs [(Process_Dfu_Packet, [])]"
proof -
  let ?pl = "wired_bytes pkt" and ?n = "rx_length (hci_pool u) w"
  have len: "4 \<le> length ?pl" "length ?pl + 6 < HCI_RX_BUF_SIZE" using packet_bytes_le [OF f] by (simp_all add: length_wired_bytes)
  have two: "(2 :: nat) - 1 = 1" "(0 :: nat) + 1 = 1" by simp_all
  obtain i q where q: "hci_mem_pool_rx_extract (hci_pool u) = (NRF_SUCCESS, Some (i, rx_length (hci_pool u) i), q)" "unat i = (unat w + 0) mod 16" "pool_rep q (unat w) (0 + 1) (2 - 1)"
    by (rule pool_extract [OF u(2)]) auto
  have "unat w < 16" using u(2) by (simp add: pool_rep_def)
  then have i: "i = w" using q(2) by (simp add: word_unat_eq_iff)
  define len16 :: u16 where "len16 = ucast (?n - 6)"
  have "?n - 6 = of_nat (length ?pl)" using u(3) by simp
  moreover have "length ?pl < 2 ^ 16" using len by (simp add: HCI_RX_BUF_SIZE_def)
  ultimately have l16: "unat len16 = length ?pl" by (simp add: len16_def unsigned_ucast_eq take_bit_nat_eq_self_iff unat_of_nat_u32)
  have ty: "rd_u32 (map (mem (Pool_Buf w)) [4..<8]) = wired_id pkt"
    using mem_packet [of 0 4 ?pl m0 b0] len(1) m by (simp add: wired_bytes_def)
  obtain qs where acc: "rpc_accept w len16 (wired_id pkt) (hci_up u) = (NRF_SUCCESS, (hci_up u)\<lparr>ser_sched := qs, data_packet := [wired_elem w pkt, empty_elem, empty_elem, empty_elem], dq_count := 1\<rparr>)"
    "board_sched qs [(Process_Dfu_Packet, [])]" using accept_wired [OF v f l16, of w] by metis
  show thesis
    by (rule that [OF _ q(3) [unfolded two] acc(2)])
       (use u(1) q(1) i ty acc(1) in \<open>simp add: rpc_transport_event_handler_def hci_transport_rx_pkt_extract_def len16_def\<close>)
qed

lemma deliver:
  assumes r: "serial_ready k w s u" and k: "unat k < 8" and f: "wired_fits pkt"
  obtains s' u' where "hci_slip_process_pending_rx serial_cb (host_frame (ucast k) pkt) (s, u) = Inr ([], s', u')"
    "serial_queued ((k + 1) AND 7) w pkt s' u'" "ser_dfu (hci_up u') = ser_dfu (hci_up u)"
proof -
  note a = r [unfolded serial_ready_def]
  let ?b0 = "0xC0 OR ucast k :: u8"
  define bs where "bs = tx_packet ?b0 (wired_bytes pkt)"
  have rl: "pool_link (hci_pool u) 1" "unat (read_index (hci_pool u)) = unat w" using a rep_link by blast+
  then have w: "unat w < 16" "read_index (hci_pool u) = w" by (simp_all add: pool_link_def word_unat_eq_iff)
  have wl: "w < HCI_RX_BUF_QUEUE_SIZE" using w(1) by (simp add: HCI_RX_BUF_QUEUE_SIZE_def word_less_nat_alt)
  note pk = wired_packet_rx [OF f k, folded bs_def]
  define s1 where "s1 = rx_done s (Pool_Buf w) bs"
  have m1: "rx_packet s1 (Pool_Buf w) (of_nat (length bs)) = bs" "m_slip_event_handler s1" "sl_mem s1 (Pool_Buf w) = mem_put (sl_mem s (Pool_Buf w)) 0 bs"
    using a pk(5) by (simp_all add: rx_packet_def s1_def rx_done_def mem_put_read rx_waiting_def)
  define u1 where "u1 = packet_number_expected_inc u"
  obtain s2 where s2: "ack_transmit (s1, u1) = (s2, u1)" "sl_mem s2 = sl_mem s1" "m_slip_event_handler s2"
    using m1(2) by (simp add: ack_transmit_def slip_write_rx)
  define q1 where "q1 = hci_mem_pool_rx_data_size_set (of_nat (length bs)) (hci_pool u)"
  define u2 where "u2 = u1\<lparr>m_is_slip_decode_ready := True, hci_pool := q1\<rparr>"
  have q1: "pool_rep q1 (unat w) 0 1" "rx_length q1 w = of_nat (length bs)"
    using a link_size(2) [OF rl(1), of "of_nat (length bs)"] w(2) by (simp_all add: q1_def hci_mem_pool_rx_data_size_set_def pool_rep_def)
  obtain w' q2 where q2: "hci_mem_pool_rx_produce HCI_RX_BUF_SIZE q1 = (NRF_SUCCESS, Some w', q2)" "unat w' = (unat w + 0 + 1) mod 16" "pool_rep q2 (unat w) 0 (1 + 1)" "rx_length q2 = rx_length q1"
    by (rule pool_produce [OF q1(1), of HCI_RX_BUF_SIZE]) auto
  define u3 where "u3 = u2\<lparr>mp_slip_used_rx_buffer := Some w', hci_pool := q2\<rparr>"
  define s3 where "s3 = hci_slip_rx_buffer_register (Some (Pool_Buf w')) (of_nat HCI_RX_BUF_SIZE) s2"
  have pr: "produce_register (s2, u2) = Inr (s3, u3)" using q2(1) by (simp add: produce_register_def used_register_def s3_def u3_def u2_def)
  have w': "w' < HCI_RX_BUF_QUEUE_SIZE" using q2(2) by (simp add: HCI_RX_BUF_QUEUE_SIZE_def word_less_nat_alt)
  have s3: "rx_waiting s3 (Pool_Buf w')" "sl_mem s3 (Pool_Buf w) = mem_put (sl_mem s (Pool_Buf w)) 0 (tx_packet ?b0 (wired_bytes pkt))"
    using s2 m1(3) w' by (simp_all add: rx_waiting_def s3_def hci_slip_rx_buffer_register_def HCI_RX_BUF_SIZE_def bs_def)
  have up: "hci_up u3 = hci_up u" "m_is_slip_decode_ready u3" "m_transport_event_handle u3" "pool_rep (hci_pool u3) (unat w) 0 2" "rx_length (hci_pool u3) w = of_nat (length (wired_bytes pkt) + 6)"
    using a q1(2) q2(3,4) by (simp_all add: u3_def u2_def u1_def packet_number_expected_inc_def bs_def numeral_2_eq_2)
  obtain q qs where rpc: "rpc_transport_event_handler (sl_mem s3) u3 = Inr (u3\<lparr>m_is_slip_decode_ready := False, hci_pool := q,
      hci_up := (hci_up u3)\<lparr>ser_sched := qs, data_packet := [wired_elem w pkt, empty_elem, empty_elem, empty_elem], dq_count := 1\<rparr>\<rparr>)"
    "pool_rep q (unat w) 1 1" "board_sched qs [(Process_Dfu_Packet, [])]"
    by (rule rpc_wired [where mem = "sl_mem s3", OF _ _ _ f up(2,4,5) s3(2)]) (use a up(1) in auto)
  define u4 where "u4 = u3\<lparr>m_is_slip_decode_ready := False, hci_pool := q, hci_up := (hci_up u3)\<lparr>ser_sched := qs, data_packet := [wired_elem w pkt, empty_elem, empty_elem, empty_elem], dq_count := 1\<rparr>\<rparr>"
  have "rx_vendor_specific_pkt_type_handle rpc_transport_event_handler bs (s1, u) = Inr (s3, u4)"
    using pk(1,3) a s2(1) pr rpc(1) up(3)
    by (simp add: rx_vendor_specific_pkt_type_handle_def packet_number_expected_get_def u1_def [symmetric] u2_def [symmetric] u4_def [symmetric] q1_def [symmetric] Let_def)
       (simp add: u1_def packet_number_expected_inc_def u2_def q1_def)
  then have cb: "serial_cb (HCI_SLIP_RX_RDY (Some (Pool_Buf w)) (of_nat (length bs))) (s1, u) = Inr (s3, u4)"
    using m1 pk(2,4,5) wl by (simp add: slip_event_handle_def Let_def)
  have "hci_slip_process_pending_rx serial_cb (slip_frame bs @ []) (s, u) =
      (case serial_cb (HCI_SLIP_RX_RDY (Some (Pool_Buf w)) (of_nat (length bs))) (s1, u) of Inl e \<Rightarrow> Inl e | Inr x \<Rightarrow> hci_slip_process_pending_rx serial_cb [] x)"
    unfolding s1_def using a pk(4,6) wl by (intro rx_frame) simp_all
  then have "hci_slip_process_pending_rx serial_cb (host_frame (ucast k) pkt) (s, u) = Inr ([], s3, u4)" using cb by (simp add: host_frame_def bs_def)
  moreover have "serial_queued ((k + 1) AND 7) w pkt s3 u4"
    using a q2(2) rpc(2,3) s3 w by (auto simp: serial_queued_def u4_def u3_def u2_def u1_def packet_number_expected_inc_def)
  ultimately show thesis using that up(1) by (simp add: u4_def)
qed

lemma empty_queue: "replicate MAX_BUFFERS empty_elem = [empty_elem, empty_elem, empty_elem, empty_elem]"
  by (simp add: MAX_BUFFERS_def numeral_eq_Suc)

lemma pass_rest:
  assumes "data_packet (hci_up u) = [empty_elem, empty_elem, empty_elem, empty_elem]"
  shows "process_pass ps b tc mem [0, 1, 2, 3] u = Inr (False, u)" "process_pass ps b tc mem [Suc 0, 2, 3] u = Inr (False, u)"
  using assms by simp_all

lemma work:
  assumes r: "serial_queued k w pkt s u" and f: "wired_fits pkt" and d: "wired_step ps b tc pkt (ser_dfu (hci_up u)) = Inr (ret, d)"
  obtains u' where "serial_step ps b tc Ser_Sched ([], s, u) = Some (Inr ([], s, u'))" "ser_dfu (hci_up u') = d"
    "\<not> ret \<Longrightarrow> \<exists>w'. serial_ready k w' s u'"
proof -
  note a = r [unfolded serial_queued_def]
  obtain w' where w': "unat w' = (unat w + 1) mod 16" "rx_waiting s (Pool_Buf w')" "mp_slip_used_rx_buffer u = Some w'" using a by blast
  obtain m b0 where mem: "sl_mem s (Pool_Buf w) = mem_put m 0 (tx_packet b0 (wired_bytes pkt))" using a by blast
  have wl: "w < HCI_RX_BUF_QUEUE_SIZE" using a by (simp add: HCI_RX_BUF_QUEUE_SIZE_def word_less_nat_alt)
  define u1 where "u1 = u\<lparr>hci_up := (hci_up u)\<lparr>ser_dfu := d\<rparr>\<rparr>"
  have sw: "process_switch ps b tc (sl_mem s) (wired_elem w pkt) (ser_dfu (hci_up u)) = Inr (ret, d)"
    by (subst switch_wired [where mem = "sl_mem s", OF mem wl]) (use f d in \<open>simp_all add: wired_fits_def\<close>)
  have pend: "packet_type (wired_elem w pkt) \<noteq> INVALID_PACKET" by (cases pkt) (simp_all add: wired_elem_def packet_ids)
  have ups: "[0..<MAX_BUFFERS] = [0, 1, 2, 3]" by (simp add: MAX_BUFFERS_def upt_conv_Cons)
  have pass: "process_pass ps b tc (sl_mem s) [0, 1, 2, 3] u = (if ret then Inr (True, u1) else case data_queue_element_free 0 u1 of Inl e \<Rightarrow> Inl e
      | Inr (r, u) \<Rightarrow> if r \<noteq> NRF_SUCCESS then Inl (App_Error r) else process_pass ps b tc (sl_mem s) [Suc 0, 2, 3] u)"
    using a sw pend by (simp add: u1_def Let_def del: process_pass.simps) (simp add: u1_def Let_def)
  have un: "process_dfu_packet ps b tc (sl_mem s) u = (case process_pass ps b tc (sl_mem s) [0, 1, 2, 3] u of Inl e \<Rightarrow> Some (Inl e)
      | Inr x \<Rightarrow> if fst x then Some (Inr (snd x)) else process_dfu_packet ps b tc (sl_mem s) (snd x))"
    using a by (subst process_dfu_packet.simps) (simp add: ups)
  have hd: "app_sched_head (ser_sched (hci_up u)) = Some (Process_Dfu_Packet, [])" "board_sched (app_sched_drop (ser_sched (hci_up u))) []"
    using a sq.head_some [of "ser_sched (hci_up u)" "(Process_Dfu_Packet, [])" "[]"] by simp_all
  note done_ = that
  have fin: thesis if p: "process_dfu_packet ps b tc (sl_mem s) u = Some (Inr v)" "ser_dfu (hci_up v) = d"
    "\<not> ret \<Longrightarrow> serial_ready k w' s (v\<lparr>hci_up := (hci_up v)\<lparr>ser_sched := app_sched_drop (ser_sched (hci_up v))\<rparr>\<rparr>)" for v
    by (rule done_ [of "v\<lparr>hci_up := (hci_up v)\<lparr>ser_sched := app_sched_drop (ser_sched (hci_up v))\<rparr>\<rparr>"]) (use p hd(1) in auto)
  show thesis
  proof (cases ret)
    case True
    then show thesis using un pass by (intro fin [of u1]) (simp_all add: u1_def)
  next
    case False
    have rep: "pool_rep (hci_pool u) (unat w) 1 1" using a by blast
    obtain q where q: "hci_mem_pool_rx_consume (of_nat (unat w)) (hci_pool u) = Some (NRF_SUCCESS, q)" "pool_rep q ((unat w + 1) mod 16) (1 - 1) 1"
      by (rule pool_consume [OF rep]) auto
    define u2 where "u2 = u1\<lparr>hci_pool := q, hci_up := (hci_up u1)\<lparr>data_packet := [empty_elem, empty_elem, empty_elem, empty_elem], dq_count := 0\<rparr>\<rparr>"
    have free: "data_queue_element_free 0 u1 = Inr (NRF_SUCCESS, u2)"
      using a q(1) pend by (simp add: data_queue_element_free_def consume_checked_def hci_transport_rx_pkt_consume_def data_queue_element_init_def MAX_BUFFERS_def Let_def u1_def u2_def wired_elem_def)
    have "process_pass ps b tc (sl_mem s) [0, 1, 2, 3] u = Inr (False, u2)" using pass False free pass_rest(2) [of u2] by (simp add: u2_def)
    moreover have "process_dfu_packet ps b tc (sl_mem s) u2 = Some (Inr u2)" by (subst process_dfu_packet.simps) (simp add: u2_def)
    ultimately have "process_dfu_packet ps b tc (sl_mem s) u = Some (Inr u2)" using un by simp
    moreover have "serial_ready k w' s (u2\<lparr>hci_up := (hci_up u2)\<lparr>ser_sched := app_sched_drop (ser_sched (hci_up u2))\<rparr>\<rparr>)"
      using a w' q(2) hd(2) by (simp add: serial_ready_def u2_def u1_def empty_queue)
    ultimately show thesis by (intro fin [of u2]) (simp_all add: u2_def u1_def)
  qed
qed

section \<open>A transfer over the wire\<close>

text \<open>The host sends the next packet in sequence and the main loop runs once; it stops at an activated image.\<close>

fun serial_send :: "'p pstorage \<Rightarrow> build \<Rightarrow> (bool \<Rightarrow> nrf_error) \<Rightarrow> u32 \<Rightarrow> wired_packet list \<Rightarrow> 'p serial_state \<Rightarrow> (hci_trap + 'p serial_state) option" where
  "serial_send ps b tc k [] x = Some (Inr x)"
| "serial_send ps b tc k (pkt # pkts) x =
     (case serial_step ps b tc (Ser_Rx (host_frame (ucast k) pkt)) x of
        Some (Inr y) \<Rightarrow> (case serial_step ps b tc Ser_Sched y of Some (Inr z) \<Rightarrow> serial_send ps b tc ((k + 1) AND 7) pkts z | r \<Rightarrow> r)
      | r \<Rightarrow> r)"

lemma seq_next: "unat ((k + 1) AND 7 :: u32) < 8"
  using unat_and_mask [of "k + 1" 3] by (simp add: mask_eq_exp_minus_1)

lemma send_one:
  assumes "serial_ready k w s u" "unat k < 8" "wired_fits pkt" "wired_step ps b tc pkt (ser_dfu (hci_up u)) = Inr (ret, d)"
  obtains s' u' where "serial_send ps b tc k (pkt # pkts) ([], s, u) = serial_send ps b tc ((k + 1) AND 7) pkts ([], s', u')" "ser_dfu (hci_up u') = d"
    "\<not> ret \<Longrightarrow> \<exists>w'. serial_ready ((k + 1) AND 7) w' s' u'"
proof -
  obtain s1 u1 where s1: "hci_slip_process_pending_rx serial_cb (host_frame (ucast k) pkt) (s, u) = Inr ([], s1, u1)"
    "serial_queued ((k + 1) AND 7) w pkt s1 u1" "ser_dfu (hci_up u1) = ser_dfu (hci_up u)" by (rule deliver [OF assms(1-3)])
  have "wired_step ps b tc pkt (ser_dfu (hci_up u1)) = Inr (ret, d)" using assms(4) s1(3) by simp
  from work [OF s1(2) assms(3) this] obtain u2 where u2: "serial_step ps b tc Ser_Sched ([], s1, u1) = Some (Inr ([], s1, u2))" "ser_dfu (hci_up u2) = d"
    "\<not> ret \<Longrightarrow> \<exists>w'. serial_ready ((k + 1) AND 7) w' s1 u2" by metis
  have "serial_send ps b tc k (pkt # pkts) ([], s, u) = serial_send ps b tc ((k + 1) AND 7) pkts ([], s1, u2)" using s1(1) u2(1) by simp
  then show thesis using u2(2,3) that by blast
qed

lemma send_data:
  assumes "serial_ready k w s u" "unat k < 8" "\<forall>ws\<in>set dss. length ws \<le> 147" "dfu_exec ps b tc (map (Ev_Data True) dss) (ser_dfu (hci_up u)) = Inr d"
  obtains k' w' s' u' where "serial_send ps b tc k (map W_Data dss @ pkts) ([], s, u) = serial_send ps b tc k' pkts ([], s', u')" "ser_dfu (hci_up u') = d"
    "serial_ready k' w' s' u'" "unat k' < 8"
  using assms
proof (induction dss arbitrary: k w s u thesis)
  case Nil
  then show ?case by simp
next
  case (Cons ws dss)
  from Cons.prems(5) obtain e d1 where e: "dfu_data_pkt_handle ps b tc True ws (ser_dfu (hci_up u)) = Inr (e, d1)" "dfu_exec ps b tc (map (Ev_Data True) dss) d1 = Inr d"
    by (auto split: sum.splits)
  have st: "wired_step ps b tc (W_Data ws) (ser_dfu (hci_up u)) = Inr (False, d1)" using e(1) by simp
  have fits: "wired_fits (W_Data ws)" using Cons.prems(4) by (simp add: wired_fits_def)
  obtain s1 u1 where s1: "serial_send ps b tc k (W_Data ws # map W_Data dss @ pkts) ([], s, u) = serial_send ps b tc ((k + 1) AND 7) (map W_Data dss @ pkts) ([], s1, u1)"
    "ser_dfu (hci_up u1) = d1" "\<exists>w'. serial_ready ((k + 1) AND 7) w' s1 u1"
    using send_one [OF Cons.prems(2,3) fits st, of "map W_Data dss @ pkts"] by metis
  obtain w1 where w1: "serial_ready ((k + 1) AND 7) w1 s1 u1" using s1(3) by blast
  have ex: "dfu_exec ps b tc (map (Ev_Data True) dss) (ser_dfu (hci_up u1)) = Inr d" using e(2) s1(2) by simp
  show ?case
    by (rule Cons.IH [OF _ w1 seq_next _ ex]) (use Cons.prems(1,4) s1(1) in \<open>simp_all del: serial_send.simps\<close>)
qed

lemma start_ready:
  assumes "length (data_packet (hci_up u)) = MAX_BUFFERS" "board_sched (ser_sched (hci_up u)) []"
  obtains s' u' where "dfu_transport_serial_update_start NRF_SUCCESS ([], s, u) = Inr ([], s', u')" "serial_ready 1 0 s' u'" "ser_dfu (hci_up u') = ser_dfu (hci_up u)"
proof -
  let ?q = "hci_mem_pool_open (hci_pool u)"
  have w: "write_index ?q = 0" by (simp add: hci_mem_pool_open_def)
  obtain q' where q: "hci_mem_pool_rx_produce HCI_RX_BUF_SIZE ?q = (NRF_SUCCESS, Some 0, q')" "pool_rep q' 0 0 1"
    by (rule pool_produce [OF pool_open [of "hci_pool u"], of HCI_RX_BUF_SIZE]) (use w in auto)
  define u1 where "u1 = u\<lparr>hci_up := data_queue_init (hci_up u), m_is_slip_decode_ready := False, m_tx_state := TX_STATE_IDLE, m_packet_expected_seq_number := 1, m_packet_transmit_seq_number := 1,
     m_tx_done_success := False, mp_slip_used_rx_buffer := Some 0, hci_pool := q', m_transport_event_handle := True\<rparr>"
  define s1 where "s1 = hci_slip_evt_handler_register (hci_slip_rx_buffer_register (Some (Pool_Buf 0)) (of_nat HCI_RX_BUF_SIZE) (hci_slip_open s))"
  have "dfu_transport_serial_update_start NRF_SUCCESS ([], s, u) = Inr ([], s1, u1)"
    using q(1) by (simp add: dfu_transport_serial_update_start_def hci_transport_open_def used_register_def hci_transport_evt_handler_reg_def s1_def u1_def)
  moreover have "rx_waiting s1 (Pool_Buf 0)"
    by (simp add: rx_waiting_def s1_def hci_slip_evt_handler_register_def hci_slip_rx_buffer_register_def HCI_RX_BUF_SIZE_def HCI_RX_BUF_QUEUE_SIZE_def)
  then have "serial_ready 1 0 s1 u1" using q(2) assms(2) queue_init_packets [OF assms(1)] by (simp add: serial_ready_def u1_def)
  ultimately show thesis using that queue_init_packets [OF assms(1)] by (simp add: u1_def)
qed



end
