(* ===== verification/Serial_Faults.thy ===== *)
theory Serial_Faults
  imports Serial_Install
begin

text \<open>
  What the serial transport does with frames out of order and with frames that are too long.
\<close>

section \<open>Retransmitted packets\<close>

lemma ack_sent:
  assumes "m_current_state s = SLIP_READY" "10 \<le> sl_room s"
  shows "sl_out (fst (ack_transmit (s, u))) = sl_out s @ slip_frame (ack_packet (packet_number_expected_get u))"
    "m_current_state (fst (ack_transmit (s, u))) = SLIP_READY"
proof -
  let ?p = "ack_packet (packet_number_expected_get u)" and ?s = "s\<lparr>sl_txmem := (sl_txmem s)(Ack_Packet := ack_packet (packet_number_expected_get u))\<rparr>"
  have l: "length ?p = 4" by (simp add: ack_packet_def Let_def)
  have w: "m_current_state ?s = SLIP_READY" "length ?p < 2 ^ 32" "sl_txmem ?s Ack_Packet = ?p" "?p \<noteq> []" "length (slip_frame ?p) \<le> sl_room ?s"
    using assms length_slip_frame [of ?p] l by auto
  have n: "of_nat (length ?p) = (4 :: u32)" using l by simp
  show "sl_out (fst (ack_transmit (s, u))) = sl_out s @ slip_frame ?p" "m_current_state (fst (ack_transmit (s, u))) = SLIP_READY"
    using write_sent [OF w] unfolding n by (simp_all add: ack_transmit_def)
qed

text \<open>
  C37. A packet the device already has is acknowledged again and does nothing else.  Between packets, a well-formed frame whose
  sequence number is not the expected one leaves the packet queue, the buffer pool, the expected number and the update session as they were
  and the receiver ready in the same buffer; when the sender is idle and the output has room, exactly one acknowledgement that
  names the expected number goes out, so a host that missed it can go on.
\<close>

theorem serial_duplicate_ignored:
  assumes r: "serial_ready k w s u" and k: "unat k < 8" "unat j < 8" "j \<noteq> k" and f: "wired_fits pkt"
  shows "\<exists>s'. hci_slip_process_pending_rx serial_cb (host_frame (ucast j) pkt) (s, u) = Inr ([], s', u) \<and> serial_ready k w s' u \<and>
    (m_current_state s = SLIP_READY \<and> 10 \<le> sl_room s \<longrightarrow> sl_out s' = sl_out s @ slip_frame (ack_packet (ucast k)) \<and> m_current_state s' = SLIP_READY)"
proof -
  note a = r [unfolded serial_ready_def]
  define bs where "bs = tx_packet (0xC0 OR ucast j) (wired_bytes pkt)"
  have "unat w < 16" using a by (simp add: pool_rep_def)
  then have wl: "w < HCI_RX_BUF_QUEUE_SIZE" by (simp add: HCI_RX_BUF_QUEUE_SIZE_def word_less_nat_alt)
  note pk = wired_packet_rx [OF f k(2), folded bs_def]
  have ne: "(ucast k :: u8) \<noteq> ucast j"
  proof
    assume "(ucast k :: u8) = ucast j"
    then have "unat (ucast k :: u8) = unat (ucast j :: u8)" by simp
    then have "unat k = unat j" using k(1,2) by (simp add: unsigned_ucast_eq take_bit_nat_eq_self)
    then show False using k(3) by (simp add: word_unat_eq_iff)
  qed
  define s1 where "s1 = rx_done s (Pool_Buf w) bs"
  define s2 where "s2 = hci_slip_rx_buffer_register (Some (Pool_Buf w)) (of_nat HCI_RX_BUF_SIZE) s1"
  define s3 where "s3 = fst (ack_transmit (s2, u))"
  have rd: "rx_packet s1 (Pool_Buf w) (of_nat (length bs)) = bs" using pk(5) by (simp add: rx_packet_def s1_def rx_done_def mem_put_read)
  have "rx_vendor_specific_pkt_type_handle rpc_transport_event_handler bs (s1, u) = Inr (s3, u)"
    using pk(1,3) ne a by (simp add: rx_vendor_specific_pkt_type_handle_def packet_number_expected_get_def used_register_def s3_def s2_def ack_transmit_def)
  then have cb: "serial_cb (HCI_SLIP_RX_RDY (Some (Pool_Buf w)) (of_nat (length bs))) (s1, u) = Inr (s3, u)"
    using rd pk(2,4,5) wl by (simp add: slip_event_handle_def Let_def)
  have "hci_slip_process_pending_rx serial_cb (slip_frame bs @ []) (s, u) =
      (case serial_cb (HCI_SLIP_RX_RDY (Some (Pool_Buf w)) (of_nat (length bs))) (s1, u) of Inl e \<Rightarrow> Inl e | Inr x \<Rightarrow> hci_slip_process_pending_rx serial_cb [] x)"
    unfolding s1_def using a pk(4,6) wl by (intro rx_frame) auto
  then have run: "hci_slip_process_pending_rx serial_cb (host_frame (ucast j) pkt) (s, u) = Inr ([], s3, u)" using cb by (simp add: host_frame_def bs_def)
  have "rx_waiting s3 (Pool_Buf w)"
    using a wl by (simp add: s3_def ack_transmit_def rx_waiting_def slip_write_rx s2_def s1_def rx_done_def hci_slip_rx_buffer_register_def HCI_RX_BUF_SIZE_def)
  then have ready: "serial_ready k w s3 u" using a by (simp add: serial_ready_def)
  have same: "m_current_state s2 = m_current_state s" "sl_room s2 = sl_room s" "sl_out s2 = sl_out s"
    by (simp_all add: s2_def s1_def rx_done_def hci_slip_rx_buffer_register_def)
  have "packet_number_expected_get u = ucast k" using a by (simp add: packet_number_expected_get_def)
  then have "m_current_state s = SLIP_READY \<and> 10 \<le> sl_room s \<longrightarrow> sl_out s3 = sl_out s @ slip_frame (ack_packet (ucast k)) \<and> m_current_state s3 = SLIP_READY"
    using ack_sent [of s2 u] same by (simp add: s3_def)
  then show ?thesis using run ready by blast
qed

theorem serial_duplicate_ignored_witness:
  "\<exists>s u s'. hci_slip_process_pending_rx serial_cb (host_frame (ucast (0 :: u32)) W_Stop) (s, u :: unit serial hci) = Inr ([], s', u) \<and> serial_ready 1 0 s' u"
proof -
  obtain s u where su: "serial_ready 1 0 s (u :: unit serial hci)" using start_ready [OF serial_sample_start(2,3), of idle_slip] by metis
  have "wired_fits W_Stop" by (simp add: wired_fits_def)
  with serial_duplicate_ignored [OF su, of 0 W_Stop] show ?thesis by auto
qed

section \<open>Frames that are too long\<close>

text \<open>The receive callback runs once for the bytes of a frame and once more for what the first left in the FIFO.\<close>

definition rx_twice :: "bytes \<Rightarrow> 'p serial_state \<Rightarrow> hci_trap + 'p serial_state" where
  "rx_twice cs = (\<lambda>(fifo, x). case hci_slip_process_pending_rx serial_cb (fifo @ cs) x of Inl e \<Rightarrow> Inl e
     | Inr (fifo, x) \<Rightarrow> hci_slip_process_pending_rx serial_cb fifo x)"

fun rx_frames :: "bytes list \<Rightarrow> 'p serial_state \<Rightarrow> hci_trap + 'p serial_state" where
  "rx_frames [] x = Inr x"
| "rx_frames (f # fs) x = (case rx_twice f x of Inl e \<Rightarrow> Inl e | Inr y \<Rightarrow> rx_frames fs y)"

text \<open>The receiver is between frames, with buffer \<open>p\<close>.\<close>

definition rx_between :: "slip \<Rightarrow> hbuf \<Rightarrow> bool" where
  "rx_between s p \<longleftrightarrow> mp_rx_buffer s = Some p \<and> m_rx_received_count s = 0 \<and> handle_rx_byte s \<noteq> handle_rx_byte_esc \<and>
     unat (m_rx_buffer_length s) = hbuf_size p \<and> 0 < hbuf_size p \<and> m_slip_event_handler s"

lemma esc_no_end: "APP_SLIP_END \<notin> set (concat (map esc_byte bs))"
  by (induction bs) (auto simp: esc_byte_def slip_codes)

lemma skip_to_end:
  assumes "rx_between s p" "handle_rx_byte s = handle_rx_byte_wait_start" "APP_SLIP_END \<notin> set xs"
  shows "hci_slip_process_pending_rx h (xs @ [APP_SLIP_END]) (s, u) = Inr ([], s\<lparr>handle_rx_byte := handle_rx_byte_default\<rparr>, u)"
proof -
  have pos: "m_rx_received_count s < m_rx_buffer_length s" using assms(1) by (simp add: rx_between_def word_less_nat_alt)
  have "rx_buffer_overflowed h (s, u) = Inr (False, s, u)" using assms(1) pos by (intro not_overflowed) (auto simp: rx_between_def)
  then show ?thesis using assms(2,3) by (induction xs) (auto simp: rx_byte_def)
qed

lemma long_frame:
  assumes "rx_between s p" "hbuf_size p \<le> length bs"
  obtains s' where "rx_twice (slip_frame bs) ([], s, u) = Inr ([], s', u)" "rx_between s' Ack_Buf"
proof -
  note a = assms(1) [unfolded rx_between_def]
  let ?n = "hbuf_size p"
  define s1 where "s1 = s\<lparr>handle_rx_byte := handle_rx_byte_default\<rparr>"
  have pos: "m_rx_received_count s < m_rx_buffer_length s" using a by (simp add: word_less_nat_alt)
  have o: "rx_buffer_overflowed serial_cb (s, u) = Inr (False, s, u)" using a pos by (intro not_overflowed) auto
  have start: "hci_slip_process_pending_rx serial_cb (APP_SLIP_END # cs) (s, u) = hci_slip_process_pending_rx serial_cb cs (s1, u)" for cs
  proof (cases "handle_rx_byte s")
    case handle_rx_byte_default
    then have "s1 = s" by (simp add: s1_def)
    then show ?thesis using o a handle_rx_byte_default by (simp add: rx_byte_def handle_slip_end_def)
  qed (use o a in \<open>simp_all add: rx_byte_def s1_def\<close>)
  let ?rest = "concat (map esc_byte (drop ?n bs))" and ?f = "rx_filled s1 p 0 (take ?n bs)"
  have sp: "concat (map esc_byte bs) = concat (map esc_byte (take ?n bs)) @ ?rest" by (metis append_take_drop_id concat_append map_append)
  have body: "hci_slip_process_pending_rx serial_cb (concat (map esc_byte (take ?n bs)) @ ?rest @ [APP_SLIP_END]) (s1, u) =
      hci_slip_process_pending_rx serial_cb (?rest @ [APP_SLIP_END]) (?f, u)"
    using a assms(2) by (intro rx_body) (simp_all add: s1_def)
  have "m_rx_received_count ?f = of_nat ?n" using assms(2) by (simp add: rx_filled_def)
  moreover have "(of_nat (unat (m_rx_buffer_length s)) :: u32) = m_rx_buffer_length s" by simp
  then have "(of_nat ?n :: u32) = m_rx_buffer_length s" using a by metis
  ultimately have full: "m_rx_buffer_length ?f \<le> m_rx_received_count ?f" by (simp add: rx_filled_def s1_def)
  define s2 where "s2 = hci_slip_rx_buffer_register (Some Ack_Buf) (of_nat ACK_BUF_SIZE) ?f"
  have ov: "rx_buffer_overflowed serial_cb (?f, u) = Inr (True, s2, u)"
    using full a by (simp add: rx_buffer_overflowed_def slip_event_handle_def s2_def rx_filled_def s1_def)
  have stop: "hci_slip_process_pending_rx serial_cb (?rest @ [APP_SLIP_END]) (?f, u) = Inr (?rest @ [APP_SLIP_END], s2, u)"
    using ov by (cases "?rest @ [APP_SLIP_END]") simp_all
  have s2: "rx_between s2 Ack_Buf" "handle_rx_byte s2 = handle_rx_byte_wait_start"
    using a by (simp_all add: rx_between_def s2_def hci_slip_rx_buffer_register_def ACK_BUF_SIZE_def rx_filled_def s1_def)
  have "rx_twice (slip_frame bs) ([], s, u) = Inr ([], s2\<lparr>handle_rx_byte := handle_rx_byte_default\<rparr>, u)"
    using start [of "concat (map esc_byte bs) @ [APP_SLIP_END]"] body stop skip_to_end [OF s2 esc_no_end [of "drop ?n bs"], of serial_cb u]
    by (simp add: rx_twice_def slip_frame_def slip_body_def sp)
  then show thesis using that s2(1) by (simp add: rx_between_def)
qed

lemma wedged_frames:
  assumes "rx_between s Ack_Buf" "\<forall>bs\<in>set bss. ACK_BUF_SIZE \<le> length bs"
  shows "\<exists>s'. rx_frames (map slip_frame bss) ([], s, u) = Inr ([], s', u) \<and> rx_between s' Ack_Buf"
  using assms
proof (induction bss arbitrary: s)
  case (Cons bs bss)
  obtain s1 where s1: "rx_twice (slip_frame bs) ([], s, u) = Inr ([], s1, u)" "rx_between s1 Ack_Buf"
    using long_frame [OF Cons.prems(1), of bs u] Cons.prems(2) by auto
  then show ?case using Cons.IH [OF s1(2)] Cons.prems(2) by simp
qed simp



end
