(* ===== verification/Spec2Isabelle.thy ===== *)
theory Spec2Isabelle
  imports Crc Sha256 Handoff_Records Boot_Settings Build_Config Boot_Image Image_Policy Boot_Control Mota_Sources Mota_Install Mota_Boot Uf2_Complete Uf2_Backup Hci_Pool Serial_Faults
begin

text \<open>
  Verification library of the OTAFIX nRF52 bootloader.

  The program is a second-stage bootloader for nRF52 devices.  It decides at reset whether the application in bank 0 may start, and it
  accepts new firmware in four ways: a \<open>.mota\<close> container staged by the application and applied at boot (\<open>src/src/ota_delta.c\<close>), a UF2 file
  copied to a USB volume (\<open>src/src/usb\<close>), Legacy DFU over a serial line, and Legacy DFU over BLE
  (\<open>src/lib/sdk11/components/libraries/bootloader_dfu\<close>).  All of them end in one settings record in flash, which is what the decision at the next
  reset reads.  The theories below follow that structure, one theory or group of theories for each source file or group of files.

  \<^bold>\<open>Conventions.\<close>  C integers are words of their width, so that sums wrap and comparisons are unsigned as in the sources.  Flash is a function
  from addresses to bytes with the semantics of the NVMC: an erase sets a page, programming clears bits.  A build is a value of
  the record \<open>build\<close> (theory \<open>Build_Config\<close>), one field for each macro the modelled code tests, so results hold for all supported builds at
  once.  Error codes are the datatype \<open>nrf_error\<close>; a failed error check, an access outside an array and a loop that would not end are
  values (\<open>Inl\<close>, \<open>None\<close>), never assumed away.

  \<^bold>\<open>Foundations.\<close>
  \<^item> \<open>Prelude\<close>: integer types, little-endian codecs, reads from flash, the collections \<open>codec_simps\<close> and \<open>layout_simps\<close>.
  \<^item> \<open>Crc\<close> (\<open>crc32.h\<close>, \<open>crc16.c\<close>), \<open>Sha256\<close> (\<open>sha256.c\<close>): the checksums as the code computes them.  The CRC-32 equals its byte-table form, both
    detect any damaged byte (interface \<open>byte_checksum\<close>), and streaming SHA-256 in any chunks is FIPS 180-4 (interface \<open>block_absorber\<close>).
  \<^item> \<open>Handoff_Records\<close>, \<open>Boot_Settings\<close>: the sealed records that survive a reset and the settings record; encoders and validators are inverse
    and a damaged byte is refused (interface \<open>sealed_record\<close>).
  \<^item> \<open>Nor_Flash\<close>: the flash device, as command sequences that a power failure may cut (interface \<open>nor_device\<close>).

  \<^bold>\<open>Deciding what starts.\<close>
  \<^item> \<open>Boot_Image\<close> (\<open>bootloader_image.c\<close>), \<open>Soft_Device\<close>, \<open>Image_Policy\<close> (\<open>dfu_image_policy.c\<close>): identity of a bootloader image and the role
    policy.  The manifest scan is equivalent to its specification, and an accepted image fits board, family and the other parts.
  \<^item> \<open>Boot_Control\<close> (\<open>bootloader.c\<close>): validity of bank 0, the settings commit and the status machine.  A cut commit never vouches for
    anything, the queued commit refines the direct one under every interleaving, and only a completed update makes an application valid.

  \<^bold>\<open>Applying a staged container.\<close>
  \<^item> \<open>Mota_Device\<close>: verified page changes and the write-back cache over a device that may fail (interface \<open>mota_device\<close>).
  \<^item> \<open>Mota_Format\<close>, \<open>Mota_Sources\<close>: selection and reading of a container, its parser and scan.
  \<^item> \<open>Boot_Caps\<close>: what a staged bootloader must show.  \<open>Mota_Apply\<close>: the applier.
  \<^item> \<open>Mota_Safety\<close>, \<open>Mota_Boot\<close>, \<open>Mota_Install\<close>: an update writes only its region and the settings, success means that the installed image has
    the approved hash, the MBR is only handed a fully checked bootloader, and on a working device (interface \<open>sound_device\<close>) an
    authentic image is installed and starts.

  \<^bold>\<open>The UF2 volume.\<close>
  \<^item> \<open>Uf2_Transfer\<close>, \<open>Uf2_Write\<close> (\<open>uf2_transfer_state.h\<close>, \<open>ghostfat.c\<close>, \<open>flash_nrf5x.c\<close>): transfer state and write path; \<open>Uf2_Safety\<close>, \<open>Uf2_Run\<close>,
    \<open>Uf2_Install\<close>: masks stay in bounds, a session fails closed, a file sent in order is stored and accepted.
  \<^item> \<open>Uf2_Session\<close>, \<open>Uf2_Complete\<close> (\<open>msc_uf2.c\<close>): the mass-storage session; only validated images start, a copied file boots.
  \<^item> \<open>Uf2_Read\<close>, \<open>Uf2_Backup\<close>: the synthesised FAT volume read by a FAT reader, and the round trip of \<open>CURRENT.UF2\<close> to another device.

  \<^bold>\<open>Legacy DFU over the wire.\<close>
  \<^item> \<open>Flash_Cache\<close>, \<open>Dfu_Bank\<close>, \<open>Dfu_Run\<close> (\<open>dfu_init.c\<close>, \<open>dfu_single_bank.c\<close>): the receiving state machine over the page cache.  Every run leaves
    flash outside the image and the settings alone and vouches only for what passed CRC and policy; a complete transfer boots.
  \<^item> \<open>Hci_Pool\<close>, \<open>Hci_Slip\<close>, \<open>Hci_Transport\<close> (\<open>hci_mem_pool.c\<close>, \<open>hci_slip.c\<close>, \<open>hci_transport.c\<close>), \<open>App_Sched\<close> (\<open>app_scheduler.c\<close>): the layers
    below, with the interfaces \<open>rx_pool\<close> (a client that returns buffers in order), \<open>hci_client\<close> (what the packet layer relies on its client
    for) and \<open>event_queue\<close> (the scheduler as a bounded queue).
  \<^item> \<open>Dfu_Serial\<close> (\<open>dfu_transport_serial.c\<close>): the transport on top.  \<open>serial_stream_safe\<close> covers every byte stream, and makes the results on DFU
    runs results on byte streams.  \<open>Serial_Install\<close>: the frames of a host install an application.  \<open>Serial_Faults\<close>: repeated and oversized frames.

  \<^bold>\<open>Bounds, fuel and loops.\<close>  Loops of the sources are structural recursion over the offsets or pages they visit, or \<open>function\<close> with a measure (the SLIP
  sender: room in the output FIFO; releasing pool buffers: buffers out).  The search in the pool has one turn of the ring, 16 steps, as
  fuel, and \<open>search_turn\<close> shows that a turn is enough.  Loops without a bound of their own are partial functions into
  \<open>option\<close> and shown to return: the READ10 loop, the cluster chain, and the loop of \<open>process_dfu_packet\<close>, which needs one pass.  A busy
  UF2 sector is repeated at most twice (\<open>write_retry\<close>), which \<open>send_retry\<close> shows to be enough.  The patch decoder is a finite tree of callback
  requests, so it ends by construction of the parameter.

  \<^bold>\<open>Parameters.\<close>  The flash device of the applier, the in-place patch decoder (detools, third-party), the external QSPI flash, pstorage of the
  SoftDevice, TinyUSB's calling sequence, texts and compile time of a build, and the answers of timers are arguments; what is relied on is a
  hypothesis or an interface, instantiated by the host model of the repository's tests or by a concrete sample in each witness.

  \<^bold>\<open>Not modelled.\<close>  The signature check of \<open>SIGNED_FW\<close> builds (micro-ecc is not part of the tree) and the secure test transport; the
  BLE transport and its service, which are glue around a binary SoftDevice; the copy of a pending SoftDevice or bootloader by the MBR; USB
  descriptors and the USB stack; the UART driver; the transmit state machine of the packet layer, which the bootloader never
  leaves the idle state of; board bring-up, LEDs, screen and watchdog feeding, which are register I/O; starting the application (vector
  table relocation and jump); power loss inside a wired DFU or UF2 transfer other than in the settings commit, where the session results show
  that no intermediate state is startable.
\<close>

end
